(* ===== verification/Prelude.thy ===== *)
theory Prelude
  imports Main "HOL-Library.AList" "HOL-Library.Multiset"
begin

text \<open>
  The shared vocabulary of the development: Go's 64-bit integers as \<^typ>\<open>int\<close> with the
  wrap-around written out, times and durations in nanoseconds, and the generic facts on
  association lists, options and sums that the component theories use. Go's maps are
  association lists with distinct keys (\<open>wf_alist\<close>); the order of the list carries no meaning,
  and every loop of the program that ranges over a map is given its enumeration order explicitly.
\<close>

named_theorems go_simps \<open>unfolding rules of the models of the Go standard library\<close>
named_theorems alist_simps \<open>lookup in updated and filtered association lists\<close>

type_synonym time = int
type_synonym duration = int
type_synonym bytes = "char list"

section \<open>64-bit integers\<close>

abbreviation MaxInt64 :: int where "MaxInt64 \<equiv> 9223372036854775807"
abbreviation MinInt64 :: int where "MinInt64 \<equiv> - 9223372036854775808"
abbreviation MaxUint64 :: nat where "MaxUint64 \<equiv> 18446744073709551615"

definition is_int64 :: "int \<Rightarrow> bool" where
  "is_int64 n \<longleftrightarrow> MinInt64 \<le> n \<and> n \<le> MaxInt64"

text \<open>Two's complement wrap-around of a mathematical integer to \<open>int64\<close>.\<close>

definition wrap64 :: "int \<Rightarrow> int" where
  "wrap64 n = (n + 9223372036854775808) mod 18446744073709551616 - 9223372036854775808"

lemma wrap64_is_int64 [simp]: "is_int64 (wrap64 n)"
proof -
  have "0 \<le> (n + 9223372036854775808) mod 18446744073709551616"
    and "(n + 9223372036854775808) mod 18446744073709551616 < 18446744073709551616"
    by simp_all
  then show ?thesis unfolding is_int64_def wrap64_def by linarith
qed

lemma wrap64_id [simp]: "is_int64 n \<Longrightarrow> wrap64 n = n"
  by (simp add: is_int64_def wrap64_def)

lemma wrap64_idem [simp]: "wrap64 (wrap64 n) = wrap64 n"
  by simp

lemma wrap64_add_left [simp]: "wrap64 (wrap64 m + n) = wrap64 (m + n)"
proof -
  have "(wrap64 m + n + 9223372036854775808) mod 18446744073709551616
      = ((m + 9223372036854775808) mod 18446744073709551616 + n) mod 18446744073709551616"
    by (simp add: wrap64_def algebra_simps)
  also have "\<dots> = (m + 9223372036854775808 + n) mod 18446744073709551616"
    by (simp add: mod_add_left_eq)
  finally show ?thesis by (simp add: wrap64_def algebra_simps)
qed

lemma wrap64_add_right [simp]: "wrap64 (m + wrap64 n) = wrap64 (m + n)"
  using wrap64_add_left [of n m] by (simp add: add.commute)

text \<open>Saturation to \<open>int64\<close>, the rule of \<^verbatim>\<open>time.Time.Sub\<close> for durations that do not fit.\<close>

definition saturate64 :: "int \<Rightarrow> int" where
  "saturate64 n = max MinInt64 (min MaxInt64 n)"

lemma saturate64_id [simp]: "is_int64 n \<Longrightarrow> saturate64 n = n"
  by (simp add: is_int64_def saturate64_def)

section \<open>Association lists as Go maps\<close>

type_synonym ('k, 'v) gomap = "('k \<times> 'v) list"

abbreviation wf_alist :: "('k, 'v) gomap \<Rightarrow> bool" where
  "wf_alist m \<equiv> distinct (map fst m)"

lemma map_of_update [simp, alist_simps]:
  "map_of (AList.update k v m) = (map_of m)(k \<mapsto> v)"
  by (simp add: update_conv')

lemma wf_alist_update [simp, intro]: "wf_alist m \<Longrightarrow> wf_alist (AList.update k v m)"
  by (rule distinct_update)

lemma wf_alist_filter [simp, intro]: "wf_alist m \<Longrightarrow> wf_alist (filter P m)"
  by (rule distinct_map_filter)

lemma map_of_alist_delete [simp, alist_simps]: "map_of (AList.delete k m) = (map_of m)(k := None)"
  by (simp add: delete_conv')

lemma wf_alist_delete [simp, intro]: "wf_alist m \<Longrightarrow> wf_alist (AList.delete k m)"
  by (rule distinct_delete)

lemma map_of_filter_snd [alist_simps]:
  assumes "wf_alist m"
  shows "map_of (filter (\<lambda>(k, v). P v) m) k =
    (case map_of m k of Some v \<Rightarrow> if P v then Some v else None | None \<Rightarrow> None)"
  using assms
proof (induction m)
  case (Cons p m)
  obtain a b where p: "p = (a, b)" by (cases p)
  have "a \<notin> fst ` set m" using Cons.prems p by simp
  then have "map_of m a = None" by (simp add: map_of_eq_None_iff)
  with Cons p show ?case by (auto split: option.splits)
qed simp

lemma set_alist_update: "set (AList.update k v m) \<subseteq> insert (k, v) (set m)"
  by (induction m) auto

lemma length_alist_update:
  "length (AList.update k v m) = (if k \<in> fst ` set m then length m else Suc (length m))"
  by (induction m) auto

lemma length_alist_delete:
  "wf_alist m \<Longrightarrow> k \<in> fst ` set m \<Longrightarrow> Suc (length (AList.delete k m)) = length m"
proof (induction m)
  case (Cons p m)
  show ?case
  proof (cases "fst p = k")
    case True
    then have "k \<notin> fst ` set m" using Cons.prems by auto
    then have "AList.delete k m = m" by (simp add: delete_id)
    with True show ?thesis by simp
  next
    case False
    with Cons show ?thesis by auto
  qed
qed simp

lemma map_of_mem_iff: "wf_alist m \<Longrightarrow> map_of m k = Some v \<longleftrightarrow> (k, v) \<in> set m"
  by (rule map_of_eq_Some_iff)

lemma length_alist_dom: "wf_alist m \<Longrightarrow> length m = card (dom (map_of m))"
  by (metis distinct_card dom_map_of_conv_image_fst length_map list.set_map)

text \<open>A list of options of which all have to be there.\<close>

lemma those_all: "those xs = Some ys \<Longrightarrow> y \<in> set ys \<Longrightarrow> Some y \<in> set xs"
  by (induction xs arbitrary: ys) (auto split: option.splits)

lemma those_map_all: "those (map f xs) = Some ys \<Longrightarrow> list_all2 (\<lambda>x y. f x = Some y) xs ys"
  by (induction xs arbitrary: ys) (auto split: option.splits)

lemma those_None: "those xs = None \<longleftrightarrow> None \<in> set xs"
  by (induction xs) (auto split: option.splits)

end
