(* ===== verification/Go_Strings.thy ===== *)
theory Go_Strings
  imports Prelude
begin

text \<open>
  The parts of Go's \<^verbatim>\<open>strings\<close> and \<^verbatim>\<open>strconv\<close> packages that the program calls. A Go
  string is its sequence of bytes, so it is a \<^typ>\<open>string\<close> of 8-bit characters and
  \<open>length\<close> is Go's \<open>len\<close>.
\<close>

section \<open>Package strings\<close>

definition HasPrefix :: "string \<Rightarrow> string \<Rightarrow> bool" where
  [go_simps]: "HasPrefix s p \<longleftrightarrow> take (length p) s = p"

definition HasSuffix :: "string \<Rightarrow> string \<Rightarrow> bool" where
  [go_simps]: "HasSuffix s p \<longleftrightarrow> length p \<le> length s \<and> drop (length s - length p) s = p"

lemma HasPrefix_iff: "HasPrefix s p \<longleftrightarrow> (\<exists>r. s = p @ r)"
  unfolding HasPrefix_def by (metis append_eq_conv_conj)

lemma HasPrefix_cut:
  assumes "HasPrefix (w @ t) p" and "t = [] \<or> hd t \<notin> set p"
  shows "HasPrefix w p"
proof -
  obtain r where "w @ t = p @ r" using assms(1) by (auto simp: HasPrefix_iff)
  then obtain x where "w = p @ x \<or> p = w @ x \<and> t = x @ r" by (auto simp: append_eq_append_conv2)
  then show ?thesis using assms(2) by (cases x) (auto simp: HasPrefix_iff)
qed

lemma HasSuffix_iff: "HasSuffix s p \<longleftrightarrow> (\<exists>r. s = r @ p)"
proof
  assume "HasSuffix s p"
  then have "s = take (length s - length p) s @ p"
    unfolding HasSuffix_def by (metis append_take_drop_id)
  then show "\<exists>r. s = r @ p" by blast
next
  assume "\<exists>r. s = r @ p"
  then show "HasSuffix s p" by (auto simp: HasSuffix_def)
qed

text \<open>
  \<^verbatim>\<open>strings.Index\<close> and \<^verbatim>\<open>strings.LastIndex\<close> with a one-byte separator; \<open>None\<close> is Go's \<open>-1\<close>.
\<close>

fun IndexByte :: "string \<Rightarrow> char \<Rightarrow> nat option" where
  "IndexByte [] c = None"
| "IndexByte (x # xs) c = (if x = c then Some 0 else map_option Suc (IndexByte xs c))"

fun LastIndexByte :: "string \<Rightarrow> char \<Rightarrow> nat option" where
  "LastIndexByte [] c = None"
| "LastIndexByte (x # xs) c =
     (case LastIndexByte xs c of
        Some i \<Rightarrow> Some (Suc i)
      | None \<Rightarrow> if x = c then Some 0 else None)"

lemma IndexByte_None [simp]: "IndexByte s c = None \<longleftrightarrow> c \<notin> set s"
  by (induction s) auto

lemma LastIndexByte_None [simp]: "LastIndexByte s c = None \<longleftrightarrow> c \<notin> set s"
  by (induction s) (auto split: option.splits)

lemma IndexByte_notin [simp]: "c \<notin> set s \<Longrightarrow> IndexByte s c = None"
  and LastIndexByte_notin [simp]: "c \<notin> set s \<Longrightarrow> LastIndexByte s c = None"
  by simp_all

lemma IndexByte_append [simp]: "c \<notin> set a \<Longrightarrow> IndexByte (a @ c # b) c = Some (length a)"
  by (induction a) auto

lemma LastIndexByte_append [simp]: "c \<notin> set b \<Longrightarrow> LastIndexByte (a @ c # b) c = Some (length a)"
  by (induction a) (simp_all del: LastIndexByte_None)

lemma IndexByte_SomeE:
  assumes "IndexByte s c = Some i"
  obtains a b where "s = a @ c # b" "c \<notin> set a" "i = length a"
proof -
  have "c \<in> set s" using assms IndexByte_None [of s c] by force
  then obtain a b where s: "s = a @ c # b" and n: "c \<notin> set a"
    by (meson split_list_first)
  moreover have "i = length a" using assms s n by simp
  ultimately show ?thesis using that by blast
qed

lemma LastIndexByte_SomeE:
  assumes "LastIndexByte s c = Some i"
  obtains a b where "s = a @ c # b" "c \<notin> set b" "i = length a"
proof -
  have "c \<in> set s" using assms LastIndexByte_None [of s c] by force
  then obtain a b where s: "s = a @ c # b" and n: "c \<notin> set b"
    by (meson split_list_last)
  moreover have "i = length a" using assms s n by simp
  ultimately show ?thesis using that by blast
qed

text \<open>\<^verbatim>\<open>strings.Cut\<close> with a one-byte separator: before, after, found.\<close>

definition Cut :: "string \<Rightarrow> char \<Rightarrow> string \<times> string \<times> bool" where
  [go_simps]: "Cut s c =
     (case IndexByte s c of
        Some i \<Rightarrow> (take i s, drop (Suc i) s, True)
      | None \<Rightarrow> (s, [], False))"

lemma Cut_append [simp]: "c \<notin> set a \<Longrightarrow> Cut (a @ c # b) c = (a, b, True)"
  by (simp add: Cut_def)

lemma Cut_notin [simp]: "c \<notin> set s \<Longrightarrow> Cut s c = (s, [], False)"
  by (simp add: Cut_def del: IndexByte_None)

lemma Cut_cases:
  obtains (found) a b where "s = a @ c # b" "c \<notin> set a" "Cut s c = (a, b, True)"
  | (missing) "c \<notin> set s" "Cut s c = (s, [], False)"
proof (cases "c \<in> set s")
  case True
  then obtain a b where "s = a @ c # b" "c \<notin> set a" by (meson split_list_first)
  then show ?thesis using found by simp
next
  case False
  then show ?thesis using missing by simp
qed

lemma Cut_spec: "Cut s c = (a, b, f) \<Longrightarrow> c \<notin> set a \<and> (\<exists>t. s = a @ t \<and> (t = [] \<or> hd t = c))"
  by (cases rule: Cut_cases [of s c]) auto

text \<open>
  \<^verbatim>\<open>strings.TrimSpace\<close> removes the runes for which \<^verbatim>\<open>unicode.IsSpace\<close> holds at both ends:
  the six ASCII spaces and the UTF-8 encodings of U+0085, U+00A0, U+1680, U+2000 to U+200A,
  U+2028, U+2029, U+202F, U+205F and U+3000.
\<close>

definition space_encodings :: "string list" where
  "space_encodings =
     [[CHR 0x09], [CHR 0x0A], [CHR 0x0B], [CHR 0x0C], [CHR 0x0D], [CHR 0x20],
      [CHR 0xC2, CHR 0x85], [CHR 0xC2, CHR 0xA0], [CHR 0xE1, CHR 0x9A, CHR 0x80],
      [CHR 0xE2, CHR 0x80, CHR 0x80], [CHR 0xE2, CHR 0x80, CHR 0x81],
      [CHR 0xE2, CHR 0x80, CHR 0x82], [CHR 0xE2, CHR 0x80, CHR 0x83],
      [CHR 0xE2, CHR 0x80, CHR 0x84], [CHR 0xE2, CHR 0x80, CHR 0x85],
      [CHR 0xE2, CHR 0x80, CHR 0x86], [CHR 0xE2, CHR 0x80, CHR 0x87],
      [CHR 0xE2, CHR 0x80, CHR 0x88], [CHR 0xE2, CHR 0x80, CHR 0x89],
      [CHR 0xE2, CHR 0x80, CHR 0x8A], [CHR 0xE2, CHR 0x80, CHR 0xA8],
      [CHR 0xE2, CHR 0x80, CHR 0xA9], [CHR 0xE2, CHR 0x80, CHR 0xAF],
      [CHR 0xE2, CHR 0x81, CHR 0x9F], [CHR 0xE3, CHR 0x80, CHR 0x80]]"

function strip :: "string list \<Rightarrow> string \<Rightarrow> string" where
  "strip encs s =
     (case find (\<lambda>p. p \<noteq> [] \<and> HasPrefix s p) encs of
        Some p \<Rightarrow> strip encs (drop (length p) s)
      | None \<Rightarrow> s)"
  by pat_completeness auto
termination
proof (relation "measure (\<lambda>(encs, s). length s)")
  fix encs :: "string list" and s p :: string
  assume "find (\<lambda>p. p \<noteq> [] \<and> HasPrefix s p) encs = Some p"
  then have "p \<noteq> []" and "HasPrefix s p" by (auto simp: find_Some_iff)
  then show "((encs, drop (length p) s), (encs, s)) \<in> measure (\<lambda>(encs, s). length s)"
    by (auto simp: HasPrefix_iff)
qed simp

declare strip.simps [simp del]

definition TrimSpace :: "string \<Rightarrow> string" where
  "TrimSpace s = rev (strip (map rev space_encodings) (rev (strip space_encodings s)))"

lemma strip_id: "(\<And>p. p \<in> set encs \<Longrightarrow> p \<noteq> [] \<Longrightarrow> \<not> HasPrefix s p) \<Longrightarrow> strip encs s = s"
proof -
  assume "\<And>p. p \<in> set encs \<Longrightarrow> p \<noteq> [] \<Longrightarrow> \<not> HasPrefix s p"
  then have "find (\<lambda>p. p \<noteq> [] \<and> HasPrefix s p) encs = None" by (auto simp: find_None_iff)
  then show ?thesis by (simp add: strip.simps [of encs s])
qed

section \<open>Package strconv\<close>

definition is_digit :: "char \<Rightarrow> bool" where
  [go_simps]: "is_digit c \<longleftrightarrow> 48 \<le> (of_char c :: nat) \<and> (of_char c :: nat) \<le> 57"

definition digit_val :: "char \<Rightarrow> nat" where
  "digit_val c = of_char c - 48"

definition digit_char :: "nat \<Rightarrow> char" where
  "digit_char n = char_of (48 + n)"

lemma digit_val_less [simp]: "is_digit c \<Longrightarrow> digit_val c < 10"
  unfolding is_digit_def digit_val_def by linarith

lemma is_digit_digit_char [simp]: "n < 10 \<Longrightarrow> is_digit (digit_char n)"
  by (simp add: is_digit_def digit_char_def)

lemma digit_val_digit_char [simp]: "n < 10 \<Longrightarrow> digit_val (digit_char n) = n"
  by (simp add: digit_val_def digit_char_def)

datatype num_error = ErrSyntax | ErrRange

text \<open>
  The loop of \<^verbatim>\<open>strconv.ParseUint\<close> in base 10 with 64 bits: it stops at the first byte that is
  no digit and at the first digit that would exceed \<open>MaxUint64\<close>.
\<close>

fun ParseUint_loop :: "nat \<Rightarrow> string \<Rightarrow> nat \<times> num_error option" where
  "ParseUint_loop n [] = (n, None)"
| "ParseUint_loop n (c # cs) =
     (if \<not> is_digit c then (0, Some ErrSyntax)
      else if n * 10 + digit_val c > MaxUint64 then (MaxUint64, Some ErrRange)
      else ParseUint_loop (n * 10 + digit_val c) cs)"

definition ParseUint :: "string \<Rightarrow> nat \<times> num_error option" where
  "ParseUint s = (if s = [] then (0, Some ErrSyntax) else ParseUint_loop 0 s)"

text \<open>\<^verbatim>\<open>strconv.ParseInt(s, 10, 64)\<close>, which \<^verbatim>\<open>strconv.Atoi\<close> equals on a 64-bit platform.\<close>

definition ParseInt :: "string \<Rightarrow> int \<times> num_error option" where
  "ParseInt s =
     (if s = [] then (0, Some ErrSyntax)
      else
        let neg = (hd s = CHR ''-'');
            t = (if hd s = CHR ''+'' \<or> hd s = CHR ''-'' then tl s else s);
            (un, err) = ParseUint t
        in if err = Some ErrSyntax then (0, Some ErrSyntax)
           else if \<not> neg \<and> un \<ge> 9223372036854775808 then (MaxInt64, Some ErrRange)
           else if neg \<and> un > 9223372036854775808 then (MinInt64, Some ErrRange)
           else if neg then (- int un, None) else (int un, None))"

definition Atoi :: "string \<Rightarrow> int \<times> num_error option" where
  "Atoi s = ParseInt s"

fun FormatUint :: "nat \<Rightarrow> string" where
  "FormatUint n = (if n < 10 then [digit_char n] else FormatUint (n div 10) @ [digit_char (n mod 10)])"

declare FormatUint.simps [simp del]

definition FormatInt :: "int \<Rightarrow> string" where
  "FormatInt i = (if i < 0 then CHR ''-'' # FormatUint (nat (- i)) else FormatUint (nat i))"

text \<open>The value of a digit string, the reference for the parsing loop.\<close>

definition dec_value :: "string \<Rightarrow> nat" where
  "dec_value s = foldl (\<lambda>n c. n * 10 + digit_val c) 0 s"

lemma dec_value_Nil [simp]: "dec_value [] = 0"
  by (simp add: dec_value_def)

lemma dec_value_snoc [simp]: "dec_value (s @ [c]) = dec_value s * 10 + digit_val c"
  by (simp add: dec_value_def)

lemma foldl_digits_ge: "foldl (\<lambda>n c. n * 10 + digit_val c) n s \<ge> n"
proof (induction s arbitrary: n)
  case (Cons c s)
  have "n \<le> n * 10 + digit_val c" by simp
  also have "\<dots> \<le> foldl (\<lambda>n c. n * 10 + digit_val c) (n * 10 + digit_val c) s" by (rule Cons.IH)
  finally show ?case by simp
qed simp

lemma ParseUint_loop_digits:
  assumes "list_all is_digit s" and "n \<le> MaxUint64"
  shows "ParseUint_loop n s =
    (let v = foldl (\<lambda>n c. n * 10 + digit_val c) n s
     in if v \<le> MaxUint64 then (v, None) else (MaxUint64, Some ErrRange))"
  using assms
proof (induction s arbitrary: n)
  case (Cons c s)
  let ?m = "n * 10 + digit_val c"
  show ?case
  proof (cases "?m > MaxUint64")
    case True
    have "foldl (\<lambda>n c. n * 10 + digit_val c) ?m s \<ge> ?m" by (rule foldl_digits_ge)
    with True have "\<not> foldl (\<lambda>n c. n * 10 + digit_val c) ?m s \<le> MaxUint64" by linarith
    with True Cons.prems show ?thesis by (simp add: Let_def)
  next
    case False
    then show ?thesis using Cons.prems Cons.IH [of ?m] by (simp add: Let_def)
  qed
qed simp

lemma ParseUint_loop_syntax:
  "ParseUint_loop n s = (v, None) \<Longrightarrow> list_all is_digit s"
  by (induction s arbitrary: n) (auto split: if_splits)

lemma digit_not_sign: "is_digit c \<Longrightarrow> c \<noteq> CHR ''+'' \<and> c \<noteq> CHR ''-''"
  by (auto simp: is_digit_def)

lemma ParseInt_digits:
  assumes "s \<noteq> []" and "list_all is_digit s"
  shows "ParseInt s =
    (if dec_value s \<le> 9223372036854775807 then (int (dec_value s), None) else (MaxInt64, Some ErrRange))"
proof -
  have hd: "hd s \<noteq> CHR ''+''" "hd s \<noteq> CHR ''-''"
    using assms by (cases s; auto dest: digit_not_sign)+
  have "ParseUint s = (if dec_value s \<le> MaxUint64 then (dec_value s, None) else (MaxUint64, Some ErrRange))"
    using assms ParseUint_loop_digits [of s 0] by (simp add: ParseUint_def dec_value_def Let_def)
  then show ?thesis using hd assms(1) by (simp add: ParseInt_def Let_def split: if_splits)
qed

lemma FormatUint_digits: "list_all is_digit (FormatUint n) \<and> FormatUint n \<noteq> []"
proof (induction n rule: FormatUint.induct)
  case (1 n)
  then show ?case by (subst (1 2) FormatUint.simps) simp
qed

lemma dec_value_FormatUint [simp]: "dec_value (FormatUint n) = n"
proof (induction n rule: FormatUint.induct)
  case (1 n)
  show ?case
  proof (cases "n < 10")
    case True
    then show ?thesis using dec_value_snoc [of "[]" "digit_char n"]
      by (simp add: FormatUint.simps [of n])
  next
    case False
    with 1 show ?thesis by (simp add: FormatUint.simps [of n])
  qed
qed

lemma FormatUint_inject [simp]: "FormatUint m = FormatUint n \<longleftrightarrow> m = n"
  by (metis dec_value_FormatUint)

lemma FormatUint_no_sign: "hd (FormatUint n) \<noteq> CHR ''-''"
  using FormatUint_digits [of n] by (cases "FormatUint n") (auto dest: digit_not_sign)

lemma FormatInt_inject [simp]: "FormatInt i = FormatInt j \<longleftrightarrow> i = j"
proof -
  have "CHR ''-'' # FormatUint m \<noteq> FormatUint n" for m n
    using FormatUint_no_sign [of n] by (metis list.sel(1))
  then have "FormatUint n \<noteq> CHR ''-'' # FormatUint m" for m n by metis
  with \<open>\<And>m n. CHR ''-'' # FormatUint m \<noteq> FormatUint n\<close> show ?thesis by (auto simp: FormatInt_def)
qed

text \<open>Printing and parsing an \<open>int64\<close> are inverse.\<close>

lemma ParseInt_FormatInt:
  assumes "is_int64 i"
  shows "ParseInt (FormatInt i) = (i, None)"
proof (cases "i < 0")
  case True
  let ?s = "FormatUint (nat (- i))"
  have "ParseUint_loop 0 ?s = (nat (- i), None)"
    using ParseUint_loop_digits [of ?s 0] FormatUint_digits [of "nat (- i)"] assms True
      dec_value_FormatUint [of "nat (- i)"]
    by (simp add: Let_def is_int64_def dec_value_def)
  then have "ParseUint ?s = (nat (- i), None)"
    using FormatUint_digits [of "nat (- i)"] by (simp add: ParseUint_def)
  moreover have "\<not> nat (- i) > 9223372036854775808" using assms unfolding is_int64_def by linarith
  ultimately show ?thesis using True by (simp add: FormatInt_def ParseInt_def Let_def)
next
  case False
  then show ?thesis using ParseInt_digits [of "FormatUint (nat i)"] FormatUint_digits [of "nat i"] assms
    by (simp add: FormatInt_def is_int64_def nat_le_iff)
qed

end
