(* ===== verification/Model.thy ===== *)
theory Model
  imports Complex_Main Go_Strings
begin

text \<open>
  The domain types of \<^verbatim>\<open>internal/model\<close> and Go's error values. An error is the tree that
  \<^verbatim>\<open>errors.New\<close>, \<^verbatim>\<open>fmt.Errorf\<close> with \<^verbatim>\<open>%w\<close> and \<^verbatim>\<open>errors.Join\<close> build; \<open>errors_Is\<close> and \<open>errors_As\<close>
  walk it as the standard library does. A formatted text is kept as its format and arguments
  (\<open>message\<close>), so that no quoting rule has to be fixed.
\<close>

section \<open>Errors\<close>

datatype sentinel =
    ErrNotFound | ErrConflict | ErrInvalidInput | ErrUnauthorized
  | ErrForbidden | ErrRateLimited | ErrBadRequest | ErrBadGateway
  | DeadlineExceeded \<comment> \<open>\<^verbatim>\<open>context.DeadlineExceeded\<close>\<close>
  | EOF \<comment> \<open>\<^verbatim>\<open>io.EOF\<close>\<close>
  | RedisNil \<comment> \<open>\<^verbatim>\<open>redis.Nil\<close>\<close>
  | ErrNoRows \<comment> \<open>\<^verbatim>\<open>pgx.ErrNoRows\<close>\<close>

datatype message =
    Msg string
  | MsgQ string string string \<comment> \<open>text before, the argument of \<^verbatim>\<open>%q\<close>, text after\<close>
  | MsgWrap message message \<comment> \<open>\<^verbatim>\<open>"...: %w"\<close>\<close>
  | MsgJoin "message list"

record FieldError =
  Field :: string
  Message :: message

datatype go_error =
    Sentinel sentinel
  | ValidationError "FieldError list"
  | PgError string \<comment> \<open>\<^verbatim>\<open>*pgconn.PgError\<close> with its SQLSTATE code\<close>
  | OtherError message \<comment> \<open>\<^verbatim>\<open>errors.New\<close>, or \<^verbatim>\<open>fmt.Errorf\<close> without \<^verbatim>\<open>%w\<close>\<close>
  | Wrapped message go_error \<comment> \<open>\<^verbatim>\<open>fmt.Errorf("...: %w", err)\<close>\<close>
  | Joined "go_error list" \<comment> \<open>\<^verbatim>\<open>errors.Join\<close>\<close>
  | RuntimePanic \<comment> \<open>a nil dereference; it unwinds to the recovery middleware\<close>

type_synonym 'a result = "go_error + 'a"

text \<open>\<^verbatim>\<open>errors.Is(err, target)\<close> for the sentinel targets of the program.\<close>

fun errors_Is :: "go_error \<Rightarrow> sentinel \<Rightarrow> bool" where
  "errors_Is (Sentinel s) t = (s = t)"
| "errors_Is (ValidationError ds) t = (ErrInvalidInput = t)" \<comment> \<open>through \<^verbatim>\<open>Unwrap\<close>\<close>
| "errors_Is (PgError c) t = False"
| "errors_Is (OtherError m) t = False"
| "errors_Is (Wrapped m e) t = errors_Is e t"
| "errors_Is (Joined es) t = list_ex (\<lambda>e. errors_Is e t) es"
| "errors_Is RuntimePanic t = False"

text \<open>\<^verbatim>\<open>errors.As(err, &ve)\<close> for a \<^verbatim>\<open>*ValidationError\<close>: the first one in depth-first order.\<close>

fun errors_As :: "go_error \<Rightarrow> FieldError list option" where
  "errors_As (ValidationError ds) = Some ds"
| "errors_As (Wrapped m e) = errors_As e"
| "errors_As (Joined es) = foldr (\<lambda>e acc. case errors_As e of Some ds \<Rightarrow> Some ds | None \<Rightarrow> acc) es None"
| "errors_As _ = None"

text \<open>\<^verbatim>\<open>errors.As(err, &pgErr)\<close> for a \<^verbatim>\<open>*pgconn.PgError\<close>.\<close>

fun errors_As_Pg :: "go_error \<Rightarrow> string option" where
  "errors_As_Pg (PgError c) = Some c"
| "errors_As_Pg (Wrapped m e) = errors_As_Pg e"
| "errors_As_Pg (Joined es) = foldr (\<lambda>e acc. case errors_As_Pg e of Some c \<Rightarrow> Some c | None \<Rightarrow> acc) es None"
| "errors_As_Pg _ = None"

text \<open>The texts of \<^verbatim>\<open>internal/model/errors.go\<close> and the \<^verbatim>\<open>Error()\<close> methods.\<close>

fun sentinel_text :: "sentinel \<Rightarrow> string" where
  "sentinel_text ErrNotFound = ''resource not found''"
| "sentinel_text ErrConflict = ''resource already exists''"
| "sentinel_text ErrInvalidInput = ''invalid input''"
| "sentinel_text ErrUnauthorized = ''unauthorized''"
| "sentinel_text ErrForbidden = ''forbidden''"
| "sentinel_text ErrRateLimited = ''rate limit exceeded''"
| "sentinel_text ErrBadRequest = ''bad request''"
| "sentinel_text ErrBadGateway = ''upstream service unavailable''"
| "sentinel_text DeadlineExceeded = ''context deadline exceeded''"
| "sentinel_text EOF = ''EOF''"
| "sentinel_text RedisNil = ''redis: nil''"
| "sentinel_text ErrNoRows = ''no rows in result set''"

fun Error :: "go_error \<Rightarrow> message" where
  "Error (Sentinel s) = Msg (sentinel_text s)"
| "Error (ValidationError ds) = Msg ''invalid input''"
| "Error (PgError c) = Msg c"
| "Error (OtherError m) = m"
| "Error (Wrapped m e) = MsgWrap m (Error e)"
| "Error (Joined es) = MsgJoin (map Error es)"
| "Error RuntimePanic = Msg ''runtime error''"

text \<open>\<^verbatim>\<open>FieldErrors.Add\<close>: a nil error is not recorded.\<close>

definition FieldErrors_Add :: "FieldError list \<Rightarrow> string \<Rightarrow> go_error option \<Rightarrow> FieldError list" where
  "FieldErrors_Add f field err =
     (case err of
        Some e \<Rightarrow> f @ [\<lparr>Field = field, Message = Error e\<rparr>]
      | None \<Rightarrow> f)"

lemma errors_Is_Validation: "errors_As e = Some ds \<Longrightarrow> errors_Is e ErrInvalidInput"
proof (induction e arbitrary: ds rule: errors_As.induct)
  case (3 es)
  from "3.prems" obtain e where e: "e \<in> set es" and ex: "\<exists>d. errors_As e = Some d"
    by (induction es) (auto split: option.splits)
  from ex obtain d where d: "errors_As e = Some d" by blast
  have "errors_Is e ErrInvalidInput"
    using "3.IH" e d by blast
  with e show ?case by (auto simp: list_ex_iff)
qed auto

section \<open>API keys\<close>

record ApiKey =
  ID :: int
  Name :: string
  Rank :: string
  KeyHash :: string
  Scopes :: "string list"
  ExpiresAt :: "time option"
  RevokedAt :: "time option"
  LastUsedAt :: "time option"
  RequestCount :: int
  CreatedAt :: time

record CreateApiKeyInput =
  In_Name :: string
  In_Rank :: string
  In_Scopes :: "string list"
  In_ExpiresAt :: "time option"

record ApiKeyView =
  View_ID :: int
  View_Name :: string
  View_Rank :: string
  View_Key :: string
  View_Scopes :: "string list"
  View_ExpiresAt :: "time option"
  View_RevokedAt :: "time option"
  View_LastUsedAt :: "time option"
  View_RequestCount :: int
  View_CreatedAt :: time

section \<open>Redemption\<close>

record TwRedeemRequest =
  Phone :: string
  Gift :: string

record TwRedeemResult =
  Data :: bytes
  Amount :: string
  Ref :: string

section \<open>Statistics\<close>

text \<open>Amounts are the rational values of Go's floats.\<close>

record StatsPart =
  Part_Amount :: rat
  Part_Count :: int
  Part_Errors :: int

record Stats =
  Stats_Amount :: rat
  Stats_Count :: int
  Stats_Errors :: int
  TrueMoney :: StatsPart

text \<open>
  \<^verbatim>\<open>fmt.Errorf("...: %w", err)\<close> on the error path of a call. A panic is not an error value: it passes
  every return on its way to the recovery middleware.
\<close>

fun Errorf :: "string \<Rightarrow> go_error \<Rightarrow> go_error" where
  "Errorf m RuntimePanic = RuntimePanic"
| "Errorf m e = Wrapped (Msg m) e"

lemma errors_Is_Errorf [simp]: "errors_Is (Errorf m e) t = errors_Is e t"
  by (cases e) simp_all

lemma errors_As_Errorf [simp]: "errors_As (Errorf m e) = errors_As e"
  by (cases e) simp_all

lemma Errorf_panic_iff [simp]: "Errorf m e = RuntimePanic \<longleftrightarrow> e = RuntimePanic"
  by (cases e) simp_all

end
