(* ===== verification/Apikey.thy ===== *)
theory Apikey
  imports Model "HOL-Library.Word"
begin

unbundle bit_operations_syntax

text \<open>
  \<^verbatim>\<open>internal/apikey/apikey.go\<close>: key generation and hashing, with the standard-library functions it
  calls: SHA-256 on 32-bit words (FIPS 180-4), hexadecimal encoding and the unpadded URL-safe base64
  encoding. The outcome of reading 32 bytes from the system's random source is an argument of
  \<open>Generate\<close>.
\<close>

section \<open>SHA-256\<close>

type_synonym u32 = "32 word"

text \<open>
  The constants of FIPS 180-4: the first 32 bits of the fractional parts of the cube roots of the first 64
  primes and of the square roots of the first eight. \<open>iroot b k n\<close> is the integer \<open>k\<close>-th root of \<open>n\<close>, digit by digit.
\<close>

primrec iroot :: "nat \<Rightarrow> nat \<Rightarrow> int \<Rightarrow> int" where
  "iroot 0 k n = 0"
| "iroot (Suc b) k n = (let r = 2 * iroot b k (n div 2 ^ k) in if (r + 1) ^ k \<le> n then r + 1 else r)"

definition frac_root :: "nat \<Rightarrow> int \<Rightarrow> u32" where
  "frac_root k p = of_int (iroot 40 k (p * 2 ^ (32 * k)))"

definition primes_to :: "int \<Rightarrow> int list" where
  "primes_to n = filter (\<lambda>p. list_all (\<lambda>d. p mod d \<noteq> 0) [2..p - 1]) [2..n]"

definition sha256_K :: "u32 list" where
  "sha256_K = map (frac_root 3) (primes_to 311)"

definition sha256_init :: "u32 list" where
  "sha256_init = map (frac_root 2) [2, 3, 5, 7, 11, 13, 17, 19]"

lemma iroot_correct:
  assumes "0 < k" and "0 \<le> n" and "n < 2 ^ (k * b)"
  shows "0 \<le> iroot b k n \<and> iroot b k n ^ k \<le> n \<and> n < (iroot b k n + 1) ^ k"
  using assms(2,3)
proof (induction b arbitrary: n)
  case 0
  then show ?case using assms(1) by (simp add: zero_power)
next
  case (Suc b)
  let ?m = "n div 2 ^ k" let ?r = "iroot b k ?m"
  have split: "n = 2 ^ k * ?m + n mod 2 ^ k" "0 \<le> n mod 2 ^ k" "n mod 2 ^ k < 2 ^ k" by simp_all
  have "n < 2 ^ k * 2 ^ (k * b)" using Suc.prems(2) by (simp add: power_add)
  then have "2 ^ k * ?m < 2 ^ k * 2 ^ (k * b)" using split(1,2) by linarith
  then have "?m < 2 ^ (k * b)" by simp
  moreover have "0 \<le> ?m" using Suc.prems(1) by (simp add: pos_imp_zdiv_nonneg_iff)
  ultimately have IH: "0 \<le> ?r" "?r ^ k \<le> ?m" "?m < (?r + 1) ^ k" using Suc.IH by auto
  have "(2 * ?r) ^ k \<le> 2 ^ k * ?m" using IH(2) by (simp add: power_mult_distrib)
  then have low: "(2 * ?r) ^ k \<le> n" using split(1,2) by linarith
  have "2 ^ k * (?m + 1) \<le> 2 ^ k * (?r + 1) ^ k" using IH(3) by (intro mult_left_mono) simp_all
  moreover have "n < 2 ^ k * (?m + 1)" using split unfolding distrib_left mult_1_right by linarith
  moreover have "2 ^ k * (?r + 1) ^ k = (2 * ?r + 2) ^ k" by (simp flip: power_mult_distrib add: algebra_simps)
  ultimately have "n < (2 * ?r + 2) ^ k" by linarith
  then show ?case using low IH(1) by (simp add: Let_def add.commute)
qed

definition rotr :: "nat \<Rightarrow> u32 \<Rightarrow> u32" where
  "rotr n x = drop_bit n x OR push_bit (32 - n) x"

definition big_sigma0 :: "u32 \<Rightarrow> u32" where
  "big_sigma0 x = rotr 2 x XOR rotr 13 x XOR rotr 22 x"

definition big_sigma1 :: "u32 \<Rightarrow> u32" where
  "big_sigma1 x = rotr 6 x XOR rotr 11 x XOR rotr 25 x"

definition small_sigma0 :: "u32 \<Rightarrow> u32" where
  "small_sigma0 x = rotr 7 x XOR rotr 18 x XOR drop_bit 3 x"

definition small_sigma1 :: "u32 \<Rightarrow> u32" where
  "small_sigma1 x = rotr 17 x XOR rotr 19 x XOR drop_bit 10 x"

definition be_word :: "char \<Rightarrow> char \<Rightarrow> char \<Rightarrow> char \<Rightarrow> u32" where
  "be_word a b c d =
     word_of_int (((of_char a * 256 + of_char b) * 256 + of_char c) * 256 + of_char d)"

fun words_of :: "bytes \<Rightarrow> u32 list" where
  "words_of (a # b # c # d # rest) = be_word a b c d # words_of rest"
| "words_of _ = []"

definition bytes_of :: "u32 \<Rightarrow> bytes" where
  "bytes_of w =
     (let n = uint w
      in [char_of (n div 16777216), char_of (n div 65536), char_of (n div 256), char_of n])"

text \<open>The message schedule, built newest word first.\<close>

fun schedule :: "nat \<Rightarrow> u32 list \<Rightarrow> u32 list" where
  "schedule 0 ws = rev ws"
| "schedule (Suc n) ws =
     schedule n ((small_sigma1 (ws ! 1) + ws ! 6 + small_sigma0 (ws ! 14) + ws ! 15) # ws)"

fun sha_round :: "u32 \<times> u32 \<Rightarrow> u32 list \<Rightarrow> u32 list" where
  "sha_round (k, w) [a, b, c, d, e, f, g, h] =
     (let t1 = h + big_sigma1 e + ((e AND f) XOR (NOT e AND g)) + k + w;
          t2 = big_sigma0 a + ((a AND b) XOR (a AND c) XOR (b AND c))
      in [t1 + t2, a, b, c, d + t1, e, f, g])"
| "sha_round kw st = st"

definition sha_block :: "u32 list \<Rightarrow> bytes \<Rightarrow> u32 list" where
  "sha_block st block =
     map2 (+) st (fold sha_round (zip sha256_K (schedule 48 (rev (words_of block)))) st)"

definition sha_pad :: "bytes \<Rightarrow> bytes" where
  "sha_pad m =
     (let n = length m; l = 8 * int n
      in m @ [CHR 0x80] @ replicate ((119 - n mod 64) mod 64) (CHR 0x00) @
         map (\<lambda>i. char_of (l div 256 ^ i)) (rev [0..<8]))"

function sha_blocks :: "u32 list \<Rightarrow> bytes \<Rightarrow> u32 list" where
  "sha_blocks st m = (if m = [] then st else sha_blocks (sha_block st (take 64 m)) (drop 64 m))"
  by pat_completeness auto
termination
  by (relation "measure (\<lambda>(st, m). length m)") (auto simp: length_greater_0_conv [symmetric] simp del: length_greater_0_conv)

declare sha_blocks.simps [simp del]

definition Sum256 :: "bytes \<Rightarrow> bytes" where
  "Sum256 m = concat (map bytes_of (sha_blocks sha256_init (sha_pad m)))"

section \<open>Encodings\<close>

definition hex_digit :: "nat \<Rightarrow> char" where
  "hex_digit n = ''0123456789abcdef'' ! n"

definition hex_EncodeToString :: "bytes \<Rightarrow> string" where
  "hex_EncodeToString bs =
     concat (map (\<lambda>b. [hex_digit (of_char b div 16), hex_digit (of_char b mod 16)]) bs)"

definition b64_alphabet :: string where
  "b64_alphabet = ''ABCDEFGHIJKLMNOPQRSTUVWXYZabcdefghijklmnopqrstuvwxyz0123456789-_''"

definition b64_char :: "nat \<Rightarrow> char" where
  "b64_char n = b64_alphabet ! n"

fun b64_groups :: "nat list \<Rightarrow> nat list" where
  "b64_groups (a # b # c # rest) =
     [a div 4, a mod 4 * 16 + b div 16, b mod 16 * 4 + c div 64, c mod 64] @ b64_groups rest"
| "b64_groups [a, b] = [a div 4, a mod 4 * 16 + b div 16, b mod 16 * 4]"
| "b64_groups [a] = [a div 4, a mod 4 * 16]"
| "b64_groups [] = []"

definition RawURLEncoding :: "bytes \<Rightarrow> string" where
  "RawURLEncoding bs = map b64_char (b64_groups (map of_char bs))"

section \<open>The package\<close>

definition Generate :: "bytes result \<Rightarrow> string result" where
  "Generate random =
     (case random of
        Inl err \<Rightarrow> Inl (Wrapped (Msg ''generate api key'') err)
      | Inr b \<Rightarrow> Inr (RawURLEncoding b))"

definition Hash :: "string \<Rightarrow> string" where
  "Hash plaintext = hex_EncodeToString (Sum256 plaintext)"

section \<open>Hashes\<close>

lemma length_sha_round [simp]: "length (sha_round kw st) = length st"
  by (cases "(kw, st)" rule: sha_round.cases) (simp_all add: Let_def)

lemma length_fold_rounds: "length (fold sha_round kws st) = length st"
  by (induction kws arbitrary: st) simp_all

lemma length_sha_block [simp]: "length (sha_block st b) = length st"
  by (simp add: sha_block_def length_fold_rounds)

lemma length_sha_blocks: "length (sha_blocks st m) = length st"
proof (induction st m rule: sha_blocks.induct)
  case (1 st m)
  then show ?case by (subst sha_blocks.simps) simp
qed

lemma length_Sum256: "length (Sum256 m) = 32"
proof -
  have "length (concat (map bytes_of ws)) = 4 * length ws" for ws
    by (induction ws) (simp_all add: bytes_of_def Let_def)
  then show ?thesis by (simp add: Sum256_def length_sha_blocks sha256_init_def)
qed

lemma length_hex: "length (hex_EncodeToString bs) = 2 * length bs"
  by (induction bs) (simp_all add: hex_EncodeToString_def)

lemma hex_digit_in: "n < 16 \<Longrightarrow> hex_digit n \<in> set ''0123456789abcdef''"
  unfolding hex_digit_def by (rule nth_mem) simp

lemma set_hex: "set (hex_EncodeToString bs) \<subseteq> set ''0123456789abcdef''"
proof -
  have "(of_char b :: nat) div 16 < 16" "(of_char b :: nat) mod 16 < 16" for b
    using nat_of_char_less_256 [of b] by linarith+
  then have "hex_digit (of_char b div 16) \<in> set ''0123456789abcdef''"
    "hex_digit (of_char b mod 16) \<in> set ''0123456789abcdef''" for b
    using hex_digit_in by blast+
  then have "set [hex_digit (of_char b div 16), hex_digit (of_char b mod 16)] \<subseteq> set ''0123456789abcdef''" for b
    by (metis empty_set insert_subset list.simps(15) empty_subsetI)
  then show ?thesis unfolding hex_EncodeToString_def set_concat set_map by blast
qed

lemma length_Hash [simp]: "length (Hash p) = 64"
  by (simp add: Hash_def length_hex length_Sum256)

section \<open>Generated keys\<close>

lemma length_b64_groups: "length (b64_groups xs) = (4 * length xs + 2) div 3"
  by (induction xs rule: b64_groups.induct) auto

lemma b64_groups_small:
  "list_all (\<lambda>n. n < 256) xs \<Longrightarrow> n \<in> set (b64_groups xs) \<Longrightarrow> n < 64"
  by (induction xs rule: b64_groups.induct) (auto simp: less_mult_imp_div_less; linarith)+

lemma base_digits:
  fixes x y k :: nat
  assumes "x * k + y = x' * k + y'" and "y < k" and "y' < k"
  shows "x = x' \<and> y = y'"
proof -
  have "x = (x * k + y) div k" "x' = (x' * k + y') div k" using assms(2,3) by simp_all
  then have "x = x'" using assms(1) by metis
  with assms(1) show ?thesis by simp
qed

lemma b64_triple:
  fixes a b c :: nat
  assumes "b < 256" "b' < 256" "c < 256" "c' < 256" and "a div 4 = a' div 4"
    and "a mod 4 * 16 + b div 16 = a' mod 4 * 16 + b' div 16"
    and "b mod 16 * 4 + c div 64 = b' mod 16 * 4 + c' div 64" and "c mod 64 = c' mod 64"
  shows "a = a' \<and> b = b' \<and> c = c'"
proof -
  have "b div 16 < 16" "b' div 16 < 16" "c div 64 < 4" "c' div 64 < 4" using assms(1-4) by linarith+
  then have "a mod 4 = a' mod 4 \<and> b div 16 = b' div 16" "b mod 16 = b' mod 16 \<and> c div 64 = c' div 64"
    using base_digits [OF assms(6)] base_digits [OF assms(7)] by blast+
  then show ?thesis using assms(5,8) by (metis mult_div_mod_eq)
qed

lemma b64_groups_inj:
  assumes "length xs = length ys" and "list_all (\<lambda>n. n < 256) xs" and "list_all (\<lambda>n. n < 256) ys"
    and "b64_groups xs = b64_groups ys"
  shows "xs = ys"
  using assms
proof (induction xs arbitrary: ys rule: b64_groups.induct)
  case (1 a b c rest)
  then obtain a' b' c' rest' where ys: "ys = a' # b' # c' # rest'"
    by (metis (no_types, lifting) length_Suc_conv)
  then show ?case using 1 b64_triple [of b b' c c' a a'] by auto
next
  case (2 a b)
  then obtain a' b' where ys: "ys = [a', b']" by (metis (no_types, lifting) length_Suc_conv length_0_conv)
  then show ?case using 2 b64_triple [of b b' 0 0 a a'] by auto
next
  case (3 a)
  then obtain a' where ys: "ys = [a']" by (metis (no_types, lifting) length_Suc_conv length_0_conv)
  then show ?case using 3 b64_triple [of 0 0 0 0 a a'] by auto
qed simp

lemma b64_char_inj: "m < 64 \<Longrightarrow> n < 64 \<Longrightarrow> b64_char m = b64_char n \<longleftrightarrow> m = n"
proof -
  have "distinct b64_alphabet" "length b64_alphabet = 64" by (simp_all add: b64_alphabet_def)
  then show "m < 64 \<Longrightarrow> n < 64 \<Longrightarrow> b64_char m = b64_char n \<longleftrightarrow> m = n"
    by (simp add: b64_char_def nth_eq_iff_index_eq)
qed

lemma b64_char_in: "n < 64 \<Longrightarrow> b64_char n \<in> set b64_alphabet"
  unfolding b64_char_def by (rule nth_mem) (simp add: b64_alphabet_def)

lemma RawURLEncoding_inj:
  assumes "length bs = length cs" and "RawURLEncoding bs = RawURLEncoding cs"
  shows "bs = cs"
proof -
  let ?n = "map of_char :: bytes \<Rightarrow> nat list"
  have small: "list_all (\<lambda>n. n < 256) (?n x)" for x by (simp add: list_all_iff)
  have "b64_groups (?n bs) = b64_groups (?n cs)"
  proof (rule map_inj_on [of b64_char])
    show "map b64_char (b64_groups (?n bs)) = map b64_char (b64_groups (?n cs))"
      using assms(2) by (simp add: RawURLEncoding_def)
    show "inj_on b64_char (set (b64_groups (?n bs)) \<union> set (b64_groups (?n cs)))"
      using b64_groups_small [OF small] by (intro inj_onI) (auto simp: b64_char_inj)
  qed
  moreover have "length (?n bs) = length (?n cs)" using assms(1) by simp
  ultimately have "?n bs = ?n cs" using b64_groups_inj small by blast
  moreover have "inj (of_char :: char \<Rightarrow> nat)" by (simp add: inj_def)
  ultimately show ?thesis by (metis inj_map_eq_map)
qed

section \<open>Properties\<close>

text \<open>
  From 32 random bytes \<open>Generate\<close> makes a key of 43 characters, all letters, digits, \<^verbatim>\<open>-\<close> or \<^verbatim>\<open>_\<close>, and
  no entropy is lost: different random bytes give different keys. It fails exactly when reading
  the random source fails.
\<close>

theorem Generate_spec:
  assumes "length b = 32" and "length b' = 32"
  shows "\<exists>k. Generate (Inr b) = Inr k \<and> length k = 43 \<and> set k \<subseteq> set b64_alphabet \<and>
    (Generate (Inr b') = Generate (Inr b) \<longleftrightarrow> b' = b) \<and> (\<forall>e. \<exists>e'. Generate (Inl e) = Inl e')"
proof -
  have "list_all (\<lambda>n. n < 256) (map of_char b :: nat list)" by (simp add: list_all_iff)
  then have "set (RawURLEncoding b) \<subseteq> set b64_alphabet"
    unfolding RawURLEncoding_def set_map by (intro image_subsetI b64_char_in b64_groups_small)
  moreover have "length (RawURLEncoding b) = 43"
    using assms by (simp add: RawURLEncoding_def length_b64_groups)
  moreover have "Generate (Inr b') = Generate (Inr b) \<longleftrightarrow> b' = b"
    using assms RawURLEncoding_inj [of b' b] by (auto simp: Generate_def)
  moreover have "Generate (Inr b) = Inr (RawURLEncoding b)" "\<forall>e. \<exists>e'. Generate (Inl e) = Inl e'"
    by (simp_all add: Generate_def)
  ultimately show ?thesis by blast
qed

theorem Generate_spec_witness:
  "\<exists>k. Generate (Inr (replicate 32 (CHR ''x''))) = Inr k \<and> length k = 43"
  using Generate_spec [of "replicate 32 (CHR ''x'')" "replicate 32 (CHR ''y'')"] by auto

text \<open>
  A stored hash is always 64 lower-case hexadecimal digits, whatever the key: it has the fixed width
  of SHA-256 and never contains the plaintext's other characters.
\<close>

theorem Hash_format: "length (Hash p) = 64 \<and> set (Hash p) \<subseteq> set ''0123456789abcdef''"
  using set_hex [of "Sum256 p"] by (simp add: Hash_def [of p] length_hex length_Sum256)

end
