(* ===== verification/Keystore.thy ===== *)
theory Keystore
  imports Model
begin

text \<open>
  The interface \<^verbatim>\<open>apiKeyRepository\<close> of \<^verbatim>\<open>internal/service/key_service.go\<close> as a record of operations on a
  store state, its contract as the locale \<open>key_store\<close>, and the in-memory implementation of
  \<^verbatim>\<open>internal/repository/memory/keystore.go\<close>, on which the contract is interpreted. Every method holds
  the store's lock from its first to its last step, so an operation is one function from state to
  state; pointers never leave the store (the code copies keys in and out), so keys are values. The
  time an operation reads is an argument.
\<close>

section \<open>The interface\<close>

record 's key_repo =
  repo_Create :: "time \<Rightarrow> ApiKey \<Rightarrow> 's \<Rightarrow> ApiKey result \<times> 's"
  repo_GetByHash :: "string \<Rightarrow> 's \<Rightarrow> ApiKey result"
  repo_List :: "'s \<Rightarrow> ApiKey list result"
  repo_Revoke :: "time \<Rightarrow> int \<Rightarrow> 's \<Rightarrow> unit result \<times> 's"
  repo_Touch :: "time \<Rightarrow> int \<Rightarrow> 's \<Rightarrow> unit result \<times> 's"

text \<open>A key as the service builds it before the store assigns its identity.\<close>

definition unstored :: "ApiKey \<Rightarrow> bool" where
  "unstored key \<longleftrightarrow> RevokedAt key = None \<and> LastUsedAt key = None \<and> RequestCount key = 0"

definition default_rank :: "ApiKey \<Rightarrow> ApiKey" where
  "default_rank key = (if Rank key = [] then key\<lparr>Rank := ''member''\<rparr> else key)"

text \<open>
  What a key grants: everything but its usage counters. Recording a use never changes it, whether
  the command succeeds or not.
\<close>

definition grants :: "ApiKey \<Rightarrow> ApiKey" where
  "grants key = key\<lparr>LastUsedAt := None, RequestCount := 0\<rparr>"

text \<open>
  The contract: a store is a finite map from hashes to keys with distinct identities. \<open>up\<close> says the
  backend executes and answers commands (always true in memory), \<open>takes\<close> that the store can hold a key (in
  memory: an identity is left to assign). An operation that reports success has had its effect; while the backend is up the only
  errors are the documented ones and leave the store as it was. A backend that is down may have
  executed a command whose answer was lost, so there only the invariant and, for \<open>Create\<close>, the keys
  already stored are kept; an interrupted \<open>Revoke\<close> has revoked its key or done nothing.
\<close>

locale key_store =
  fixes repo :: "'s key_repo"
    and inv :: "'s \<Rightarrow> bool"
    and up :: "'s \<Rightarrow> bool"
    and takes :: "ApiKey \<Rightarrow> 's \<Rightarrow> bool"
    and stored :: "'s \<Rightarrow> string \<Rightarrow> ApiKey option"
  assumes stored_hash: "inv s \<Longrightarrow> stored s h = Some k \<Longrightarrow> KeyHash k = h"
    and stored_ids: "inv s \<Longrightarrow> stored s h = Some k \<Longrightarrow> stored s h' = Some k' \<Longrightarrow> ID k = ID k' \<Longrightarrow> h = h'"
    and get_sound: "inv s \<Longrightarrow> repo_GetByHash repo h s = Inr k \<Longrightarrow> stored s h = Some k"
    and get_found: "inv s \<Longrightarrow> up s \<Longrightarrow> stored s h = Some k \<Longrightarrow> repo_GetByHash repo h s = Inr k"
    and get_missing: "inv s \<Longrightarrow> up s \<Longrightarrow> set h \<subseteq> set ''0123456789abcdef'' \<Longrightarrow> stored s h = None \<Longrightarrow>
      repo_GetByHash repo h s = Inl (Sentinel ErrNotFound)"
    and list_sound: "inv s \<Longrightarrow> repo_List repo s = Inr ks \<Longrightarrow>
      set ks = ran (stored s) \<and> sorted_wrt (<) (map ID ks)"
    and list_up: "inv s \<Longrightarrow> up s \<Longrightarrow> \<exists>ks. repo_List repo s = Inr ks"
    and create_inv: "inv s \<Longrightarrow> takes key s \<Longrightarrow> inv (snd (repo_Create repo now key s))"
    and create_frame: "inv s \<Longrightarrow> takes key s \<Longrightarrow> stored s \<subseteq>\<^sub>m stored (snd (repo_Create repo now key s))"
    and create_sound: "inv s \<Longrightarrow> takes key s \<Longrightarrow> unstored key \<Longrightarrow> repo_Create repo now key s = (Inr k, s') \<Longrightarrow>
      stored s (KeyHash key) = None \<and> stored s' = (stored s)(KeyHash key \<mapsto> k) \<and>
      (\<exists>i t. k = (default_rank key)\<lparr>ID := i, CreatedAt := t\<rparr>)"
    and create_up: "inv s \<Longrightarrow> takes key s \<Longrightarrow> up s \<Longrightarrow> stored s (KeyHash key) = None \<Longrightarrow>
      \<exists>k s'. repo_Create repo now key s = (Inr k, s') \<and> up s'"
    and create_conflict: "inv s \<Longrightarrow> takes key s \<Longrightarrow> up s \<Longrightarrow> stored s (KeyHash key) \<noteq> None \<Longrightarrow>
      \<exists>s'. repo_Create repo now key s = (Inl (Sentinel ErrConflict), s') \<and> stored s' = stored s \<and> up s'"
    and revoke_inv: "inv s \<Longrightarrow> inv (snd (repo_Revoke repo now i s))"
    and revoke_sound: "inv s \<Longrightarrow> repo_Revoke repo now i s = (Inr u, s') \<Longrightarrow>
      (\<exists>h k. stored s h = Some k \<and> ID k = i \<and> stored s' = (stored s)(h \<mapsto> k\<lparr>RevokedAt := Some now\<rparr>))"
    and revoke_up: "inv s \<Longrightarrow> up s \<Longrightarrow> stored s h = Some k \<Longrightarrow>
      \<exists>s'. repo_Revoke repo now (ID k) s = (Inr (), s') \<and> up s'"
    and revoke_missing: "inv s \<Longrightarrow> up s \<Longrightarrow> (\<And>h k. stored s h = Some k \<Longrightarrow> ID k \<noteq> i) \<Longrightarrow>
      \<exists>s'. repo_Revoke repo now i s = (Inl (Sentinel ErrNotFound), s') \<and> stored s' = stored s \<and> up s'"
    and touch_inv: "inv s \<Longrightarrow> inv (snd (repo_Touch repo now i s))"
    and touch_sound: "inv s \<Longrightarrow> repo_Touch repo now i s = (Inr u, s') \<Longrightarrow>
      (\<exists>h k. stored s h = Some k \<and> ID k = i \<and> stored s' = (stored s)(h \<mapsto>
         k\<lparr>LastUsedAt := Some now, RequestCount := wrap64 (RequestCount k + 1)\<rparr>))"
    and touch_up: "inv s \<Longrightarrow> up s \<Longrightarrow> stored s h = Some k \<Longrightarrow> RequestCount k < MaxInt64 \<Longrightarrow>
      \<exists>s'. repo_Touch repo now (ID k) s = (Inr (), s') \<and> up s'"
    and touch_frame: "inv s \<Longrightarrow> map_option grants (stored (snd (repo_Touch repo now i s)) h) = map_option grants (stored s h)"
    and revoke_frame: "inv s \<Longrightarrow> stored (snd (repo_Revoke repo now i s)) h \<noteq> stored s h \<Longrightarrow>
      (\<exists>k. stored s h = Some k \<and> ID k = i \<and> stored (snd (repo_Revoke repo now i s)) h = Some (k\<lparr>RevokedAt := Some now\<rparr>))"
begin

lemma list_distinct:
  assumes "inv s" and "repo_List repo s = Inr ks"
  shows "distinct (map ID ks)"
  using list_sound [OF assms] by (simp add: strict_sorted_iff)

lemma stored_by_id:
  assumes "inv s" and "stored s h = Some k" and "stored s h' = Some k'" and "ID k' = ID k"
  shows "h' = h \<and> k' = k"
  using stored_ids [OF assms(1) assms(3,2,4)] assms(2,3) by auto

text \<open>Revoking or touching by identity reaches exactly the key with that identity.\<close>

lemma revoke_id:
  assumes "inv s" and "stored s h = Some k" and "repo_Revoke repo now (ID k) s = (Inr u, s')"
  shows "stored s' = (stored s)(h \<mapsto> k\<lparr>RevokedAt := Some now\<rparr>)"
proof -
  obtain h' k' where "stored s h' = Some k'" "ID k' = ID k"
    "stored s' = (stored s)(h' \<mapsto> k'\<lparr>RevokedAt := Some now\<rparr>)"
    using revoke_sound [OF assms(1,3)] by blast
  then show ?thesis using stored_by_id [OF assms(1,2)] by auto
qed

end

section \<open>The in-memory store\<close>

record KeyStore =
  keys :: "(string, ApiKey) gomap"
  byID :: "(int, string) gomap"
  nextID :: int

definition NewKeyStore :: KeyStore where
  "NewKeyStore = \<lparr>keys = [], byID = [], nextID = 1\<rparr>"

definition KeyStore_Create :: "time \<Rightarrow> ApiKey \<Rightarrow> KeyStore \<Rightarrow> ApiKey result \<times> KeyStore" where
  "KeyStore_Create now key s =
     (if map_of (keys s) (KeyHash key) \<noteq> None then (Inl (Sentinel ErrConflict), s)
      else
        let key = (if Rank key = [] then key\<lparr>Rank := ''member''\<rparr> else key);
            key = key\<lparr>ID := nextID s\<rparr>;
            s = s\<lparr>nextID := wrap64 (nextID s + 1)\<rparr>;
            key = key\<lparr>CreatedAt := now\<rparr>;
            s = s\<lparr>keys := AList.update (KeyHash key) key (keys s)\<rparr>;
            s = s\<lparr>byID := AList.update (ID key) (KeyHash key) (byID s)\<rparr>
        in (Inr key, s))"

definition KeyStore_GetByHash :: "string \<Rightarrow> KeyStore \<Rightarrow> ApiKey result" where
  "KeyStore_GetByHash hash s =
     (case map_of (keys s) hash of
        None \<Rightarrow> Inl (Sentinel ErrNotFound)
      | Some key \<Rightarrow> Inr key)"

text \<open>
  \<open>List\<close> collects the values in map order and sorts them by identity. \<^verbatim>\<open>sort.Slice\<close> may reorder equal
  elements, but identities are distinct, so the result does not depend on the enumeration order
  (\<open>sort_ids_unique\<close> below).
\<close>

definition KeyStore_List :: "KeyStore \<Rightarrow> ApiKey list result" where
  "KeyStore_List s = Inr (sort_key ID (map snd (keys s)))"

definition KeyStore_Revoke :: "time \<Rightarrow> int \<Rightarrow> KeyStore \<Rightarrow> unit result \<times> KeyStore" where
  "KeyStore_Revoke now i s =
     (case map_of (byID s) i of
        None \<Rightarrow> (Inl (Sentinel ErrNotFound), s)
      | Some hash \<Rightarrow>
          (case map_of (keys s) hash of
             None \<Rightarrow> (Inl RuntimePanic, s)
           | Some key \<Rightarrow>
               (Inr (), s\<lparr>keys := AList.update hash (key\<lparr>RevokedAt := Some now\<rparr>) (keys s)\<rparr>)))"

definition KeyStore_Touch :: "time \<Rightarrow> int \<Rightarrow> KeyStore \<Rightarrow> unit result \<times> KeyStore" where
  "KeyStore_Touch now i s =
     (case map_of (byID s) i of
        None \<Rightarrow> (Inl (Sentinel ErrNotFound), s)
      | Some hash \<Rightarrow>
          (case map_of (keys s) hash of
             None \<Rightarrow> (Inl RuntimePanic, s)
           | Some key \<Rightarrow>
               (Inr (), s\<lparr>keys := AList.update hash
                 (key\<lparr>LastUsedAt := Some now, RequestCount := wrap64 (RequestCount key + 1)\<rparr>) (keys s)\<rparr>)))"

definition memory_repo :: "KeyStore key_repo" where
  "memory_repo =
     \<lparr>repo_Create = KeyStore_Create, repo_GetByHash = KeyStore_GetByHash, repo_List = KeyStore_List,
      repo_Revoke = KeyStore_Revoke, repo_Touch = KeyStore_Touch\<rparr>"

section \<open>The invariant\<close>

text \<open>The two maps of the store index the same keys, and identities are below the next one.\<close>

definition keystore_inv :: "KeyStore \<Rightarrow> bool" where
  "keystore_inv s \<longleftrightarrow>
     wf_alist (keys s) \<and> wf_alist (byID s) \<and>
     (\<forall>h k. map_of (keys s) h = Some k \<longrightarrow> KeyHash k = h \<and> map_of (byID s) (ID k) = Some h \<and> 0 < ID k \<and> ID k < nextID s) \<and>
     (\<forall>i h. map_of (byID s) i = Some h \<longrightarrow> (\<exists>k. map_of (keys s) h = Some k \<and> ID k = i)) \<and>
     0 < nextID s \<and> nextID s \<le> MaxInt64"

lemma keystore_invD:
  assumes "keystore_inv s" and "map_of (keys s) h = Some k"
  shows "KeyHash k = h" "map_of (byID s) (ID k) = Some h" "0 < ID k" "ID k < nextID s"
  using assms by (auto simp: keystore_inv_def)

lemma keystore_inv_byID:
  assumes "keystore_inv s" and "map_of (byID s) i = Some h"
  obtains k where "map_of (keys s) h = Some k" "ID k = i"
  using assms unfolding keystore_inv_def by blast

lemma keystore_inv_New: "keystore_inv NewKeyStore"
  by (simp add: keystore_inv_def NewKeyStore_def)

lemma keystore_inv_update:
  assumes inv: "keystore_inv s" and k: "map_of (keys s) h = Some k" and k': "KeyHash k' = h" "ID k' = ID k"
  shows "keystore_inv (s\<lparr>keys := AList.update h k' (keys s)\<rparr>)"
  unfolding keystore_inv_def
proof (intro conjI allI impI)
  fix i h'
  assume "map_of (byID (s\<lparr>keys := AList.update h k' (keys s)\<rparr>)) i = Some h'"
  then obtain k1 where "map_of (keys s) h' = Some k1" "ID k1 = i"
    using keystore_inv_byID [OF inv] by auto
  then show "\<exists>k. map_of (keys (s\<lparr>keys := AList.update h k' (keys s)\<rparr>)) h' = Some k \<and> ID k = i"
    using k k' by auto
qed (use keystore_invD [OF inv] k k' inv in \<open>auto simp: keystore_inv_def split: if_splits\<close>)

lemma KeyStore_Create_new:
  assumes "map_of (keys s) (KeyHash key) = None"
  shows "KeyStore_Create now key s =
    (let k = (default_rank key)\<lparr>ID := nextID s, CreatedAt := now\<rparr>
     in (Inr k, \<lparr>keys = AList.update (KeyHash key) k (keys s),
          byID = AList.update (nextID s) (KeyHash key) (byID s), nextID = wrap64 (nextID s + 1)\<rparr>))"
  using assms by (cases s) (simp add: KeyStore_Create_def default_rank_def Let_def)

lemma keystore_inv_Create:
  assumes inv: "keystore_inv s" and room: "nextID s < MaxInt64"
  shows "keystore_inv (snd (KeyStore_Create now key s))"
proof (cases "map_of (keys s) (KeyHash key)")
  case None
  let ?k = "(default_rank key)\<lparr>ID := nextID s, CreatedAt := now\<rparr>"
  have h: "KeyHash ?k = KeyHash key" by (simp add: default_rank_def)
  have next_id: "wrap64 (nextID s + 1) = nextID s + 1"
    using inv room by (intro wrap64_id) (auto simp: keystore_inv_def is_int64_def)
  have new: "map_of (byID s) (nextID s) = None"
  proof (rule ccontr)
    assume "map_of (byID s) (nextID s) \<noteq> None"
    then obtain h k where "map_of (keys s) h = Some k" "ID k = nextID s"
      using keystore_inv_byID [OF inv] by blast
    then show False using keystore_invD(4) [OF inv] by fastforce
  qed
  have keys: "KeyHash k = h \<and> map_of (byID s) (ID k) = Some h \<and> 0 < ID k \<and> ID k < nextID s"
    if "map_of (keys s) h = Some k" for h k
    using keystore_invD [OF inv that] by simp
  have ids: "\<exists>k. map_of (keys s) h = Some k \<and> ID k = i" if "map_of (byID s) i = Some h" for i h
    using keystore_inv_byID [OF inv that] by blast
  have wf: "wf_alist (keys s)" "wf_alist (byID s)" "0 < nextID s"
    using inv by (simp_all add: keystore_inv_def)
  show ?thesis
    unfolding KeyStore_Create_new [OF None] Let_def snd_conv keystore_inv_def
  proof (intro conjI allI impI; (simp only: KeyStore.simps map_of_update next_id)?)
    fix h' k'
    assume a: "((map_of (keys s))(KeyHash key \<mapsto> ?k)) h' = Some k'"
    show "KeyHash k' = h'" using a h keys by (auto split: if_splits)
    show "((map_of (byID s))(nextID s \<mapsto> KeyHash key)) (ID k') = Some h'"
      using a keys by (fastforce split: if_splits)
    show "0 < ID k'" using a keys wf by (auto split: if_splits)
    show "ID k' < nextID s + 1" using a keys by (fastforce split: if_splits)
  next
    fix i h'
    assume "((map_of (byID s))(nextID s \<mapsto> KeyHash key)) i = Some h'"
    then show "\<exists>k. ((map_of (keys s))(KeyHash key \<mapsto> ?k)) h' = Some k \<and> ID k = i"
      using ids [of i h'] None by (auto split: if_splits)
  qed (use wf room in auto)
next
  case (Some k)
  then show ?thesis using inv by (simp add: KeyStore_Create_def)
qed

lemma KeyStore_Revoke_cases:
  assumes "keystore_inv s"
  obtains (missing) "map_of (byID s) i = None" "KeyStore_Revoke now i s = (Inl (Sentinel ErrNotFound), s)"
  | (found) h k where "map_of (keys s) h = Some k" "ID k = i"
      "KeyStore_Revoke now i s = (Inr (), s\<lparr>keys := AList.update h (k\<lparr>RevokedAt := Some now\<rparr>) (keys s)\<rparr>)"
proof (cases "map_of (byID s) i")
  case None
  then show ?thesis using missing by (simp add: KeyStore_Revoke_def)
next
  case (Some h)
  then obtain k where "map_of (keys s) h = Some k" "ID k = i"
    using assms keystore_inv_byID by blast
  then show ?thesis using found Some by (simp add: KeyStore_Revoke_def)
qed

lemma KeyStore_Touch_cases:
  assumes "keystore_inv s"
  obtains (missing) "map_of (byID s) i = None" "KeyStore_Touch now i s = (Inl (Sentinel ErrNotFound), s)"
  | (found) h k where "map_of (keys s) h = Some k" "ID k = i"
      "KeyStore_Touch now i s = (Inr (), s\<lparr>keys := AList.update h
         (k\<lparr>LastUsedAt := Some now, RequestCount := wrap64 (RequestCount k + 1)\<rparr>) (keys s)\<rparr>)"
proof (cases "map_of (byID s) i")
  case None
  then show ?thesis using missing by (simp add: KeyStore_Touch_def)
next
  case (Some h)
  then obtain k where "map_of (keys s) h = Some k" "ID k = i"
    using assms keystore_inv_byID by blast
  then show ?thesis using found Some by (simp add: KeyStore_Touch_def)
qed

section \<open>Listing\<close>

lemma mset_short_eq: "mset xs = mset ys \<Longrightarrow> length ys \<le> 1 \<Longrightarrow> xs = ys"
  by (cases ys) (auto simp: mset_single_iff)

lemma sort_ids_unique:
  assumes "mset xs = mset ys" and "distinct (map ID xs)"
  shows "sort_key ID xs = sort_key ID ys"
proof (rule sym, rule properties_for_sort_key)
  show "mset (sort_key ID xs) = mset ys" using assms(1) by simp
  show "sorted (map ID (sort_key ID xs))" by simp
  fix k
  assume "k \<in> set (sort_key ID xs)"
  have *: "length (filter (\<lambda>y. ID k = ID y) zs) \<le> 1" if "distinct (map ID zs)" for zs
    using that by (induction zs) (auto simp: filter_empty_conv image_iff)
  have "mset (filter (\<lambda>y. ID k = ID y) (sort_key ID xs)) = mset (filter (\<lambda>y. ID k = ID y) ys)"
    using assms(1) by (simp add: mset_filter)
  moreover have "length (filter (\<lambda>y. ID k = ID y) ys) \<le> 1"
  proof -
    have "mset (map ID ys) = mset (map ID xs)" using assms(1) by simp
    then have "distinct (map ID ys)" using assms(2) mset_eq_imp_distinct_iff by blast
    then show ?thesis by (rule *)
  qed
  ultimately show "filter (\<lambda>y. ID k = ID y) (sort_key ID xs) = filter (\<lambda>y. ID k = ID y) ys"
    by (rule mset_short_eq)
qed

lemma keystore_ids_distinct:
  assumes "keystore_inv s"
  shows "distinct (map ID (map snd (keys s)))"
proof -
  have wf: "wf_alist (keys s)" using assms by (simp add: keystore_inv_def)
  have "p = q" if "p \<in> set (keys s)" "q \<in> set (keys s)" "ID (snd p) = ID (snd q)" for p q
  proof -
    have "map_of (keys s) (fst p) = Some (snd p)" "map_of (keys s) (fst q) = Some (snd q)"
      using that wf by (simp_all add: map_of_mem_iff)
    from keystore_invD(2) [OF assms this(1)] keystore_invD(2) [OF assms this(2)] that(3) \<open>map_of (keys s) (fst p) = _\<close>
      \<open>map_of (keys s) (fst q) = _\<close>
    show "p = q" by (simp add: prod_eq_iff)
  qed
  then have "inj_on (\<lambda>p. ID (snd p)) (set (keys s))" by (intro inj_onI)
  moreover have "distinct (keys s)" using wf by (simp add: distinct_map)
  ultimately show ?thesis by (simp add: distinct_map comp_def)
qed

lemma KeyStore_List_spec:
  assumes "keystore_inv s" and "KeyStore_List s = Inr ks"
  shows "set ks = ran (map_of (keys s))" and "sorted_wrt (<) (map ID ks)"
proof -
  have wf: "wf_alist (keys s)" using assms(1) by (simp add: keystore_inv_def)
  have ks: "ks = sort_key ID (map snd (keys s))" using assms(2) by (simp add: KeyStore_List_def)
  show "set ks = ran (map_of (keys s))" using wf by (simp add: ks ran_distinct)
  have "distinct (map ID ks)"
  proof -
    have "mset (map ID ks) = mset (map ID (map snd (keys s)))" by (simp add: ks multiset.map_comp)
    then show ?thesis using keystore_ids_distinct [OF assms(1)] mset_eq_imp_distinct_iff by blast
  qed
  then show "sorted_wrt (<) (map ID ks)" by (simp add: ks strict_sorted_iff)
qed


section \<open>The in-memory store keeps the contract\<close>

lemma grants_simps [simp]:
  "grants (k\<lparr>LastUsedAt := t, RequestCount := n\<rparr>) = grants k"
  by (simp add: grants_def)

lemma KeyStore_Revoke_missing:
  assumes "keystore_inv s" and "\<And>h k. map_of (keys s) h = Some k \<Longrightarrow> ID k \<noteq> i"
  shows "KeyStore_Revoke now i s = (Inl (Sentinel ErrNotFound), s)"
  using assms(2) by (rule_tac i = i and now = now in KeyStore_Revoke_cases [OF assms(1)]) auto

interpretation mks: key_store memory_repo keystore_inv "\<lambda>_. True" "\<lambda>key s. nextID s < MaxInt64" "\<lambda>s. map_of (keys s)"
proof (unfold_locales, goal_cases)
  case (1 s h k)
  then show ?case by (rule keystore_invD)
next
  case (2 s h k h' k')
  then show ?case using keystore_invD(2) [of s] by (metis option.inject)
next
  case (3 s h k)
  then show ?case by (auto simp: memory_repo_def KeyStore_GetByHash_def split: option.splits)
next
  case (4 s h k)
  then show ?case by (simp add: memory_repo_def KeyStore_GetByHash_def)
next
  case (5 s h)
  then show ?case by (simp add: memory_repo_def KeyStore_GetByHash_def)
next
  case (6 s ks)
  then show ?case using KeyStore_List_spec [of s ks] by (simp add: memory_repo_def)
next
  case (7 s)
  then show ?case by (simp add: memory_repo_def KeyStore_List_def)
next
  case (8 s key now)
  then show ?case by (simp add: memory_repo_def keystore_inv_Create)
next
  case (9 s key now)
  then show ?case
    by (cases "map_of (keys s) (KeyHash key)")
      (auto simp: memory_repo_def KeyStore_Create_new Let_def map_le_def KeyStore_Create_def)
next
  case (10 s key now k s')
  then have "map_of (keys s) (KeyHash key) = None"
    by (auto simp: memory_repo_def KeyStore_Create_def split: if_splits)
  with 10 show ?case by (auto simp: memory_repo_def KeyStore_Create_new Let_def)
next
  case (11 s key now)
  then show ?case by (simp add: memory_repo_def KeyStore_Create_new Let_def)
next
  case (12 s key now)
  then show ?case by (simp add: memory_repo_def KeyStore_Create_def)
next
  case (13 s now i)
  show ?case
    by (rule KeyStore_Revoke_cases [OF 13, of i now])
      (use 13 keystore_inv_update keystore_invD(1) [OF 13] in \<open>auto simp: memory_repo_def\<close>)
next
  case (14 s now i u s')
  show ?case
  proof (rule KeyStore_Revoke_cases [OF 14(1), of i now], goal_cases)
    case 1
    with 14(2) show ?thesis by (simp add: memory_repo_def)
  next
    case (2 h k)
    with 14(2) show ?thesis by (intro exI [of _ h] exI [of _ k]) (auto simp: memory_repo_def)
  qed
next
  case (15 s h k now)
  then show ?case
    by (simp add: memory_repo_def KeyStore_Revoke_def keystore_invD(2))
next
  case (16 s i now)
  then show ?case using KeyStore_Revoke_missing by (simp add: memory_repo_def)
next
  case (17 s now i)
  show ?case
    by (rule KeyStore_Touch_cases [OF 17, of i now])
      (use 17 keystore_inv_update keystore_invD(1) [OF 17] in \<open>auto simp: memory_repo_def\<close>)
next
  case (18 s now i u s')
  show ?case
  proof (rule KeyStore_Touch_cases [OF 18(1), of i now], goal_cases)
    case 1
    with 18(2) show ?thesis by (simp add: memory_repo_def)
  next
    case (2 h k)
    with 18(2) show ?thesis by (intro exI [of _ h] exI [of _ k]) (auto simp: memory_repo_def)
  qed
next
  case (19 s h k now)
  then show ?case
    by (simp add: memory_repo_def KeyStore_Touch_def keystore_invD(2))
next
  case (20 s now i h)
  show ?case
    by (rule KeyStore_Touch_cases [OF 20, of i now]) (auto simp: memory_repo_def)
next
  case (21 s now i h)
  show ?case
    by (rule KeyStore_Revoke_cases [OF 21(1), of i now]) (use 21(2) in \<open>auto simp: memory_repo_def split: if_splits\<close>)
qed

section \<open>Histories of the store\<close>

text \<open>Any sequence of mutating calls, whoever makes them and in whatever order.\<close>

datatype store_op = OpCreate time ApiKey | OpRevoke time int | OpTouch time int

fun exec_op :: "store_op \<Rightarrow> KeyStore \<Rightarrow> KeyStore" where
  "exec_op (OpCreate now key) s = snd (KeyStore_Create now key s)"
| "exec_op (OpRevoke now i) s = snd (KeyStore_Revoke now i s)"
| "exec_op (OpTouch now i) s = snd (KeyStore_Touch now i s)"

definition panics :: "store_op \<Rightarrow> KeyStore \<Rightarrow> bool" where
  "panics op s = (case op of
     OpCreate now key \<Rightarrow> fst (KeyStore_Create now key s) = Inl RuntimePanic
   | OpRevoke now i \<Rightarrow> fst (KeyStore_Revoke now i s) = Inl RuntimePanic
   | OpTouch now i \<Rightarrow> fst (KeyStore_Touch now i s) = Inl RuntimePanic)"

lemma memory_repo_simps [simp]:
  "repo_Create memory_repo = KeyStore_Create" "repo_GetByHash memory_repo = KeyStore_GetByHash"
  "repo_List memory_repo = KeyStore_List" "repo_Revoke memory_repo = KeyStore_Revoke"
  "repo_Touch memory_repo = KeyStore_Touch"
  by (simp_all add: memory_repo_def)

lemma exec_op_inv:
  assumes "keystore_inv s" and "nextID s < MaxInt64"
  shows "keystore_inv (exec_op op s)"
  using assms mks.create_inv mks.revoke_inv mks.touch_inv by (cases op) auto

lemma exec_op_nextID:
  assumes "keystore_inv s" and "nextID s < MaxInt64"
  shows "nextID (exec_op op s) \<le> nextID s + 1"
proof (cases op)
  case (OpCreate now key)
  have "is_int64 (nextID s + 1)" using assms by (auto simp: keystore_inv_def is_int64_def)
  then show ?thesis using OpCreate by (auto simp: KeyStore_Create_def Let_def)
qed (auto simp: KeyStore_Revoke_def KeyStore_Touch_def split: option.splits)

lemma exec_op_no_panic:
  assumes "keystore_inv s"
  shows "\<not> panics op s"
proof (cases op)
  case (OpCreate now key)
  then show ?thesis by (auto simp: panics_def KeyStore_Create_def Let_def)
next
  case (OpRevoke now i)
  then show ?thesis by (cases rule: KeyStore_Revoke_cases [OF assms, of i now]) (auto simp: panics_def)
next
  case (OpTouch now i)
  then show ?thesis by (cases rule: KeyStore_Touch_cases [OF assms, of i now]) (auto simp: panics_def)
qed

lemma fold_exec_inv:
  assumes "keystore_inv s" and "nextID s + int (length ops) \<le> MaxInt64"
  shows "keystore_inv (fold exec_op ops s) \<and> nextID (fold exec_op ops s) \<le> nextID s + int (length ops)"
  using assms
proof (induction ops arbitrary: s)
  case (Cons op ops)
  then have room: "nextID s < MaxInt64" by simp
  from exec_op_nextID [OF Cons.prems(1) room, of op] Cons.prems(2)
  have "nextID (exec_op op s) + int (length ops) \<le> MaxInt64" by simp
  from Cons.IH [OF exec_op_inv [OF Cons.prems(1) room] this] exec_op_nextID [OF Cons.prems(1) room, of op]
  show ?case by auto
qed simp

text \<open>
  From an empty store, after any sequence of fewer than \<open>2^63 - 1\<close> \<^verbatim>\<open>Create\<close>, \<^verbatim>\<open>Revoke\<close> and
  \<^verbatim>\<open>Touch\<close> calls (in any order, with any arguments), the hash index and the identity index describe
  the same keys, no further call dereferences a missing entry, and \<^verbatim>\<open>List\<close> returns every stored key
  exactly once in strictly increasing identity order.
\<close>

theorem KeyStore_run_consistent:
  assumes "int (length ops) < MaxInt64"
  shows "keystore_inv (fold exec_op ops NewKeyStore) \<and>
    \<not> panics op (fold exec_op ops NewKeyStore) \<and>
    (\<exists>ks. KeyStore_List (fold exec_op ops NewKeyStore) = Inr ks \<and>
       set ks = ran (map_of (keys (fold exec_op ops NewKeyStore))) \<and> sorted_wrt (<) (map ID ks))"
proof -
  let ?s = "fold exec_op ops NewKeyStore"
  have "nextID NewKeyStore + int (length ops) \<le> MaxInt64"
    using assms by (simp add: NewKeyStore_def)
  from fold_exec_inv [OF keystore_inv_New this] have inv: "keystore_inv ?s" by blast
  show ?thesis
    using inv exec_op_no_panic [OF inv] mks.list_up [OF inv] mks.list_sound [OF inv] by fastforce
qed

definition sample_key :: "string \<Rightarrow> ApiKey" where
  "sample_key h = \<lparr>ID = 0, Name = ''shop'', Rank = ''member'', KeyHash = h, Scopes = [''tw''],
     ExpiresAt = None, RevokedAt = None, LastUsedAt = None, RequestCount = 0, CreatedAt = 0\<rparr>"

theorem KeyStore_run_consistent_witness:
  "keystore_inv (fold exec_op [OpCreate 5 (sample_key ''a''), OpTouch 6 1, OpRevoke 7 9] NewKeyStore)"
  using KeyStore_run_consistent [of "[OpCreate 5 (sample_key ''a''), OpTouch 6 1, OpRevoke 7 9]"] by auto

subsection \<open>The life of one key\<close>

fun touches :: "int \<Rightarrow> store_op \<Rightarrow> bool" where
  "touches i (OpTouch now j) = (i = j)"
| "touches i _ = False"

fun last_revocation :: "int \<Rightarrow> time option \<Rightarrow> store_op list \<Rightarrow> time option" where
  "last_revocation i t [] = t"
| "last_revocation i t (OpRevoke now j # ops) = last_revocation i (if i = j then Some now else t) ops"
| "last_revocation i t (_ # ops) = last_revocation i t ops"

lemma KeyStore_Revoke_at:
  assumes "keystore_inv s" and "map_of (keys s) h = Some k"
  shows "map_of (keys (snd (KeyStore_Revoke now i s))) h = Some (if i = ID k then k\<lparr>RevokedAt := Some now\<rparr> else k)"
proof (rule KeyStore_Revoke_cases [OF assms(1), of i now], goal_cases)
  case 1
  then show ?case using keystore_invD(2) [OF assms] assms(2) by auto
next
  case (2 h' k')
  then show ?case using mks.stored_by_id [OF assms 2(1)] assms(2) by (cases "h' = h") auto
qed

lemma KeyStore_Touch_at:
  assumes "keystore_inv s" and "map_of (keys s) h = Some k"
  shows "map_of (keys (snd (KeyStore_Touch now i s))) h = Some (if i = ID k
    then k\<lparr>LastUsedAt := Some now, RequestCount := wrap64 (RequestCount k + 1)\<rparr> else k)"
proof (rule KeyStore_Touch_cases [OF assms(1), of i now], goal_cases)
  case 1
  then show ?case using keystore_invD(2) [OF assms] assms(2) by auto
next
  case (2 h' k')
  then show ?case using mks.stored_by_id [OF assms 2(1)] assms(2) by (cases "h' = h") auto
qed

lemma last_revocation_Cons:
  "last_revocation i t (op # ops) = last_revocation i (last_revocation i t [op]) ops"
  by (cases op) simp_all

lemma last_revocation_some: "t \<noteq> None \<Longrightarrow> last_revocation i t ops \<noteq> None"
  by (induction i t ops rule: last_revocation.induct) auto

lemma exec_op_key:
  assumes rc: "is_int64 (RequestCount k)" and inv: "keystore_inv s" and k: "map_of (keys s) h = Some k"
  shows "\<exists>t. map_of (keys (exec_op op s)) h = Some
    (k\<lparr>RevokedAt := last_revocation (ID k) (RevokedAt k) [op], LastUsedAt := t,
       RequestCount := wrap64 (RequestCount k + (if touches (ID k) op then 1 else 0))\<rparr>)"
proof (cases op)
  case (OpCreate now key)
  have "map_of (keys (exec_op op s)) h = Some k"
  proof (cases "map_of (keys s) (KeyHash key)")
    case None
    then have "h \<noteq> KeyHash key" using k by auto
    then show ?thesis using OpCreate None k by (simp add: KeyStore_Create_new Let_def)
  qed (use OpCreate k in \<open>simp add: KeyStore_Create_def\<close>)
  then show ?thesis using OpCreate rc by (intro exI [of _ "LastUsedAt k"]) simp
next
  case (OpRevoke now i)
  then show ?thesis using KeyStore_Revoke_at [OF inv k, of now i] rc
    by (intro exI [of _ "LastUsedAt k"]) auto
next
  case (OpTouch now i)
  then show ?thesis using KeyStore_Touch_at [OF inv k, of now i] rc
    by (intro exI [of _ "if i = ID k then Some now else LastUsedAt k"]) auto
qed

lemma fold_exec_key:
  assumes "keystore_inv s" and "nextID s + int (length ops) \<le> MaxInt64"
    and "map_of (keys s) h = Some k" and "is_int64 (RequestCount k)"
  shows "\<exists>t. map_of (keys (fold exec_op ops s)) h = Some
      (k\<lparr>RevokedAt := last_revocation (ID k) (RevokedAt k) ops, LastUsedAt := t,
         RequestCount := wrap64 (RequestCount k + int (length (filter (touches (ID k)) ops)))\<rparr>)"
  using assms
proof (induction ops arbitrary: s k)
  case Nil
  then show ?case by (intro exI [of _ "LastUsedAt k"]) simp
next
  case (Cons op ops)
  then have room: "nextID s < MaxInt64" by simp
  obtain t where k1: "map_of (keys (exec_op op s)) h = Some
    (k\<lparr>RevokedAt := last_revocation (ID k) (RevokedAt k) [op], LastUsedAt := t,
       RequestCount := wrap64 (RequestCount k + (if touches (ID k) op then 1 else 0))\<rparr>)"
    using exec_op_key [OF Cons.prems(4,1,3)] by blast
  have "nextID (exec_op op s) + int (length ops) \<le> MaxInt64"
    using exec_op_nextID [OF Cons.prems(1) room, of op] Cons.prems(2) by simp
  from Cons.IH [OF exec_op_inv [OF Cons.prems(1) room] this k1]
  show ?case by (simp add: last_revocation_Cons [of _ _ op ops] add.assoc split: if_splits)
qed

text \<open>
  C15: Whatever calls are made on the store (fewer than the identities left), a stored key stays
  stored under its hash with its identity, name, rank, scopes, expiry and creation time; its usage
  counter has grown by exactly the number of \<^verbatim>\<open>Touch\<close> calls with its identity (modulo 2^64), and its
  revocation time is that of the last \<^verbatim>\<open>Revoke\<close> call with its identity, so a revoked key is never
  reinstated.
\<close>

theorem KeyStore_key_history:
  assumes "keystore_inv s" and "nextID s + int (length ops) \<le> MaxInt64"
    and "map_of (keys s) h = Some k" and "is_int64 (RequestCount k)"
  shows "(\<exists>t. map_of (keys (fold exec_op ops s)) h = Some
      (k\<lparr>RevokedAt := last_revocation (ID k) (RevokedAt k) ops, LastUsedAt := t,
         RequestCount := wrap64 (RequestCount k + int (length (filter (touches (ID k)) ops)))\<rparr>)) \<and>
    (RevokedAt k \<noteq> None \<longrightarrow> last_revocation (ID k) (RevokedAt k) ops \<noteq> None)"
  using fold_exec_key [OF assms] last_revocation_some [of "RevokedAt k"] by blast

definition sample_store :: KeyStore where
  "sample_store = \<lparr>keys = [(''a'', (sample_key ''a'')\<lparr>ID := 1\<rparr>)], byID = [(1, ''a'')], nextID = 2\<rparr>"

lemma sample_store_inv: "keystore_inv sample_store"
  by (simp add: keystore_inv_def sample_store_def sample_key_def)

theorem KeyStore_key_history_witness:
  "map_of (keys (fold exec_op [OpTouch 6 1, OpRevoke 7 1, OpTouch 8 1] sample_store)) ''a'' =
     Some ((sample_key ''a'')\<lparr>ID := 1, RevokedAt := Some 7, LastUsedAt := Some 8, RequestCount := 2\<rparr>)"
proof -
  let ?k = "(sample_key ''a'')\<lparr>ID := 1\<rparr>"
  have "\<exists>t. map_of (keys (fold exec_op [OpTouch 6 1, OpRevoke 7 1, OpTouch 8 1] sample_store)) ''a'' =
     Some (?k\<lparr>RevokedAt := Some 7, LastUsedAt := t, RequestCount := 2\<rparr>)"
    using KeyStore_key_history [OF sample_store_inv, of "[OpTouch 6 1, OpRevoke 7 1, OpTouch 8 1]" "''a''" ?k]
    by (simp add: sample_store_def sample_key_def is_int64_def)
  then show ?thesis
    by (auto simp: sample_store_def sample_key_def KeyStore_Touch_def KeyStore_Revoke_def is_int64_def)
qed

end
