(* ===== verification/Keyservice.thy ===== *)
theory Keyservice
  imports Apikey Keystore
begin

text \<open>
  The key service of \<^verbatim>\<open>internal/service/key_service.go\<close> over any repository. The code reads the clock
  and the random source; the readings are the arguments collected in \<open>readings\<close>, one field per read in
  program order.
\<close>

section \<open>The service\<close>

definition allowedScopes :: "(string, bool) gomap" where
  "allowedScopes = [(''tw'', True), (''admin'', True)]"

definition allowedRanks :: "(string, bool) gomap" where
  "allowedRanks = [(''member'', True), (''partner'', True), (''admin'', True)]"

definition defaultRank :: string where
  "defaultRank = ''member''"

text \<open>Reading a missing key of a Go map of booleans gives false.\<close>

definition go_index :: "(string, bool) gomap \<Rightarrow> string \<Rightarrow> bool" where
  "go_index m k = (case map_of m k of Some b \<Rightarrow> b | None \<Rightarrow> False)"

record readings =
  checked_at :: time \<comment> \<open>\<^verbatim>\<open>time.Now()\<close> of the expiry check\<close>
  entropy :: "bytes result" \<comment> \<open>\<^verbatim>\<open>rand.Read\<close> of 32 bytes\<close>
  stored_at :: time \<comment> \<open>the store's clock at \<^verbatim>\<open>Create\<close>\<close>
  revoked_at :: time \<comment> \<open>the store's clock at \<^verbatim>\<open>Revoke\<close>\<close>

definition viewFrom :: "ApiKey \<Rightarrow> string \<Rightarrow> ApiKeyView" where
  "viewFrom key plaintext =
     \<lparr>View_ID = ID key, View_Name = Name key, View_Rank = Rank key, View_Key = plaintext,
      View_Scopes = Scopes key, View_ExpiresAt = ExpiresAt key, View_RevokedAt = RevokedAt key,
      View_LastUsedAt = LastUsedAt key, View_RequestCount = RequestCount key, View_CreatedAt = CreatedAt key\<rparr>"

definition new_key :: "string \<Rightarrow> string \<Rightarrow> string \<Rightarrow> string list \<Rightarrow> time option \<Rightarrow> ApiKey" where
  "new_key name rank hash scopes expires =
     \<lparr>ID = 0, Name = name, Rank = rank, KeyHash = hash, Scopes = scopes, ExpiresAt = expires,
      RevokedAt = None, LastUsedAt = None, RequestCount = 0, CreatedAt = 0\<rparr>"

definition invalid_field :: "string \<Rightarrow> message \<Rightarrow> go_error" where
  "invalid_field field m = ValidationError [\<lparr>Field = field, Message = m\<rparr>]"

definition check_input :: "time \<Rightarrow> CreateApiKeyInput \<Rightarrow> string result" where
  "check_input now inp =
     (if In_Name inp = [] \<or> length (In_Name inp) > 64
      then Inl (invalid_field ''name'' (Msg ''required (max 64 chars)''))
      else if length (In_Scopes inp) = 0
      then Inl (invalid_field ''scopes'' (Msg ''at least one scope is required''))
      else case find (\<lambda>scope. \<not> go_index allowedScopes scope) (In_Scopes inp) of
        Some scope \<Rightarrow> Inl (invalid_field ''scopes'' (MsgQ ''invalid scope '' scope '' (allowed: tw, admin)''))
      | None \<Rightarrow>
          let rank = (if In_Rank inp = [] then defaultRank else In_Rank inp) in
          if \<not> go_index allowedRanks rank
          then Inl (invalid_field ''rank'' (MsgQ ''invalid rank '' rank '' (allowed: member, partner, admin)''))
          else if (case In_ExpiresAt inp of None \<Rightarrow> False | Some t \<Rightarrow> \<not> now < t)
          then Inl (invalid_field ''expires_at'' (Msg ''must be in the future''))
          else Inr rank)"

definition CreateKey :: "'s key_repo \<Rightarrow> readings \<Rightarrow> CreateApiKeyInput \<Rightarrow> 's \<Rightarrow> ApiKeyView result \<times> 's" where
  "CreateKey repo rd inp s =
     (case check_input (checked_at rd) inp of
        Inl e \<Rightarrow> (Inl e, s)
      | Inr rank \<Rightarrow>
          (case Generate (entropy rd) of
             Inl err \<Rightarrow> (Inl (Errorf ''create api key'' err), s)
           | Inr plaintext \<Rightarrow>
               (case repo_Create repo (stored_at rd)
                       (new_key (In_Name inp) rank (Hash plaintext) (In_Scopes inp) (In_ExpiresAt inp)) s of
                  (Inl err, s) \<Rightarrow> (Inl (Errorf ''create api key'' err), s)
                | (Inr key, s) \<Rightarrow> (Inr (viewFrom key plaintext), s))))"

definition ListKeys :: "'s key_repo \<Rightarrow> 's \<Rightarrow> ApiKeyView list result" where
  "ListKeys repo s =
     (case repo_List repo s of
        Inl err \<Rightarrow> Inl (Errorf ''list api keys'' err)
      | Inr ks \<Rightarrow> Inr (map (\<lambda>key. viewFrom key []) ks))"

definition RevokeKey :: "'s key_repo \<Rightarrow> time \<Rightarrow> int \<Rightarrow> 's \<Rightarrow> unit result \<times> 's" where
  "RevokeKey repo now i s =
     (case repo_Revoke repo now i s of
        (Inl err, s) \<Rightarrow> (Inl (Errorf ''revoke api key'' err), s)
      | (Inr u, s) \<Rightarrow> (Inr (), s))"

definition RotateKey :: "'s key_repo \<Rightarrow> readings \<Rightarrow> int \<Rightarrow> 's \<Rightarrow> ApiKeyView result \<times> 's" where
  "RotateKey repo rd i s =
     (case repo_List repo s of
        Inl err \<Rightarrow> (Inl (Errorf ''rotate api key'' err), s)
      | Inr ks \<Rightarrow>
          (case find (\<lambda>key. ID key = i) ks of
             None \<Rightarrow> (Inl (Errorf ''rotate api key'' (Sentinel ErrNotFound)), s)
           | Some current \<Rightarrow>
               (case CreateKey repo rd
                       \<lparr>In_Name = Name current, In_Rank = Rank current,
                        In_Scopes = Scopes current, In_ExpiresAt = ExpiresAt current\<rparr> s of
                  (Inl err, s) \<Rightarrow> (Inl (Errorf ''rotate api key'' err), s)
                | (Inr view, s) \<Rightarrow>
                    (case repo_Revoke repo (revoked_at rd) i s of
                       (Inl err, s) \<Rightarrow> (Inl (Errorf ''rotate api key'' err), s)
                     | (Inr u, s) \<Rightarrow> (Inr view, s)))))"

definition register_seed :: "'s key_repo \<Rightarrow> time \<Rightarrow> string \<Rightarrow> 's \<Rightarrow> unit result \<times> 's" where
  "register_seed repo now plaintext s =
     (case repo_Create repo now (new_key ''bootstrap'' ''admin'' (Hash plaintext) [''tw'', ''admin''] None) s of
        (Inl err, s) \<Rightarrow>
          if \<not> errors_Is err ErrConflict then (Inl (Errorf ''bootstrap api key'' err), s) else (Inr (), s)
      | (Inr key, s) \<Rightarrow> (Inr (), s))"

definition Bootstrap :: "'s key_repo \<Rightarrow> readings \<Rightarrow> string \<Rightarrow> 's \<Rightarrow> unit result \<times> 's" where
  "Bootstrap repo rd plaintext s =
     (if plaintext = [] then
        (case repo_List repo s of
           Inl err \<Rightarrow> (Inl (Errorf ''bootstrap api key'' err), s)
         | Inr ks \<Rightarrow>
             if length ks > 0 then (Inr (), s)
             else
               (case Generate (entropy rd) of
                  Inl err \<Rightarrow> (Inl (Errorf ''bootstrap api key'' err), s)
                | Inr generated \<Rightarrow> register_seed repo (stored_at rd) generated s))
      else
        (case repo_GetByHash repo (Hash plaintext) s of
           Inr key \<Rightarrow> (Inr (), s)
         | Inl err \<Rightarrow> register_seed repo (stored_at rd) plaintext s))"

section \<open>What the service accepts\<close>

definition valid_input :: "time \<Rightarrow> CreateApiKeyInput \<Rightarrow> bool" where
  "valid_input now inp \<longleftrightarrow>
     0 < length (In_Name inp) \<and> length (In_Name inp) \<le> 64 \<and>
     In_Scopes inp \<noteq> [] \<and> set (In_Scopes inp) \<subseteq> {''tw'', ''admin''} \<and>
     In_Rank inp \<in> {[], ''member'', ''partner'', ''admin''} \<and>
     (\<forall>t. In_ExpiresAt inp = Some t \<longrightarrow> now < t)"

definition input_rank :: "CreateApiKeyInput \<Rightarrow> string" where
  "input_rank inp = (if In_Rank inp = [] then ''member'' else In_Rank inp)"

lemma go_index_scopes: "go_index allowedScopes x \<longleftrightarrow> x \<in> {''tw'', ''admin''}"
  by (auto simp: go_index_def allowedScopes_def)

lemma go_index_ranks: "go_index allowedRanks x \<longleftrightarrow> x \<in> {''member'', ''partner'', ''admin''}"
  by (auto simp: go_index_def allowedRanks_def)

lemma check_input_valid:
  assumes "valid_input now inp"
  shows "check_input now inp = Inr (input_rank inp)"
proof -
  have "find (\<lambda>scope. \<not> go_index allowedScopes scope) (In_Scopes inp) = None"
    using assms by (auto simp: valid_input_def find_None_iff go_index_scopes)
  then show ?thesis
    using assms by (auto simp: valid_input_def check_input_def input_rank_def go_index_ranks
        defaultRank_def Let_def split: option.splits)
qed

lemma check_input_invalid:
  assumes "\<not> valid_input now inp"
  obtains f m where "check_input now inp = Inl (invalid_field f m)" "f \<in> {''name'', ''scopes'', ''rank'', ''expires_at''}"
proof (cases "check_input now inp")
  case (Inl e)
  then have "\<exists>f m. check_input now inp = Inl (invalid_field f m) \<and> f \<in> {''name'', ''scopes'', ''rank'', ''expires_at''}"
    by (auto simp: check_input_def Let_def split: option.splits if_splits)
  with that show ?thesis by blast
next
  case (Inr r)
  then have "valid_input now inp"
    by (auto simp: valid_input_def check_input_def go_index_scopes go_index_ranks defaultRank_def
        find_None_iff Let_def split: option.splits if_splits)
  with assms show ?thesis by blast
qed

lemma unstored_new_key [simp]: "unstored (new_key n r h sc ex)"
  by (simp add: unstored_def new_key_def)

lemma new_key_simps [simp]:
  "KeyHash (new_key n r h sc ex) = h" "Name (new_key n r h sc ex) = n" "Rank (new_key n r h sc ex) = r"
  "Scopes (new_key n r h sc ex) = sc" "ExpiresAt (new_key n r h sc ex) = ex"
  "RevokedAt (new_key n r h sc ex) = None" "LastUsedAt (new_key n r h sc ex) = None"
  "RequestCount (new_key n r h sc ex) = 0"
  by (simp_all add: new_key_def)

text \<open>The input \<open>RotateKey\<close> builds from the key it replaces.\<close>

definition replacement :: "ApiKey \<Rightarrow> CreateApiKeyInput" where
  "replacement k = \<lparr>In_Name = Name k, In_Rank = Rank k, In_Scopes = Scopes k, In_ExpiresAt = ExpiresAt k\<rparr>"

abbreviation input_key :: "CreateApiKeyInput \<Rightarrow> string \<Rightarrow> ApiKey" where
  "input_key inp h \<equiv> new_key (In_Name inp) (input_rank inp) h (In_Scopes inp) (In_ExpiresAt inp)"

abbreviation seed_key_for :: "string \<Rightarrow> ApiKey" where
  "seed_key_for p \<equiv> new_key ''bootstrap'' ''admin'' (Hash p) [''tw'', ''admin''] None"

section \<open>The service over any store that keeps the contract\<close>

context key_store
begin

lemma CreateKey_invalid:
  assumes "\<not> valid_input (checked_at rd) inp"
  shows "\<exists>f m. CreateKey repo rd inp s = (Inl (invalid_field f m), s) \<and> f \<in> {''name'', ''scopes'', ''rank'', ''expires_at''}"
  by (rule check_input_invalid [OF assms]) (auto simp: CreateKey_def)

lemma CreateKey_valid:
  assumes "valid_input (checked_at rd) inp"
  shows "CreateKey repo rd inp s =
    (case entropy rd of
       Inl err \<Rightarrow> (Inl (Errorf ''create api key'' (Wrapped (Msg ''generate api key'') err)), s)
     | Inr bs \<Rightarrow>
         (case repo_Create repo (stored_at rd) (new_key (In_Name inp) (input_rank inp) (Hash (RawURLEncoding bs))
                 (In_Scopes inp) (In_ExpiresAt inp)) s of
            (Inl err, s') \<Rightarrow> (Inl (Errorf ''create api key'' err), s')
          | (Inr key, s') \<Rightarrow> (Inr (viewFrom key (RawURLEncoding bs)), s')))"
  using check_input_valid [OF assms] by (simp add: CreateKey_def Generate_def split: sum.splits)

lemma CreateKey_frame:
  assumes "inv s" and "\<And>p. takes (input_key inp (Hash p)) s"
  shows "inv (snd (CreateKey repo rd inp s)) \<and> stored s \<subseteq>\<^sub>m stored (snd (CreateKey repo rd inp s))"
proof (cases "valid_input (checked_at rd) inp")
  case True
  have "inv s1 \<and> stored s \<subseteq>\<^sub>m stored s1" if "repo_Create repo now (input_key inp (Hash p)) s = (r, s1)" for now p r s1
    using create_inv [OF assms, of now p] create_frame [OF assms, of now p] that by simp
  then show ?thesis
    unfolding CreateKey_valid [OF True] using assms by (auto split: sum.splits prod.splits)
next
  case False
  with CreateKey_invalid [OF False, of s] assms show ?thesis by auto
qed

lemma CreateKey_success:
  assumes "inv s" and "\<And>p. takes (input_key inp (Hash p)) s" and res: "CreateKey repo rd inp s = (Inr v, s')"
  obtains bs k i t where "valid_input (checked_at rd) inp" "entropy rd = Inr bs"
    "v = viewFrom k (RawURLEncoding bs)"
    "stored s (Hash (RawURLEncoding bs)) = None" "stored s' = (stored s)(Hash (RawURLEncoding bs) \<mapsto> k)"
    "k = (new_key (In_Name inp) (input_rank inp) (Hash (RawURLEncoding bs)) (In_Scopes inp) (In_ExpiresAt inp))
       \<lparr>ID := i, CreatedAt := t\<rparr>"
proof -
  have valid: "valid_input (checked_at rd) inp"
    using CreateKey_invalid [of rd inp s] res by (cases "valid_input (checked_at rd) inp") auto
  from res obtain bs k where bs: "entropy rd = Inr bs" and v: "v = viewFrom k (RawURLEncoding bs)"
    and cr: "repo_Create repo (stored_at rd) (new_key (In_Name inp) (input_rank inp) (Hash (RawURLEncoding bs))
      (In_Scopes inp) (In_ExpiresAt inp)) s = (Inr k, s')"
    unfolding CreateKey_valid [OF valid] by (auto split: sum.splits prod.splits)
  have "input_rank inp \<noteq> []" by (simp add: input_rank_def)
  then have "default_rank (new_key n (input_rank inp) h sc ex) = new_key n (input_rank inp) h sc ex" for n h sc ex
    by (simp add: default_rank_def)
  with create_sound [OF assms(1,2) unstored_new_key cr] show ?thesis
    using that [OF valid bs v] by (auto simp del: fun_upd_apply)
qed

lemma CreateKey_succeeds:
  assumes "inv s" and "\<And>p. takes (input_key inp (Hash p)) s" and "up s" and "valid_input (checked_at rd) inp" and "entropy rd = Inr bs"
    and "stored s (Hash (RawURLEncoding bs)) = None"
  shows "\<exists>v s'. CreateKey repo rd inp s = (Inr v, s') \<and> up s'"
proof -
  let ?key = "new_key (In_Name inp) (input_rank inp) (Hash (RawURLEncoding bs)) (In_Scopes inp) (In_ExpiresAt inp)"
  obtain k s' where "repo_Create repo (stored_at rd) ?key s = (Inr k, s')" "up s'"
    using create_up [OF assms(1-3), of "RawURLEncoding bs" "stored_at rd"] assms(6) by auto
  then show ?thesis by (simp add: CreateKey_valid [OF assms(4)] assms(5))
qed

lemma CreateKey_fails:
  assumes "inv s" and "\<And>p. takes (input_key inp (Hash p)) s" and "up s" and res: "CreateKey repo rd inp s = (Inl e, s')"
  shows "stored s' = stored s"
proof (cases "valid_input (checked_at rd) inp")
  case True
  show ?thesis
  proof (cases "entropy rd")
    case (Inr bs)
    have "stored s (Hash (RawURLEncoding bs)) \<noteq> None"
      using CreateKey_succeeds [OF assms(1-3) True Inr] res by auto
    with create_conflict [OF assms(1-3), of "RawURLEncoding bs" "stored_at rd"] res Inr
    show ?thesis by (auto simp: CreateKey_valid [OF True])
  qed (use res in \<open>simp add: CreateKey_valid [OF True]\<close>)
next
  case False
  with CreateKey_invalid [OF False, of s] res show ?thesis by auto
qed

text \<open>A created key authenticates at once with the plaintext returned, and only its hash is stored.\<close>

lemma CreateKey_then_get:
  assumes "inv s" and "\<And>p. takes (input_key inp (Hash p)) s" and "CreateKey repo rd inp s = (Inr v, s')" and "up s'"
  shows "\<exists>k. repo_GetByHash repo (Hash (View_Key v)) s' = Inr k \<and> v = viewFrom k (View_Key v) \<and>
    KeyHash k = Hash (View_Key v) \<and> RevokedAt k = None \<and> ExpiresAt k = In_ExpiresAt inp \<and>
    Name k = In_Name inp \<and> Scopes k = In_Scopes inp \<and> Rank k = input_rank inp"
proof -
  obtain bs k i t where v: "v = viewFrom k (RawURLEncoding bs)"
    and st: "stored s' = (stored s)(Hash (RawURLEncoding bs) \<mapsto> k)"
    and k: "k = (new_key (In_Name inp) (input_rank inp) (Hash (RawURLEncoding bs)) (In_Scopes inp) (In_ExpiresAt inp))
       \<lparr>ID := i, CreatedAt := t\<rparr>"
    by (rule CreateKey_success [OF assms(1-3)])
  have "inv s'" using CreateKey_frame [OF assms(1,2), of rd] assms(3) by simp
  then have "repo_GetByHash repo (Hash (RawURLEncoding bs)) s' = Inr k"
    using get_found assms(4) st by simp
  moreover have "KeyHash k = Hash (RawURLEncoding bs) \<and> RevokedAt k = None \<and> ExpiresAt k = In_ExpiresAt inp \<and>
    Name k = In_Name inp \<and> Scopes k = In_Scopes inp \<and> Rank k = input_rank inp"
    by (simp add: k)
  ultimately show ?thesis using v by (auto simp: viewFrom_def)
qed

lemma list_find:
  assumes "inv s" and "repo_List repo s = Inr ks" and "find (\<lambda>key. ID key = i) ks = Some k"
  shows "stored s (KeyHash k) = Some k \<and> ID k = i"
proof -
  have "k \<in> set ks" "ID k = i" using assms(3) by (auto simp: find_Some_iff)
  moreover from this obtain h where "stored s h = Some k" using list_sound [OF assms(1,2)] by (auto simp: ran_def)
  ultimately show ?thesis using stored_hash [OF assms(1)] by auto
qed

lemma list_find_none:
  assumes "inv s" and "repo_List repo s = Inr ks" and "find (\<lambda>key. ID key = i) ks = None"
  shows "stored s h = Some k \<Longrightarrow> ID k \<noteq> i"
  using assms list_sound [OF assms(1,2)] by (auto simp: find_None_iff ran_def)

lemma RotateKey_success:
  assumes "inv s" and "\<And>h k p. stored s h = Some k \<Longrightarrow> takes (input_key (replacement k) (Hash p)) s" and res: "RotateKey repo rd i s = (Inr v, s')"
  obtains h k k' where "stored s h = Some k" "ID k = i"
    "stored s (Hash (View_Key v)) = None"
    "stored s' = (stored s)(Hash (View_Key v) \<mapsto> k', h \<mapsto> k\<lparr>RevokedAt := Some (revoked_at rd)\<rparr>)"
    "v = viewFrom k' (View_Key v)" "Name k' = Name k" "Scopes k' = Scopes k" "ExpiresAt k' = ExpiresAt k"
    "Rank k' = input_rank (replacement k)" "RevokedAt k' = None" "RequestCount k' = 0"
proof -
  obtain ks k s1 u where ks: "repo_List repo s = Inr ks" and f: "find (\<lambda>key. ID key = i) ks = Some k"
    and cr: "CreateKey repo rd (replacement k) s = (Inr v, s1)"
    and rv: "repo_Revoke repo (revoked_at rd) i s1 = (Inr u, s')"
    using res by (auto simp: RotateKey_def replacement_def split: sum.splits option.splits prod.splits)
  have k: "stored s (KeyHash k) = Some k" "ID k = i" using list_find [OF assms(1) ks f] by blast+
  note takes = assms(2) [OF k(1)]
  obtain bs k' j t where v: "v = viewFrom k' (RawURLEncoding bs)"
    and none: "stored s (Hash (RawURLEncoding bs)) = None"
    and st: "stored s1 = (stored s)(Hash (RawURLEncoding bs) \<mapsto> k')"
    and k': "k' = (new_key (In_Name (replacement k)) (input_rank (replacement k)) (Hash (RawURLEncoding bs))
       (In_Scopes (replacement k)) (In_ExpiresAt (replacement k)))\<lparr>ID := j, CreatedAt := t\<rparr>"
    by (rule CreateKey_success [OF assms(1) takes cr])
  have inv1: "inv s1" using CreateKey_frame [OF assms(1) takes, of rd] cr by simp
  have "KeyHash k \<noteq> Hash (RawURLEncoding bs)" using k(1) none by auto
  then have k1: "stored s1 (KeyHash k) = Some k" using st k(1) by simp
  have "stored s' = (stored s1)(KeyHash k \<mapsto> k\<lparr>RevokedAt := Some (revoked_at rd)\<rparr>)"
    using revoke_id [OF inv1 k1] rv k(2) by blast
  then show ?thesis
    using that [of "KeyHash k" k k'] k none st v k' by (simp add: viewFrom_def replacement_def)
qed

lemma RotateKey_failure:
  assumes "inv s" and "\<And>h k p. stored s h = Some k \<Longrightarrow> takes (input_key (replacement k) (Hash p)) s" and "up s" and res: "RotateKey repo rd i s = (Inl e, s')"
  shows "stored s' = stored s"
proof -
  obtain ks where ks: "repo_List repo s = Inr ks" using list_up [OF assms(1,3)] by blast
  show ?thesis
  proof (cases "find (\<lambda>key. ID key = i) ks")
    case None
    then show ?thesis using res ks by (simp add: RotateKey_def)
  next
    case (Some k)
    have k: "stored s (KeyHash k) = Some k" "ID k = i" using list_find [OF assms(1) ks Some] by blast+
    note takes = assms(2) [OF k(1)]
    obtain r s1 where cr: "CreateKey repo rd (replacement k) s = (r, s1)" by fastforce
    show ?thesis
    proof (cases r)
      case (Inl e1)
      then have "s' = s1" using res ks Some cr by (simp add: RotateKey_def replacement_def)
      with CreateKey_fails [OF assms(1) takes assms(3)] cr Inl show ?thesis by blast
    next
      case (Inr v)
      have inv1: "inv s1" and le: "stored s \<subseteq>\<^sub>m stored s1"
        using CreateKey_frame [OF assms(1) takes, of rd] cr by simp_all
      have k1: "stored s1 (KeyHash k) = Some k" using le k(1) by (metis domI map_le_def)
      obtain bs where "valid_input (checked_at rd) (replacement k)" "entropy rd = Inr bs"
        "stored s (Hash (RawURLEncoding bs)) = None"
        using cr Inr by (auto elim: CreateKey_success [OF assms(1) takes])
      then have "up s1" using CreateKey_succeeds [OF assms(1) takes assms(3)] cr by fastforce
      from revoke_up [OF inv1 this k1, of "revoked_at rd"] k(2)
      show ?thesis using res ks Some cr Inr by (auto simp: RotateKey_def replacement_def)
    qed
  qed
qed

text \<open>
  What an interrupted rotation leaves behind: every key as it was, but possibly the old one revoked, and then
  a replacement is stored.
\<close>

lemma RotateKey_interrupted:
  assumes "inv s" and "\<And>h k p. stored s h = Some k \<Longrightarrow> takes (input_key (replacement k) (Hash p)) s"
    and res: "RotateKey repo rd i s = (r, s')" and k: "stored s h = Some k" and diff: "stored s' h \<noteq> Some k"
  shows "ID k = i \<and> stored s' h = Some (k\<lparr>RevokedAt := Some (revoked_at rd)\<rparr>) \<and>
    (\<exists>p k'. stored s (Hash p) = None \<and> stored s' (Hash p) = Some k' \<and> RevokedAt k' = None \<and> Name k' = Name k \<and>
      Scopes k' = Scopes k \<and> ExpiresAt k' = ExpiresAt k \<and> Rank k' = input_rank (replacement k) \<and>
      (\<forall>v. r = Inr v \<longrightarrow> View_Key v = p))"
proof -
  have "s' \<noteq> s" using k diff by auto
  then obtain ks k0 r1 s1 where ks: "repo_List repo s = Inr ks" and f: "find (\<lambda>key. ID key = i) ks = Some k0"
    and cr: "CreateKey repo rd (replacement k0) s = (r1, s1)"
    using res by (auto simp: RotateKey_def replacement_def split: sum.splits option.splits prod.splits)
  have k0: "stored s (KeyHash k0) = Some k0" "ID k0 = i" using list_find [OF assms(1) ks f] by blast+
  note takes = assms(2) [OF k0(1)]
  have inv1: "inv s1" and le: "stored s \<subseteq>\<^sub>m stored s1" using CreateKey_frame [OF assms(1) takes, of rd] cr by simp_all
  have k1: "stored s1 h = Some k" using le k by (metis domI map_le_def)
  have "r1 \<noteq> Inl e" for e using res ks f cr diff k1 by (auto simp: RotateKey_def replacement_def)
  then obtain v where v: "r1 = Inr v" by (cases r1) auto
  have s': "s' = snd (repo_Revoke repo (revoked_at rd) i s1)" and r: "\<forall>v'. r = Inr v' \<longrightarrow> v' = v"
    using res ks f cr v by (auto simp: RotateKey_def replacement_def split: prod.splits sum.splits)
  have hit: "ID k = i" "stored s' h = Some (k\<lparr>RevokedAt := Some (revoked_at rd)\<rparr>)"
    using revoke_frame [OF inv1, of "revoked_at rd" i h] diff k1 s' by auto
  have kk: "k = k0" using stored_by_id [OF assms(1) k k0(1)] hit(1) k0(2) by simp
  obtain bs k' j t where new: "v = viewFrom k' (RawURLEncoding bs)" "stored s (Hash (RawURLEncoding bs)) = None"
    "stored s1 = (stored s)(Hash (RawURLEncoding bs) \<mapsto> k')"
    "k' = (input_key (replacement k0) (Hash (RawURLEncoding bs)))\<lparr>ID := j, CreatedAt := t\<rparr>"
    using cr unfolding v by (rule CreateKey_success [OF assms(1) takes])
  have ne: "h \<noteq> Hash (RawURLEncoding bs)" using new(2) k by auto
  have "stored s1 (Hash (RawURLEncoding bs)) = Some k'" using new(3) by simp
  moreover from this have "ID k' \<noteq> i" using stored_by_id [OF inv1 k1, of _ k'] ne hit(1) by metis
  ultimately have "stored s' (Hash (RawURLEncoding bs)) = Some k'"
    using revoke_frame [OF inv1, of "revoked_at rd" i "Hash (RawURLEncoding bs)"] s' by fastforce
  moreover have "View_Key v = RawURLEncoding bs" using new(1) by (simp add: viewFrom_def)
  ultimately show ?thesis
    using hit new(2,4) kk r by (intro conjI exI [of _ "RawURLEncoding bs"] exI [of _ k']) (auto simp: replacement_def)
qed

lemma ListKeys_views:
  assumes "inv s" and "ListKeys repo s = Inr vs"
  shows "(\<forall>v\<in>set vs. View_Key v = [] \<and> (\<exists>h k. stored s h = Some k \<and> v = viewFrom k [])) \<and>
    (\<forall>h k. stored s h = Some k \<longrightarrow> viewFrom k [] \<in> set vs) \<and> sorted_wrt (<) (map View_ID vs)"
proof -
  obtain ks where ks: "repo_List repo s = Inr ks" and vs: "vs = map (\<lambda>key. viewFrom key []) ks"
    using assms(2) by (auto simp: ListKeys_def split: sum.splits)
  have "View_Key (viewFrom k []) = []" "View_ID (viewFrom k []) = ID k" for k by (simp_all add: viewFrom_def)
  then show ?thesis using list_sound [OF assms(1) ks] by (auto simp: vs ran_def comp_def)
qed

lemma register_seed_up:
  assumes "inv s" and "takes (seed_key_for p) s" and "up s"
  shows "\<exists>s'. register_seed repo now p s = (Inr (), s') \<and> inv s' \<and> up s' \<and> stored s \<subseteq>\<^sub>m stored s' \<and>
    dom (stored s') = insert (Hash p) (dom (stored s)) \<and>
    (stored s (Hash p) = None \<longrightarrow> (\<exists>k. stored s' (Hash p) = Some k \<and> Rank k = ''admin'' \<and>
       Scopes k = [''tw'', ''admin''] \<and> ExpiresAt k = None \<and> RevokedAt k = None \<and> Name k = ''bootstrap''))"
proof -
  let ?key = "new_key ''bootstrap'' ''admin'' (Hash p) [''tw'', ''admin''] None"
  note frame = create_inv [OF assms(1,2), of now] create_frame [OF assms(1,2), of now]
  show ?thesis
  proof (cases "stored s (Hash p)")
    case None
    then obtain k s' where cr: "repo_Create repo now ?key s = (Inr k, s')" "up s'"
      using create_up [OF assms, of now] by auto
    from create_sound [OF assms(1,2) unstored_new_key cr(1)] frame cr None
    show ?thesis by (auto simp: register_seed_def default_rank_def)
  next
    case (Some k)
    then obtain s' where cr: "repo_Create repo now ?key s = (Inl (Sentinel ErrConflict), s')"
      "stored s' = stored s" "up s'"
      using create_conflict [OF assms, of now] by auto
    with frame Some show ?thesis by (auto simp: register_seed_def)
  qed
qed

end

section \<open>Properties of the service on the in-memory store\<close>


definition sample_readings :: readings where
  "sample_readings = \<lparr>checked_at = 10, entropy = Inr (replicate 32 (CHR ''r'')), stored_at = 11, revoked_at = 12\<rparr>"

definition sample_input :: CreateApiKeyInput where
  "sample_input = \<lparr>In_Name = ''shop'', In_Rank = [], In_Scopes = [''tw''], In_ExpiresAt = Some 99\<rparr>"

lemma sample_input_valid: "valid_input (checked_at sample_readings) sample_input"
  by (simp add: valid_input_def sample_input_def sample_readings_def)


text \<open>
  C17: Rotation replaces a key atomically with respect to failures. If it succeeds, the key with that
  identity is revoked, a new key with the same name, scopes and expiry (and the same rank, \<^verbatim>\<open>member\<close> if it had
  none) is stored under the hash of the returned plaintext, unrevoked and with a zero usage count, and no
  other key changes; if it fails, no stored key has changed, so the old key stays usable.
\<close>

theorem RotateKey_replaces:
  assumes "keystore_inv s" and "nextID s < MaxInt64"
  shows "case RotateKey memory_repo rd i s of
      (Inr v, s') \<Rightarrow> \<exists>h k k'. map_of (keys s) h = Some k \<and> ID k = i \<and>
        map_of (keys s) (Hash (View_Key v)) = None \<and>
        map_of (keys s') = (map_of (keys s))(Hash (View_Key v) \<mapsto> k', h \<mapsto> k\<lparr>RevokedAt := Some (revoked_at rd)\<rparr>) \<and>
        Name k' = Name k \<and> Scopes k' = Scopes k \<and> ExpiresAt k' = ExpiresAt k \<and>
        Rank k' = (if Rank k = [] then ''member'' else Rank k) \<and> RevokedAt k' = None \<and> RequestCount k' = 0
    | (Inl e, s') \<Rightarrow> map_of (keys s') = map_of (keys s)"
proof (cases "RotateKey memory_repo rd i s")
  case (Pair r s')
  show ?thesis
  proof (cases r)
    case (Inl e)
    then show ?thesis using mks.RotateKey_failure [OF assms] Pair by simp
  next
    case (Inr v)
    with Pair have "RotateKey memory_repo rd i s = (Inr v, s')" by simp
    then obtain h k k' where k: "map_of (keys s) h = Some k" "ID k = i"
      "map_of (keys s) (Hash (View_Key v)) = None"
      "map_of (keys s') = (map_of (keys s))(Hash (View_Key v) \<mapsto> k', h \<mapsto> k\<lparr>RevokedAt := Some (revoked_at rd)\<rparr>)"
      "Name k' = Name k" "Scopes k' = Scopes k" "ExpiresAt k' = ExpiresAt k"
      "Rank k' = input_rank (replacement k)" "RevokedAt k' = None" "RequestCount k' = 0"
      by (rule mks.RotateKey_success [OF assms])
    moreover have "input_rank (replacement k) = (if Rank k = [] then ''member'' else Rank k)"
      by (simp add: input_rank_def replacement_def)
    ultimately show ?thesis unfolding Pair Inr prod.case sum.case
      by (intro exI [of _ h] exI [of _ k] exI [of _ k']) simp
  qed
qed

theorem RotateKey_replaces_witness:
  "\<exists>v s' k'. RotateKey memory_repo sample_readings 1 sample_store = (Inr v, s') \<and>
     map_of (keys s') (Hash (View_Key v)) = Some k' \<and> Scopes k' = [''tw'']"
proof -
  let ?k = "(sample_key ''a'')\<lparr>ID := 1\<rparr>"
  have "length (Hash p) \<noteq> length ''a''" for p by simp
  then have not_a: "Hash p \<noteq> ''a''" for p by metis
  have none: "map_of (keys sample_store) (Hash p) = None" for p
    using not_a [of p] by (simp add: sample_store_def)
  have room: "nextID sample_store < MaxInt64" by (simp add: sample_store_def)
  have "valid_input (checked_at sample_readings) (replacement ?k)" "entropy sample_readings = Inr (replicate 32 (CHR ''r''))"
    by (simp_all add: valid_input_def replacement_def sample_key_def sample_readings_def)
  from mks.CreateKey_succeeds [OF sample_store_inv room TrueI this none]
  obtain v s' where cr: "CreateKey memory_repo sample_readings (replacement ?k) sample_store = (Inr v, s')" by blast
  have inv': "keystore_inv s'" and le: "map_of (keys sample_store) \<subseteq>\<^sub>m map_of (keys s')"
    using mks.CreateKey_frame [OF sample_store_inv room, of sample_readings "replacement ?k"] cr by simp_all
  have "map_of (keys sample_store) ''a'' = Some ?k" by (simp add: sample_store_def)
  with le have "map_of (keys s') ''a'' = Some ?k" by (metis domI map_le_def)
  from mks.revoke_up [OF inv' TrueI this, of "revoked_at sample_readings"]
  obtain s2 where rv: "KeyStore_Revoke (revoked_at sample_readings) 1 s' = (Inr (), s2)" by auto
  have "KeyStore_List sample_store = Inr [?k]" by (simp add: KeyStore_List_def sample_store_def)
  then have rot: "RotateKey memory_repo sample_readings 1 sample_store = (Inr v, s2)"
    using cr rv by (simp add: RotateKey_def replacement_def)
  obtain h k k' where k: "map_of (keys sample_store) h = Some k" "map_of (keys sample_store) (Hash (View_Key v)) = None"
    and st: "map_of (keys s2) = (map_of (keys sample_store))(Hash (View_Key v) \<mapsto> k', h \<mapsto> k\<lparr>RevokedAt := Some (revoked_at sample_readings)\<rparr>)"
    and "Scopes k' = Scopes k"
    using RotateKey_replaces [OF sample_store_inv room, where rd = sample_readings and i = 1] rot by auto
  moreover have h: "h = ''a''" "k = ?k"
    using k(1) by (auto simp: sample_store_def split: if_splits)
  ultimately have "map_of (keys s2) (Hash (View_Key v)) = Some k'" "Scopes k' = [''tw'']"
    using not_a [of "View_Key v"] by (simp_all add: st sample_key_def)
  then show ?thesis using rot by blast
qed

text \<open>
  Listing never discloses a secret: every view returned by \<^verbatim>\<open>ListKeys\<close> has an empty key field (and no
  hash), the views are exactly those of the stored keys, and they come in strictly increasing
  identity order.
\<close>

theorem ListKeys_hides_keys:
  assumes "keystore_inv s"
  shows "\<exists>vs. ListKeys memory_repo s = Inr vs \<and> (\<forall>v\<in>set vs. View_Key v = []) \<and>
    set vs = (\<lambda>k. viewFrom k []) ` ran (map_of (keys s)) \<and> sorted_wrt (<) (map View_ID vs)"
proof -
  obtain vs where vs: "ListKeys memory_repo s = Inr vs"
    by (simp add: ListKeys_def KeyStore_List_def)
  from mks.ListKeys_views [OF assms vs] vs show ?thesis by (fastforce simp: ran_def)
qed

theorem ListKeys_hides_keys_witness:
  "\<exists>vs. ListKeys memory_repo sample_store = Inr vs \<and> (\<forall>v\<in>set vs. View_Key v = [])"
  using ListKeys_hides_keys [OF sample_store_inv] by blast

text \<open>
  A fixed bootstrap key is registered idempotently: after \<^verbatim>\<open>Bootstrap\<close> its hash is in the store and
  every key stored before is unchanged; if it was absent it becomes an unexpired, unrevoked admin key with
  both scopes; a second run (a restart) changes nothing at all. A key that was already there, a revoked
  one included, is left as it is.
\<close>

theorem Bootstrap_idempotent:
  assumes "keystore_inv s" and "nextID s < MaxInt64" and "p \<noteq> []"
  shows "\<exists>s'. Bootstrap memory_repo rd p s = (Inr (), s') \<and>
    map_of (keys s) \<subseteq>\<^sub>m map_of (keys s') \<and>
    dom (map_of (keys s')) = insert (Hash p) (dom (map_of (keys s))) \<and>
    (map_of (keys s) (Hash p) = None \<longrightarrow> (\<exists>k. map_of (keys s') (Hash p) = Some k \<and> Rank k = ''admin'' \<and>
       Scopes k = [''tw'', ''admin''] \<and> ExpiresAt k = None \<and> RevokedAt k = None)) \<and>
    Bootstrap memory_repo rd' p s' = (Inr (), s')"
proof (cases "map_of (keys s) (Hash p)")
  case None
  obtain s' where s': "register_seed memory_repo (stored_at rd) p s = (Inr (), s')" "keystore_inv s'"
    "map_of (keys s) \<subseteq>\<^sub>m map_of (keys s')" "dom (map_of (keys s')) = insert (Hash p) (dom (map_of (keys s)))"
    "\<exists>k. map_of (keys s') (Hash p) = Some k \<and> Rank k = ''admin'' \<and>
       Scopes k = [''tw'', ''admin''] \<and> ExpiresAt k = None \<and> RevokedAt k = None"
    using mks.register_seed_up [OF assms(1,2) TrueI, of "stored_at rd" p] None by blast
  have "Bootstrap memory_repo rd p s = (Inr (), s')"
    using assms(3) None s'(1) by (simp add: Bootstrap_def KeyStore_GetByHash_def)
  moreover have "Bootstrap memory_repo rd' p s' = (Inr (), s')"
    using assms(3) s'(5) by (auto simp: Bootstrap_def KeyStore_GetByHash_def)
  ultimately show ?thesis using s' by blast
next
  case (Some k)
  then have "Bootstrap memory_repo r p s = (Inr (), s)" for r
    using assms(3) by (simp add: Bootstrap_def KeyStore_GetByHash_def)
  with Some show ?thesis by auto
qed

theorem Bootstrap_idempotent_witness:
  "\<exists>s' k. Bootstrap memory_repo sample_readings ''seed'' NewKeyStore = (Inr (), s') \<and>
     map_of (keys s') (Hash ''seed'') = Some k \<and> Rank k = ''admin''"
proof -
  have "nextID NewKeyStore < MaxInt64" "map_of (keys NewKeyStore) (Hash ''seed'') = None"
    by (simp_all add: NewKeyStore_def)
  with Bootstrap_idempotent [OF keystore_inv_New, of "''seed''" sample_readings sample_readings]
  show ?thesis by auto
qed

section \<open>Every key the service ever stores is well formed\<close>

definition wf_key :: "ApiKey \<Rightarrow> bool" where
  "wf_key k \<longleftrightarrow>
     0 < length (Name k) \<and> length (Name k) \<le> 64 \<and> Scopes k \<noteq> [] \<and> set (Scopes k) \<subseteq> {''tw'', ''admin''} \<and>
     Rank k \<in> {''member'', ''partner'', ''admin''} \<and> length (KeyHash k) = 64"

definition keys_ok :: "KeyStore \<Rightarrow> bool" where
  "keys_ok s \<longleftrightarrow> keystore_inv s \<and> (\<forall>k \<in> ran (map_of (keys s)). wf_key k)"

text \<open>The mutating calls the program makes: the handlers, the bootstrap and the usage recorder.\<close>

datatype key_call =
    CallCreate readings CreateApiKeyInput
  | CallRevoke time int
  | CallRotate readings int
  | CallBootstrap readings string
  | CallTouch time int

fun do_key_call :: "key_call \<Rightarrow> KeyStore \<Rightarrow> KeyStore" where
  "do_key_call (CallCreate rd inp) s = snd (CreateKey memory_repo rd inp s)"
| "do_key_call (CallRevoke now i) s = snd (RevokeKey memory_repo now i s)"
| "do_key_call (CallRotate rd i) s = snd (RotateKey memory_repo rd i s)"
| "do_key_call (CallBootstrap rd p) s = snd (Bootstrap memory_repo rd p s)"
| "do_key_call (CallTouch now i) s = snd (KeyStore_Touch now i s)"

text \<open>Every call is at most one \<^verbatim>\<open>Create\<close> of a well-formed key followed by \<^verbatim>\<open>Revoke\<close> or \<^verbatim>\<open>Touch\<close>.\<close>

definition wf_op :: "store_op \<Rightarrow> bool" where
  "wf_op op = (case op of OpCreate now key \<Rightarrow> wf_key key | _ \<Rightarrow> True)"

text \<open>An operation that counts no use: \<^verbatim>\<open>Revoke\<close>, or \<^verbatim>\<open>Create\<close> of a key as the service builds it.\<close>

definition fresh_op :: "store_op \<Rightarrow> bool" where
  "fresh_op op = (case op of OpCreate now key \<Rightarrow> unstored key | OpRevoke now i \<Rightarrow> True | OpTouch now i \<Rightarrow> False)"

fun is_touch :: "key_call \<Rightarrow> bool" where
  "is_touch (CallTouch now i) = True"
| "is_touch _ = False"

lemma exec_op_keys_ok:
  assumes ok: "keys_ok s" and room: "nextID s < MaxInt64" and wf: "wf_op op"
  shows "keys_ok (exec_op op s)"
proof (cases op)
  case (OpCreate now key)
  then have wk: "wf_key key" using wf by (simp add: wf_op_def)
  have inv: "keystore_inv s" using ok by (simp add: keys_ok_def)
  have wf': "wf_key ((default_rank key)\<lparr>ID := i, CreatedAt := t\<rparr>)" for i t
    using wk by (auto simp: wf_key_def default_rank_def)
  have "\<forall>k \<in> ran (map_of (keys (exec_op op s))). wf_key k"
  proof (cases "map_of (keys s) (KeyHash key)")
    case None
    then have "map_of (keys (exec_op op s)) =
      (map_of (keys s))(KeyHash key \<mapsto> (default_rank key)\<lparr>ID := nextID s, CreatedAt := now\<rparr>)"
      using OpCreate by (simp add: KeyStore_Create_new Let_def)
    then show ?thesis using ok wf' None by (simp add: keys_ok_def ran_def) (metis option.inject)
  qed (use OpCreate ok in \<open>auto simp: KeyStore_Create_def keys_ok_def\<close>)
  then show ?thesis using mks.create_inv [OF inv room, of now key] OpCreate by (simp add: keys_ok_def)
next
  case (OpRevoke now i)
  have inv: "keystore_inv s" using ok by (simp add: keys_ok_def)
  have "wf_key (k\<lparr>RevokedAt := t\<rparr>) = wf_key k" for k t by (simp add: wf_key_def)
  then show ?thesis
    using OpRevoke ok mks.revoke_inv [OF inv, of now i]
    by (rule_tac KeyStore_Revoke_cases [OF inv, of i now]) (auto simp: keys_ok_def ran_def split: if_splits)
next
  case (OpTouch now i)
  have inv: "keystore_inv s" using ok by (simp add: keys_ok_def)
  have "wf_key (k\<lparr>LastUsedAt := t, RequestCount := n\<rparr>) = wf_key k" for k t n by (simp add: wf_key_def)
  then show ?thesis
    using OpTouch ok mks.touch_inv [OF inv, of now i]
    by (rule_tac KeyStore_Touch_cases [OF inv, of i now]) (auto simp: keys_ok_def ran_def split: if_splits)
qed

lemma CreateKey_as_ops:
  "\<exists>ops. snd (CreateKey memory_repo rd inp s) = fold exec_op ops s \<and> list_all wf_op ops \<and> list_all fresh_op ops \<and> length ops \<le> 1"
proof (cases "valid_input (checked_at rd) inp \<and> (\<exists>bs. entropy rd = Inr bs)")
  case True
  then obtain bs where bs: "entropy rd = Inr bs" by blast
  let ?op = "OpCreate (stored_at rd) (new_key (In_Name inp) (input_rank inp) (Hash (RawURLEncoding bs)) (In_Scopes inp) (In_ExpiresAt inp))"
  have "wf_op ?op" "fresh_op ?op"
    using True by (auto simp: wf_op_def wf_key_def valid_input_def input_rank_def fresh_op_def)
  moreover have "snd (CreateKey memory_repo rd inp s) = exec_op ?op s"
    using True bs by (auto simp: mks.CreateKey_valid split: sum.splits prod.splits)
  ultimately show ?thesis by (intro exI [of _ "[?op]"]) simp
next
  case False
  then have "snd (CreateKey memory_repo rd inp s) = s"
  proof (cases "valid_input (checked_at rd) inp")
    case True
    with False obtain e where "entropy rd = Inl e" by (cases "entropy rd") auto
    then show ?thesis using mks.CreateKey_valid [OF True] by simp
  qed (use mks.CreateKey_invalid [of rd inp s] in auto)
  then show ?thesis by (intro exI [of _ "[]"]) simp
qed

lemma do_key_call_as_ops:
  "\<exists>ops. do_key_call c s = fold exec_op ops s \<and> list_all wf_op ops \<and>
     (\<not> is_touch c \<longrightarrow> list_all fresh_op ops) \<and> length ops \<le> 2"
proof (cases c)
  case (CallCreate rd inp)
  with CreateKey_as_ops [of rd inp s] show ?thesis by auto
next
  case (CallRevoke now i)
  then have "do_key_call c s = fold exec_op [OpRevoke now i] s"
    by (auto simp: RevokeKey_def split: sum.splits prod.splits)
  then show ?thesis by (intro exI [of _ "[OpRevoke now i]"]) (simp add: wf_op_def fresh_op_def)
next
  case (CallRotate rd i)
  obtain ks where ks: "KeyStore_List s = Inr ks" by (simp add: KeyStore_List_def)
  show ?thesis
  proof (cases "find (\<lambda>key. ID key = i) ks")
    case None
    then show ?thesis using CallRotate ks by (intro exI [of _ "[]"]) (simp add: RotateKey_def)
  next
    case (Some k)
    obtain ops where ops: "snd (CreateKey memory_repo rd (replacement k) s) = fold exec_op ops s"
      "list_all wf_op ops" "list_all fresh_op ops" "length ops \<le> 1" using CreateKey_as_ops by blast
    have "do_key_call c s = fold exec_op ops s \<or> do_key_call c s = fold exec_op (ops @ [OpRevoke (revoked_at rd) i]) s"
      using CallRotate ks Some ops(1) by (auto simp: RotateKey_def replacement_def split: sum.splits prod.splits)
    moreover have "list_all wf_op (ops @ [OpRevoke (revoked_at rd) i])" "list_all fresh_op (ops @ [OpRevoke (revoked_at rd) i])"
      using ops(2,3) by (simp_all add: wf_op_def fresh_op_def)
    ultimately show ?thesis
    proof (elim disjE)
      assume "do_key_call c s = fold exec_op ops s"
      then show ?thesis using ops by (intro exI [of _ ops]) simp
    next
      assume "list_all wf_op (ops @ [OpRevoke (revoked_at rd) i])" "list_all fresh_op (ops @ [OpRevoke (revoked_at rd) i])"
        and "do_key_call c s = fold exec_op (ops @ [OpRevoke (revoked_at rd) i]) s"
      then show ?thesis using ops by (intro exI [of _ "ops @ [OpRevoke (revoked_at rd) i]"]) simp
    qed
  qed
next
  case (CallBootstrap rd p)
  have "\<exists>ops. snd (register_seed memory_repo now q s) = fold exec_op ops s \<and> list_all wf_op ops \<and>
     list_all fresh_op ops \<and> length ops \<le> 2" for now q
  proof -
    let ?op = "OpCreate now (new_key ''bootstrap'' ''admin'' (Hash q) [''tw'', ''admin''] None)"
    have "snd (register_seed memory_repo now q s) = exec_op ?op s"
      by (auto simp: register_seed_def split: sum.splits prod.splits)
    moreover have "wf_op ?op" "fresh_op ?op" by (simp_all add: wf_op_def wf_key_def fresh_op_def)
    ultimately show ?thesis by (intro exI [of _ "[?op]"]) simp
  qed
  moreover have "\<exists>ops. s = fold exec_op ops s \<and> list_all wf_op ops \<and> list_all fresh_op ops \<and> length ops \<le> 2" by (intro exI [of _ "[]"]) simp
  moreover have "do_key_call c s = s \<or> (\<exists>now q. do_key_call c s = snd (register_seed memory_repo now q s))"
    using CallBootstrap by (auto simp: Bootstrap_def split: sum.splits)
  ultimately show ?thesis by metis
next
  case (CallTouch now i)
  then show ?thesis by (intro exI [of _ "[OpTouch now i]"]) (simp add: wf_op_def)
qed

lemma fold_exec_keys_ok:
  assumes "keys_ok s" and "nextID s + int (length ops) \<le> MaxInt64" and "list_all wf_op ops"
  shows "keys_ok (fold exec_op ops s)"
  using assms
proof (induction ops arbitrary: s)
  case (Cons op ops)
  have inv: "keystore_inv s" and room: "nextID s < MaxInt64" using Cons.prems by (simp_all add: keys_ok_def)
  have "nextID (exec_op op s) + int (length ops) \<le> MaxInt64"
    using exec_op_nextID [OF inv room, of op] Cons.prems(2) by simp
  with Cons exec_op_keys_ok [OF Cons.prems(1) room] show ?case by simp
qed simp

lemma do_key_call_keys_ok:
  assumes "keys_ok s" and "nextID s + 2 \<le> MaxInt64"
  shows "keys_ok (do_key_call c s) \<and> nextID (do_key_call c s) \<le> nextID s + 2"
proof -
  obtain ops where ops: "do_key_call c s = fold exec_op ops s" "list_all wf_op ops" "length ops \<le> 2"
    using do_key_call_as_ops by blast
  have "nextID s + int (length ops) \<le> MaxInt64" using assms(2) ops(3) by linarith
  moreover from this have "nextID (fold exec_op ops s) \<le> nextID s + int (length ops)"
    using fold_exec_inv assms(1) by (auto simp: keys_ok_def)
  ultimately show ?thesis using fold_exec_keys_ok [OF assms(1)] ops by auto
qed

text \<open>
  C40: Whatever sequence of calls the program makes on the in-memory store from its start (creations with
  any input, revocations, rotations, bootstraps, usage recordings, in any order, up to \<open>2^62 - 1\<close> of them),
  every stored key has a name of 1 to 64 bytes, a non-empty list of known scopes, a known rank and a hash of
  64 characters, and the two indexes of the store agree.
\<close>

theorem KeyService_keys_wellformed:
  assumes "2 * int (length cs) < MaxInt64"
  shows "keys_ok (fold do_key_call cs NewKeyStore)"
proof -
  have "keys_ok (fold do_key_call cs s) " if "keys_ok s" "nextID s + 2 * int (length cs) \<le> MaxInt64" for s
    using that
  proof (induction cs arbitrary: s)
    case (Cons c cs)
    then show ?case using do_key_call_keys_ok [of s c] by simp
  qed simp
  moreover have "keys_ok NewKeyStore" "nextID NewKeyStore = 1"
    using keystore_inv_New by (simp_all add: keys_ok_def NewKeyStore_def)
  ultimately show ?thesis using assms by simp
qed

theorem KeyService_keys_wellformed_witness:
  "keys_ok (fold do_key_call [CallBootstrap sample_readings ''seed'', CallCreate sample_readings sample_input,
     CallTouch 12 1, CallRotate sample_readings 2, CallRevoke 13 1] NewKeyStore)"
  by (rule KeyService_keys_wellformed) simp

end
