(* ===== verification/Regexp.thy ===== *)
theory Regexp
  imports Prelude
begin

text \<open>
  The regular expressions of the program (\<^verbatim>\<open>regexp.MustCompile\<close> of patterns anchored at both ends)
  as data: byte classes, concatenation, alternatives and repetition. \<open>MatchString\<close> decides
  membership by derivatives and is executable; \<open>lang\<close> is the language the pattern denotes, and
  \<open>MatchString_lang\<close> says the two agree. The three patterns of the program use classes with
  one-byte members, so matching runes and matching bytes coincide on them.
\<close>

datatype regex =
    Empty
  | Eps
  | Cls "(char \<times> char) list" \<comment> \<open>a class of byte ranges such as \<^verbatim>\<open>[A-Za-z0-9]\<close>\<close>
  | Cat regex regex
  | Alt regex regex
  | Star regex

definition in_cls :: "(char \<times> char) list \<Rightarrow> char \<Rightarrow> bool" where
  "in_cls rs c \<longleftrightarrow> list_ex (\<lambda>(lo, hi). (of_char lo :: nat) \<le> of_char c \<and> (of_char c :: nat) \<le> of_char hi) rs"

definition Lit :: "char \<Rightarrow> regex" where
  "Lit c = Cls [(c, c)]"

definition Opt :: "regex \<Rightarrow> regex" where
  "Opt r = Alt Eps r"

definition Plus :: "regex \<Rightarrow> regex" where
  "Plus r = Cat r (Star r)"

fun Pow :: "regex \<Rightarrow> nat \<Rightarrow> regex" where
  "Pow r 0 = Eps"
| "Pow r (Suc n) = Cat r (Pow r n)"

fun UpTo :: "regex \<Rightarrow> nat \<Rightarrow> regex" where
  "UpTo r 0 = Eps"
| "UpTo r (Suc n) = Opt (Cat r (UpTo r n))"

text \<open>The bounded repetition \<^verbatim>\<open>r{m,n}\<close>.\<close>

definition Rep :: "regex \<Rightarrow> nat \<Rightarrow> nat \<Rightarrow> regex" where
  "Rep r m n = Cat (Pow r m) (UpTo r (n - m))"

section \<open>Matching by derivatives\<close>

fun nullable :: "regex \<Rightarrow> bool" where
  "nullable Empty = False"
| "nullable Eps = True"
| "nullable (Cls rs) = False"
| "nullable (Cat r s) = (nullable r \<and> nullable s)"
| "nullable (Alt r s) = (nullable r \<or> nullable s)"
| "nullable (Star r) = True"

fun deriv :: "char \<Rightarrow> regex \<Rightarrow> regex" where
  "deriv c Empty = Empty"
| "deriv c Eps = Empty"
| "deriv c (Cls rs) = (if in_cls rs c then Eps else Empty)"
| "deriv c (Cat r s) = (if nullable r then Alt (Cat (deriv c r) s) (deriv c s) else Cat (deriv c r) s)"
| "deriv c (Alt r s) = Alt (deriv c r) (deriv c s)"
| "deriv c (Star r) = Cat (deriv c r) (Star r)"

definition MatchString :: "regex \<Rightarrow> string \<Rightarrow> bool" where
  "MatchString r s = nullable (foldl (\<lambda>r c. deriv c r) r s)"

section \<open>The language of a pattern\<close>

primrec lang :: "regex \<Rightarrow> string set" where
  "lang Empty = {}"
| "lang Eps = {[]}"
| "lang (Cls rs) = {[c] | c. in_cls rs c}"
| "lang (Cat r s) = {u @ v | u v. u \<in> lang r \<and> v \<in> lang s}"
| "lang (Alt r s) = lang r \<union> lang s"
| "lang (Star r) = {concat ws | ws. set ws \<subseteq> lang r}"

lemma nullable_lang: "nullable r \<longleftrightarrow> [] \<in> lang r"
proof (induction r)
  case (Star r)
  have "set [] \<subseteq> lang r" by simp
  then show ?case by (force intro: exI [of _ "[]"])
qed auto

lemma Cons_concatD:
  assumes "c # s = concat ws" and "set ws \<subseteq> A"
  shows "\<exists>u vs. s = u @ concat vs \<and> c # u \<in> A \<and> set vs \<subseteq> A"
  using assms
proof (induction ws)
  case (Cons w ws)
  then show ?case by (cases w) auto
qed simp

lemma Cons_in_Star: "c # s \<in> lang (Star r) \<longleftrightarrow> (\<exists>u v. s = u @ v \<and> c # u \<in> lang r \<and> v \<in> lang (Star r))"
proof
  assume "c # s \<in> lang (Star r)"
  then obtain ws where "c # s = concat ws" and "set ws \<subseteq> lang r" by auto
  then obtain u vs where "s = u @ concat vs" "c # u \<in> lang r" "set vs \<subseteq> lang r"
    using Cons_concatD by meson
  moreover from this have "concat vs \<in> lang (Star r)" by auto
  ultimately show "\<exists>u v. s = u @ v \<and> c # u \<in> lang r \<and> v \<in> lang (Star r)" by blast
next
  assume "\<exists>u v. s = u @ v \<and> c # u \<in> lang r \<and> v \<in> lang (Star r)"
  then obtain u ws where "s = u @ concat ws" "c # u \<in> lang r" "set ws \<subseteq> lang r" by auto
  then have "c # s = concat ((c # u) # ws)" and "set ((c # u) # ws) \<subseteq> lang r" by simp_all
  then show "c # s \<in> lang (Star r)" unfolding lang.simps by blast
qed

lemma deriv_lang: "s \<in> lang (deriv c r) \<longleftrightarrow> c # s \<in> lang r"
proof (induction r arbitrary: s)
  case (Cat r1 r2)
  show ?case
    by (auto simp: Cat.IH nullable_lang Cons_eq_append_conv)
next
  case (Star r)
  have "s \<in> lang (deriv c (Star r)) \<longleftrightarrow> (\<exists>u v. s = u @ v \<and> c # u \<in> lang r \<and> v \<in> lang (Star r))"
    by (auto simp: Star.IH)
  then show ?case by (simp only: Cons_in_Star)
qed auto

lemma MatchString_lang: "MatchString r s \<longleftrightarrow> s \<in> lang r"
  unfolding MatchString_def
  by (induction s arbitrary: r) (simp_all add: nullable_lang deriv_lang)

section \<open>Repeated classes\<close>

lemma lang_Cat_Cls:
  "s \<in> lang (Cat (Cls rs) r) \<longleftrightarrow> (\<exists>c t. s = c # t \<and> in_cls rs c \<and> t \<in> lang r)"
proof
  assume "\<exists>c t. s = c # t \<and> in_cls rs c \<and> t \<in> lang r"
  then obtain c t where "s = [c] @ t" "[c] \<in> lang (Cls rs)" "t \<in> lang r" by auto
  then show "s \<in> lang (Cat (Cls rs) r)" unfolding lang.simps(4) by blast
qed auto

lemma lang_Pow_Cls: "lang (Pow (Cls rs) n) = {s. length s = n \<and> list_all (in_cls rs) s}"
proof (induction n)
  case (Suc n)
  show ?case
  proof (intro set_eqI)
    fix s
    show "s \<in> lang (Pow (Cls rs) (Suc n)) \<longleftrightarrow> s \<in> {s. length s = Suc n \<and> list_all (in_cls rs) s}"
      using Suc by (cases s) (auto simp: lang_Cat_Cls simp del: lang.simps)
  qed
qed auto

lemma lang_UpTo_Cls: "lang (UpTo (Cls rs) n) = {s. length s \<le> n \<and> list_all (in_cls rs) s}"
proof (induction n)
  case (Suc n)
  show ?case
  proof (intro set_eqI)
    fix s
    show "s \<in> lang (UpTo (Cls rs) (Suc n)) \<longleftrightarrow> s \<in> {s. length s \<le> Suc n \<and> list_all (in_cls rs) s}"
      using Suc by (cases s) (auto simp: Opt_def lang_Cat_Cls simp del: lang.simps(4))
  qed
qed auto

lemma lang_Rep_Cls:
  assumes "m \<le> n"
  shows "lang (Rep (Cls rs) m n) = {s. m \<le> length s \<and> length s \<le> n \<and> list_all (in_cls rs) s}"
proof (intro set_eqI iffI)
  fix s
  assume "s \<in> lang (Rep (Cls rs) m n)"
  then show "s \<in> {s. m \<le> length s \<and> length s \<le> n \<and> list_all (in_cls rs) s}"
    using assms by (auto simp: Rep_def lang_Pow_Cls lang_UpTo_Cls)
next
  fix s
  assume s: "s \<in> {s. m \<le> length s \<and> length s \<le> n \<and> list_all (in_cls rs) s}"
  then have "take m s \<in> lang (Pow (Cls rs) m)" and "drop m s \<in> lang (UpTo (Cls rs) (n - m))"
    by (auto simp: lang_Pow_Cls lang_UpTo_Cls list_all_iff dest: in_set_takeD in_set_dropD)
  moreover have "s = take m s @ drop m s" by simp
  ultimately show "s \<in> lang (Rep (Cls rs) m n)" unfolding Rep_def lang.simps by blast
qed

lemma lang_Star_Cls: "lang (Star (Cls rs)) = {s. list_all (in_cls rs) s}"
proof (intro set_eqI iffI)
  fix s
  assume "s \<in> lang (Star (Cls rs))"
  then show "s \<in> {s. list_all (in_cls rs) s}" by (fastforce simp: list_all_iff)
next
  fix s
  assume "s \<in> {s. list_all (in_cls rs) s}"
  then have "s = concat (map (\<lambda>c. [c]) s) \<and> set (map (\<lambda>c. [c]) s) \<subseteq> lang (Cls rs)"
    by (auto simp: list_all_iff)
  then show "s \<in> lang (Star (Cls rs))" unfolding lang.simps by blast
qed

lemma lang_Plus_Cls: "lang (Plus (Cls rs)) = {s. s \<noteq> [] \<and> list_all (in_cls rs) s}"
proof (intro set_eqI)
  fix s
  show "s \<in> lang (Plus (Cls rs)) \<longleftrightarrow> s \<in> {s. s \<noteq> [] \<and> list_all (in_cls rs) s}"
    by (cases s) (simp_all add: Plus_def lang_Cat_Cls lang_Star_Cls del: lang.simps)
qed

lemma lang_Lit: "lang (Lit c) = {[c]}"
proof -
  have "(of_char c :: nat) = of_char d \<longleftrightarrow> c = d" for d by simp
  then show ?thesis by (auto simp: Lit_def in_cls_def dest: order_antisym)
qed

end
