(* ===== verification/Net_Url.thy ===== *)
theory Net_Url
  imports Go_Strings
begin

text \<open>
  The parts of Go's \<^verbatim>\<open>net/url\<close> that the program calls: \<^verbatim>\<open>url.Parse\<close> on links that start with
  \<^verbatim>\<open>http://\<close> or \<^verbatim>\<open>https://\<close> (the program tests the prefix before every call), \<^verbatim>\<open>Query().Get\<close>,
  \<^verbatim>\<open>PathEscape\<close> and \<^verbatim>\<open>PathUnescape\<close>; and what parsing a request does to its path. \<open>None\<close> stands for an error; the program only tests for one.
  Whether the text between square brackets is an IPv6 address (\<^verbatim>\<open>netip.ParseAddr\<close>) is the argument
  \<open>is_ipv6\<close> of the functions that ask for it; nothing is assumed about it. The limit on the number
  of query parameters is not modelled: a link of at most 2048 bytes stays far below it.
\<close>

datatype encoding =
    encodePath | encodePathSegment | encodeHost | encodeZone
  | encodeUserPassword | encodeQueryComponent | encodeFragment

definition is_alnum :: "char \<Rightarrow> bool" where
  "is_alnum c \<longleftrightarrow>
     (let n = (of_char c :: nat)
      in 97 \<le> n \<and> n \<le> 122 \<or> 65 \<le> n \<and> n \<le> 90 \<or> 48 \<le> n \<and> n \<le> 57)"

definition host_extra :: string where
  "host_extra = ''!$&()*+,;=:[]<>'' @ [CHR 0x27, CHR 0x22]"

definition shouldEscape :: "char \<Rightarrow> encoding \<Rightarrow> bool" where
  "shouldEscape c mode =
     (if is_alnum c then False
      else if (mode = encodeHost \<or> mode = encodeZone) \<and> c \<in> set host_extra then False
      else if c \<in> set ''-_.~'' then False
      else if c \<in> set ''$&+,/:;=?@'' \<and> mode \<noteq> encodeHost \<and> mode \<noteq> encodeZone then
        (case mode of
           encodePath \<Rightarrow> c = CHR ''?''
         | encodePathSegment \<Rightarrow> c \<in> set ''/;,?''
         | encodeUserPassword \<Rightarrow> c \<in> set ''@/?:''
         | encodeQueryComponent \<Rightarrow> True
         | _ \<Rightarrow> False)
      else if mode = encodeFragment \<and> c \<in> set ''!()*'' then False
      else True)"

text \<open>Hexadecimal digits: \<^verbatim>\<open>unhex\<close>, with \<open>None\<close> where \<^verbatim>\<open>ishex\<close> fails.\<close>

definition unhex :: "char \<Rightarrow> nat option" where
  "unhex c =
     (let n = (of_char c :: nat)
      in if 48 \<le> n \<and> n \<le> 57 then Some (n - 48)
         else if 97 \<le> n \<and> n \<le> 102 then Some (n - 97 + 10)
         else if 65 \<le> n \<and> n \<le> 70 then Some (n - 65 + 10)
         else None)"

definition upperhex :: "nat \<Rightarrow> char" where
  "upperhex n = (if n < 10 then char_of (48 + n) else char_of (55 + n))"

text \<open>
  The escape \<open>%ab\<close> in a mode: the byte it stands for. In a host only bytes outside ASCII and the
  percent sign may be escaped; in a zone also a space and what a host may contain.
\<close>

definition unescape_hex :: "encoding \<Rightarrow> char \<Rightarrow> char \<Rightarrow> char option" where
  "unescape_hex mode a b =
     (case (unhex a, unhex b) of
        (Some x, Some y) \<Rightarrow>
          let v = char_of (16 * x + y)
          in if mode = encodeHost \<and> x < 8 \<and> \<not> (a = CHR ''2'' \<and> b = CHR ''5'') then None
             else if mode = encodeZone \<and> \<not> (a = CHR ''2'' \<and> b = CHR ''5'') \<and> v \<noteq> CHR '' ''
               \<and> shouldEscape v encodeHost then None
             else Some v
      | _ \<Rightarrow> None)"

fun unescape :: "encoding \<Rightarrow> string \<Rightarrow> string option" where
  "unescape mode [] = Some []"
| "unescape mode (c # cs) =
     (if c = CHR ''%'' then
        (case cs of
           a # b # rest \<Rightarrow>
             (case unescape_hex mode a b of
                Some v \<Rightarrow> map_option (\<lambda>r. v # r) (unescape mode rest)
              | None \<Rightarrow> None)
         | _ \<Rightarrow> None)
      else if c = CHR ''+'' then
        map_option (\<lambda>r. (if mode = encodeQueryComponent then CHR '' '' else c) # r) (unescape mode cs)
      else if (mode = encodeHost \<or> mode = encodeZone) \<and> (of_char c :: nat) < 128 \<and> shouldEscape c mode then None
      else map_option (\<lambda>r. c # r) (unescape mode cs))"

definition escape_byte :: "encoding \<Rightarrow> char \<Rightarrow> string" where
  "escape_byte mode c =
     (if c = CHR '' '' \<and> mode = encodeQueryComponent then ''+''
      else if shouldEscape c mode
        then [CHR ''%'', upperhex (of_char c div 16), upperhex (of_char c mod 16)]
      else [c])"

definition escape :: "encoding \<Rightarrow> string \<Rightarrow> string" where
  "escape mode s = concat (map (escape_byte mode) s)"

definition PathEscape :: "string \<Rightarrow> string" where
  "PathEscape s = escape encodePathSegment s"

definition PathUnescape :: "string \<Rightarrow> string option" where
  "PathUnescape s = unescape encodePathSegment s"

definition QueryUnescape :: "string \<Rightarrow> string option" where
  "QueryUnescape s = unescape encodeQueryComponent s"

section \<open>Parsing a link\<close>

record URL =
  Host :: string
  RawQuery :: string

definition validOptionalPort :: "string \<Rightarrow> bool" where
  "validOptionalPort port \<longleftrightarrow> port = [] \<or> hd port = CHR '':'' \<and> list_all is_digit (tl port)"

definition validUserinfo :: "string \<Rightarrow> bool" where
  "validUserinfo s = list_all (\<lambda>c. is_alnum c \<or> c \<in> set (''-._:~!$&()*+,;=%@'' @ [CHR 0x27])) s"

text \<open>The first occurrence of \<^verbatim>\<open>%25\<close>, where the zone of a scoped IPv6 address starts.\<close>

fun split_zone :: "string \<Rightarrow> string \<times> string" where
  "split_zone [] = ([], [])"
| "split_zone (c # cs) =
     (if HasPrefix (c # cs) ''%25'' then ([], c # cs)
      else let (h, z) = split_zone cs in (c # h, z))"

definition parseHost :: "(string \<Rightarrow> bool) \<Rightarrow> string \<Rightarrow> string option" where
  "parseHost is_ipv6 host =
     (case LastIndexByte host (CHR ''['') of
        Some open_idx \<Rightarrow>
          if open_idx > 0 then None
          else
            (case LastIndexByte host (CHR '']'') of
               None \<Rightarrow> None
             | Some close_idx \<Rightarrow>
                 let colonPort = drop (Suc close_idx) host;
                     (h, z) = split_zone (take (close_idx - 1) (drop 1 host))
                 in if \<not> validOptionalPort colonPort then None
                    else
                      (case (unescape encodeHost colonPort, unescape encodeHost h, unescape encodeZone z) of
                         (Some port', Some h', Some z') \<Rightarrow>
                           if is_ipv6 (h' @ z') then Some (''['' @ h' @ z' @ '']'' @ port') else None
                       | _ \<Rightarrow> None))
      | None \<Rightarrow>
          (case IndexByte host (CHR '':'') of
             Some i \<Rightarrow> if validOptionalPort (drop i host) then unescape encodeHost host else None
           | None \<Rightarrow> unescape encodeHost host))"

text \<open>The user information has to be valid, but the program does not read it.\<close>

definition userinfo_ok :: "string \<Rightarrow> bool" where
  "userinfo_ok userinfo \<longleftrightarrow>
     validUserinfo userinfo \<and>
     (let (username, password, _) = Cut userinfo (CHR '':'')
      in unescape encodeUserPassword username \<noteq> None \<and> unescape encodeUserPassword password \<noteq> None)"

definition parseAuthority :: "(string \<Rightarrow> bool) \<Rightarrow> string \<Rightarrow> string option" where
  "parseAuthority is_ipv6 authority =
     (case LastIndexByte authority (CHR ''@'') of
        None \<Rightarrow> parseHost is_ipv6 authority
      | Some i \<Rightarrow>
          (case parseHost is_ipv6 (drop (Suc i) authority) of
             None \<Rightarrow> None
           | Some host \<Rightarrow> if userinfo_ok (take i authority) then Some host else None))"

definition ContainsCTLByte :: "string \<Rightarrow> bool" where
  "ContainsCTLByte s = list_ex (\<lambda>c. (of_char c :: nat) < 32 \<or> (of_char c :: nat) = 127) s"

text \<open>
  \<^verbatim>\<open>url.Parse\<close> of a link whose scheme is \<^verbatim>\<open>http\<close> or \<^verbatim>\<open>https\<close> followed by \<^verbatim>\<open>://\<close>: the fragment is cut off,
  the rest is split into query, authority and path, and the path and the fragment must decode.
\<close>

definition Parse :: "(string \<Rightarrow> bool) \<Rightarrow> string \<Rightarrow> URL option" where
  "Parse is_ipv6 rawURL =
     (let (u, fragment, _) = Cut rawURL (CHR ''#'')
      in if ContainsCTLByte u then None
         else
           let rest = (if HasPrefix u ''https://'' then drop 8 u else drop 7 u);
               (rest, query, _) = Cut rest (CHR ''?'');
               (authority, path) =
                 (case IndexByte rest (CHR ''/'') of
                    Some i \<Rightarrow> (take i rest, drop i rest)
                  | None \<Rightarrow> (rest, []))
           in case parseAuthority is_ipv6 authority of
                None \<Rightarrow> None
              | Some host \<Rightarrow>
                  if unescape encodePath path = None then None
                  else if unescape encodeFragment fragment = None then None
                  else Some \<lparr>Host = host, RawQuery = query\<rparr>)"

section \<open>The query\<close>

fun split_amp :: "string \<Rightarrow> string list" where
  "split_amp [] = [[]]"
| "split_amp (c # cs) =
     (if c = CHR ''&'' then [] # split_amp cs
      else case split_amp cs of [] \<Rightarrow> [[c]] | s # ss \<Rightarrow> (c # s) # ss)"

definition query_pair :: "string \<Rightarrow> (string \<times> string) option" where
  "query_pair seg =
     (if CHR '';'' \<in> set seg \<or> seg = [] then None
      else
        let (k, v, _) = Cut seg (CHR ''='')
        in case (QueryUnescape k, QueryUnescape v) of
             (Some k', Some v') \<Rightarrow> Some (k', v')
           | _ \<Rightarrow> None)"

definition ParseQuery :: "string \<Rightarrow> (string \<times> string) list" where
  "ParseQuery query = List.map_filter query_pair (split_amp query)"

definition Query_Get :: "URL \<Rightarrow> string \<Rightarrow> string" where
  "Query_Get u key =
     (case map_of (ParseQuery (RawQuery u)) key of Some v \<Rightarrow> v | None \<Rightarrow> [])"

section \<open>Escaping and unescaping\<close>

lemma unhex_upperhex: "n < 16 \<Longrightarrow> unhex (upperhex n) = Some n"
  by (auto simp: unhex_def upperhex_def Let_def)

lemma unescape_escaped_byte:
  "mode \<noteq> encodeHost \<Longrightarrow> mode \<noteq> encodeZone \<Longrightarrow>
     unescape_hex mode (upperhex (of_char c div 16)) (upperhex (of_char c mod 16)) = Some c"
proof -
  have "(of_char c :: nat) div 16 < 16" using nat_of_char_less_256 [of c] by linarith
  moreover have "(of_char c :: nat) mod 16 < 16" by simp
  moreover have "16 * (of_char c div 16) + of_char c mod 16 = (of_char c :: nat)" by simp
  ultimately show "mode \<noteq> encodeHost \<Longrightarrow> mode \<noteq> encodeZone \<Longrightarrow>
     unescape_hex mode (upperhex (of_char c div 16)) (upperhex (of_char c mod 16)) = Some c"
    by (simp add: unescape_hex_def unhex_upperhex)
qed

lemma shouldEscape_percent: "shouldEscape (CHR ''%'') encodePathSegment"
  by (simp add: shouldEscape_def is_alnum_def)

lemma unescape_escape_byte:
  "unescape encodePathSegment (escape_byte encodePathSegment c @ s) =
     map_option (\<lambda>r. c # r) (unescape encodePathSegment s)"
proof (cases "shouldEscape c encodePathSegment")
  case True
  then show ?thesis using unescape_escaped_byte [of encodePathSegment c] by (simp add: escape_byte_def)
next
  case False
  then have "c \<noteq> CHR ''%''" using shouldEscape_percent by auto
  with False show ?thesis by (simp add: escape_byte_def)
qed

lemma PathUnescape_PathEscape: "PathUnescape (PathEscape s) = Some s"
  unfolding PathUnescape_def PathEscape_def escape_def
  by (induction s) (simp_all add: unescape_escape_byte)

text \<open>An escaped segment holds only bytes that cannot end or split a path segment.\<close>

definition segment_char :: "char \<Rightarrow> bool" where
  "segment_char c \<longleftrightarrow> is_alnum c \<or> c \<in> set ''-_.~%$&+:=@''"

lemma segment_char_hex: "n < 16 \<Longrightarrow> segment_char (upperhex n)"
  by (auto simp: segment_char_def is_alnum_def upperhex_def Let_def)

lemma segment_char_unescaped: "\<not> shouldEscape c encodePathSegment \<Longrightarrow> segment_char c"
  by (auto simp: shouldEscape_def segment_char_def split: if_splits)

lemma PathEscape_segment: "c \<in> set (PathEscape s) \<Longrightarrow> segment_char c"
proof -
  have "segment_char (upperhex (of_char d div 16))" "segment_char (upperhex (of_char d mod 16))" for d
    using nat_of_char_less_256 [of d] by (intro segment_char_hex; linarith)+
  moreover have "segment_char (CHR ''%'')" by (simp add: segment_char_def)
  ultimately have "list_all segment_char (escape_byte encodePathSegment d)" for d
    by (simp add: escape_byte_def segment_char_unescaped)
  then show "c \<in> set (PathEscape s) \<Longrightarrow> segment_char c"
    by (auto simp: PathEscape_def escape_def list_all_iff)
qed

lemma PathEscape_alnum: "list_all is_alnum s \<Longrightarrow> PathEscape s = s"
  unfolding PathEscape_def escape_def
proof (induction s)
  case (Cons c s)
  then have "\<not> shouldEscape c encodePathSegment" by (simp add: shouldEscape_def)
  moreover have "c \<noteq> CHR '' ''" using Cons.prems by (auto simp: is_alnum_def)
  ultimately show ?case using Cons by (simp add: escape_byte_def)
qed simp

section \<open>Request paths\<close>

text \<open>
  \<^verbatim>\<open>URL.setPath\<close>: the decoded path, and the path as sent when decoding it and escaping it again does
  not give it back; otherwise that field is empty.
\<close>

definition setPath :: "string \<Rightarrow> (string \<times> string) option" where
  "setPath p = map_option (\<lambda>path. (path, if p = escape encodePath path then [] else p)) (unescape encodePath p)"

text \<open>The path of a redemption by \<^verbatim>\<open>GET\<close>, with its two segments escaped, and when \<open>setPath\<close> keeps it as sent.\<close>

definition redeem_path :: "string \<Rightarrow> string \<Rightarrow> string" where
  "redeem_path phone gift = ''/tw/'' @ PathEscape phone @ ''/'' @ PathEscape gift"

definition kept_escaped :: "string \<Rightarrow> bool" where
  "kept_escaped s \<longleftrightarrow> list_ex (\<lambda>c. c \<in> set ''/;,'') s"

lemma unescape_path: "unescape encodePath s = unescape encodePathSegment s"
proof (induction encodePath s rule: unescape.induct)
  case (2 c cs)
  have "unescape_hex encodePath a b = unescape_hex encodePathSegment a b" for a b
    by (simp add: unescape_hex_def Let_def split: option.splits)
  then show ?case using 2 by (simp split: list.splits option.splits)
qed simp

lemma unescape_PathEscape_append:
  "unescape encodePathSegment (PathEscape s @ t) = map_option ((@) s) (unescape encodePathSegment t)"
  by (induction s) (simp_all add: PathEscape_def escape_def unescape_escape_byte option.map_comp comp_def option.map_ident)

lemma escape_append: "escape mode (s @ t) = escape mode s @ escape mode t"
  by (simp add: escape_def)

lemma escape_byte_path:
  "escape_byte encodePathSegment c = escape_byte encodePath c \<or>
   c \<in> set ''/;,'' \<and> length (escape_byte encodePath c) < length (escape_byte encodePathSegment c)"
  by (auto simp: escape_byte_def shouldEscape_def)

lemma escape_byte_path_kept: "c \<in> set ''/;,'' \<Longrightarrow> length (escape_byte encodePath c) < length (escape_byte encodePathSegment c)"
  by (auto simp: escape_byte_def shouldEscape_def is_alnum_def)

lemma PathEscape_path:
  "length (escape encodePath s) \<le> length (PathEscape s)"
  "kept_escaped s \<Longrightarrow> length (escape encodePath s) < length (PathEscape s)"
  "\<not> kept_escaped s \<Longrightarrow> PathEscape s = escape encodePath s"
proof -
  have le: "length (escape_byte encodePath c) \<le> length (escape_byte encodePathSegment c)" for c
    using escape_byte_path [of c] by auto
  show ge: "length (escape encodePath s) \<le> length (PathEscape s)" for s
    using le by (induction s) (auto simp: PathEscape_def escape_def add_mono)
  show "kept_escaped s \<Longrightarrow> length (escape encodePath s) < length (PathEscape s)"
  proof (induction s)
    case (Cons c s)
    then show ?case
      using ge [of s] le [of c] escape_byte_path_kept [of c]
      by (cases "c \<in> set ''/;,''") (auto simp: kept_escaped_def PathEscape_def escape_def)
  qed (simp add: kept_escaped_def)
  show "\<not> kept_escaped s \<Longrightarrow> PathEscape s = escape encodePath s"
  proof (induction s)
    case (Cons c s)
    then have "escape_byte encodePathSegment c = escape_byte encodePath c"
      using escape_byte_path [of c] by (simp add: kept_escaped_def)
    then show ?case using Cons by (simp add: kept_escaped_def PathEscape_def escape_def)
  qed (simp add: PathEscape_def escape_def)
qed

lemma setPath_redeem:
  "setPath (redeem_path phone gift) =
     Some (''/tw/'' @ phone @ ''/'' @ gift, if kept_escaped (phone @ gift) then redeem_path phone gift else [])"
proof -
  have gift: "unescape encodePathSegment (PathEscape gift) = Some gift"
    using PathUnescape_PathEscape [of gift] by (simp add: PathUnescape_def)
  have "unescape encodePath (redeem_path phone gift) = Some (''/tw/'' @ phone @ ''/'' @ gift)"
    by (simp add: unescape_path redeem_path_def unescape_PathEscape_append gift)
  moreover have "escape encodePath (''/tw/'' @ phone @ ''/'' @ gift) =
      ''/tw/'' @ escape encodePath phone @ ''/'' @ escape encodePath gift"
    by (simp add: escape_def escape_byte_def shouldEscape_def is_alnum_def)
  moreover have "redeem_path phone gift = ''/tw/'' @ escape encodePath phone @ ''/'' @ escape encodePath gift \<longleftrightarrow>
      \<not> kept_escaped (phone @ gift)"
  proof
    assume "redeem_path phone gift = ''/tw/'' @ escape encodePath phone @ ''/'' @ escape encodePath gift"
    then have "length (PathEscape phone) + length (PathEscape gift) = length (escape encodePath phone) + length (escape encodePath gift)"
      by (auto simp: redeem_path_def dest: arg_cong [of _ _ length])
    then show "\<not> kept_escaped (phone @ gift)"
      using PathEscape_path(1,2) [of phone] PathEscape_path(1,2) [of gift] by (fastforce simp: kept_escaped_def)
  next
    assume "\<not> kept_escaped (phone @ gift)"
    then show "redeem_path phone gift = ''/tw/'' @ escape encodePath phone @ ''/'' @ escape encodePath gift"
      using PathEscape_path(3) by (simp add: redeem_path_def kept_escaped_def)
  qed
  ultimately show ?thesis by (simp add: setPath_def)
qed

text \<open>A text without percent signs decodes to itself.\<close>

lemma PathUnescape_plain: "CHR ''%'' \<notin> set s \<Longrightarrow> PathUnescape s = Some s"
  unfolding PathUnescape_def by (induction s) auto

section \<open>Hosts\<close>

text \<open>An ASCII byte other than the percent sign in a decoded host was there before decoding.\<close>

definition plain_host_char :: "char \<Rightarrow> bool" where
  "plain_host_char c \<longleftrightarrow> (of_char c :: nat) < 128 \<and> c \<noteq> CHR ''%''"

lemma unescape_hex_host:
  assumes "unescape_hex encodeHost a b = Some v"
  shows "\<not> plain_host_char v"
proof (cases "a = CHR ''2'' \<and> b = CHR ''5''")
  case True
  then have "(of_char v :: nat) = of_char (CHR ''%'')" using assms by (auto simp: unescape_hex_def unhex_def)
  then have "v = CHR ''%''" by (simp only: of_char_eq_iff)
  then show ?thesis by (simp add: plain_host_char_def)
next
  case False
  then obtain x y where xy: "unhex a = Some x" "unhex b = Some y" "v = char_of (16 * x + y)" "8 \<le> x"
    using assms by (auto simp: unescape_hex_def Let_def split: option.splits if_splits)
  then have "x < 16" "y < 16" by (auto simp: unhex_def Let_def split: if_splits)
  then have "(of_char v :: nat) = 16 * x + y" by (simp add: xy(3))
  with xy(4) show ?thesis by (simp add: plain_host_char_def)
qed

lemma unescape_eq_Nil: "unescape mode s = Some [] \<Longrightarrow> s = []"
  by (cases s) (auto split: if_splits list.splits option.splits)

lemma unescape_host_plain:
  "unescape encodeHost s = Some w \<Longrightarrow> list_all plain_host_char w \<Longrightarrow> s = w"
proof (induction encodeHost s arbitrary: w rule: unescape.induct)
  case (2 c cs)
  show ?case
  proof (cases "c = CHR ''%''")
    case True
    then have False using "2.prems" by (auto split: list.splits option.splits dest!: unescape_hex_host)
    then show ?thesis ..
  next
    case False
    then show ?thesis using 2 by (auto split: if_splits)
  qed
qed simp

lemma unescape_host_suffix:
  assumes "unescape encodeHost s = Some (x @ w)" and "list_all plain_host_char w"
  shows "\<exists>s'. s = s' @ w \<and> unescape encodeHost s' = Some x"
  using assms
proof (induction encodeHost s arbitrary: x rule: unescape.induct)
  case (2 c cs)
  show ?case
  proof (cases "w = []")
    case True
    then show ?thesis using "2.prems" by auto
  next
    case w: False
    show ?thesis
    proof (cases "c = CHR ''%''")
      case True
      then obtain a b rest v r where cs: "cs = a # b # rest" and v: "unescape_hex encodeHost a b = Some v"
        and r: "unescape encodeHost rest = Some r" "x @ w = v # r"
        using "2.prems"(1) by (auto split: list.splits option.splits)
      have "x \<noteq> []"
        using unescape_hex_host [OF v] r(2) w "2.prems"(2) by (cases w) auto
      then obtain x' where x: "x = v # x'" "r = x' @ w" using r(2) by (cases x) auto
      then obtain s' where "rest = s' @ w" "unescape encodeHost s' = Some x'"
        using "2.hyps"(1) [OF True cs refl v] r(1) "2.prems"(2) by auto
      then show ?thesis using True cs v x by (intro exI [of _ "c # a # b # s'"]) simp
    next
      case False
      then obtain r where r: "unescape encodeHost cs = Some r" "x @ w = c # r"
        and ok: "c = CHR ''+'' \<or> \<not> ((of_char c :: nat) < 128 \<and> shouldEscape c encodeHost)"
        using "2.prems"(1) by (auto split: if_splits)
      have IH: "unescape encodeHost cs = Some (x' @ w') \<Longrightarrow> list_all plain_host_char w' \<Longrightarrow>
          \<exists>s'. cs = s' @ w' \<and> unescape encodeHost s' = Some x'" if "w' = w" for x' w'
        using "2.hyps"(2,3) False ok "2.prems"(2) that by blast
      show ?thesis
      proof (cases x)
        case Nil
        then have "cs = r" using r "2.prems"(2) unescape_host_plain by auto
        then show ?thesis using r Nil by (intro exI [of _ "[]"]) auto
      next
        case (Cons d x')
        then obtain s' where "cs = s' @ w" "unescape encodeHost s' = Some x'"
          using IH r "2.prems"(2) by auto
        then show ?thesis using Cons r(2) False ok by (intro exI [of _ "c # s'"]) auto
      qed
    qed
  qed
qed simp

end
