(* ===== verification/Validator.thy ===== *)
theory Validator
  imports Model Regexp Net_Url
begin

text \<open>
  \<^verbatim>\<open>internal/validator/validator.go\<close>: the checks on a redeem request. A check returns the error it
  reports, or \<open>None\<close> for Go's nil.
\<close>

definition phoneRe :: regex where
  "phoneRe = Cat (Lit (CHR ''0'')) (Rep (Cls [(CHR ''0'', CHR ''9'')]) 9 9)"

definition giftRe :: regex where
  "giftRe = Rep (Cls [(CHR ''A'', CHR ''Z''), (CHR ''a'', CHR ''z''), (CHR ''0'', CHR ''9'')]) 20 60"

definition maxGiftLinkLen :: nat where
  "maxGiftLinkLen = 2048"

definition ValidateThaiPhone :: "string \<Rightarrow> go_error option" where
  "ValidateThaiPhone v =
     (if \<not> MatchString phoneRe v
      then Some (OtherError (Msg ''must be a Thai phone number of exactly 10 digits''))
      else None)"

definition IsTrustedGiftHost :: "string \<Rightarrow> bool" where
  "IsTrustedGiftHost host \<longleftrightarrow> host = ''truemoney.com'' \<or> HasSuffix host ''.truemoney.com''"

definition ValidateGift :: "(string \<Rightarrow> bool) \<Rightarrow> string \<Rightarrow> go_error option" where
  "ValidateGift is_ipv6 v =
     (if HasPrefix v ''https://'' \<or> HasPrefix v ''http://'' then
        if length v > maxGiftLinkLen then Some (OtherError (Msg ''gift link is too long''))
        else
          (case Parse is_ipv6 v of
             None \<Rightarrow> Some (OtherError (Msg ''invalid gift link''))
           | Some u \<Rightarrow>
               if Host u = [] then Some (OtherError (Msg ''invalid gift link''))
               else if \<not> IsTrustedGiftHost (Host u)
                 then Some (OtherError (Msg ''gift link host is not trusted''))
               else None)
      else if \<not> MatchString giftRe v
        then Some (OtherError (Msg ''gift code must be 20-60 alphanumeric characters''))
      else None)"

definition ValidateTwRedeem :: "(string \<Rightarrow> bool) \<Rightarrow> TwRedeemRequest \<Rightarrow> go_error option" where
  "ValidateTwRedeem is_ipv6 req =
     (let errs = [];
          errs = FieldErrors_Add errs ''phone'' (ValidateThaiPhone (Phone req));
          errs = FieldErrors_Add errs ''gift'' (ValidateGift is_ipv6 (Gift req))
      in if length errs > 0 then Some (ValidationError errs) else None)"

section \<open>Phone numbers and codes\<close>

lemma in_cls_alnum:
  "in_cls [(CHR ''A'', CHR ''Z''), (CHR ''a'', CHR ''z''), (CHR ''0'', CHR ''9'')] c \<longleftrightarrow> is_alnum c"
  by (auto simp: in_cls_def is_alnum_def Let_def)

lemma in_cls_dec: "in_cls [(CHR ''0'', CHR ''9'')] c \<longleftrightarrow> is_digit c"
  by (simp add: in_cls_def is_digit_def)

lemma giftRe_iff: "MatchString giftRe v \<longleftrightarrow> 20 \<le> length v \<and> length v \<le> 60 \<and> list_all is_alnum v"
  by (simp add: MatchString_lang giftRe_def lang_Rep_Cls list_all_iff in_cls_alnum)

lemma phoneRe_iff: "MatchString phoneRe v \<longleftrightarrow> length v = 10 \<and> hd v = CHR ''0'' \<and> list_all is_digit v"
proof -
  have zero: "is_digit (CHR ''0'')" by (simp add: is_digit_def)
  have rep: "w \<in> lang (Rep (Cls [(CHR ''0'', CHR ''9'')]) 9 9) \<longleftrightarrow> length w = 9 \<and> list_all is_digit w" for w
    by (auto simp: lang_Rep_Cls list_all_iff in_cls_dec)
  have "MatchString phoneRe v \<longleftrightarrow> (\<exists>w. v = CHR ''0'' # w \<and> length w = 9 \<and> list_all is_digit w)"
    unfolding MatchString_lang phoneRe_def lang.simps(4) lang_Lit rep mem_Collect_eq by auto
  then show ?thesis using zero by (cases v) auto
qed

text \<open>A code starts with no scheme: the link branch and the code branch are disjoint.\<close>

lemma alnum_no_scheme:
  assumes "list_all is_alnum v"
  shows "\<not> HasPrefix v ''https://''" and "\<not> HasPrefix v ''http://''"
  using assms by (auto simp: HasPrefix_iff is_alnum_def)

section \<open>Trusted hosts\<close>

lemma trusted_suffix:
  assumes "IsTrustedGiftHost h"
  obtains x where "h = x @ ''truemoney.com''" "x = [] \<or> (\<exists>y. x = y @ ''.'')"
proof (cases "h = ''truemoney.com''")
  case True
  then show ?thesis using that [of "[]"] by simp
next
  case False
  then obtain y where "h = y @ ''.truemoney.com''"
    using assms by (auto simp: IsTrustedGiftHost_def HasSuffix_iff)
  then show ?thesis using that [of "y @ ''.''"] by simp
qed

lemma trusted_last: "IsTrustedGiftHost h \<Longrightarrow> h \<noteq> [] \<and> last h = CHR ''m''"
  by (erule trusted_suffix) auto

lemma plain_host_string:
  "list_all plain_host_char ''truemoney.com''" "list_all plain_host_char ''.truemoney.com''"
  by (simp_all add: plain_host_char_def)

lemma unescape_trusted:
  assumes "unescape encodeHost s = Some h" and "IsTrustedGiftHost h"
  shows "IsTrustedGiftHost s"
proof (cases "h = ''truemoney.com''")
  case True
  then have "s = ''truemoney.com''"
    using unescape_host_plain [of s h] assms(1) plain_host_string(1) by simp
  then show ?thesis by (simp add: IsTrustedGiftHost_def)
next
  case False
  then obtain x where "h = x @ ''.truemoney.com''"
    using assms(2) by (auto simp: IsTrustedGiftHost_def HasSuffix_iff)
  then obtain s' where "s = s' @ ''.truemoney.com''"
    using unescape_host_suffix [of s x "''.truemoney.com''"] assms(1) plain_host_string(2) by auto
  then show ?thesis unfolding IsTrustedGiftHost_def HasSuffix_iff by blast
qed

lemma port_last: "validOptionalPort p \<Longrightarrow> p \<noteq> [] \<Longrightarrow> last p \<noteq> CHR ''m''"
proof -
  assume p: "validOptionalPort p" "p \<noteq> []"
  then obtain t where t: "p = CHR '':'' # t" "list_all is_digit t"
    by (cases p) (auto simp: validOptionalPort_def)
  show ?thesis
  proof (cases "t = []")
    case False
    then have "last t \<in> set t" by simp
    then have "is_digit (last t)" using t(2) by (simp add: list_all_iff)
    then show ?thesis using t False by (auto simp: is_digit_def)
  qed (simp add: t)
qed

lemma unescape_port:
  assumes "validOptionalPort p"
  shows "unescape encodeHost p = Some p"
proof -
  have digit: "unescape encodeHost t = Some t" if "list_all is_digit t" for t
    using that
  proof (induction t)
    case (Cons c t)
    then have "is_alnum c" by (simp add: is_digit_def is_alnum_def Let_def)
    moreover have "c \<noteq> CHR ''%''" "c \<noteq> CHR ''+''" using Cons.prems by (auto simp: is_digit_def)
    ultimately show ?case using Cons by (simp add: shouldEscape_def)
  qed simp
  show ?thesis
  proof (cases p)
    case (Cons c t)
    then have "c = CHR '':''" "list_all is_digit t" using assms by (auto simp: validOptionalPort_def)
    then show ?thesis using digit [of t] Cons by (simp add: shouldEscape_def is_alnum_def host_extra_def)
  qed simp
qed

text \<open>A trusted host was written literally in the link: no brackets, no port, no escapes in the domain.\<close>

lemma parseHost_trusted:
  assumes "parseHost is_ipv6 host = Some h" and "IsTrustedGiftHost h"
  shows "IsTrustedGiftHost host" and "CHR ''['' \<notin> set host" and "CHR '':'' \<notin> set host"
proof -
  note last = trusted_last [OF assms(2)]
  show br: "CHR ''['' \<notin> set host"
  proof
    assume "CHR ''['' \<in> set host"
    then obtain i where "LastIndexByte host (CHR ''['') = Some i" by (cases "LastIndexByte host (CHR ''['')") auto
    then obtain m1 m2 p p' where h: "h = CHR ''['' # m1 @ m2 @ CHR '']'' # p'"
      and p: "validOptionalPort p" "unescape encodeHost p = Some p'"
      using assms(1) by (auto simp: parseHost_def Let_def split: if_splits option.splits prod.splits)
    then have "p' = p" using unescape_port by simp
    then show False using h last port_last [OF p(1)] by (cases "p = []") auto
  qed
  then have un: "unescape encodeHost host = Some h" and port:
    "\<And>i. IndexByte host (CHR '':'') = Some i \<Longrightarrow> validOptionalPort (drop i host)"
    using assms(1) by (auto simp: parseHost_def split: option.splits if_splits)
  show tr: "IsTrustedGiftHost host" by (rule unescape_trusted [OF un assms(2)])
  show "CHR '':'' \<notin> set host"
  proof
    assume "CHR '':'' \<in> set host"
    then obtain a b where ab: "host = a @ CHR '':'' # b" "CHR '':'' \<notin> set a" by (meson split_list_first)
    then have "validOptionalPort (CHR '':'' # b)" using port [of "length a"] by simp
    from port_last [OF this] show False using trusted_last [OF tr] ab(1) by simp
  qed
qed

lemma parseAuthority_trusted:
  assumes "parseAuthority is_ipv6 authority = Some h" and "IsTrustedGiftHost h"
  shows "\<exists>userinfo host. authority = userinfo @ host \<and> (userinfo = [] \<or> last userinfo = CHR ''@'') \<and>
    IsTrustedGiftHost host \<and> CHR ''@'' \<notin> set host \<and> CHR '':'' \<notin> set host"
proof (cases "LastIndexByte authority (CHR ''@'')")
  case None
  then have "parseHost is_ipv6 authority = Some h" using assms(1) by (simp add: parseAuthority_def)
  from parseHost_trusted [OF this assms(2)] None show ?thesis
    by (intro exI [of _ "[]"] exI [of _ authority]) simp
next
  case (Some i)
  then obtain a b where ab: "authority = a @ CHR ''@'' # b" "CHR ''@'' \<notin> set b" "i = length a"
    by (rule LastIndexByte_SomeE)
  then have "parseHost is_ipv6 b = Some h"
    using assms(1) Some by (auto simp: parseAuthority_def split: option.splits if_splits)
  from parseHost_trusted [OF this assms(2)] ab show ?thesis
    by (intro exI [of _ "a @ ''@''"] exI [of _ b]) simp
qed

text \<open>The shape of a link that \<open>Parse\<close> accepts with a trusted host.\<close>

lemma Parse_trusted:
  assumes p: "Parse is_ipv6 v = Some u" and t: "IsTrustedGiftHost (Host u)"
    and s: "HasPrefix v ''https://'' \<or> HasPrefix v ''http://''"
  shows "\<exists>scheme userinfo host rest. v = scheme @ userinfo @ host @ rest \<and>
    scheme \<in> {''https://'', ''http://''} \<and> (userinfo = [] \<or> last userinfo = CHR ''@'') \<and>
    set (userinfo @ host) \<inter> set ''/?#'' = {} \<and> IsTrustedGiftHost host \<and>
    CHR ''@'' \<notin> set host \<and> CHR '':'' \<notin> set host \<and> (rest = [] \<or> hd rest \<in> set ''/?#'')"
proof -
  obtain w fr f1 where c1: "Cut v (CHR ''#'') = (w, fr, f1)" by (cases "Cut v (CHR ''#'')") auto
  then obtain t1 where v: "v = w @ t1" "t1 = [] \<or> hd t1 = CHR ''#''" and nh: "CHR ''#'' \<notin> set w"
    using Cut_spec by meson
  define scheme where "scheme = (if HasPrefix w ''https://'' then ''https://'' else ''http://'')"
  define r where "r = (if HasPrefix w ''https://'' then drop 8 w else drop 7 w)"
  have w: "w = scheme @ r"
  proof -
    have "t1 = [] \<or> hd t1 \<notin> set ''https://''" "t1 = [] \<or> hd t1 \<notin> set ''http://''" using v(2) by auto
    then have "HasPrefix w ''https://'' \<or> HasPrefix w ''http://''"
      using s v(1) HasPrefix_cut [of w t1] by blast
    then show ?thesis by (auto simp: scheme_def r_def HasPrefix_iff)
  qed
  obtain q qu f2 where c2: "Cut r (CHR ''?'') = (q, qu, f2)" by (cases "Cut r (CHR ''?'')") auto
  then obtain t2 where r: "r = q @ t2" "t2 = [] \<or> hd t2 = CHR ''?''" and nq: "CHR ''?'' \<notin> set q"
    using Cut_spec by meson
  define auth path where "auth = (case IndexByte q (CHR ''/'') of Some i \<Rightarrow> take i q | None \<Rightarrow> q)"
    and "path = (case IndexByte q (CHR ''/'') of Some i \<Rightarrow> drop i q | None \<Rightarrow> [])"
  have q: "q = auth @ path" "path = [] \<or> hd path = CHR ''/''" "CHR ''/'' \<notin> set auth"
    by (auto simp: auth_def path_def split: option.splits elim!: IndexByte_SomeE)
  have "parseAuthority is_ipv6 auth = Some (Host u)"
    using p by (auto simp: Parse_def c1 c2 [unfolded r_def] Let_def auth_def split: option.splits if_splits)
  from parseAuthority_trusted [OF this t] obtain ui host where
    h: "auth = ui @ host" "ui = [] \<or> last ui = CHR ''@''" "IsTrustedGiftHost host"
      "CHR ''@'' \<notin> set host" "CHR '':'' \<notin> set host" by blast
  have "set (ui @ host) \<inter> set ''/?#'' = {}"
    using q nq nh h(1) w r by auto
  moreover have "v = scheme @ ui @ host @ (path @ t2 @ t1)" using v w r q h(1) by simp
  moreover have "path @ t2 @ t1 = [] \<or> hd (path @ t2 @ t1) \<in> set ''/?#''"
    using q(2) r(2) v(2) by (cases path; cases t2; cases t1) auto
  moreover have "scheme \<in> {''https://'', ''http://''}" by (simp add: scheme_def)
  ultimately show ?thesis using h(2-) by blast
qed

section \<open>Properties\<close>

text \<open>
  C37: Phishing safety. A gift link that \<open>ValidateGift\<close> accepts carries, as written, a host that is
  \<^verbatim>\<open>truemoney.com\<close> or ends in \<^verbatim>\<open>.truemoney.com\<close>, right between the optional user information and the
  first of \<^verbatim>\<open>/\<close>, \<^verbatim>\<open>?\<close>, \<^verbatim>\<open>#\<close> (or the end); it has no port, and no percent escape can disguise another
  domain.
\<close>

theorem ValidateGift_link_trusted:
  assumes "ValidateGift is_ipv6 v = None" and "HasPrefix v ''https://'' \<or> HasPrefix v ''http://''"
  shows "length v \<le> 2048 \<and> (\<exists>scheme userinfo host rest. v = scheme @ userinfo @ host @ rest \<and>
    scheme \<in> {''https://'', ''http://''} \<and> (userinfo = [] \<or> last userinfo = CHR ''@'') \<and>
    set (userinfo @ host) \<inter> set ''/?#'' = {} \<and> IsTrustedGiftHost host \<and>
    CHR ''@'' \<notin> set host \<and> CHR '':'' \<notin> set host \<and> (rest = [] \<or> hd rest \<in> set ''/?#''))"
proof -
  from assms obtain u where "Parse is_ipv6 v = Some u" "IsTrustedGiftHost (Host u)" "length v \<le> 2048"
    by (auto simp: ValidateGift_def maxGiftLinkLen_def split: option.splits if_splits)
  then show ?thesis using Parse_trusted assms(2) by blast
qed

lemma sample_link_valid: "ValidateGift (\<lambda>_. False) ''https://gift.truemoney.com/campaign/?v=abc123'' = None"
  by code_simp

theorem ValidateGift_link_trusted_witness:
  "\<exists>scheme userinfo host rest. ''https://gift.truemoney.com/campaign/?v=abc123'' = scheme @ userinfo @ host @ rest \<and>
    IsTrustedGiftHost host"
proof -
  have "HasPrefix ''https://gift.truemoney.com/campaign/?v=abc123'' ''https://''" by (simp add: HasPrefix_def)
  then show ?thesis using ValidateGift_link_trusted [OF sample_link_valid] by blast
qed

text \<open>
  C38: \<open>ValidateTwRedeem\<close> accepts exactly the requests with a ten-digit phone number starting with 0 and
  a gift that is a code of 20 to 60 letters and digits or a parsable link of at most 2048 bytes to a
  trusted host; otherwise it reports one field error for each invalid field and none for a valid one.
\<close>

theorem ValidateTwRedeem_spec:
  "(ValidateTwRedeem is_ipv6 req = None \<longleftrightarrow>
      (length (Phone req) = 10 \<and> hd (Phone req) = CHR ''0'' \<and> list_all is_digit (Phone req)) \<and>
      (20 \<le> length (Gift req) \<and> length (Gift req) \<le> 60 \<and> list_all is_alnum (Gift req) \<or>
       (HasPrefix (Gift req) ''https://'' \<or> HasPrefix (Gift req) ''http://'') \<and> length (Gift req) \<le> 2048 \<and>
       (\<exists>u. Parse is_ipv6 (Gift req) = Some u \<and> IsTrustedGiftHost (Host u)))) \<and>
   (\<forall>e. ValidateTwRedeem is_ipv6 req = Some e \<longleftrightarrow>
      (\<exists>ds. e = ValidationError ds \<and> ds \<noteq> [] \<and>
         ds = map (\<lambda>(f, e). \<lparr>Field = f, Message = Error e\<rparr>)
           (case (ValidateThaiPhone (Phone req), ValidateGift is_ipv6 (Gift req)) of
              (Some p, Some g) \<Rightarrow> [(''phone'', p), (''gift'', g)]
            | (Some p, None) \<Rightarrow> [(''phone'', p)]
            | (None, Some g) \<Rightarrow> [(''gift'', g)]
            | (None, None) \<Rightarrow> [])))"
proof -
  have phone: "ValidateThaiPhone (Phone req) = None \<longleftrightarrow>
      length (Phone req) = 10 \<and> hd (Phone req) = CHR ''0'' \<and> list_all is_digit (Phone req)"
    by (simp add: ValidateThaiPhone_def phoneRe_iff)
  have "\<not> IsTrustedGiftHost []" by (simp add: IsTrustedGiftHost_def HasSuffix_def)
  then have gift: "ValidateGift is_ipv6 (Gift req) = None \<longleftrightarrow>
      20 \<le> length (Gift req) \<and> length (Gift req) \<le> 60 \<and> list_all is_alnum (Gift req) \<or>
       (HasPrefix (Gift req) ''https://'' \<or> HasPrefix (Gift req) ''http://'') \<and> length (Gift req) \<le> 2048 \<and>
       (\<exists>u. Parse is_ipv6 (Gift req) = Some u \<and> IsTrustedGiftHost (Host u))"
    using alnum_no_scheme [of "Gift req"]
    by (auto simp: ValidateGift_def giftRe_iff maxGiftLinkLen_def split: option.splits if_splits)
  have none: "ValidateTwRedeem is_ipv6 req = None \<longleftrightarrow>
      ValidateThaiPhone (Phone req) = None \<and> ValidateGift is_ipv6 (Gift req) = None"
    by (auto simp: ValidateTwRedeem_def FieldErrors_Add_def Let_def split: option.splits)
  show ?thesis unfolding none phone [symmetric] gift [symmetric]
    by (auto simp: ValidateTwRedeem_def FieldErrors_Add_def Let_def split: option.splits)
qed

end
