(* ===== verification/Truemoney.thy ===== *)
theory Truemoney
  imports Validator
begin

text \<open>
  The TrueMoney client of \<^verbatim>\<open>internal/provider/truemoney/truemoney.go\<close>. The network, the JSON codec and the
  constructor of HTTP requests are the fields of \<open>upstream\<close>: the network keeps a state of its own, which
  an exchange reads and changes, so that how often it is called and with what is part of the model. A
  response body is the bytes the connection delivers and the error it ends with, if any.
\<close>

section \<open>Messages\<close>

record tmRequest =
  Mobile :: string
  VoucherHash :: string

record tmStatus =
  Code :: string
  StatusMessage :: string

record tmVoucher =
  VoucherID :: string
  AmountBaht :: string
  FullName :: string

record tmData =
  Voucher :: tmVoucher
  MobileNumber :: string \<comment> \<open>of \<^verbatim>\<open>RedeemerProfile\<close>\<close>

record tmResponse =
  Status :: tmStatus
  Response_Data :: tmData

record http_request =
  req_method :: string
  req_url :: string
  req_headers :: "(string, string) gomap"
  req_body :: bytes

record http_response =
  resp_status :: int
  resp_body :: "bytes \<times> go_error option"

record 'w upstream =
  json_Marshal :: "tmRequest \<Rightarrow> bytes result"
  json_Unmarshal :: "bytes \<Rightarrow> tmResponse result"
  check_url :: "string \<Rightarrow> go_error option" \<comment> \<open>the error of \<^verbatim>\<open>http.NewRequestWithContext\<close>\<close>
  ipv6_literal :: "string \<Rightarrow> bool"
  http_Do :: "duration \<Rightarrow> http_request \<Rightarrow> 'w \<Rightarrow> http_response result \<times> 'w"

section \<open>The client\<close>

definition defaultTimeout :: duration where
  "defaultTimeout = 30 * 1000000000"

definition userAgent :: string where
  "userAgent = ''Mozilla/5.0 (Windows NT 10.0; Win64; x64) AppleWebKit/537.36 (KHTML, like Gecko) Chrome/126.0.0.0 Safari/537.36''"

record Client =
  baseURL :: string
  httpc_Timeout :: duration

definition NewClient :: "string \<Rightarrow> duration \<Rightarrow> Client" where
  "NewClient base timeout =
     (let timeout = (if timeout \<le> 0 then defaultTimeout else timeout)
      in \<lparr>baseURL = base, httpc_Timeout = timeout\<rparr>)"

definition extractVoucherHash :: "(string \<Rightarrow> bool) \<Rightarrow> string \<Rightarrow> string result" where
  "extractVoucherHash is_ipv6 gift =
     (if \<not> HasPrefix gift ''http://'' \<and> \<not> HasPrefix gift ''https://'' then Inr gift
      else
        (case Parse is_ipv6 gift of
           None \<Rightarrow> Inl (OtherError (Msg ''invalid gift link''))
         | Some u \<Rightarrow>
             if \<not> IsTrustedGiftHost (Host u) then Inl (OtherError (Msg ''gift link host is not trusted''))
             else
               let hash = Query_Get u ''v''
               in if hash = [] then Inl (OtherError (Msg ''gift link does not contain a voucher hash''))
                  else Inr hash))"

definition mapBusinessError :: "string \<Rightarrow> go_error" where
  "mapBusinessError code =
     (if code = ''VOUCHER_NOT_FOUND'' \<or> code = ''INVALID_LINK'' \<or> code = ''TARGET_NOT_FOUND''
      then Wrapped (Msg (''truemoney redeem ('' @ code @ '')'')) (Sentinel ErrNotFound)
      else if code = ''VOUCHER_OUT_OF_STOCK''
      then Wrapped (Msg (''truemoney redeem ('' @ code @ '')'')) (Sentinel ErrConflict)
      else ValidationError [\<lparr>Field = ''gift'', Message = Msg code\<rparr>])"

text \<open>
  \<^verbatim>\<open>io.ReadAll(io.LimitReader(body, n))\<close>: once \<open>n\<close> bytes are read the rest of the body, its error included,
  is not looked at.
\<close>

definition ReadAll_Limit :: "nat \<Rightarrow> bytes \<times> go_error option \<Rightarrow> bytes result" where
  "ReadAll_Limit n body =
     (if n \<le> length (fst body) then Inr (take n (fst body))
      else case snd body of None \<Rightarrow> Inr (fst body) | Some err \<Rightarrow> Inl err)"

definition redeem_request :: "Client \<Rightarrow> 'w upstream \<Rightarrow> TwRedeemRequest \<Rightarrow> http_request result" where
  "redeem_request c net req =
     (case extractVoucherHash (ipv6_literal net) (Gift req) of
        Inl err \<Rightarrow> Inl (Errorf ''extract voucher hash'' (Joined [err, Sentinel ErrInvalidInput]))
      | Inr hash \<Rightarrow>
          let endpoint = baseURL c @ ''/campaign/vouchers/'' @ PathEscape hash @ ''/redeem'' in
          (case json_Marshal net \<lparr>Mobile = Phone req, VoucherHash = hash\<rparr> of
             Inl err \<Rightarrow> Inl (Errorf ''encode redeem request'' err)
           | Inr body \<Rightarrow>
               (case check_url net endpoint of
                  Some err \<Rightarrow> Inl (Errorf ''create redeem request'' err)
                | None \<Rightarrow> Inr
                    \<lparr>req_method = ''POST'', req_url = endpoint,
                     req_headers = [(''Content-Type'', ''application/json''), (''Accept'', ''application/json''),
                       (''User-Agent'', userAgent)],
                     req_body = body\<rparr>)))"

definition redeem_response :: "'w upstream \<Rightarrow> http_response result \<Rightarrow> TwRedeemResult result" where
  "redeem_response net answer =
     (case answer of
        Inl err \<Rightarrow>
          if errors_Is err DeadlineExceeded then Inl (Errorf ''call truemoney redeem'' err)
          else Inl (Errorf ''call truemoney redeem'' (Joined [err, Sentinel ErrBadGateway]))
      | Inr resp \<Rightarrow>
          (case ReadAll_Limit (2 ^ 20) (resp_body resp) of
             Inl err \<Rightarrow> Inl (Errorf ''read truemoney response'' err)
           | Inr respBody \<Rightarrow>
               (case json_Unmarshal net respBody of
                  Inl err \<Rightarrow> Inl (Errorf ''parse truemoney response'' (Sentinel ErrBadGateway))
                | Inr parsed \<Rightarrow>
                    if Code (Status parsed) = []
                    then Inl (Errorf ''parse truemoney response'' (Sentinel ErrBadGateway))
                    else if Code (Status parsed) \<noteq> ''SUCCESS'' then Inl (mapBusinessError (Code (Status parsed)))
                    else Inr \<lparr>Data = respBody, Amount = AmountBaht (Voucher (Response_Data parsed)),
                              Ref = VoucherID (Voucher (Response_Data parsed))\<rparr>)))"

definition Client_Redeem :: "Client \<Rightarrow> 'w upstream \<Rightarrow> TwRedeemRequest \<Rightarrow> 'w \<Rightarrow> TwRedeemResult result \<times> 'w" where
  "Client_Redeem c net req w =
     (case redeem_request c net req of
        Inl err \<Rightarrow> (Inl err, w)
      | Inr httpReq \<Rightarrow>
          (case http_Do net (httpc_Timeout c) httpReq w of
             (answer, w) \<Rightarrow> (redeem_response net answer, w)))"

section \<open>Requests\<close>

lemma extract_code: "list_all is_alnum gift \<Longrightarrow> extractVoucherHash is_ipv6 gift = Inr gift"
  using alnum_no_scheme [of gift] by (auto simp: extractVoucherHash_def)

lemma redeem_request_shape:
  assumes "redeem_request c net req = Inr r"
  obtains hash where "extractVoucherHash (ipv6_literal net) (Gift req) = Inr hash"
    "req_url r = baseURL c @ ''/campaign/vouchers/'' @ PathEscape hash @ ''/redeem''"
    "json_Marshal net \<lparr>Mobile = Phone req, VoucherHash = hash\<rparr> = Inr (req_body r)"
    "req_method r = ''POST''"
  using assms by (auto simp: redeem_request_def Let_def split: sum.splits option.splits)

lemma extract_nonempty:
  assumes "ValidateGift is_ipv6 gift = None" and "extractVoucherHash is_ipv6 gift = Inr hash"
  shows "hash \<noteq> []"
  using assms
  by (auto simp: extractVoucherHash_def ValidateGift_def giftRe_iff Let_def split: option.splits if_splits)

text \<open>
  C33: For a request that passed validation, the client sends one POST whose path holds the voucher hash as a single escaped
  segment: the segment has no \<^verbatim>\<open>/\<close>, \<^verbatim>\<open>?\<close>, \<^verbatim>\<open>#\<close>, \<^verbatim>\<open>;\<close> or space, is not empty, and decodes to exactly the
  voucher hash, so a crafted gift adds neither a segment nor a query to the path. The hash
  is the gift itself for a code (then the segment is the code verbatim) and the \<^verbatim>\<open>v\<close> parameter for a link,
  and the body carries the same hash and the phone number.
\<close>

theorem redeem_endpoint_confined:
  assumes "ValidateTwRedeem (ipv6_literal net) req = None" and "redeem_request c net req = Inr r"
  shows "\<exists>hash seg. extractVoucherHash (ipv6_literal net) (Gift req) = Inr hash \<and>
    req_url r = baseURL c @ ''/campaign/vouchers/'' @ seg @ ''/redeem'' \<and>
    seg \<noteq> [] \<and> set seg \<inter> set ''/?#; '' = {} \<and> PathUnescape seg = Some hash \<and>
    (list_all is_alnum (Gift req) \<longrightarrow> seg = Gift req) \<and>
    json_Marshal net \<lparr>Mobile = Phone req, VoucherHash = hash\<rparr> = Inr (req_body r) \<and> req_method r = ''POST''"
proof -
  obtain hash where h: "extractVoucherHash (ipv6_literal net) (Gift req) = Inr hash"
    "req_url r = baseURL c @ ''/campaign/vouchers/'' @ PathEscape hash @ ''/redeem''"
    "json_Marshal net \<lparr>Mobile = Phone req, VoucherHash = hash\<rparr> = Inr (req_body r)" "req_method r = ''POST''"
    by (rule redeem_request_shape [OF assms(2)])
  have "ValidateGift (ipv6_literal net) (Gift req) = None"
    using assms(1) by (auto simp: ValidateTwRedeem_def FieldErrors_Add_def Let_def split: option.splits if_splits)
  then have "hash \<noteq> []" using extract_nonempty h(1) by blast
  moreover have "PathUnescape (PathEscape hash) = Some hash" by (rule PathUnescape_PathEscape)
  ultimately have "PathEscape hash \<noteq> []" by (auto simp: PathUnescape_def)
  moreover have "\<not> segment_char d" if "d \<in> set ''/?#; ''" for d
    using that by (auto simp: segment_char_def is_alnum_def)
  then have "set (PathEscape hash) \<inter> set ''/?#; '' = {}" using PathEscape_segment [of _ hash] by blast
  moreover have "list_all is_alnum (Gift req) \<longrightarrow> PathEscape hash = Gift req"
    using h(1) extract_code [of "Gift req" "ipv6_literal net"] by (auto simp: PathEscape_alnum)
  ultimately show ?thesis using h PathUnescape_PathEscape by blast
qed

definition sample_net :: "http_request list upstream" where
  "sample_net =
     \<lparr>json_Marshal = \<lambda>r. Inr (Mobile r @ '' '' @ VoucherHash r),
      json_Unmarshal = \<lambda>b. Inr \<lparr>Status = \<lparr>Code = b, StatusMessage = []\<rparr>,
        Response_Data = \<lparr>Voucher = \<lparr>VoucherID = ''v1'', AmountBaht = ''10.00'', FullName = []\<rparr>, MobileNumber = []\<rparr>\<rparr>,
      check_url = \<lambda>_. None, ipv6_literal = \<lambda>_. False,
      http_Do = \<lambda>t r w. (Inr \<lparr>resp_status = 200, resp_body = (''SUCCESS'', None)\<rparr>, w @ [r])\<rparr>"

definition sample_redeem :: TwRedeemRequest where
  "sample_redeem = \<lparr>Phone = ''0812345678'', Gift = ''0123456789abcdefghij''\<rparr>"

lemma sample_redeem_valid: "ValidateTwRedeem (\<lambda>_. False) sample_redeem = None"
  by code_simp

theorem redeem_endpoint_confined_witness:
  "\<exists>r. redeem_request (NewClient ''https://gift.truemoney.com'' 0) sample_net sample_redeem = Inr r \<and>
     req_url r = ''https://gift.truemoney.com/campaign/vouchers/0123456789abcdefghij/redeem''"
proof -
  have gift: "list_all is_alnum (Gift sample_redeem)" by code_simp
  have valid: "ValidateTwRedeem (ipv6_literal sample_net) sample_redeem = None"
    using sample_redeem_valid by (simp add: sample_net_def)
  obtain r where r: "redeem_request (NewClient ''https://gift.truemoney.com'' 0) sample_net sample_redeem = Inr r"
    using extract_code [OF gift] by (simp add: redeem_request_def sample_net_def Let_def)
  from redeem_endpoint_confined [OF valid r] gift r show ?thesis
    by (auto simp: NewClient_def Let_def sample_redeem_def)
qed

text \<open>
  A dot segment is a segment too: \<^verbatim>\<open>url.PathEscape\<close> does not escape dots, and validation does not look at
  the \<^verbatim>\<open>v\<close> parameter of a link, so a link can make the client post to \<^verbatim>\<open>/campaign/vouchers/../redeem\<close>.
\<close>

lemma dot_segment_endpoint:
  "ValidateGift (\<lambda>_. False) ''https://truemoney.com/?v=..'' = None \<and>
   (\<exists>r. redeem_request (NewClient ''https://gift.truemoney.com'' 0) sample_net
          \<lparr>Phone = ''0812345678'', Gift = ''https://truemoney.com/?v=..''\<rparr> = Inr r \<and>
        req_url r = ''https://gift.truemoney.com/campaign/vouchers/../redeem'')"
proof -
  have "extractVoucherHash (\<lambda>_. False) ''https://truemoney.com/?v=..'' = Inr ''..''" by code_simp
  moreover have "PathEscape ''..'' = ''..''" by code_simp
  moreover have "ValidateGift (\<lambda>_. False) ''https://truemoney.com/?v=..'' = None" by code_simp
  ultimately show ?thesis by (simp add: redeem_request_def sample_net_def NewClient_def Let_def)
qed

section \<open>Outcomes\<close>

text \<open>
  After validation the provider's own checks of the gift can only fail for one reason, a link
  without a voucher hash, which is reported as invalid input without calling the upstream: the parse
  and the trusted-host check of validator and provider agree.
\<close>

theorem validated_gift_extracts:
  assumes "ValidateTwRedeem (ipv6_literal net) req = None"
  shows "(\<exists>hash. hash \<noteq> [] \<and> extractVoucherHash (ipv6_literal net) (Gift req) = Inr hash) \<or>
    (extractVoucherHash (ipv6_literal net) (Gift req) = Inl (OtherError (Msg ''gift link does not contain a voucher hash'')) \<and>
     (\<exists>e. Client_Redeem c net req w = (Inl e, w) \<and> errors_Is e ErrInvalidInput))"
proof -
  have valid: "ValidateGift (ipv6_literal net) (Gift req) = None"
    using assms by (auto simp: ValidateTwRedeem_def FieldErrors_Add_def Let_def split: option.splits if_splits)
  then have "(\<exists>hash. extractVoucherHash (ipv6_literal net) (Gift req) = Inr hash) \<or>
    extractVoucherHash (ipv6_literal net) (Gift req) = Inl (OtherError (Msg ''gift link does not contain a voucher hash''))"
    by (auto simp: extractVoucherHash_def ValidateGift_def Let_def split: option.splits if_splits)
  then show ?thesis
  proof (elim disjE exE)
    fix hash
    assume "extractVoucherHash (ipv6_literal net) (Gift req) = Inr hash"
    then show ?thesis using extract_nonempty [OF valid] by blast
  qed (simp add: Client_Redeem_def redeem_request_def)
qed

theorem validated_gift_extracts_witness:
  "\<exists>e. Client_Redeem (NewClient [] 0) sample_net
     \<lparr>Phone = ''0812345678'', Gift = ''https://truemoney.com/x''\<rparr> [] = (Inl e, []) \<and> errors_Is e ErrInvalidInput"
proof -
  let ?req = "\<lparr>Phone = ''0812345678'', Gift = ''https://truemoney.com/x''\<rparr>"
  have "ValidateTwRedeem (\<lambda>_. False) ?req = None" by code_simp
  then have "ValidateTwRedeem (ipv6_literal sample_net) ?req = None" by (simp add: sample_net_def)
  moreover have "\<nexists>hash. extractVoucherHash (\<lambda>_. False) ''https://truemoney.com/x'' = Inr hash"
  proof -
    have "extractVoucherHash (\<lambda>_. False) ''https://truemoney.com/x'' =
      Inl (OtherError (Msg ''gift link does not contain a voucher hash''))" by code_simp
    then show ?thesis by simp
  qed
  ultimately show ?thesis
    using validated_gift_extracts [of sample_net ?req "NewClient [] 0" "[]"] by (auto simp: sample_net_def)
qed

text \<open>
  The client turns every upstream outcome into the right kind of result. It succeeds exactly when the
  (at most 2^20) bytes read decode to a response with code \<^verbatim>\<open>SUCCESS\<close>, and then returns those bytes
  unchanged with the voucher's amount and identity. Otherwise: a timeout keeps its deadline error; any other
  transport failure and an undecodable or code-less body are a bad gateway; the not-found and
  out-of-stock codes are not-found and conflict; every other code is reported as an invalid gift with that code.
\<close>

theorem redeem_response_classified:
  "case redeem_response net answer of
     Inr res \<Rightarrow> \<exists>resp p. answer = Inr resp \<and> ReadAll_Limit (2 ^ 20) (resp_body resp) = Inr (Data res) \<and>
       length (Data res) \<le> 2 ^ 20 \<and> json_Unmarshal net (Data res) = Inr p \<and> Code (Status p) = ''SUCCESS'' \<and>
       Amount res = AmountBaht (Voucher (Response_Data p)) \<and> Ref res = VoucherID (Voucher (Response_Data p))
   | Inl e \<Rightarrow>
       (\<exists>err. answer = Inl err \<and> errors_Is err DeadlineExceeded \<and> errors_Is e DeadlineExceeded) \<or>
       (\<exists>err. answer = Inl err \<and> \<not> errors_Is err DeadlineExceeded \<and> errors_Is e ErrBadGateway) \<or>
       (\<exists>resp err. answer = Inr resp \<and> snd (resp_body resp) = Some err \<and> length (fst (resp_body resp)) < 2 ^ 20 \<and>
          (\<forall>t. errors_Is e t = errors_Is err t)) \<or>
       (\<exists>resp b. answer = Inr resp \<and> ReadAll_Limit (2 ^ 20) (resp_body resp) = Inr b \<and>
          (case json_Unmarshal net b of
             Inl err \<Rightarrow> errors_Is e ErrBadGateway
           | Inr p \<Rightarrow> Code (Status p) \<noteq> ''SUCCESS'' \<and>
               (if Code (Status p) = [] then errors_Is e ErrBadGateway
                else if Code (Status p) \<in> {''VOUCHER_NOT_FOUND'', ''INVALID_LINK'', ''TARGET_NOT_FOUND''}
                then errors_Is e ErrNotFound
                else if Code (Status p) = ''VOUCHER_OUT_OF_STOCK'' then errors_Is e ErrConflict
                else errors_As e = Some [\<lparr>Field = ''gift'', Message = Msg (Code (Status p))\<rparr>])))"
proof (cases answer)
  case (Inl err)
  then show ?thesis by (simp add: redeem_response_def)
next
  case (Inr resp)
  show ?thesis
  proof (cases "ReadAll_Limit (2 ^ 20) (resp_body resp)")
    case (Inl err)
    then have "snd (resp_body resp) = Some err" "length (fst (resp_body resp)) < 2 ^ 20"
      by (auto simp: ReadAll_Limit_def split: if_splits option.splits)
    with Inl Inr show ?thesis by (simp add: redeem_response_def)
  next
    case (Inr b)
    then have "length b \<le> 2 ^ 20" by (auto simp: ReadAll_Limit_def split: if_splits option.splits)
    with Inr \<open>answer = Inr resp\<close> show ?thesis
      by (cases "json_Unmarshal net b") (simp_all add: redeem_response_def mapBusinessError_def)
  qed
qed

end
