(* ===== verification/Float64.thy ===== *)
theory Float64
  imports Prelude Complex_Main "HOL-Library.Log_Nat"
begin

text \<open>
  The IEEE 754 double-precision arithmetic the program uses, on finite values in the normal range:
  a \<open>float64\<close> is a rational, and every operation is the exact operation followed by \<open>fl\<close>, rounding
  to nearest with ties to even on a 53-bit significand. The program's floats are durations of at
  most \<open>2 ^ 63\<close> nanoseconds in seconds and amounts of at most \<open>2 ^ 63\<close> cents in baht, so neither
  overflow nor subnormal numbers arise.
\<close>

definition pow2 :: "int \<Rightarrow> rat" where
  "pow2 k = (if 0 \<le> k then 2 ^ nat k else 1 / 2 ^ nat (- k))"

text \<open>The exponent \<open>k\<close> with \<open>2 ^ k \<le> x < 2 ^ (k + 1)\<close>, from the bit lengths of the fraction.\<close>

definition floor_log2 :: "rat \<Rightarrow> int" where
  "floor_log2 x =
     (let (n, d) = quotient_of x; k = bitlen n - bitlen d
      in if pow2 k \<le> x then k else k - 1)"

definition round_half_even :: "rat \<Rightarrow> int" where
  "round_half_even r =
     (let f = \<lfloor>r\<rfloor>; d = r - of_int f
      in if d < 1 / 2 then f else if d > 1 / 2 then f + 1 else if even f then f else f + 1)"

definition fl_pos :: "rat \<Rightarrow> rat" where
  "fl_pos x = (let e = floor_log2 x - 52 in of_int (round_half_even (x / pow2 e)) * pow2 e)"

definition fl :: "rat \<Rightarrow> rat" where
  "fl x = (if x = 0 then 0 else if x < 0 then - fl_pos (- x) else fl_pos x)"

text \<open>\<^verbatim>\<open>math.Round\<close> rounds half away from zero, \<^verbatim>\<open>math.Ceil\<close> up; both are exact on floats.\<close>

definition math_Round :: "rat \<Rightarrow> int" where
  "math_Round x = (if x < 0 then - \<lfloor>1 / 2 - x\<rfloor> else \<lfloor>x + 1 / 2\<rfloor>)"

definition math_Ceil :: "rat \<Rightarrow> int" where
  "math_Ceil x = \<lceil>x\<rceil>"

section \<open>Powers of two\<close>

lemma pow2_pos [simp]: "0 < pow2 k"
  by (simp add: pow2_def)

lemma pow2_nonzero [simp]: "pow2 k \<noteq> 0"
  using pow2_pos [of k] by linarith

lemma pow2_powi: "pow2 k = 2 powi k"
  by (simp add: pow2_def power_int_def power_one_over inverse_eq_divide)

lemma pow2_add: "pow2 (j + k) = pow2 j * pow2 k"
  by (simp add: pow2_powi power_int_add)

lemma pow2_diff: "pow2 (j - k) = pow2 j / pow2 k"
  by (simp add: pow2_powi power_int_diff)

lemma pow2_le_iff: "pow2 j \<le> pow2 k \<longleftrightarrow> j \<le> k"
  by (auto simp: pow2_powi not_le [symmetric] intro: power_int_increasing)
    (meson linorder_not_le power_int_strict_increasing one_less_numeral_iff semiring_norm(76))

lemma pow2_of_nat [simp]: "pow2 (int n) = 2 ^ n"
  by (simp add: pow2_def)

lemma pow2_numeral [simp]: "pow2 (numeral n) = 2 ^ numeral n"
  by (simp add: pow2_def)

lemma pow2_one [simp]: "pow2 1 = 2" and pow2_zero [simp]: "pow2 0 = 1"
  by (simp_all add: pow2_def)

lemma bitlen_pow2_bounds:
  assumes "0 < n"
  shows "pow2 (bitlen n - 1) \<le> of_int n" and "of_int n < pow2 (bitlen n)"
proof -
  have l: "0 < bitlen n" using assms bitlen_bounds [of n] by (cases "bitlen n \<le> 0") (auto simp: not_le)
  have b: "2 ^ nat (bitlen n - 1) \<le> n" "n < 2 ^ nat (bitlen n)"
    using bitlen_bounds [OF assms] by auto
  have "(of_int (2 ^ nat (bitlen n - 1)) :: rat) \<le> of_int n" using b(1) by (simp only: of_int_le_iff)
  then show "pow2 (bitlen n - 1) \<le> of_int n" using l by (simp add: pow2_def)
  have "(of_int n :: rat) < of_int (2 ^ nat (bitlen n))" using b(2) by (simp only: of_int_less_iff)
  then show "of_int n < pow2 (bitlen n)" using l by (simp add: pow2_def)
qed

lemma floor_log2_bounds:
  assumes "0 < x"
  shows "pow2 (floor_log2 x) \<le> x" and "x < pow2 (floor_log2 x + 1)"
proof -
  obtain n d where q: "quotient_of x = (n, d)" by (cases "quotient_of x")
  have d: "0 < d" using q by (rule quotient_of_denom_pos)
  have x: "x = of_int n / of_int d" using q by (rule quotient_of_div)
  have n: "0 < n" using assms d unfolding x by (simp add: zero_less_divide_iff)
  let ?k = "bitlen n - bitlen d"
  note bn = bitlen_pow2_bounds [OF n] and bd = bitlen_pow2_bounds [OF d]
  have dpos: "(0 :: rat) < of_int d" using d by simp
  have "x < pow2 (bitlen n) / pow2 (bitlen d - 1)"
    unfolding x using bn(2) bd(1) dpos n by (intro frac_less) auto
  then have up: "x < pow2 (?k + 1)" by (simp add: pow2_diff pow2_add)
  have "pow2 (bitlen n - 1) / pow2 (bitlen d) \<le> x"
    unfolding x using bn(1) bd(2) dpos n by (intro frac_le) auto
  then have lo: "pow2 (?k - 1) \<le> x" by (simp add: pow2_diff)
  show "pow2 (floor_log2 x) \<le> x" and "x < pow2 (floor_log2 x + 1)"
    using up lo by (auto simp: floor_log2_def q Let_def)
qed

section \<open>Rounding\<close>

lemma round_half_even_error: "\<bar>of_int (round_half_even r) - r\<bar> \<le> 1 / 2"
proof -
  have "of_int \<lfloor>r\<rfloor> \<le> r" "r < of_int \<lfloor>r\<rfloor> + 1" by linarith+
  then show ?thesis by (auto simp: round_half_even_def Let_def abs_le_iff)
qed

lemma round_half_even_int [simp]: "round_half_even (of_int n) = n"
  by (simp add: round_half_even_def)

lemma fl_pos_error:
  assumes "0 < x"
  shows "\<bar>fl_pos x - x\<bar> \<le> x / 2 ^ 53"
proof -
  let ?e = "floor_log2 x - 52"
  have "fl_pos x - x = (of_int (round_half_even (x / pow2 ?e)) - x / pow2 ?e) * pow2 ?e"
    by (simp add: fl_pos_def Let_def field_simps)
  then have "\<bar>fl_pos x - x\<bar> = \<bar>of_int (round_half_even (x / pow2 ?e)) - x / pow2 ?e\<bar> * pow2 ?e"
    by (simp add: abs_mult abs_of_pos)
  also have "\<dots> \<le> 1 / 2 * pow2 ?e"
    by (intro mult_right_mono round_half_even_error) (simp add: less_imp_le)
  also have "\<dots> = pow2 (floor_log2 x) / 2 ^ 53" by (simp add: pow2_diff)
  also have "\<dots> \<le> x / 2 ^ 53" using floor_log2_bounds(1) [OF assms] by (simp add: divide_right_mono)
  finally show ?thesis .
qed

text \<open>The standard model of floating-point rounding: relative error at most \<open>2 ^ -53\<close>.\<close>

lemma fl_error: "\<bar>fl x - x\<bar> \<le> \<bar>x\<bar> / 2 ^ 53"
proof -
  consider "x = 0" | "x < 0" | "0 < x" by linarith
  then show ?thesis
  proof cases
    case 2
    then have "\<bar>fl_pos (- x) - (- x)\<bar> \<le> - x / 2 ^ 53" using fl_pos_error [of "- x"] by simp
    with 2 show ?thesis by (simp add: fl_def)
  next
    case 3
    then show ?thesis using fl_pos_error [of x] by (simp add: fl_def)
  qed (simp add: fl_def)
qed

lemma fl_zero [simp]: "fl 0 = 0"
  by (simp add: fl_def)

text \<open>Integers of at most 53 bits are represented exactly.\<close>

lemma fl_pos_int:
  assumes "0 < n" and "n < 2 ^ 53"
  shows "fl_pos (of_int n) = of_int n"
proof -
  let ?x = "of_int n :: rat"
  have x: "0 < ?x" using assms by simp
  have "pow2 (floor_log2 ?x) \<le> ?x" by (rule floor_log2_bounds(1) [OF x])
  moreover have "?x < pow2 53" using assms(2) by (simp flip: of_int_power add: pow2_def)
  ultimately have "pow2 (floor_log2 ?x) < pow2 53" by linarith
  then have le: "floor_log2 ?x - 52 \<le> 0" using pow2_le_iff [of 53 "floor_log2 ?x"] by linarith
  define j where "j = nat (52 - floor_log2 ?x)"
  have e: "floor_log2 ?x - 52 = - int j" using le by (simp add: j_def)
  have "?x / pow2 (- int j) = of_int (n * 2 ^ j)"
    by (simp add: pow2_powi power_int_minus divide_inverse)
  then have "fl_pos ?x = of_int (n * 2 ^ j) * pow2 (- int j)"
    by (simp only: fl_pos_def Let_def e round_half_even_int)
  also have "\<dots> = of_int n" by (simp add: pow2_powi power_int_minus)
  finally show ?thesis .
qed

lemma fl_int:
  assumes "\<bar>n\<bar> < 2 ^ 53"
  shows "fl (of_int n) = of_int n"
  using fl_pos_int [of n] fl_pos_int [of "- n"] assms by (auto simp: fl_def)

section \<open>Durations in seconds\<close>

text \<open>Go's integer division and remainder truncate towards zero.\<close>

definition go_quot :: "int \<Rightarrow> int \<Rightarrow> int" where
  "go_quot a b = sgn a * sgn b * (\<bar>a\<bar> div \<bar>b\<bar>)"

definition go_rem :: "int \<Rightarrow> int \<Rightarrow> int" where
  "go_rem a b = a - go_quot a b * b"

text \<open>\<^verbatim>\<open>Duration.Seconds\<close>\<close>

definition Seconds :: "duration \<Rightarrow> rat" where
  "Seconds d =
     (let sec = go_quot d 1000000000; nsec = go_rem d 1000000000
      in fl (fl (of_int sec) + fl (fl (of_int nsec) / 1000000000)))"

text \<open>The conversion \<^verbatim>\<open>int(x)\<close> of a float truncates towards zero.\<close>

definition go_int :: "rat \<Rightarrow> int" where
  "go_int x = (if x < 0 then \<lceil>x\<rceil> else \<lfloor>x\<rfloor>)"

lemma go_div_pos: "0 \<le> d \<Longrightarrow> go_quot d 1000000000 = d div 1000000000 \<and> go_rem d 1000000000 = d mod 1000000000"
  by (auto simp: go_quot_def go_rem_def sgn_if minus_div_mult_eq_mod)

lemma Seconds_int:
  assumes "0 \<le> d" and "d < 2 ^ 22 * 1000000000" and "d mod 1000000000 = 0"
  shows "Seconds d = of_int (d div 1000000000)"
proof -
  have "0 \<le> d div 1000000000" "d div 1000000000 < 2 ^ 22" using assms(1,2) by auto
  then have "\<bar>d div 1000000000\<bar> < 2 ^ 53" by simp
  then show ?thesis
    using assms go_div_pos [OF assms(1)] fl_int [of "d div 1000000000"] by (simp add: Seconds_def)
qed

lemma Seconds_between:
  assumes "0 \<le> d" and "d < 2 ^ 22 * 1000000000" and "d mod 1000000000 \<noteq> 0"
  shows "of_int (d div 1000000000) < Seconds d" and "Seconds d < of_int (d div 1000000000) + 1"
proof -
  define s n where "s = d div 1000000000" and "n = d mod 1000000000"
  have s: "0 \<le> s" "s < 2 ^ 22" using assms by (auto simp: s_def)
  have n: "1 \<le> n" "n \<le> 999999999" using assms pos_mod_bound [of 1000000000 d] pos_mod_sign [of 1000000000 d]
    by (auto simp: n_def)
  let ?q = "of_int n / 1000000000 :: rat"
  have q: "1 / 1000000000 \<le> ?q" "?q \<le> 999999999 / 1000000000" using n by simp_all
  have fq: "\<bar>fl ?q - ?q\<bar> \<le> ?q / 2 ^ 53" using fl_error [of ?q] q by simp
  let ?f = "fl ?q"
  have f: "?q - ?q / 2 ^ 53 \<le> ?f" "?f \<le> ?q + ?q / 2 ^ 53" using fq by linarith+
  let ?y = "of_int s + ?f :: rat"
  have "s \<le> 4194303" using s by simp
  then have "(of_int s :: rat) \<le> of_int 4194303" by (simp only: of_int_le_iff)
  then have s': "(0 :: rat) \<le> of_int s" "(of_int s :: rat) \<le> 4194303" using s by simp_all
  have fpos: "0 < ?f" using f(1) q(1) by (simp add: field_simps)
  have y: "0 < ?y" "?y \<le> 4194304" using s' f(2) q(2) fpos by (simp_all add: field_simps)
  have fy: "\<bar>fl ?y - ?y\<bar> \<le> 4194304 / 2 ^ 53" using fl_error [of ?y] y by (simp add: field_simps)
  have "4194304 / 2 ^ 53 < ?f" using f(1) q(1) by (simp add: field_simps)
  then have "of_int s < fl ?y" using fy by linarith
  moreover have "?f + 4194304 / 2 ^ 53 < 1" using f(2) q(2) by (simp add: field_simps)
  then have "fl ?y < of_int s + 1" using fy by linarith
  moreover have "fl (of_int s) = of_int s" "fl (of_int n) = of_int n" using s n by (auto intro!: fl_int)
  ultimately show "of_int (d div 1000000000) < Seconds d" "Seconds d < of_int (d div 1000000000) + 1"
    using go_div_pos [OF assms(1)] by (simp_all add: Seconds_def s_def n_def)
qed

lemma Seconds_whole:
  assumes "0 \<le> d" and "d < 2 ^ 22 * 1000000000" and "d mod 1000000000 = 0"
  shows "math_Ceil (Seconds d) = d div 1000000000"
  using Seconds_int [OF assms] by (simp add: math_Ceil_def)

lemma Seconds_part:
  assumes "0 \<le> d" and "d < 2 ^ 22 * 1000000000" and "d mod 1000000000 \<noteq> 0"
  shows "math_Ceil (Seconds d) = d div 1000000000 + 1"
  using Seconds_between [OF assms] by (simp add: math_Ceil_def ceiling_eq_iff)

lemma go_int_Seconds:
  assumes "0 \<le> d" and "d < 2 ^ 22 * 1000000000"
  shows "go_int (Seconds d) = d div 1000000000"
proof (cases "d mod 1000000000 = 0")
  case True
  then show ?thesis using Seconds_int [OF assms] assms(1) by (simp add: go_int_def pos_imp_zdiv_neg_iff)
next
  case False
  note between = Seconds_between [OF assms False]
  have "(0 :: rat) \<le> of_int (d div 1000000000)" using assms(1) by (simp add: pos_imp_zdiv_nonneg_iff)
  then have "\<not> Seconds d < 0" using between(1) by linarith
  then show ?thesis using between by (simp add: go_int_def floor_eq_iff)
qed

end
