(* ===== verification/Money.thy ===== *)
theory Money
  imports Model Regexp Float64
begin

text \<open>
  \<^verbatim>\<open>internal/money/money.go\<close>: decimal amount strings to integer cents. \<open>amount_value\<close> is the
  rational number a decimal string denotes, the reference \<open>ParseCents\<close> is proved against.
\<close>

definition amountRe :: regex where
  "amountRe =
     Cat (Plus (Cls [(CHR ''0'', CHR ''9'')]))
         (Opt (Cat (Lit (CHR ''.'')) (Rep (Cls [(CHR ''0'', CHR ''9'')]) 1 2)))"

text \<open>The error value of \<^verbatim>\<open>strconv.ParseInt\<close>.\<close>

fun NumError :: "string \<Rightarrow> num_error \<Rightarrow> go_error" where
  "NumError s ErrSyntax = OtherError (MsgQ ''strconv.ParseInt: parsing '' s '': invalid syntax'')"
| "NumError s ErrRange = OtherError (MsgQ ''strconv.ParseInt: parsing '' s '': value out of range'')"

text \<open>The fraction part brought to two digits (lines 23 to 28).\<close>

definition pad_frac :: "string \<Rightarrow> string" where
  "pad_frac fr =
     (let fr = (if fr = [] then ''00'' else fr)
      in if length fr = 1 then fr @ ''0'' else fr)"

definition ParseCents :: "string \<Rightarrow> int result" where
  "ParseCents s =
     (if \<not> MatchString amountRe s then Inl (OtherError (MsgQ ''invalid amount '' s ''''))
      else
        let (whole, fr, _) = Cut s (CHR ''.'');
            fr = pad_frac fr
        in case ParseInt whole of
             (_, Some e) \<Rightarrow> Inl (Wrapped (MsgQ ''invalid amount '' s '''') (NumError whole e))
           | (w, None) \<Rightarrow>
               (case ParseInt fr of
                  (_, Some e) \<Rightarrow> Inl (Wrapped (MsgQ ''invalid amount '' s '''') (NumError fr e))
                | (f, None) \<Rightarrow>
                    if w > (MaxInt64 - f) div 100 then Inl (OtherError (MsgQ ''amount '' s '' overflows''))
                    else Inr (wrap64 (wrap64 (w * 100) + f))))"

text \<open>
  \<^verbatim>\<open>FloatCents\<close> on a finite float. Go leaves the conversion of a float outside the \<open>int64\<close> range
  to the implementation; that case is \<open>None\<close>.
\<close>

definition FloatCents :: "rat \<Rightarrow> int option" where
  "FloatCents f =
     (if f \<le> 0 then Some 0
      else let c = math_Round (fl (f * 100)) in if is_int64 c then Some c else None)"

section \<open>The amount a string denotes\<close>

definition amount_value :: "string \<Rightarrow> rat" where
  "amount_value s =
     (let (whole, fr, _) = Cut s (CHR ''.'')
      in of_nat (dec_value whole) + of_nat (dec_value fr) / 10 ^ length fr)"

lemma in_cls_digit: "in_cls [(CHR ''0'', CHR ''9'')] c \<longleftrightarrow> is_digit c"
  by (simp add: in_cls_def is_digit_def)

lemma list_all_digit: "list_all (in_cls [(CHR ''0'', CHR ''9'')]) s \<longleftrightarrow> list_all is_digit s"
  by (simp add: in_cls_digit list_all_iff)

lemma digits_no_dot: "list_all is_digit s \<Longrightarrow> CHR ''.'' \<notin> set s"
  by (auto simp: list_all_iff is_digit_def)

lemma amountRe_iff:
  "MatchString amountRe s \<longleftrightarrow>
     (\<exists>w. w \<noteq> [] \<and> list_all is_digit w \<and>
        (s = w \<or> (\<exists>f. s = w @ CHR ''.'' # f \<and> list_all is_digit f \<and> length f \<in> {1, 2})))"
proof -
  let ?D = "Cls [(CHR ''0'', CHR ''9'')]"
  have rep: "f \<in> lang (Rep ?D 1 2) \<longleftrightarrow> list_all is_digit f \<and> length f \<in> {1, 2}" for f
    by (auto simp: lang_Rep_Cls [of 1 2] list_all_digit simp del: lang.simps One_nat_def)
  have opt: "v \<in> lang (Opt (Cat (Lit (CHR ''.'')) (Rep ?D 1 2))) \<longleftrightarrow>
      v = [] \<or> (\<exists>f. v = CHR ''.'' # f \<and> list_all is_digit f \<and> length f \<in> {1, 2})" for v
    unfolding Opt_def lang.simps lang_Lit by (auto simp: rep simp del: One_nat_def)
  have "s \<in> lang amountRe \<longleftrightarrow> (\<exists>w v. s = w @ v \<and> w \<in> lang (Plus ?D) \<and>
      v \<in> lang (Opt (Cat (Lit (CHR ''.'')) (Rep ?D 1 2))))"
    unfolding amountRe_def lang.simps(4) by blast
  also have "\<dots> \<longleftrightarrow> (\<exists>w. w \<noteq> [] \<and> list_all is_digit w \<and>
        (s = w \<or> (\<exists>f. s = w @ CHR ''.'' # f \<and> list_all is_digit f \<and> length f \<in> {1, 2})))"
    by (auto simp only: opt lang_Plus_Cls list_all_digit mem_Collect_eq append_Nil2)
  finally show ?thesis by (simp add: MatchString_lang)
qed

text \<open>The fraction padded to two digits, as \<open>ParseCents\<close> builds it, has 100 times its value.\<close>

lemma padded_frac_value:
  assumes "list_all is_digit f" and "length f \<in> {0, 1, 2}"
  defines "p \<equiv> pad_frac f"
  shows "list_all is_digit p" and "p \<noteq> []" and "dec_value p < 100"
    and "(of_nat (dec_value p) :: rat) = 100 * (of_nat (dec_value f) / 10 ^ length f)"
proof -
  have zero: "is_digit (CHR ''0'')" "digit_val (CHR ''0'') = 0"
    by (simp_all add: is_digit_def digit_val_def)
  consider "f = []" | a where "f = [a]" | a b where "f = [a, b]"
    using assms(2) by (auto simp: length_Suc_conv numeral_2_eq_2)
  then have "list_all is_digit p \<and> p \<noteq> [] \<and> dec_value p < 100 \<and>
      (of_nat (dec_value p) :: rat) = 100 * (of_nat (dec_value f) / 10 ^ length f)"
  proof cases
    case 1
    then show ?thesis by (simp add: p_def pad_frac_def zero dec_value_def)
  next
    case (2 a)
    then show ?thesis using assms(1) digit_val_less [of a] by (simp add: p_def pad_frac_def zero dec_value_def)
  next
    case (3 a b)
    then have "digit_val a < 10" "digit_val b < 10" using assms(1) by simp_all
    then have "digit_val a * 10 + digit_val b < 100" by linarith
    with 3 show ?thesis using assms(1) by (simp add: p_def pad_frac_def dec_value_def)
  qed
  then show "list_all is_digit p" and "p \<noteq> []" and "dec_value p < 100"
    and "(of_nat (dec_value p) :: rat) = 100 * (of_nat (dec_value f) / 10 ^ length f)"
    by blast+
qed

lemma overflow_guard_exact:
  fixes w f :: int
  assumes "0 \<le> f" and "f < 100"
  shows "w > (MaxInt64 - f) div 100 \<longleftrightarrow> w * 100 + f > MaxInt64"
  using assms by linarith

lemma ParseCents_cut:
  assumes m: "MatchString amountRe s" and c: "Cut s (CHR ''.'') = (w, f, b)"
  shows "w \<noteq> []" and "list_all is_digit w" and "list_all is_digit f" and "length f \<in> {0, 1, 2}"
proof -
  from m obtain w' where w': "w' \<noteq> []" "list_all is_digit w'"
    and s: "s = w' \<or> (\<exists>f. s = w' @ CHR ''.'' # f \<and> list_all is_digit f \<and> length f \<in> {1, 2})"
    by (auto simp: amountRe_iff)
  from s show "w \<noteq> []" "list_all is_digit w" "list_all is_digit f" "length f \<in> {0, 1, 2}"
    using c w' digits_no_dot [of w'] by auto
qed

text \<open>The value of \<open>ParseCents\<close> on a well-formed amount, with its overflow test resolved.\<close>

lemma ParseCents_matched:
  assumes m: "MatchString amountRe s"
  shows "\<exists>c. of_int c = 100 * amount_value s \<and> 0 \<le> c \<and>
    (if c \<le> MaxInt64 then ParseCents s = Inr c else \<exists>e. ParseCents s = Inl e)"
proof -
  obtain w f b where c: "Cut s (CHR ''.'') = (w, f, b)" by (cases "Cut s (CHR ''.'')") auto
  define p where "p = pad_frac f"
  note wf = ParseCents_cut [OF m c]
  note p = padded_frac_value [OF wf(3,4), folded p_def]
  have fv: "ParseInt p = (int (dec_value p), None)"
    using ParseInt_digits [OF p(2,1)] p(3) by simp
  have pc: "ParseCents s = (case ParseInt w of
       (_, Some e) \<Rightarrow> Inl (Wrapped (MsgQ ''invalid amount '' s '''') (NumError w e))
     | (v, None) \<Rightarrow> if v > (MaxInt64 - int (dec_value p)) div 100
         then Inl (OtherError (MsgQ ''amount '' s '' overflows''))
         else Inr (wrap64 (wrap64 (v * 100) + int (dec_value p))))"
    unfolding p_def using m c fv by (simp add: ParseCents_def p_def Let_def)
  let ?c = "int (dec_value w) * 100 + int (dec_value p)"
  have "of_int ?c = 100 * amount_value s"
    using p(4) by (simp add: amount_value_def c)
  moreover have "if ?c \<le> MaxInt64 then ParseCents s = Inr ?c else \<exists>e. ParseCents s = Inl e"
  proof (cases "dec_value w \<le> 9223372036854775807")
    case True
    have g: "int (dec_value w) > (MaxInt64 - int (dec_value p)) div 100 \<longleftrightarrow> ?c > MaxInt64"
      using p(3) by (intro overflow_guard_exact) auto
    have "is_int64 ?c" if "?c \<le> MaxInt64" using that by (simp add: is_int64_def)
    with True g show ?thesis unfolding pc ParseInt_digits [OF wf(1,2)] by (auto simp: not_less)
  next
    case False
    then have "\<not> ?c \<le> MaxInt64" by linarith
    with False show ?thesis unfolding pc ParseInt_digits [OF wf(1,2)] by auto
  qed
  ultimately show ?thesis by (intro exI [of _ ?c]) auto
qed

lemma ParseCents_unmatched: "\<not> MatchString amountRe s \<Longrightarrow> \<exists>e. ParseCents s = Inl e"
  by (simp add: ParseCents_def)

text \<open>
  C39: \<open>ParseCents\<close> accepts exactly the decimal strings with at most two decimals whose value fits in
  64-bit cents, and returns exactly 100 times the denoted amount: no rounding, no wrap-around, and
  no representable amount is rejected.
\<close>

theorem ParseCents_exact:
  "ParseCents s = Inr c \<longleftrightarrow>
     MatchString amountRe s \<and> of_int c = 100 * amount_value s \<and> c \<le> MaxInt64"
proof (cases "MatchString amountRe s")
  case True
  then obtain d where d: "of_int d = 100 * amount_value s"
    and r: "if d \<le> MaxInt64 then ParseCents s = Inr d else \<exists>e. ParseCents s = Inl e"
    using ParseCents_matched by blast
  have "of_int c = 100 * amount_value s \<longleftrightarrow> c = d" unfolding d [symmetric] by simp
  with True r show ?thesis by (auto split: if_splits)
next
  case False
  then show ?thesis using ParseCents_unmatched [of s] by auto
qed

section \<open>Floats of cents\<close>

text \<open>
  Dividing cents by 100 in floating point and converting back loses nothing up to \<open>2 ^ 50\<close> cents:
  the two roundings move the value by less than half a cent.
\<close>

lemma two_roundings:
  fixes c g h :: rat
  assumes "\<bar>g - c\<bar> \<le> c / 2 ^ 53" and "\<bar>h - g\<bar> \<le> g / 2 ^ 53" and "c \<le> 2 ^ 50"
  shows "\<bar>h - c\<bar> < 1 / 2"
proof -
  have "g - c \<le> c / 2 ^ 53" "c - g \<le> c / 2 ^ 53" "h - g \<le> g / 2 ^ 53" "g - h \<le> g / 2 ^ 53"
    using assms(1,2) unfolding abs_le_iff by linarith+
  with assms(3) show ?thesis unfolding abs_less_iff by (simp add: field_simps; linarith)
qed

lemma FloatCents_div_100:
  assumes "0 \<le> c" and "c \<le> 2 ^ 50"
  shows "FloatCents (fl (of_int c / 100)) = Some c"
proof (cases "c = 0")
  case True
  then show ?thesis by (simp add: FloatCents_def)
next
  case False
  let ?c = "of_int c :: rat"
  let ?f = "fl (?c / 100)"
  have c: "1 \<le> ?c" "?c \<le> 2 ^ 50" using assms False by (simp_all flip: of_int_power)
  have e1: "\<bar>?f - ?c / 100\<bar> \<le> ?c / 100 / 2 ^ 53"
    using fl_error [of "?c / 100"] c(1) by simp
  then have f: "\<bar>?f * 100 - ?c\<bar> \<le> ?c / 2 ^ 53" by (simp add: abs_le_iff field_simps)
  have "?c - ?c / 2 ^ 53 \<le> ?f * 100" using f unfolding abs_le_iff by linarith
  moreover have "0 < ?c - ?c / 2 ^ 53" using c(1) by simp
  ultimately have fpos: "0 < ?f" by linarith
  have "\<bar>fl (?f * 100) - ?f * 100\<bar> \<le> ?f * 100 / 2 ^ 53"
    using fl_error [of "?f * 100"] fpos by simp
  then have "\<bar>fl (?f * 100) - ?c\<bar> < 1 / 2" by (rule two_roundings [OF f _ c(2)])
  then have "?c < fl (?f * 100) + 1 / 2" "fl (?f * 100) + 1 / 2 < ?c + 1"
    unfolding abs_less_iff by linarith+
  then have "math_Round (fl (?f * 100)) = c" using c(1)
    by (auto simp: math_Round_def intro!: floor_unique)
  moreover have "is_int64 c" using assms by (simp add: is_int64_def)
  ultimately show ?thesis using fpos by (simp add: FloatCents_def Let_def)
qed

end
