(* ===== verification/Statstore.thy ===== *)
theory Statstore
  imports Model Money
begin

text \<open>
  The interface \<^verbatim>\<open>statsStore\<close> (\<^verbatim>\<open>internal/service/stats.go\<close>, \<^verbatim>\<open>internal/handler/stats_handler.go\<close>) with its
  contract as the locale \<open>stats_store\<close>, and the in-memory implementation of
  \<^verbatim>\<open>internal/repository/memory/stats.go\<close>. Each method runs under the store's mutex, so it is one
  function on the state.
\<close>

section \<open>The interface\<close>

record 's stats_repo =
  stats_RecordTw :: "int \<Rightarrow> string \<Rightarrow> 's \<Rightarrow> unit result \<times> 's"
  stats_RecordTwError :: "'s \<Rightarrow> unit result \<times> 's"
  stats_Totals :: "'s \<Rightarrow> Stats result"

text \<open>
  What a store has counted: the references seen, the number of redemptions, their cents and the
  failed attempts. The counters are 64-bit.
\<close>

record ledger =
  led_refs :: "string set"
  led_count :: int
  led_cents :: int
  led_errors :: int

definition ledger_record :: "int \<Rightarrow> string \<Rightarrow> ledger \<Rightarrow> ledger" where
  "ledger_record cents ref l =
     (if ref \<noteq> [] \<and> ref \<in> led_refs l then l
      else l\<lparr>led_refs := (if ref = [] then led_refs l else insert ref (led_refs l)),
            led_count := wrap64 (led_count l + 1), led_cents := wrap64 (led_cents l + cents)\<rparr>)"

definition ledger_error :: "ledger \<Rightarrow> ledger" where
  "ledger_error l = l\<lparr>led_errors := wrap64 (led_errors l + 1)\<rparr>"

text \<open>The report a ledger gives: \<^verbatim>\<open>float64(cents) / 100\<close> rounds twice.\<close>

definition ledger_stats :: "ledger \<Rightarrow> Stats" where
  "ledger_stats l =
     (let amount = fl (fl (of_int (led_cents l)) / 100)
      in \<lparr>Stats_Amount = amount, Stats_Count = led_count l, Stats_Errors = led_errors l,
          TrueMoney = \<lparr>Part_Amount = amount, Part_Count = led_count l, Part_Errors = led_errors l\<rparr>\<rparr>)"

text \<open>
  The contract. A call that reports success has recorded exactly once per reference; a call that
  reports an error has either recorded or left the ledger alone (its answer may have been lost), and
  never anything in between.
\<close>

locale stats_store =
  fixes repo :: "'s stats_repo"
    and inv :: "'s \<Rightarrow> bool"
    and up :: "'s \<Rightarrow> bool"
    and ledger_of :: "'s \<Rightarrow> ledger"
  assumes record_inv: "inv s \<Longrightarrow> inv (snd (stats_RecordTw repo c r s))"
    and record_atomic: "inv s \<Longrightarrow> ledger_of (snd (stats_RecordTw repo c r s)) \<in> {ledger_of s, ledger_record c r (ledger_of s)}"
    and record_sound: "inv s \<Longrightarrow> stats_RecordTw repo c r s = (Inr u, s') \<Longrightarrow> ledger_of s' = ledger_record c r (ledger_of s)"
    and error_inv: "inv s \<Longrightarrow> inv (snd (stats_RecordTwError repo s))"
    and error_atomic: "inv s \<Longrightarrow> ledger_of (snd (stats_RecordTwError repo s)) \<in> {ledger_of s, ledger_error (ledger_of s)}"
    and error_sound: "inv s \<Longrightarrow> stats_RecordTwError repo s = (Inr u, s') \<Longrightarrow> ledger_of s' = ledger_error (ledger_of s)"
    and totals_sound: "inv s \<Longrightarrow> stats_Totals repo s = Inr st \<Longrightarrow> st = ledger_stats (ledger_of s)"
    and totals_up: "inv s \<Longrightarrow> up s \<Longrightarrow> \<exists>st. stats_Totals repo s = Inr st"
begin

text \<open>Retrying a recording under the same reference, as often as one likes, counts at most once.\<close>

lemma record_retry:
  assumes "inv s" and "r \<noteq> []"
  shows "inv (((\<lambda>s. snd (stats_RecordTw repo c r s)) ^^ n) s) \<and>
    ledger_of (((\<lambda>s. snd (stats_RecordTw repo c r s)) ^^ n) s) \<in> {ledger_of s, ledger_record c r (ledger_of s)}"
proof (induction n)
  case (Suc n)
  let ?s = "((\<lambda>s. snd (stats_RecordTw repo c r s)) ^^ n) s"
  have "ledger_record c r (ledger_record c r (ledger_of s)) = ledger_record c r (ledger_of s)"
    using assms(2) by (simp add: ledger_record_def)
  with Suc record_inv [of ?s c r] record_atomic [of ?s c r] show ?case by auto
qed (use assms in simp)

end

section \<open>The in-memory store\<close>

record StatsStore =
  twCount :: int
  twAmountCents :: int
  twErrors :: int
  twRefs :: "string set"

definition NewStatsStore :: StatsStore where
  "NewStatsStore = \<lparr>twCount = 0, twAmountCents = 0, twErrors = 0, twRefs = {}\<rparr>"

definition RecordTw :: "int \<Rightarrow> string \<Rightarrow> StatsStore \<Rightarrow> unit result \<times> StatsStore" where
  "RecordTw amountCents ref s =
     (if ref \<noteq> [] \<and> ref \<in> twRefs s then (Inr (), s)
      else
        let s = (if ref \<noteq> [] then s\<lparr>twRefs := insert ref (twRefs s)\<rparr> else s);
            s = s\<lparr>twCount := wrap64 (twCount s + 1)\<rparr>;
            s = s\<lparr>twAmountCents := wrap64 (twAmountCents s + amountCents)\<rparr>
        in (Inr (), s))"

definition RecordTwError :: "StatsStore \<Rightarrow> unit result \<times> StatsStore" where
  "RecordTwError s = (Inr (), s\<lparr>twErrors := wrap64 (twErrors s + 1)\<rparr>)"

definition Totals :: "StatsStore \<Rightarrow> Stats result" where
  "Totals s = Inr
     \<lparr>Stats_Amount = fl (fl (of_int (twAmountCents s)) / 100),
      Stats_Count = twCount s,
      Stats_Errors = twErrors s,
      TrueMoney = \<lparr>Part_Amount = fl (fl (of_int (twAmountCents s)) / 100),
                   Part_Count = twCount s, Part_Errors = twErrors s\<rparr>\<rparr>"

definition memory_stats :: "StatsStore stats_repo" where
  "memory_stats = \<lparr>stats_RecordTw = RecordTw, stats_RecordTwError = RecordTwError, stats_Totals = Totals\<rparr>"

definition store_ledger :: "StatsStore \<Rightarrow> ledger" where
  "store_ledger s = \<lparr>led_refs = twRefs s, led_count = twCount s, led_cents = twAmountCents s, led_errors = twErrors s\<rparr>"

lemma memory_stats_simps [simp]:
  "stats_RecordTw memory_stats = RecordTw" "stats_RecordTwError memory_stats = RecordTwError"
  "stats_Totals memory_stats = Totals"
  by (simp_all add: memory_stats_def)

lemma RecordTw_ok [simp]: "fst (RecordTw c r s) = Inr ()"
  by (simp add: RecordTw_def Let_def)

lemma RecordTw_ledger: "store_ledger (snd (RecordTw c r s)) = ledger_record c r (store_ledger s)"
  by (simp add: RecordTw_def ledger_record_def store_ledger_def Let_def)

lemma RecordTwError_ledger: "store_ledger (snd (RecordTwError s)) = ledger_error (store_ledger s)"
  by (simp add: RecordTwError_def ledger_error_def store_ledger_def)

lemma Totals_ledger: "Totals s = Inr (ledger_stats (store_ledger s))"
  by (simp add: Totals_def ledger_stats_def store_ledger_def Let_def)

interpretation mst: stats_store memory_stats "\<lambda>_. True" "\<lambda>_. True" store_ledger
  by unfold_locales (auto simp: RecordTw_ledger RecordTwError_ledger Totals_ledger dest: arg_cong [of _ _ snd]
    simp flip: RecordTw_ledger RecordTwError_ledger)

section \<open>Counting each redemption once\<close>

text \<open>A sequence of recordings, each with its cents and reference, in the order the mutex admits them.\<close>

definition record_one :: "int \<times> string \<Rightarrow> StatsStore \<Rightarrow> StatsStore" where
  "record_one x s = snd (RecordTw (fst x) (snd x) s)"

definition record_all :: "(int \<times> string) list \<Rightarrow> StatsStore \<Rightarrow> StatsStore" where
  "record_all xs s = fold record_one xs s"

definition anonymous :: "(int \<times> string) list \<Rightarrow> (int \<times> string) list" where
  "anonymous xs = filter (\<lambda>x. snd x = []) xs"

definition new_refs :: "(int \<times> string) list \<Rightarrow> StatsStore \<Rightarrow> string set" where
  "new_refs xs s = {r \<in> snd ` set xs. r \<noteq> [] \<and> r \<notin> twRefs s}"

lemma finite_new_refs [simp]: "finite (new_refs xs s)"
  by (simp add: new_refs_def)

lemma record_all_simps [simp]:
  "record_all [] s = s" "record_all (x # xs) s = record_all xs (record_one x s)"
  by (simp_all add: record_all_def)

lemma record_one_cases:
  shows "snd x \<noteq> [] \<Longrightarrow> snd x \<in> twRefs s \<Longrightarrow> record_one x s = s"
    and "snd x \<noteq> [] \<Longrightarrow> snd x \<notin> twRefs s \<Longrightarrow> record_one x s =
      s\<lparr>twCount := wrap64 (twCount s + 1), twAmountCents := wrap64 (twAmountCents s + fst x),
        twRefs := insert (snd x) (twRefs s)\<rparr>"
    and "snd x = [] \<Longrightarrow> record_one x s =
      s\<lparr>twCount := wrap64 (twCount s + 1), twAmountCents := wrap64 (twAmountCents s + fst x)\<rparr>"
  by (simp_all add: record_one_def RecordTw_def Let_def)

lemma new_refs_Cons:
  shows "snd x \<noteq> [] \<Longrightarrow> snd x \<in> twRefs s \<Longrightarrow> new_refs (x # xs) s = new_refs xs (record_one x s)"
    and "snd x = [] \<Longrightarrow> new_refs (x # xs) s = new_refs xs (record_one x s)"
    and "snd x \<noteq> [] \<Longrightarrow> snd x \<notin> twRefs s \<Longrightarrow>
      new_refs (x # xs) s = insert (snd x) (new_refs xs (record_one x s)) \<and> snd x \<notin> new_refs xs (record_one x s)"
  by (auto simp: new_refs_def record_one_cases)

lemma record_all_state:
  assumes "is_int64 (twCount s)" and "is_int64 (twAmountCents s)"
    and "\<And>c r. (c, r) \<in> set xs \<Longrightarrow> r \<noteq> [] \<Longrightarrow> c = amount r"
  shows "record_all xs s = s\<lparr>
    twCount := wrap64 (twCount s + int (length (anonymous xs)) + int (card (new_refs xs s))),
    twAmountCents := wrap64 (twAmountCents s + sum_list (map fst (anonymous xs)) + sum amount (new_refs xs s)),
    twRefs := twRefs s \<union> new_refs xs s\<rparr>"
  using assms
proof (induction xs arbitrary: s)
  case Nil
  then show ?case by (simp add: anonymous_def new_refs_def)
next
  case (Cons x xs)
  have am: "c = amount r" if "(c, r) \<in> set xs" "r \<noteq> []" for c r using Cons.prems(3) that by simp
  consider (seen) "snd x \<noteq> []" "snd x \<in> twRefs s" | (new) "snd x \<noteq> []" "snd x \<notin> twRefs s" | (anon) "snd x = []"
    by blast
  then show ?case
  proof cases
    case seen
    with Cons.IH [of s] Cons.prems am show ?thesis
      by (simp add: record_one_cases new_refs_Cons anonymous_def)
  next
    case anon
    with Cons.IH [of "record_one x s"] am show ?thesis
      by (simp add: record_one_cases new_refs_Cons anonymous_def add.assoc)
  next
    case new
    have "fst x = amount (snd x)" using Cons.prems(3) [of "fst x" "snd x"] new by simp
    with new Cons.IH [of "record_one x s"] am new_refs_Cons(3) [OF new, of xs] show ?thesis
      by (simp add: record_one_cases(2) anonymous_def ac_simps)
  qed
qed

lemma record_all_count:
  assumes "is_int64 (twCount s)"
  shows "twCount (record_all xs s) = wrap64 (twCount s + int (length (anonymous xs)) + int (card (new_refs xs s))) \<and>
    twRefs (record_all xs s) = twRefs s \<union> new_refs xs s \<and> twErrors (record_all xs s) = twErrors s"
  using assms
proof (induction xs arbitrary: s)
  case Nil
  then show ?case by (simp add: anonymous_def new_refs_def)
next
  case (Cons x xs)
  consider (seen) "snd x \<noteq> []" "snd x \<in> twRefs s" | (new) "snd x \<noteq> []" "snd x \<notin> twRefs s" | (anon) "snd x = []"
    by blast
  then show ?case
  proof cases
    case seen
    with Cons.IH [of s] Cons.prems show ?thesis
      by (simp add: record_one_cases new_refs_Cons anonymous_def)
  next
    case anon
    with Cons.IH [of "record_one x s"] show ?thesis
      by (simp add: record_one_cases new_refs_Cons anonymous_def add.assoc)
  next
    case new
    with Cons.IH [of "record_one x s"] new_refs_Cons(3) [OF new, of xs] show ?thesis
      by (simp add: record_one_cases(2) anonymous_def ac_simps)
  qed
qed

text \<open>
  Recording any sequence of redemptions counts every non-empty reference exactly once over the
  whole life of the store (a reference already counted adds nothing) and every redemption without
  reference each time: the counter grows by the number of new references plus the number of
  anonymous redemptions, modulo 2^64; the error counter is untouched.
\<close>

theorem RecordTw_exactly_once:
  assumes "is_int64 (twCount s)"
  shows "twCount (record_all xs s) = wrap64 (twCount s + int (length (anonymous xs)) + int (card (new_refs xs s))) \<and>
    twRefs (record_all xs s) = twRefs s \<union> new_refs xs s \<and> twErrors (record_all xs s) = twErrors s"
  using record_all_count [OF assms] .

theorem RecordTw_exactly_once_witness:
  "twCount (record_all [(500, ''v1''), (500, ''v1''), (700, []), (900, []), (250, ''v2'')] NewStatsStore) = 4"
proof -
  have "new_refs [(500, ''v1''), (500, ''v1''), (700, []), (900, []), (250, ''v2'')] NewStatsStore = {''v1'', ''v2''}"
    by (auto simp: new_refs_def NewStatsStore_def)
  then show ?thesis
    using RecordTw_exactly_once [of NewStatsStore "[(500, ''v1''), (500, ''v1''), (700, []), (900, []), (250, ''v2'')]"]
    by (simp add: NewStatsStore_def is_int64_def anonymous_def)
qed

text \<open>
  The totals do not depend on the order in which concurrent requests reach the store: if two
  schedules record the same redemptions, and repeats of a reference carry the same amount, they
  leave the same store.
\<close>

theorem RecordTw_order_independent:
  assumes "mset xs = mset ys" and "is_int64 (twCount s)" and "is_int64 (twAmountCents s)"
    and "\<forall>c r. (c, r) \<in> set xs \<longrightarrow> r \<noteq> [] \<longrightarrow> c = amount r"
  shows "record_all xs s = record_all ys s"
proof -
  have set_eq: "set xs = set ys" using assms(1) by (rule mset_eq_setD)
  have anon: "mset (anonymous xs) = mset (anonymous ys)" using assms(1) by (simp add: anonymous_def mset_filter)
  have "length (anonymous xs) = length (anonymous ys)" using anon by (rule mset_eq_length)
  moreover have "sum_list (map fst (anonymous xs)) = sum_list (map fst (anonymous ys))"
    by (metis anon mset_map sum_mset_sum_list)
  moreover have "new_refs xs s = new_refs ys s" using set_eq by (simp add: new_refs_def)
  ultimately show ?thesis
    using record_all_state [OF assms(2,3), of xs amount] record_all_state [OF assms(2,3), of ys amount] assms(4) set_eq
    by auto
qed

theorem RecordTw_order_independent_witness:
  "record_all [(500, ''v1''), (700, []), (500, ''v1'')] NewStatsStore =
   record_all [(700, []), (500, ''v1''), (500, ''v1'')] NewStatsStore"
  by (rule RecordTw_order_independent [of _ _ _ "\<lambda>_. 500"]) (auto simp: NewStatsStore_def is_int64_def)

text \<open>
  The amount reported by \<^verbatim>\<open>Totals\<close> is the recorded cents exactly, in both of its places, although
  it goes through two roundings of binary floating point: converting it back with \<^verbatim>\<open>FloatCents\<close> gives
  the counter, for every total up to 2^50 cents.
\<close>

theorem Totals_amount_roundtrip:
  assumes "0 \<le> twAmountCents s" and "twAmountCents s \<le> 2 ^ 50"
  shows "\<exists>st. Totals s = Inr st \<and> FloatCents (Stats_Amount st) = Some (twAmountCents s) \<and>
    Part_Amount (TrueMoney st) = Stats_Amount st \<and>
    Stats_Count st = twCount s \<and> Part_Count (TrueMoney st) = twCount s \<and>
    Stats_Errors st = twErrors s \<and> Part_Errors (TrueMoney st) = twErrors s"
proof -
  have "fl (of_int (twAmountCents s)) = of_int (twAmountCents s)"
    using assms by (intro fl_int) simp
  then show ?thesis using FloatCents_div_100 [OF assms] by (simp add: Totals_def)
qed

theorem Totals_amount_roundtrip_witness:
  "\<exists>st. Totals (record_all [(1999, ''v1'')] NewStatsStore) = Inr st \<and> FloatCents (Stats_Amount st) = Some 1999"
proof -
  have "twAmountCents (record_all [(1999, ''v1'')] NewStatsStore) = 1999"
    by (simp add: record_one_def RecordTw_def NewStatsStore_def is_int64_def)
  then show ?thesis
    using Totals_amount_roundtrip [of "record_all [(1999, ''v1'')] NewStatsStore"] by auto
qed

end
