(* ===== verification/Twservice.thy ===== *)
theory Twservice
  imports Truemoney Statstore Apikey
begin

text \<open>
  The redemption service of \<^verbatim>\<open>internal/service/tw_service.go\<close> and the coalescing provider of
  \<^verbatim>\<open>internal/service/coalesced_tw.go\<close>. A provider is a function on the state of the outside world; the
  service threads that state and the state of the statistics store. The store may be absent (Go's
  nil).
\<close>

section \<open>The service\<close>

type_synonym 'w twProvider = "TwRedeemRequest \<Rightarrow> 'w \<Rightarrow> TwRedeemResult result \<times> 'w"

definition recordTwError :: "'s stats_repo option \<Rightarrow> 's \<Rightarrow> 's" where
  "recordTwError stats s =
     (case stats of
        None \<Rightarrow> s
      | Some st \<Rightarrow> (case stats_RecordTwError st s of (Inl err, s) \<Rightarrow> s | (Inr u, s) \<Rightarrow> s))"

definition voucher_cents :: "TwRedeemResult \<Rightarrow> int" where
  "voucher_cents res =
     (if Amount res \<noteq> [] then (case ParseCents (Amount res) of Inl err \<Rightarrow> 0 | Inr parsed \<Rightarrow> parsed) else 0)"

definition record_tw :: "'s stats_repo option \<Rightarrow> TwRedeemResult \<Rightarrow> 's \<Rightarrow> 's" where
  "record_tw stats res s =
     (case stats of
        None \<Rightarrow> s
      | Some st \<Rightarrow>
          (case stats_RecordTw st (voucher_cents res) (Ref res) s of (Inl err, s) \<Rightarrow> s | (Inr u, s) \<Rightarrow> s))"

definition TwService_Redeem ::
  "(string \<Rightarrow> bool) \<Rightarrow> 'w twProvider \<Rightarrow> 's stats_repo option \<Rightarrow> TwRedeemRequest \<Rightarrow> 'w \<times> 's
     \<Rightarrow> TwRedeemResult result \<times> 'w \<times> 's" where
  "TwService_Redeem is_ipv6 provider stats req ws =
     (case ws of (w, s) \<Rightarrow>
        (case ValidateTwRedeem is_ipv6 req of
           Some err \<Rightarrow> (Inl (Errorf ''validate redeem request'' err), w, recordTwError stats s)
         | None \<Rightarrow>
             (case provider req w of
                (Inl err, w) \<Rightarrow> (Inl (Errorf ''redeem gift'' err), w, recordTwError stats s)
              | (Inr res, w) \<Rightarrow> (Inr res, w, record_tw stats res s))))"

section \<open>Coalescing\<close>

definition twCoalesceKey :: "string \<Rightarrow> string \<Rightarrow> string" where
  "twCoalesceKey phone gift = hex_EncodeToString (Sum256 (''tw|'' @ phone @ ''|'' @ gift))"

text \<open>
  \<^verbatim>\<open>singleflight.Group\<close> runs the function of the first caller of a key and hands its result to every caller
  that arrives with the same key before it returns. A flight is one such run: the request of the caller
  whose function is executed and the requests of the callers that share its result. Which callers meet
  in a flight is up to the scheduler; that they have the same key is the documented behaviour of the
  group (\<open>group_law\<close>).
\<close>

record flight =
  leader :: TwRedeemRequest
  followers :: "TwRedeemRequest list"

definition callers :: "flight \<Rightarrow> TwRedeemRequest list" where
  "callers f = leader f # followers f"

definition key_of :: "TwRedeemRequest \<Rightarrow> string" where
  "key_of req = twCoalesceKey (Phone req) (Gift req)"

definition group_law :: "flight \<Rightarrow> bool" where
  "group_law f \<longleftrightarrow> (\<forall>r \<in> set (callers f). key_of r = key_of (leader f))"

text \<open>
  \<^verbatim>\<open>CoalescedTwProvider.Redeem\<close> for all callers of a flight: one call of the inner provider with the
  leader's request; every caller returns its error, or its result after the type assertion (the function
  returns a \<^verbatim>\<open>*TwRedeemResult\<close>, so the assertion holds).
\<close>

definition Coalesced_Redeem :: "'w twProvider \<Rightarrow> flight \<Rightarrow> 'w \<Rightarrow> TwRedeemResult result list \<times> 'w" where
  "Coalesced_Redeem inner f w =
     (case inner (leader f) w of
        (Inl err, w) \<Rightarrow> (map (\<lambda>_. Inl err) (callers f), w)
      | (Inr res, w) \<Rightarrow> (map (\<lambda>_. Inr res) (callers f), w))"

lemma Coalesced_Redeem_eq:
  "Coalesced_Redeem inner f w = (replicate (length (callers f)) (fst (inner (leader f) w)), snd (inner (leader f) w))"
  by (auto simp: Coalesced_Redeem_def map_replicate_const split: prod.splits sum.splits)

section \<open>Accounting\<close>

context stats_store
begin

lemma recordTwError_ledger:
  assumes "inv s"
  shows "inv (recordTwError (Some repo) s) \<and>
    ledger_of (recordTwError (Some repo) s) \<in> {ledger_of s, ledger_error (ledger_of s)}"
  using error_inv [OF assms] error_atomic [OF assms]
  by (auto simp: recordTwError_def split: prod.splits sum.splits)

lemma record_tw_ledger:
  assumes "inv s"
  shows "inv (record_tw (Some repo) res s) \<and>
    ledger_of (record_tw (Some repo) res s) \<in> {ledger_of s, ledger_record (voucher_cents res) (Ref res) (ledger_of s)}"
  using record_inv [OF assms, of "voucher_cents res" "Ref res"] record_atomic [OF assms, of "voucher_cents res" "Ref res"]
  by (auto simp: record_tw_def split: prod.splits sum.splits)

text \<open>Whatever the store does, a redemption adds at most its own entry to the ledger.\<close>

lemma Redeem_ledger:
  assumes "inv s" and "TwService_Redeem v p (Some repo) req (w, s) = (r, w', s')"
  shows "inv s' \<and> ledger_of s' \<in> {ledger_of s, case r of Inl e \<Rightarrow> ledger_error (ledger_of s)
    | Inr res \<Rightarrow> ledger_record (voucher_cents res) (Ref res) (ledger_of s)}"
  using assms recordTwError_ledger [OF assms(1)] record_tw_ledger [OF assms(1)]
  by (auto simp: TwService_Redeem_def split: option.splits prod.splits sum.splits)

end

lemma recordTwError_memory: "store_ledger (recordTwError (Some memory_stats) s) = ledger_error (store_ledger s)"
  by (auto simp: recordTwError_def simp flip: RecordTwError_ledger split: prod.splits sum.splits)

lemma record_tw_memory:
  "store_ledger (record_tw (Some memory_stats) res s) = ledger_record (voucher_cents res) (Ref res) (store_ledger s)"
  by (auto simp: record_tw_def simp flip: RecordTw_ledger split: prod.splits sum.splits)

text \<open>
  Statistics are best effort: the answer of a redemption and what happens upstream are the same with
  any statistics store in any state, failing on every call included, and with none.
\<close>

theorem Redeem_independent_of_stats:
  "fst (TwService_Redeem v p stats req (w, s)) = fst (TwService_Redeem v p stats' req (w, s')) \<and>
   fst (snd (TwService_Redeem v p stats req (w, s))) = fst (snd (TwService_Redeem v p stats' req (w, s')))"
  by (auto simp: TwService_Redeem_def split: option.splits prod.splits sum.splits)

section \<open>Coalesced redemptions\<close>

definition key_text :: "TwRedeemRequest \<Rightarrow> string" where
  "key_text req = ''tw|'' @ Phone req @ ''|'' @ Gift req"

lemma split_at_bar:
  assumes "p @ CHR ''|'' # g = p' @ CHR ''|'' # g'" and "CHR ''|'' \<notin> set p" and "CHR ''|'' \<notin> set p'"
  shows "p = p' \<and> g = g'"
  using assms
proof (induction p arbitrary: p')
  case Nil
  then show ?case by (cases p') auto
next
  case (Cons c p)
  then show ?case by (cases p') auto
qed

lemma hex_pair_inj:
  assumes "hex_digit (of_char a div 16) = hex_digit (of_char b div 16)"
    and "hex_digit (of_char a mod 16) = hex_digit (of_char b mod 16)"
  shows "a = b"
proof -
  have inj: "m = n" if "hex_digit m = hex_digit n" "m < 16" "n < 16" for m n
    using that nth_eq_iff_index_eq [of "''0123456789abcdef''" m n] by (simp add: hex_digit_def)
  have "(of_char a :: nat) div 16 < 16" "(of_char b :: nat) div 16 < 16"
    using nat_of_char_less_256 [of a] nat_of_char_less_256 [of b] by linarith+
  then have "(of_char a :: nat) div 16 = of_char b div 16" "(of_char a :: nat) mod 16 = of_char b mod 16"
    using inj assms by simp_all
  then have "(of_char a :: nat) = of_char b" by (metis mult_div_mod_eq)
  then show ?thesis by simp
qed

lemma hex_inj: "hex_EncodeToString bs = hex_EncodeToString cs \<Longrightarrow> bs = cs"
proof (induction bs arbitrary: cs)
  case Nil
  then show ?case by (cases cs) (simp_all add: hex_EncodeToString_def)
next
  case (Cons b bs)
  show ?case
  proof (cases cs)
    case Nil
    then show ?thesis using Cons.prems by (simp add: hex_EncodeToString_def)
  next
    case (Cons c cs')
    with Cons.prems have "hex_digit (of_char b div 16) = hex_digit (of_char c div 16)"
      "hex_digit (of_char b mod 16) = hex_digit (of_char c mod 16)" "hex_EncodeToString bs = hex_EncodeToString cs'"
      by (simp_all add: hex_EncodeToString_def)
    then show ?thesis using Cons.IH hex_pair_inj Cons by blast
  qed
qed

lemma valid_phone_no_bar:
  assumes "ValidateTwRedeem is_ipv6 req = None"
  shows "CHR ''|'' \<notin> set (Phone req)"
proof -
  have "list_all is_digit (Phone req)"
    using assms by (auto simp: ValidateTwRedeem_def FieldErrors_Add_def ValidateThaiPhone_def phoneRe_iff
        Let_def split: option.splits if_splits)
  then show ?thesis by (auto simp: list_all_iff is_digit_def)
qed

lemma key_of_eq_iff: "key_of r = key_of r' \<longleftrightarrow> Sum256 (key_text r) = Sum256 (key_text r')"
  using hex_inj by (auto simp: key_of_def twCoalesceKey_def key_text_def)

lemma key_text_inj:
  assumes "ValidateTwRedeem v r = None" and "ValidateTwRedeem v r' = None" and "key_text r = key_text r'"
  shows "r = r'"
  using assms(3) split_at_bar [of "Phone r" "Gift r" "Phone r'" "Gift r'"]
    valid_phone_no_bar [OF assms(1)] valid_phone_no_bar [OF assms(2)]
  by (simp add: key_text_def)

text \<open>
  Coalescing keys separate requests. Two validated requests share a key only if they are the same
  request or SHA-256 maps their two different texts to the same digest: the separator cannot be
  forged with a crafted phone or gift.
\<close>

theorem twCoalesceKey_separates:
  assumes "ValidateTwRedeem v r = None" and "ValidateTwRedeem v r' = None"
  shows "twCoalesceKey (Phone r) (Gift r) = twCoalesceKey (Phone r') (Gift r') \<longleftrightarrow>
    r = r' \<or> key_text r \<noteq> key_text r' \<and> Sum256 (key_text r) = Sum256 (key_text r')"
  using key_text_inj [OF assms] key_of_eq_iff [of r r'] by (auto simp: key_of_def)

theorem twCoalesceKey_separates_witness:
  "twCoalesceKey (Phone sample_redeem) (Gift sample_redeem) = twCoalesceKey ''0812345678'' ''0123456789abcdefghij''"
  using twCoalesceKey_separates [OF sample_redeem_valid sample_redeem_valid] by (simp add: sample_redeem_def)

text \<open>
  The service with the coalescing provider for all callers of a flight, in the order in which they
  resume: each one validated its request before joining and records the shared result itself.
\<close>

fun resume ::
  "(string \<Rightarrow> bool) \<Rightarrow> 's stats_repo option \<Rightarrow> (TwRedeemRequest \<times> TwRedeemResult result) list \<Rightarrow> 'w \<times> 's
     \<Rightarrow> TwRedeemResult result list \<times> 'w \<times> 's" where
  "resume v stats [] ws = ([], ws)"
| "resume v stats ((req, r) # rest) ws =
     (case TwService_Redeem v (\<lambda>_ w. (r, w)) stats req ws of
        (r', ws) \<Rightarrow> (case resume v stats rest ws of (rs, ws) \<Rightarrow> (r' # rs, ws)))"

definition flight_Redeem ::
  "(string \<Rightarrow> bool) \<Rightarrow> 'w twProvider \<Rightarrow> 's stats_repo option \<Rightarrow> flight \<Rightarrow> 'w \<times> 's
     \<Rightarrow> TwRedeemResult result list \<times> 'w \<times> 's" where
  "flight_Redeem v inner stats f ws =
     (case Coalesced_Redeem inner f (fst ws) of
        (rs, w) \<Rightarrow> resume v stats (zip (callers f) rs) (w, snd ws))"

definition errored :: "nat \<Rightarrow> StatsStore \<Rightarrow> StatsStore" where
  "errored n s = s\<lparr>twErrors := wrap64 (twErrors s + int n)\<rparr>"

lemma recordTwError_memory_eq: "recordTwError (Some memory_stats) s = errored 1 s"
  by (simp add: recordTwError_def RecordTwError_def errored_def)

lemma record_tw_memory_eq: "record_tw (Some memory_stats) res s = snd (RecordTw (voucher_cents res) (Ref res) s)"
  by (auto simp: record_tw_def split: prod.splits sum.splits)

lemma RecordTw_again:
  "r \<noteq> [] \<Longrightarrow> snd (RecordTw c r (snd (RecordTw c r s))) = snd (RecordTw c r s)"
  by (simp add: RecordTw_def Let_def)

lemma resume_error:
  assumes "\<forall>req \<in> set reqs. ValidateTwRedeem v req = None"
  shows "resume v (Some memory_stats) (map (\<lambda>req. (req, Inl e)) reqs) (w, errored n s) =
    (replicate (length reqs) (Inl (Errorf ''redeem gift'' e)), w, errored (n + length reqs) s)"
  using assms
proof (induction reqs arbitrary: n)
  case (Cons req reqs)
  have "errored 1 (errored n s) = errored (Suc n) s" by (simp add: errored_def ac_simps)
  with Cons.IH [of "Suc n"] Cons.prems show ?case
    by (simp add: TwService_Redeem_def recordTwError_memory_eq)
qed simp

lemma resume_success:
  assumes "\<forall>req \<in> set reqs. ValidateTwRedeem v req = None" and "Ref res \<noteq> []"
  shows "resume v (Some memory_stats) (map (\<lambda>req. (req, Inr res)) reqs)
      (w, snd (RecordTw (voucher_cents res) (Ref res) s)) =
    (replicate (length reqs) (Inr res), w, snd (RecordTw (voucher_cents res) (Ref res) s))"
  using assms
  by (induction reqs) (simp_all add: TwService_Redeem_def record_tw_memory_eq RecordTw_again)

text \<open>
  A storm of concurrent retries of one redemption costs one upstream call and is counted once. If all
  callers of a flight passed validation and their key texts do not collide under SHA-256, then every
  caller made the same request, the inner provider is called exactly once, each caller gets what its own
  call would have given, and the statistics are those of a single redemption when it succeeds with a
  reference; when it fails every caller's failed attempt is counted.
\<close>

theorem flight_single_redemption:
  assumes "group_law f" and "\<forall>r \<in> set (callers f). ValidateTwRedeem v r = None"
    and "\<forall>r \<in> set (callers f). Sum256 (key_text r) = Sum256 (key_text (leader f)) \<longrightarrow> key_text r = key_text (leader f)"
  shows "(\<forall>r \<in> set (callers f). r = leader f) \<and>
    (case TwService_Redeem v inner (Some memory_stats) (leader f) (w, s) of
       (Inr res, w1, s1) \<Rightarrow> Ref res \<noteq> [] \<longrightarrow>
         flight_Redeem v inner (Some memory_stats) f (w, s) = (replicate (length (callers f)) (Inr res), w1, s1)
     | (Inl e, w1, s1) \<Rightarrow>
         flight_Redeem v inner (Some memory_stats) f (w, s) =
           (replicate (length (callers f)) (Inl e), w1, s\<lparr>twErrors := wrap64 (twErrors s + int (length (callers f)))\<rparr>))"
proof -
  have same: "\<forall>r \<in> set (callers f). r = leader f"
  proof
    fix r
    assume r: "r \<in> set (callers f)"
    then have "Sum256 (key_text r) = Sum256 (key_text (leader f))"
      using assms(1) key_of_eq_iff by (simp add: group_law_def)
    then have "key_text r = key_text (leader f)" using assms(3) r by blast
    moreover have "leader f \<in> set (callers f)" by (simp add: callers_def)
    ultimately show "r = leader f" using key_text_inj assms(2) r by blast
  qed
  have valid: "ValidateTwRedeem v (leader f) = None" using assms(2) by (simp add: callers_def)
  have zip: "zip (callers f) (replicate (length (callers f)) x) = map (\<lambda>r. (r, x)) (callers f)" for x :: "TwRedeemResult result"
    by (simp add: zip_replicate2)
  obtain o1 w1 where call: "inner (leader f) w = (o1, w1)" by fastforce
  show ?thesis
  proof (cases o1)
    case (Inl e)
    have "resume v (Some memory_stats) (map (\<lambda>r. (r, Inl e)) (callers f)) (w1, s) =
      (replicate (length (callers f)) (Inl (Errorf ''redeem gift'' e)), w1, errored (length (callers f)) s)"
    proof -
      have fol: "\<forall>r \<in> set (followers f). ValidateTwRedeem v r = None" using assms(2) by (simp add: callers_def)
      show ?thesis
        using resume_error [OF fol, of e w1 1 s] valid
        by (simp add: callers_def TwService_Redeem_def recordTwError_memory_eq)
    qed
    then show ?thesis
      using same valid call Inl
      by (simp add: flight_Redeem_def Coalesced_Redeem_eq zip TwService_Redeem_def errored_def)
  next
    case (Inr res)
    have fol: "\<forall>r \<in> set (followers f). ValidateTwRedeem v r = None" using assms(2) by (simp add: callers_def)
    have "Ref res \<noteq> [] \<Longrightarrow> resume v (Some memory_stats) (map (\<lambda>r. (r, Inr res)) (callers f)) (w1, s) =
      (replicate (length (callers f)) (Inr res), w1, snd (RecordTw (voucher_cents res) (Ref res) s))"
      using resume_success [OF fol, of res w1 s] valid
      by (simp add: callers_def TwService_Redeem_def record_tw_memory_eq)
    then show ?thesis
      using same valid call Inr
      by (simp add: flight_Redeem_def Coalesced_Redeem_eq zip TwService_Redeem_def record_tw_memory_eq)
  qed
qed

definition sample_flight :: flight where
  "sample_flight = \<lparr>leader = sample_redeem, followers = [sample_redeem, sample_redeem]\<rparr>"

lemma sample_call:
  "\<exists>r. Client_Redeem c sample_net sample_redeem w =
     (Inr \<lparr>Data = ''SUCCESS'', Amount = ''10.00'', Ref = ''v1''\<rparr>, w @ [r])"
proof -
  have "list_all is_alnum (Gift sample_redeem)" by code_simp
  from extract_code [OF this] show ?thesis
    by (simp add: Client_Redeem_def redeem_request_def redeem_response_def ReadAll_Limit_def sample_net_def Let_def)
qed

theorem flight_single_redemption_witness:
  "\<exists>r res s'. flight_Redeem (\<lambda>_. False) (Client_Redeem (NewClient [] 0) sample_net) (Some memory_stats)
     sample_flight ([], NewStatsStore) = ([Inr res, Inr res, Inr res], [r], s') \<and> twCount s' = 1"
proof -
  let ?inner = "Client_Redeem (NewClient [] 0) sample_net"
  let ?res = "\<lparr>Data = ''SUCCESS'', Amount = ''10.00'', Ref = ''v1''\<rparr>"
  obtain r where call: "?inner sample_redeem [] = (Inr ?res, [r])" using sample_call [of "NewClient [] 0" "[]"] by auto
  then have svc: "TwService_Redeem (\<lambda>_. False) ?inner (Some memory_stats) (leader sample_flight) ([], NewStatsStore) =
    (Inr ?res, [r], snd (RecordTw (voucher_cents ?res) ''v1'' NewStatsStore))"
    using sample_redeem_valid by (simp add: TwService_Redeem_def sample_flight_def record_tw_memory_eq)
  have "group_law sample_flight" "\<forall>r \<in> set (callers sample_flight). ValidateTwRedeem (\<lambda>_. False) r = None"
    "\<forall>r \<in> set (callers sample_flight). Sum256 (key_text r) = Sum256 (key_text (leader sample_flight)) \<longrightarrow>
      key_text r = key_text (leader sample_flight)"
    using sample_redeem_valid by (simp_all add: group_law_def callers_def sample_flight_def)
  from flight_single_redemption [OF this, of ?inner "[]" NewStatsStore]
  have "flight_Redeem (\<lambda>_. False) ?inner (Some memory_stats) sample_flight ([], NewStatsStore) =
    (replicate 3 (Inr ?res), [r], snd (RecordTw (voucher_cents ?res) ''v1'' NewStatsStore))"
    by (simp add: svc) (simp add: callers_def sample_flight_def)
  moreover have "twCount (snd (RecordTw c ''v1'' NewStatsStore)) = 1" for c
    by (simp add: RecordTw_def NewStatsStore_def is_int64_def)
  ultimately show ?thesis by (simp add: numeral_3_eq_3)
qed

end
