(* ===== verification/Http.thy ===== *)
theory Http
  imports Keyservice Twservice
begin

text \<open>
  HTTP as the program uses it: requests, the response writer of \<^verbatim>\<open>net/http\<close> (the first \<^verbatim>\<open>WriteHeader\<close> sends
  status and headers, later ones and later header changes have no effect), the envelopes of
  \<^verbatim>\<open>pkg/response/response.go\<close> and the helpers of \<^verbatim>\<open>internal/handler\<close>. A body is kept as the sequence of
  envelopes encoded into it; header names are in their canonical form.
\<close>

section \<open>Requests and responses\<close>

record request =
  Method :: string
  URL_Path :: string
  Header :: "(string, string list) gomap"
  RemoteAddr :: string
  Req_Body :: "bytes \<times> go_error option"
  URLParams :: "(string, string) gomap" \<comment> \<open>the router's matches, of the path as sent or decoded (\<open>matched_segments\<close>)\<close>
  ctx_api_key :: "ApiKey option" \<comment> \<open>\<^verbatim>\<open>r.Context().Value(apiKeyCtxKey)\<close>\<close>

text \<open>\<^verbatim>\<open>Header.Get\<close>: the first value of a header, or the empty string.\<close>

definition Header_Get :: "request \<Rightarrow> string \<Rightarrow> string" where
  "Header_Get r k = (case map_of (Header r) k of Some (v # _) \<Rightarrow> v | _ \<Rightarrow> [])"

definition URLParam :: "request \<Rightarrow> string \<Rightarrow> string" where
  "URLParam r k = (case map_of (URLParams r) k of Some v \<Rightarrow> v | None \<Rightarrow> [])"

datatype payload =
    RawJSON bytes \<comment> \<open>\<^verbatim>\<open>json.RawMessage\<close>\<close>
  | KeyView ApiKeyView
  | KeyViews "ApiKeyView list"
  | StatsView Stats

record Envelope =
  Env_Data :: "payload option"
  Env_Error :: string
  Env_Details :: "FieldError list option"

record ResponseWriter =
  W_Header :: "(string, string) gomap"
  W_Wrote :: "(int \<times> (string, string) gomap) option" \<comment> \<open>status and headers, once sent\<close>
  W_Body :: "Envelope list"

definition new_writer :: ResponseWriter where
  "new_writer = \<lparr>W_Header = [], W_Wrote = None, W_Body = []\<rparr>"

definition Header_Set :: "string \<Rightarrow> string \<Rightarrow> ResponseWriter \<Rightarrow> ResponseWriter" where
  "Header_Set k v w = w\<lparr>W_Header := AList.update k v (W_Header w)\<rparr>"

definition WriteHeader :: "int \<Rightarrow> ResponseWriter \<Rightarrow> ResponseWriter" where
  "WriteHeader status w =
     (case W_Wrote w of
        None \<Rightarrow> w\<lparr>W_Wrote := Some (status, W_Header w)\<rparr>
      | Some _ \<Rightarrow> w)"

definition Encode :: "Envelope \<Rightarrow> ResponseWriter \<Rightarrow> ResponseWriter" where
  "Encode env w = (let w = WriteHeader 200 w in w\<lparr>W_Body := W_Body w @ [env]\<rparr>)"

section \<open>\<^verbatim>\<open>pkg/response\<close>\<close>

definition response_JSON :: "int \<Rightarrow> payload \<Rightarrow> ResponseWriter \<Rightarrow> ResponseWriter" where
  "response_JSON status data w =
     (let w = Header_Set ''Content-Type'' ''application/json'' w;
          w = WriteHeader status w
      in Encode \<lparr>Env_Data = Some data, Env_Error = [], Env_Details = None\<rparr> w)"

definition response_Error :: "int \<Rightarrow> string \<Rightarrow> ResponseWriter \<Rightarrow> ResponseWriter" where
  "response_Error status message w =
     (let w = Header_Set ''Content-Type'' ''application/json'' w;
          w = WriteHeader status w
      in Encode \<lparr>Env_Data = None, Env_Error = message, Env_Details = None\<rparr> w)"

definition response_ErrorDetails :: "int \<Rightarrow> string \<Rightarrow> FieldError list \<Rightarrow> ResponseWriter \<Rightarrow> ResponseWriter" where
  "response_ErrorDetails status message details w =
     (let w = Header_Set ''Content-Type'' ''application/json'' w;
          w = WriteHeader status w
      in Encode \<lparr>Env_Data = None, Env_Error = message, Env_Details = Some details\<rparr> w)"

definition status_of :: "ResponseWriter \<Rightarrow> int option" where
  "status_of w = map_option fst (W_Wrote w)"

section \<open>Errors\<close>

definition writeServiceError :: "go_error \<Rightarrow> ResponseWriter \<Rightarrow> ResponseWriter" where
  "writeServiceError err w =
     (case errors_As err of
        Some details \<Rightarrow> response_ErrorDetails 422 ''invalid input'' details w
      | None \<Rightarrow>
          if errors_Is err ErrNotFound then response_Error 404 ''not found'' w
          else if errors_Is err ErrConflict then response_Error 409 ''conflict'' w
          else if errors_Is err ErrUnauthorized then response_Error 401 ''unauthorized'' w
          else if errors_Is err ErrForbidden then response_Error 403 ''forbidden'' w
          else if errors_Is err ErrRateLimited then response_Error 429 ''rate limit exceeded'' w
          else if errors_Is err ErrBadRequest then response_Error 400 ''bad request'' w
          else if errors_Is err ErrBadGateway then response_Error 502 ''upstream service unavailable'' w
          else if errors_Is err DeadlineExceeded then response_Error 504 ''upstream timeout'' w
          else if errors_Is err ErrInvalidInput then response_Error 422 ''invalid input'' w
          else response_Error 500 ''internal server error'' w)"

text \<open>A handler either returns or panics; a panic of the code it calls passes through it.\<close>

datatype flow = Returned | Panicked

type_synonym 'st handler = "request \<Rightarrow> 'st \<Rightarrow> ResponseWriter \<Rightarrow> flow \<times> 'st \<times> ResponseWriter"

definition fail_with :: "go_error \<Rightarrow> 'st \<Rightarrow> ResponseWriter \<Rightarrow> flow \<times> 'st \<times> ResponseWriter" where
  "fail_with err st w =
     (if err = RuntimePanic then (Panicked, st, w) else (Returned, st, writeServiceError err w))"

section \<open>Reading requests\<close>

text \<open>
  The JSON decoder is an argument: its first call reads a value of the target type off the stream, its
  second tries to read an empty struct off what is left. \<^verbatim>\<open>http.MaxBytesReader\<close> ends a longer body with an
  error after the limit.
\<close>

type_synonym stream = "bytes \<times> go_error option"

record 'a decoder =
  Decode :: "stream \<Rightarrow> ('a \<times> stream) result"
  Decode_empty :: "stream \<Rightarrow> unit result"

definition maxBodySize :: nat where
  "maxBodySize = 2 ^ 20"

definition MaxBytesReader :: "nat \<Rightarrow> stream \<Rightarrow> stream" where
  "MaxBytesReader n body =
     (if length (fst body) > n then (take n (fst body), Some (OtherError (Msg ''http: request body too large'')))
      else body)"

text \<open>
  \<^verbatim>\<open>decodeJSON\<close> returns the error of the call that made it stop, which for trailing data that is itself
  an empty JSON value is nil, and the value decoded.
\<close>

definition decodeJSON :: "'a decoder \<Rightarrow> request \<Rightarrow> ResponseWriter \<Rightarrow> (go_error option \<times> 'a option) \<times> ResponseWriter" where
  "decodeJSON dec r w =
     (case Decode dec (MaxBytesReader maxBodySize (Req_Body r)) of
        Inl err \<Rightarrow> ((Some err, None), response_Error 400 ''invalid request body'' w)
      | Inr (v, rest) \<Rightarrow>
          (case Decode_empty dec rest of
             Inr u \<Rightarrow> ((None, Some v), response_Error 400 ''invalid request body'' w)
           | Inl err \<Rightarrow>
               if \<not> errors_Is err EOF then ((Some err, Some v), response_Error 400 ''invalid request body'' w)
               else ((None, Some v), w)))"

definition pathParam :: "request \<Rightarrow> string \<Rightarrow> string result" where
  "pathParam r key =
     (case PathUnescape (URLParam r key) of
        None \<Rightarrow> Inl (OtherError (Msg (''invalid '' @ key @ '' parameter'')))
      | Some dec \<Rightarrow> Inr dec)"

text \<open>
  What the router is documented to do with \<^verbatim>\<open>/tw/{phone}/{gift:*}\<close>: it matches the path as sent when parsing
  the request kept it (\<open>setPath\<close>), otherwise the decoded path, and hands over the two segments unchanged.
  So \<^verbatim>\<open>pathParam\<close> decodes a second time when the path was not kept.
\<close>

definition matched_segments :: "string \<times> string \<Rightarrow> request \<Rightarrow> bool" where
  "matched_segments url r \<longleftrightarrow>
     ''/tw/'' @ URLParam r ''phone'' @ ''/'' @ URLParam r ''gift'' = (if snd url = [] then fst url else snd url) \<and>
     CHR ''/'' \<notin> set (URLParam r ''phone'') \<and> CHR ''/'' \<notin> set (URLParam r ''gift'')"

definition idParam :: "request \<Rightarrow> int result" where
  "idParam r =
     (case pathParam r ''id'' of
        Inl err \<Rightarrow> Inl err
      | Inr raw \<Rightarrow>
          (case ParseInt raw of (i, err) \<Rightarrow>
             if err \<noteq> None \<or> i \<le> 0 then Inl (OtherError (Msg ''invalid id parameter'')) else Inr i))"

lemma first_segment:
  assumes "x @ CHR ''/'' # y = x' @ CHR ''/'' # y'" and "CHR ''/'' \<notin> set x" and "CHR ''/'' \<notin> set x'"
  shows "x = x' \<and> y = y'"
  using assms by (auto simp: append_eq_append_conv2 append_eq_Cons_conv Cons_eq_append_conv)

lemma matched_redeem_path:
  assumes "setPath (redeem_path phone gift) = Some url" and "matched_segments url r"
  shows "URLParam r ''phone'' = (if kept_escaped (phone @ gift) then PathEscape phone else phone)"
    "URLParam r ''gift'' = (if kept_escaped (phone @ gift) then PathEscape gift else gift)"
proof -
  have "url = (''/tw/'' @ phone @ ''/'' @ gift, if kept_escaped (phone @ gift) then redeem_path phone gift else [])"
    using assms(1) unfolding setPath_redeem by simp
  then have seg: "''/tw/'' @ URLParam r ''phone'' @ ''/'' @ URLParam r ''gift'' =
      (if kept_escaped (phone @ gift) then redeem_path phone gift else ''/tw/'' @ phone @ ''/'' @ gift)"
    "CHR ''/'' \<notin> set (URLParam r ''phone'')"
    using assms(2) by (auto simp: matched_segments_def redeem_path_def split: if_splits)
  have "CHR ''/'' \<notin> set (PathEscape phone)" using PathEscape_segment [of "CHR ''/''"] by (auto simp: segment_char_def is_alnum_def)
  moreover have "CHR ''/'' \<notin> set phone" if "\<not> kept_escaped (phone @ gift)"
    using that by (auto simp: kept_escaped_def list_ex_iff)
  ultimately have "URLParam r ''phone'' = (if kept_escaped (phone @ gift) then PathEscape phone else phone) \<and>
      URLParam r ''gift'' = (if kept_escaped (phone @ gift) then PathEscape gift else gift)"
    by (intro first_segment) (use seg in \<open>auto simp: redeem_path_def split: if_splits\<close>)
  then show "URLParam r ''phone'' = (if kept_escaped (phone @ gift) then PathEscape phone else phone)"
    "URLParam r ''gift'' = (if kept_escaped (phone @ gift) then PathEscape gift else gift)" by blast+
qed

text \<open>The parameters that the handler sees: what was sent, or what was sent decoded once more.\<close>

lemma pathParam_redeem_path:
  assumes "setPath (redeem_path phone gift) = Some url" and "matched_segments url r"
    and "kept_escaped (phone @ gift) \<or> CHR ''%'' \<notin> set (phone @ gift)"
  shows "pathParam r ''phone'' = Inr phone" "pathParam r ''gift'' = Inr gift"
  using matched_redeem_path [OF assms(1,2)] assms(3) by (auto simp: pathParam_def PathUnescape_PathEscape PathUnescape_plain)

text \<open>
  The defect: the gift \<^verbatim>\<open>..%41\<close>, escaped as a client must, reaches the handler as \<^verbatim>\<open>..A\<close>.
\<close>

lemma gift_unescaped_twice:
  assumes "setPath (redeem_path ''0812345678'' ''..%41'') = Some url" and "matched_segments url r"
  shows "pathParam r ''gift'' = Inr ''..A''"
proof -
  have "URLParam r ''gift'' = ''..%41''"
    using matched_redeem_path(2) [OF assms] by (simp add: kept_escaped_def)
  moreover have "PathUnescape ''..%41'' = Some ''..A''" by code_simp
  ultimately show ?thesis by (simp add: pathParam_def)
qed

section \<open>Handlers\<close>

definition KeyHandler_Create ::
  "CreateApiKeyInput decoder \<Rightarrow> 's key_repo \<Rightarrow> readings \<Rightarrow> 's handler" where
  "KeyHandler_Create dec repo rd r s w =
     (case decodeJSON dec r w of
        ((None, Some inp), w) \<Rightarrow>
          (case CreateKey repo rd inp s of
             (Inl err, s) \<Rightarrow> fail_with err s w
           | (Inr view, s) \<Rightarrow> (Returned, s, response_JSON 201 (KeyView view) w))
      | (_, w) \<Rightarrow> (Returned, s, w))"

definition KeyHandler_List :: "'s key_repo \<Rightarrow> 's handler" where
  "KeyHandler_List repo r s w =
     (case ListKeys repo s of
        Inl err \<Rightarrow> fail_with err s w
      | Inr views \<Rightarrow> (Returned, s, response_JSON 200 (KeyViews views) w))"

definition KeyHandler_Revoke :: "'s key_repo \<Rightarrow> time \<Rightarrow> 's handler" where
  "KeyHandler_Revoke repo now r s w =
     (case idParam r of
        Inl err \<Rightarrow> (Returned, s, response_Error 400 ''invalid id parameter'' w)
      | Inr i \<Rightarrow>
          (case RevokeKey repo now i s of
             (Inl err, s) \<Rightarrow> fail_with err s w
           | (Inr u, s) \<Rightarrow> (Returned, s, WriteHeader 204 w)))"

definition KeyHandler_Rotate :: "'s key_repo \<Rightarrow> readings \<Rightarrow> 's handler" where
  "KeyHandler_Rotate repo rd r s w =
     (case idParam r of
        Inl err \<Rightarrow> (Returned, s, response_Error 400 ''invalid id parameter'' w)
      | Inr i \<Rightarrow>
          (case RotateKey repo rd i s of
             (Inl err, s) \<Rightarrow> fail_with err s w
           | (Inr view, s) \<Rightarrow> (Returned, s, response_JSON 200 (KeyView view) w)))"

text \<open>The redemption service is an argument of its handlers, as in the code.\<close>

type_synonym 'st twRedeem = "TwRedeemRequest \<Rightarrow> 'st \<Rightarrow> TwRedeemResult result \<times> 'st"

definition RedeemPost :: "TwRedeemRequest decoder \<Rightarrow> 'st twRedeem \<Rightarrow> 'st handler" where
  "RedeemPost dec svc r s w =
     (case decodeJSON dec r w of
        ((None, Some req), w) \<Rightarrow>
          (case svc req s of
             (Inl err, s) \<Rightarrow> fail_with err s w
           | (Inr res, s) \<Rightarrow> (Returned, s, response_JSON 200 (RawJSON (Data res)) w))
      | (_, w) \<Rightarrow> (Returned, s, w))"

definition RedeemGet :: "'st twRedeem \<Rightarrow> 'st handler" where
  "RedeemGet svc r s w =
     (case pathParam r ''phone'' of
        Inl err \<Rightarrow> (Returned, s, response_Error 400 ''invalid phone parameter'' w)
      | Inr phone \<Rightarrow>
          (case pathParam r ''gift'' of
             Inl err \<Rightarrow> (Returned, s, response_Error 400 ''invalid gift parameter'' w)
           | Inr gift \<Rightarrow>
               (case svc \<lparr>Phone = phone, Gift = gift\<rparr> s of
                  (Inl err, s) \<Rightarrow> fail_with err s w
                | (Inr res, s) \<Rightarrow> (Returned, s, response_JSON 200 (RawJSON (Data res)) w))))"

definition StatsHandler_Stats :: "'s stats_repo \<Rightarrow> 's handler" where
  "StatsHandler_Stats store r s w =
     (case stats_Totals store s of
        Inl err \<Rightarrow> fail_with err s w
      | Inr stats \<Rightarrow> (Returned, s, response_JSON 200 (StatsView stats) w))"

section \<open>The writer sends one response\<close>

lemma status_of_new [simp]: "status_of new_writer = None" "W_Wrote new_writer = None"
  by (simp_all add: status_of_def new_writer_def)

lemma writer_wrote [simp]:
  "W_Wrote w = Some x \<Longrightarrow> W_Wrote (WriteHeader st w) = Some x"
  "W_Wrote w = Some x \<Longrightarrow> W_Wrote (response_JSON st d w) = Some x"
  "W_Wrote w = Some x \<Longrightarrow> W_Wrote (response_Error st m w) = Some x"
  "W_Wrote w = Some x \<Longrightarrow> W_Wrote (response_ErrorDetails st m ds w) = Some x"
  "W_Wrote (Header_Set k v w) = W_Wrote w"
  by (simp_all add: WriteHeader_def response_JSON_def response_Error_def response_ErrorDetails_def Encode_def
      Header_Set_def Let_def)

lemma writer_fresh [simp]:
  "W_Wrote w = None \<Longrightarrow> W_Wrote (WriteHeader st w) = Some (st, W_Header w)"
  "W_Wrote w = None \<Longrightarrow> W_Wrote (response_JSON st d w) = Some (st, AList.update ''Content-Type'' ''application/json'' (W_Header w))"
  "W_Wrote w = None \<Longrightarrow> W_Wrote (response_Error st m w) = Some (st, AList.update ''Content-Type'' ''application/json'' (W_Header w))"
  "W_Wrote w = None \<Longrightarrow> W_Wrote (response_ErrorDetails st m ds w) = Some (st, AList.update ''Content-Type'' ''application/json'' (W_Header w))"
  by (simp_all add: WriteHeader_def response_JSON_def response_Error_def response_ErrorDetails_def Encode_def
      Header_Set_def Let_def)

lemma writer_body [simp]:
  "W_Body (WriteHeader st w) = W_Body w" "W_Body (Header_Set k v w) = W_Body w"
  "W_Body (response_JSON st d w) = W_Body w @ [\<lparr>Env_Data = Some d, Env_Error = [], Env_Details = None\<rparr>]"
  "W_Body (response_Error st m w) = W_Body w @ [\<lparr>Env_Data = None, Env_Error = m, Env_Details = None\<rparr>]"
  "W_Body (response_ErrorDetails st m ds w) = W_Body w @ [\<lparr>Env_Data = None, Env_Error = m, Env_Details = Some ds\<rparr>]"
  by (simp_all add: WriteHeader_def response_JSON_def response_Error_def response_ErrorDetails_def Encode_def
      Header_Set_def Let_def split: option.splits)

text \<open>The status and message of an error, as a table.\<close>

definition error_status :: "go_error \<Rightarrow> int" where
  "error_status e =
     (if errors_As e \<noteq> None then 422
      else if errors_Is e ErrNotFound then 404 else if errors_Is e ErrConflict then 409
      else if errors_Is e ErrUnauthorized then 401 else if errors_Is e ErrForbidden then 403
      else if errors_Is e ErrRateLimited then 429 else if errors_Is e ErrBadRequest then 400
      else if errors_Is e ErrBadGateway then 502 else if errors_Is e DeadlineExceeded then 504
      else if errors_Is e ErrInvalidInput then 422 else 500)"

definition public_message :: "int \<Rightarrow> string" where
  "public_message st = the (map_of
     [(422, ''invalid input''), (404, ''not found''), (409, ''conflict''), (401, ''unauthorized''), (403, ''forbidden''),
      (429, ''rate limit exceeded''), (400, ''bad request''), (502, ''upstream service unavailable''),
      (504, ''upstream timeout''), (500, ''internal server error'')] st)"

lemma public_message_simps [simp]:
  "public_message 422 = ''invalid input''" "public_message 404 = ''not found''" "public_message 409 = ''conflict''"
  "public_message 401 = ''unauthorized''" "public_message 403 = ''forbidden''"
  "public_message 429 = ''rate limit exceeded''" "public_message 400 = ''bad request''"
  "public_message 502 = ''upstream service unavailable''" "public_message 504 = ''upstream timeout''"
  "public_message 500 = ''internal server error''"
  by (simp_all add: public_message_def)

lemma writeServiceError_eq:
  "writeServiceError e w =
     (case errors_As e of
        Some ds \<Rightarrow> response_ErrorDetails 422 ''invalid input'' ds w
      | None \<Rightarrow> response_Error (error_status e) (public_message (error_status e)) w)"
proof (cases "errors_As e")
  case None
  then show ?thesis unfolding writeServiceError_def error_status_def None option.case
    by (simp only: simp_thms if_False if_distrib [of public_message] if_distrib [of response_Error]
        if_distribR public_message_simps cong: if_cong) (simp split: if_split)
qed (simp add: writeServiceError_def)

lemma status_writeServiceError [simp]:
  "W_Wrote w = None \<Longrightarrow> status_of (writeServiceError e w) = Some (error_status e)"
  by (simp add: writeServiceError_eq status_of_def error_status_def split: option.splits)

lemma writeServiceError_wrote [simp]:
  "W_Wrote w = Some x \<Longrightarrow> W_Wrote (writeServiceError e w) = Some x"
  by (simp add: writeServiceError_eq split: option.splits)

lemma error_status_wrap [simp]: "error_status (Wrapped m e) = error_status e" "error_status (Errorf t e) = error_status e"
  by (simp_all add: error_status_def)

text \<open>
  The error reply depends only on the error's identity, not on the context wrapped around it on the way up,
  and it never discloses internal text: whatever the error, exactly one envelope is written, without data,
  its message is the fixed text of its status, and details appear exactly for a validation error, as the
  fields it lists.
\<close>

theorem writeServiceError_opaque:
  "writeServiceError (Wrapped m e) w = writeServiceError e w \<and>
   (\<exists>env. W_Body (writeServiceError e w) = W_Body w @ [env] \<and> Env_Data env = None \<and>
      Env_Error env = public_message (error_status e) \<and> Env_Details env = errors_As e) \<and>
   error_status e \<in> {400, 401, 403, 404, 409, 422, 429, 500, 502, 504} \<and>
   status_of (writeServiceError e w) = Some (case W_Wrote w of None \<Rightarrow> error_status e | Some (c, hs) \<Rightarrow> c)"
proof -
  have "writeServiceError (Wrapped m e) w = writeServiceError e w"
    by (simp add: writeServiceError_eq split: option.splits)
  moreover have "\<exists>env. W_Body (writeServiceError e w) = W_Body w @ [env] \<and> Env_Data env = None \<and>
      Env_Error env = public_message (error_status e) \<and> Env_Details env = errors_As e"
    by (cases "errors_As e") (simp_all add: writeServiceError_eq error_status_def public_message_def)
  moreover have "error_status e \<in> {400, 401, 403, 404, 409, 422, 429, 500, 502, 504}"
    by (simp add: error_status_def)
  moreover have "status_of (writeServiceError e w) = Some (case W_Wrote w of None \<Rightarrow> error_status e | Some (c, hs) \<Rightarrow> c)"
    by (cases "W_Wrote w") (simp, simp add: status_of_def split: prod.splits)
  ultimately show ?thesis by simp
qed

section \<open>Identities in paths\<close>

lemma PathUnescape_alnum: "list_all is_alnum s \<Longrightarrow> PathUnescape s = Some s"
  using PathUnescape_PathEscape [of s] by (simp add: PathEscape_alnum)

lemma ParseInt_range: "ParseInt s = (i, None) \<Longrightarrow> is_int64 i"
  by (auto simp: ParseInt_def is_int64_def Let_def split: if_splits prod.splits)

text \<open>
  The identity of every key is usable in a path: for every \<open>int64\<close> above zero the handler reads back
  exactly the identity whose decimal digits are in the path, and it never yields an identity that is zero,
  negative or beyond \<open>int64\<close>.
\<close>

theorem idParam_exact:
  "(0 < i \<and> i \<le> MaxInt64 \<and> URLParam r ''id'' = FormatInt i \<longrightarrow> idParam r = Inr i) \<and>
   (\<forall>j. idParam r = Inr j \<longrightarrow> 0 < j \<and> j \<le> MaxInt64)"
proof (intro conjI impI allI)
  assume i: "0 < i \<and> i \<le> MaxInt64 \<and> URLParam r ''id'' = FormatInt i"
  then have "list_all is_digit (FormatInt i)" using FormatUint_digits [of "nat i"] by (simp add: FormatInt_def)
  then have "list_all is_alnum (FormatInt i)" by (auto simp: list_all_iff is_digit_def is_alnum_def)
  then show "idParam r = Inr i"
    using i ParseInt_FormatInt [of i] by (simp add: idParam_def pathParam_def PathUnescape_alnum is_int64_def)
next
  fix j
  assume j: "idParam r = Inr j"
  then show "0 < j" by (auto simp: idParam_def split: sum.splits prod.splits if_splits)
  from j show "j \<le> MaxInt64"
    by (auto simp: idParam_def is_int64_def dest!: ParseInt_range split: sum.splits prod.splits if_splits)
qed

theorem idParam_exact_witness:
  "idParam \<lparr>Method = ''DELETE'', URL_Path = ''/keys/42'', Header = [], RemoteAddr = [], Req_Body = ([], None),
     URLParams = [(''id'', FormatInt 42)], ctx_api_key = None\<rparr> = Inr 42"
  using idParam_exact [of 42 "\<lparr>Method = ''DELETE'', URL_Path = ''/keys/42'', Header = [], RemoteAddr = [],
     Req_Body = ([], None), URLParams = [(''id'', FormatInt 42)], ctx_api_key = None\<rparr>"]
  by (simp add: URLParam_def)

section \<open>Redemptions over HTTP\<close>

text \<open>The status a client of the API sees for each outcome of the upstream exchange.\<close>

definition upstream_status :: "'w upstream \<Rightarrow> http_response result \<Rightarrow> int" where
  "upstream_status net answer =
     (case answer of
        Inl err \<Rightarrow> if errors_Is err DeadlineExceeded then 504 else 502
      | Inr resp \<Rightarrow>
          (case ReadAll_Limit (2 ^ 20) (resp_body resp) of
             Inl err \<Rightarrow> if errors_Is err DeadlineExceeded then 504 else 500
           | Inr b \<Rightarrow>
               (case json_Unmarshal net b of
                  Inl err \<Rightarrow> 502
                | Inr p \<Rightarrow>
                    (let code = Code (Status p) in
                     if code = [] then 502
                     else if code = ''SUCCESS'' then 200
                     else if code \<in> {''VOUCHER_NOT_FOUND'', ''INVALID_LINK'', ''TARGET_NOT_FOUND''} then 404
                     else if code = ''VOUCHER_OUT_OF_STOCK'' then 409 else 422))))"

text \<open>An error of the transport is foreign to the program: it wraps none of its sentinels.\<close>

definition foreign :: "go_error \<Rightarrow> bool" where
  "foreign e \<longleftrightarrow> errors_As e = None \<and> e \<noteq> RuntimePanic \<and>
     (\<forall>t \<in> {ErrNotFound, ErrConflict, ErrInvalidInput, ErrUnauthorized, ErrForbidden, ErrRateLimited, ErrBadRequest, ErrBadGateway}.
        \<not> errors_Is e t)"

definition foreign_answer :: "http_response result \<Rightarrow> bool" where
  "foreign_answer answer = (case answer of Inl e \<Rightarrow> foreign e
     | Inr resp \<Rightarrow> (case snd (resp_body resp) of None \<Rightarrow> True | Some e \<Rightarrow> foreign e))"

lemma redeem_response_status:
  assumes "foreign_answer answer"
  shows "(case redeem_response net answer of Inl e \<Rightarrow> error_status e | Inr res \<Rightarrow> 200) = upstream_status net answer"
proof (cases answer)
  case (Inl err)
  then show ?thesis using assms
    by (simp add: foreign_answer_def foreign_def redeem_response_def upstream_status_def error_status_def)
next
  case (Inr resp)
  show ?thesis
  proof (cases "ReadAll_Limit (2 ^ 20) (resp_body resp)")
    case (Inl err)
    then have "foreign err"
      using assms Inr by (auto simp: ReadAll_Limit_def foreign_answer_def split: if_splits option.splits)
    then show ?thesis using Inl Inr
      by (simp add: foreign_def redeem_response_def upstream_status_def error_status_def)
  next
    case (Inr b)
    then show ?thesis using \<open>answer = Inr resp\<close>
      by (cases "json_Unmarshal net b")
        (simp_all add: redeem_response_def upstream_status_def mapBusinessError_def error_status_def Let_def)
  qed
qed

lemma redeem_response_no_panic:
  assumes "foreign_answer answer" and "redeem_response net answer = Inl e"
  shows "e \<noteq> RuntimePanic"
  using assms by (auto simp: redeem_response_def foreign_answer_def foreign_def mapBusinessError_def ReadAll_Limit_def
      split: sum.splits if_splits option.splits)

text \<open>
  The whole path of \<^verbatim>\<open>GET /tw/{phone}/{gift}\<close>, from handler through service and client to the upstream and
  back. For a valid request that reaches the upstream the reply has the status of the table
  \<open>upstream_status\<close> (200 for success, 404 and 409 for the known voucher states, 422 for other refusals, 502 for
  unusable answers and transport failures, 504 for timeouts, 500 only when the connection breaks while the
  body is read), the upstream is called exactly once, and on success the body is the upstream's own.
\<close>

theorem RedeemGet_status:
  assumes "pathParam r ''phone'' = Inr p" and "pathParam r ''gift'' = Inr g"
    and "ValidateTwRedeem v \<lparr>Phone = p, Gift = g\<rparr> = None"
    and "redeem_request c net \<lparr>Phone = p, Gift = g\<rparr> = Inr hr"
    and "http_Do net (httpc_Timeout c) hr u = (answer, u')" and "foreign_answer answer"
  shows "\<exists>s' w'. RedeemGet (TwService_Redeem v (Client_Redeem c net) stats) r (u, s) new_writer = (Returned, (u', s'), w') \<and>
    status_of w' = Some (upstream_status net answer) \<and>
    (upstream_status net answer = 200 \<longrightarrow>
       (\<exists>resp b. answer = Inr resp \<and> ReadAll_Limit (2 ^ 20) (resp_body resp) = Inr b \<and>
          W_Body w' = [\<lparr>Env_Data = Some (RawJSON b), Env_Error = [], Env_Details = None\<rparr>]))"
proof -
  have call: "Client_Redeem c net \<lparr>Phone = p, Gift = g\<rparr> u = (redeem_response net answer, u')"
    using assms(4,5) by (simp add: Client_Redeem_def)
  note st = redeem_response_status [OF assms(6), of net]
  show ?thesis
  proof (cases "redeem_response net answer")
    case (Inl e)
    have "e \<noteq> RuntimePanic" using redeem_response_no_panic [OF assms(6) Inl] .
    moreover have "error_status e \<noteq> 200" by (simp add: error_status_def)
    ultimately show ?thesis
      using assms(1-3) call st Inl by (simp add: RedeemGet_def TwService_Redeem_def fail_with_def)
  next
    case (Inr res)
    then have "\<exists>resp. answer = Inr resp \<and> ReadAll_Limit (2 ^ 20) (resp_body resp) = Inr (Data res)"
      by (auto simp: redeem_response_def split: sum.splits if_splits)
    then show ?thesis
      using assms(1-3) call st Inr
      by (simp add: RedeemGet_def TwService_Redeem_def) (auto simp: status_of_def new_writer_def)
  qed
qed

definition sample_get :: request where
  "sample_get = \<lparr>Method = ''GET'', URL_Path = ''/tw/0812345678/0123456789abcdefghij'', Header = [], RemoteAddr = [],
     Req_Body = ([], None), URLParams = [(''phone'', ''0812345678''), (''gift'', ''0123456789abcdefghij'')],
     ctx_api_key = None\<rparr>"

theorem RedeemGet_status_witness:
  "\<exists>u' s' w'. RedeemGet (TwService_Redeem (\<lambda>_. False) (Client_Redeem (NewClient [] 0) sample_net) (Some memory_stats))
     sample_get ([], NewStatsStore) new_writer = (Returned, (u', s'), w') \<and> status_of w' = Some 200"
proof -
  have p: "pathParam sample_get ''phone'' = Inr ''0812345678''" by code_simp
  have g: "pathParam sample_get ''gift'' = Inr ''0123456789abcdefghij''" by code_simp
  have v: "ValidateTwRedeem (\<lambda>_. False) \<lparr>Phone = ''0812345678'', Gift = ''0123456789abcdefghij''\<rparr> = None"
    using sample_redeem_valid by (simp add: sample_redeem_def)
  have "list_all is_alnum ''0123456789abcdefghij''" by code_simp
  from extract_code [OF this]
  obtain hr where hr: "redeem_request (NewClient [] 0) sample_net \<lparr>Phone = ''0812345678'', Gift = ''0123456789abcdefghij''\<rparr> = Inr hr"
    by (simp add: redeem_request_def sample_net_def Let_def)
  have d: "http_Do sample_net t hr [] = (Inr \<lparr>resp_status = 200, resp_body = (''SUCCESS'', None)\<rparr>, [hr])" for t
    by (simp add: sample_net_def)
  have f: "foreign_answer (Inr \<lparr>resp_status = 200, resp_body = (''SUCCESS'', None)\<rparr>)" by (simp add: foreign_answer_def)
  have st: "upstream_status sample_net (Inr \<lparr>resp_status = 200, resp_body = (''SUCCESS'', None)\<rparr>) = 200"
    by (simp add: upstream_status_def ReadAll_Limit_def sample_net_def)
  from RedeemGet_status [OF p g v hr d f, of "Some memory_stats" NewStatsStore] st show ?thesis by auto
qed

section \<open>Trailing data after a JSON body\<close>

text \<open>
  \<^verbatim>\<open>decodeJSON\<close> has to reject a body with anything after the value. It writes the 400 reply, but when what
  follows is itself an empty JSON value the error it returns is that of the second, successful,
  \<^verbatim>\<open>Decode\<close> call: nil. Its callers then carry on.

  On a body whose value is followed by an empty JSON value the creation handler answers 400 and creates
  the key nevertheless: the store is the one \<^verbatim>\<open>CreateKey\<close> leaves, and a second envelope with the new key
  follows the error envelope in the body.
\<close>

theorem trailing_value_still_creates:
  assumes "Decode dec (MaxBytesReader maxBodySize (Req_Body r)) = Inr (inp, rest)" and "Decode_empty dec rest = Inr ()"
    and "CreateKey repo rd inp s = (Inr view, s')"
  shows "\<exists>w'. KeyHandler_Create dec repo rd r s new_writer = (Returned, s', w') \<and> status_of w' = Some 400 \<and>
    map Env_Data (W_Body w') = [None, Some (KeyView view)]"
  using assms by (simp add: KeyHandler_Create_def decodeJSON_def status_of_def) (simp add: new_writer_def)

definition sample_decoder :: "CreateApiKeyInput decoder" where
  "sample_decoder = \<lparr>Decode = \<lambda>b. Inr (sample_input, b), Decode_empty = \<lambda>b. Inr ()\<rparr>"

theorem trailing_value_still_creates_witness:
  "\<exists>s' w' k. KeyHandler_Create sample_decoder memory_repo sample_readings sample_get NewKeyStore new_writer =
     (Returned, s', w') \<and> status_of w' = Some 400 \<and> k \<in> ran (map_of (keys s'))"
proof -
  have e: "entropy sample_readings = Inr (replicate 32 (CHR ''r''))" by (simp add: sample_readings_def)
  have "map_of (keys NewKeyStore) h = None" "nextID NewKeyStore < MaxInt64" for h by (simp_all add: NewKeyStore_def)
  from mks.CreateKey_succeeds [OF keystore_inv_New this(2) TrueI sample_input_valid e this(1)]
  obtain v s' where cr: "CreateKey memory_repo sample_readings sample_input NewKeyStore = (Inr v, s')" by blast
  from mks.CreateKey_then_get [OF keystore_inv_New _ cr]
  obtain k where "map_of (keys s') (Hash (View_Key v)) = Some k"
    by (auto simp: NewKeyStore_def KeyStore_GetByHash_def split: option.splits)
  then have "k \<in> ran (map_of (keys s'))" by (rule ranI)
  moreover have "Decode sample_decoder (MaxBytesReader maxBodySize (Req_Body sample_get)) =
      Inr (sample_input, MaxBytesReader maxBodySize (Req_Body sample_get))"
    "Decode_empty sample_decoder (MaxBytesReader maxBodySize (Req_Body sample_get)) = Inr ()"
    by (simp_all add: sample_decoder_def)
  from trailing_value_still_creates [OF this cr] calculation show ?thesis by blast
qed

end
