(* ===== verification/Ratelimit.thy ===== *)
theory Ratelimit
  imports Prelude
begin

text \<open>
  \<^verbatim>\<open>internal/ratelimit/limiter.go\<close>: the in-memory fixed-window limiter. The mutex makes every
  \<open>Allow\<close> atomic, so a run is a sequence of calls. Each call is given the two clock readings it
  makes (\<^verbatim>\<open>l.now()\<close> and the one inside \<^verbatim>\<open>time.Until\<close>) and the order in which the runtime enumerates
  the bucket map when \<open>evictOldest\<close> ranges over it. The locale \<open>fixed_window\<close> is the contract of the
  \<^verbatim>\<open>Limiter\<close> interface; it is interpreted here on the in-memory limiter.
\<close>

section \<open>Definitions\<close>

record entry =
  count :: int
  resetAt :: time

record MemoryLimiter =
  lim_max :: int
  window :: duration
  buckets :: "(string, entry) gomap"
  maxBuckets :: nat

type_synonym range_order = "(string, entry) gomap \<Rightarrow> (string, entry) gomap"

definition NewMemory :: "int \<Rightarrow> duration \<Rightarrow> MemoryLimiter" where
  "NewMemory mx win = \<lparr>lim_max = mx, window = win, buckets = [], maxBuckets = 10000\<rparr>"

definition purge :: "time \<Rightarrow> MemoryLimiter \<Rightarrow> MemoryLimiter" where
  "purge now l = l\<lparr>buckets := filter (\<lambda>(k, e). \<not> now > resetAt e) (buckets l)\<rparr>"

text \<open>The loop of \<open>evictOldest\<close>: its state is \<^verbatim>\<open>oldestKey\<close> and \<^verbatim>\<open>oldestAt\<close>.\<close>

fun oldest_loop :: "(string, entry) gomap \<Rightarrow> string \<Rightarrow> time \<Rightarrow> string" where
  "oldest_loop [] oldestKey oldestAt = oldestKey"
| "oldest_loop ((k, e) # rest) oldestKey oldestAt =
     (if oldestKey = [] \<or> resetAt e < oldestAt then oldest_loop rest k (resetAt e)
      else oldest_loop rest oldestKey oldestAt)"

definition evictOldest :: "range_order \<Rightarrow> MemoryLimiter \<Rightarrow> MemoryLimiter" where
  "evictOldest rng l =
     (let oldestKey = oldest_loop (rng (buckets l)) [] 0
      in if oldestKey \<noteq> [] then l\<lparr>buckets := AList.delete oldestKey (buckets l)\<rparr> else l)"

text \<open>Lines 49 to 54: room for a new bucket.\<close>

definition make_room :: "range_order \<Rightarrow> time \<Rightarrow> MemoryLimiter \<Rightarrow> MemoryLimiter" where
  "make_room rng now l =
     (if length (buckets l) \<ge> maxBuckets l then
        let l = purge now l
        in if length (buckets l) \<ge> maxBuckets l then evictOldest rng l else l
      else l)"

definition Allow ::
  "range_order \<Rightarrow> time \<Rightarrow> time \<Rightarrow> string \<Rightarrow> MemoryLimiter \<Rightarrow> (bool \<times> duration) \<times> MemoryLimiter" where
  "Allow rng now until_now key l =
     (let (e, l) =
            (case map_of (buckets l) key of
               Some e \<Rightarrow> (e, l)
             | None \<Rightarrow> (\<lparr>count = 0, resetAt = now + window l\<rparr>, make_room rng now l));
          e = (if now > resetAt e \<or> now = resetAt e
               then e\<lparr>count := 0, resetAt := now + window l\<rparr> else e);
          e = e\<lparr>count := wrap64 (count e + 1)\<rparr>;
          l = l\<lparr>buckets := AList.update key e (buckets l)\<rparr>
      in if count e > lim_max l then ((False, saturate64 (resetAt e - until_now)), l)
         else ((True, 0), l))"

section \<open>The abstract window\<close>

text \<open>
  What a bucket means at time \<open>now\<close>: the number of requests counted in its current window and the
  end of that window, or nothing when no window is open. \<open>window_step\<close> is the specification of one
  request.
\<close>

definition open_window :: "time \<Rightarrow> MemoryLimiter \<Rightarrow> string \<Rightarrow> (int \<times> time) option" where
  "open_window now l k =
     (case map_of (buckets l) k of
        Some e \<Rightarrow> if now < resetAt e then Some (count e, resetAt e) else None
      | None \<Rightarrow> None)"

definition window_step :: "duration \<Rightarrow> time \<Rightarrow> (int \<times> time) option \<Rightarrow> int \<times> time" where
  "window_step win now w = (case w of Some (c, r) \<Rightarrow> (c + 1, r) | None \<Rightarrow> (1, now + win))"

definition used :: "time \<Rightarrow> MemoryLimiter \<Rightarrow> string \<Rightarrow> int" where
  "used now l k = (case open_window now l k of Some (c, r) \<Rightarrow> c | None \<Rightarrow> 0)"

definition enumerates :: "range_order \<Rightarrow> bool" where
  "enumerates rng \<longleftrightarrow> (\<forall>m. mset (rng m) = mset m)"

definition limiter_inv :: "MemoryLimiter \<Rightarrow> bool" where
  "limiter_inv l \<longleftrightarrow>
     wf_alist (buckets l) \<and> 0 < maxBuckets l \<and> length (buckets l) \<le> maxBuckets l \<and>
     [] \<notin> fst ` set (buckets l) \<and> (\<forall>(k, e) \<in> set (buckets l). 0 \<le> count e)"

text \<open>The counter of \<open>k\<close> is below the \<open>int64\<close> maximum, so that the next increment does not wrap.\<close>

definition no_wrap :: "string \<Rightarrow> MemoryLimiter \<Rightarrow> bool" where
  "no_wrap k l \<longleftrightarrow> (case map_of (buckets l) k of Some e \<Rightarrow> count e < MaxInt64 | None \<Rightarrow> True)"

definition evicts :: "time \<Rightarrow> string \<Rightarrow> MemoryLimiter \<Rightarrow> bool" where
  "evicts now k l \<longleftrightarrow>
     map_of (buckets l) k = None \<and> length (buckets (purge now l)) \<ge> maxBuckets l"

section \<open>Room for a new bucket\<close>

lemma purge_simps [simp]:
  "lim_max (purge now l) = lim_max l" "window (purge now l) = window l"
  "maxBuckets (purge now l) = maxBuckets l"
  "set (buckets (purge now l)) = {(k, e) \<in> set (buckets l). \<not> now > resetAt e}"
  by (auto simp: purge_def)

lemma wf_purge [simp]: "wf_alist (buckets l) \<Longrightarrow> wf_alist (buckets (purge now l))"
  by (simp add: purge_def)

lemma length_purge_le: "length (buckets (purge now l)) \<le> length (buckets l)"
  by (simp add: purge_def)

lemma open_window_purge:
  assumes "wf_alist (buckets l)" and "now \<le> t"
  shows "open_window t (purge now l) k = open_window t l k"
  using assms by (auto simp: open_window_def purge_def map_of_filter_snd split: option.splits)

lemma evictOldest_simps [simp]:
  "lim_max (evictOldest rng l) = lim_max l" "window (evictOldest rng l) = window l"
  "maxBuckets (evictOldest rng l) = maxBuckets l"
  by (simp_all add: evictOldest_def Let_def)

lemma set_evictOldest: "set (buckets (evictOldest rng l)) \<subseteq> set (buckets l)"
  by (auto simp: evictOldest_def Let_def AList.delete_eq)

lemma wf_evictOldest [simp]: "wf_alist (buckets l) \<Longrightarrow> wf_alist (buckets (evictOldest rng l))"
  by (simp add: evictOldest_def Let_def)

lemma make_room_simps [simp]:
  "lim_max (make_room rng now l) = lim_max l" "window (make_room rng now l) = window l"
  "maxBuckets (make_room rng now l) = maxBuckets l"
  by (simp_all add: make_room_def Let_def)

lemma wf_make_room [simp]: "wf_alist (buckets l) \<Longrightarrow> wf_alist (buckets (make_room rng now l))"
  by (simp add: make_room_def Let_def)

lemma set_make_room: "set (buckets (make_room rng now l)) \<subseteq> set (buckets l)"
proof -
  have "set (buckets (purge now l)) \<subseteq> set (buckets l)" by auto
  then show ?thesis using set_evictOldest [of rng "purge now l"]
    by (auto simp: make_room_def Let_def simp del: purge_simps(4))
qed

text \<open>
  Whatever the enumeration order, the loop finds a bucket whose window ends first, provided no
  bucket has the empty key that the loop uses as its start mark.
\<close>

lemma oldest_loop_min:
  assumes "oldestKey \<noteq> []" and "[] \<notin> fst ` set m"
  shows "oldest_loop m oldestKey oldestAt = oldestKey \<and> (\<forall>(k, e) \<in> set m. oldestAt \<le> resetAt e) \<or>
    (\<exists>e. (oldest_loop m oldestKey oldestAt, e) \<in> set m \<and> resetAt e \<le> oldestAt \<and>
       (\<forall>(k, e') \<in> set m. resetAt e \<le> resetAt e'))"
  using assms
proof (induction m arbitrary: oldestKey oldestAt)
  case (Cons p m)
  obtain k e where p: "p = (k, e)" by (cases p)
  show ?case
  proof (cases "resetAt e < oldestAt")
    case True
    have "k \<noteq> []" "[] \<notin> fst ` set m" using Cons.prems p by auto
    from Cons.IH [OF this, of "resetAt e"] show ?thesis
    proof (elim disjE exE conjE)
      assume "oldest_loop m k (resetAt e) = k" "\<forall>(k, e') \<in> set m. resetAt e \<le> resetAt e'"
      with True show ?thesis by (intro disjI2 exI [of _ e]) (auto simp: p)
    next
      fix e2
      assume "(oldest_loop m k (resetAt e), e2) \<in> set m" "resetAt e2 \<le> resetAt e"
        "\<forall>(k, e') \<in> set m. resetAt e2 \<le> resetAt e'"
      with True show ?thesis by (intro disjI2 exI [of _ e2]) (auto simp: p)
    qed
  next
    case False
    have "[] \<notin> fst ` set m" using Cons.prems by auto
    from Cons.IH [OF Cons.prems(1) this, of oldestAt] show ?thesis
    proof (elim disjE exE conjE)
      assume "oldest_loop m oldestKey oldestAt = oldestKey" "\<forall>(k, e') \<in> set m. oldestAt \<le> resetAt e'"
      with False Cons.prems(1) show ?thesis by (intro disjI1) (auto simp: p)
    next
      fix e2
      assume "(oldest_loop m oldestKey oldestAt, e2) \<in> set m" "resetAt e2 \<le> oldestAt"
        "\<forall>(k, e') \<in> set m. resetAt e2 \<le> resetAt e'"
      with False Cons.prems(1) show ?thesis by (intro disjI2 exI [of _ e2]) (auto simp: p)
    qed
  qed
qed simp

lemma oldest_loop_start:
  assumes "m \<noteq> []" and "[] \<notin> fst ` set m"
  obtains e where "(oldest_loop m [] t, e) \<in> set m" "\<forall>(k, e') \<in> set m. resetAt e \<le> resetAt e'"
proof -
  obtain k e0 rest where m: "m = (k, e0) # rest" using assms(1) by (cases m) auto
  have k: "k \<noteq> []" and r: "[] \<notin> fst ` set rest" using assms(2) m by auto
  have start: "oldest_loop m [] t = oldest_loop rest k (resetAt e0)" by (simp add: m)
  from oldest_loop_min [OF k r, of "resetAt e0"] show ?thesis
  proof
    assume "oldest_loop rest k (resetAt e0) = k \<and> (\<forall>(k, e) \<in> set rest. resetAt e0 \<le> resetAt e)"
    then show ?thesis using that [of e0] unfolding start by (auto simp: m)
  next
    assume "\<exists>e. (oldest_loop rest k (resetAt e0), e) \<in> set rest \<and> resetAt e \<le> resetAt e0 \<and>
       (\<forall>(k, e') \<in> set rest. resetAt e \<le> resetAt e')"
    then obtain e where "(oldest_loop rest k (resetAt e0), e) \<in> set rest" "resetAt e \<le> resetAt e0"
      "\<forall>(k, e') \<in> set rest. resetAt e \<le> resetAt e'" by blast
    then show ?thesis using that [of e] unfolding start by (auto simp: m)
  qed
qed

lemma evictOldest_spec:
  assumes "limiter_inv l" and "enumerates rng" and "buckets l \<noteq> []"
  obtains k e where "(k, e) \<in> set (buckets l)" "\<forall>(k', e') \<in> set (buckets l). resetAt e \<le> resetAt e'"
    "buckets (evictOldest rng l) = AList.delete k (buckets l)"
proof -
  let ?m = "rng (buckets l)"
  have eq: "set ?m = set (buckets l)"
    using assms(2) unfolding enumerates_def by (metis set_mset_mset)
  have ne: "?m \<noteq> []" "[] \<notin> fst ` set ?m"
    using assms(1,3) eq by (auto simp: limiter_inv_def)
  then obtain e where e: "(oldest_loop ?m [] 0, e) \<in> set ?m" "\<forall>(k, e') \<in> set ?m. resetAt e \<le> resetAt e'"
    by (rule oldest_loop_start)
  then have "oldest_loop ?m [] 0 \<noteq> []" using ne(2) by force
  then have "buckets (evictOldest rng l) = AList.delete (oldest_loop ?m [] 0) (buckets l)"
    by (simp add: evictOldest_def Let_def)
  with e show ?thesis using that [of "oldest_loop ?m [] 0" e] eq by simp
qed

lemma length_make_room:
  assumes "limiter_inv l" and "enumerates rng"
  shows "length (buckets (make_room rng now l)) < maxBuckets l"
proof (cases "length (buckets l) \<ge> maxBuckets l \<and> length (buckets (purge now l)) \<ge> maxBuckets l")
  case True
  then have ne: "buckets (purge now l) \<noteq> []" using assms(1) by (auto simp: limiter_inv_def)
  have inv: "limiter_inv (purge now l)"
    using assms(1) length_purge_le [of now l] by (auto simp: limiter_inv_def)
  obtain k e where "(k, e) \<in> set (buckets (purge now l))"
    "buckets (evictOldest rng (purge now l)) = AList.delete k (buckets (purge now l))"
    using evictOldest_spec [OF inv assms(2) ne] by metis
  moreover have "wf_alist (buckets (purge now l))" using inv by (simp add: limiter_inv_def)
  ultimately have "Suc (length (buckets (evictOldest rng (purge now l)))) = length (buckets (purge now l))"
    by (metis (no_types, lifting) fst_conv imageI length_alist_delete)
  moreover have "length (buckets (purge now l)) \<le> maxBuckets l"
    using inv by (simp add: limiter_inv_def)
  ultimately show ?thesis using True by (simp add: make_room_def Let_def)
next
  case False
  then show ?thesis by (auto simp: make_room_def Let_def)
qed

lemma make_room_no_evict:
  assumes "\<not> evicts now k l" and "map_of (buckets l) k = None" and "wf_alist (buckets l)" and "now \<le> t"
  shows "open_window t (make_room rng now l) k' = open_window t l k'"
  using assms by (auto simp: make_room_def Let_def evicts_def open_window_purge)

section \<open>One call\<close>

text \<open>The entry a call stores, in terms of the open window it finds.\<close>

definition next_entry :: "time \<Rightarrow> string \<Rightarrow> MemoryLimiter \<Rightarrow> entry" where
  "next_entry now key l =
     (case open_window now l key of
        Some (c, r) \<Rightarrow> \<lparr>count = wrap64 (c + 1), resetAt = r\<rparr>
      | None \<Rightarrow> \<lparr>count = 1, resetAt = now + window l\<rparr>)"

definition room :: "range_order \<Rightarrow> time \<Rightarrow> string \<Rightarrow> MemoryLimiter \<Rightarrow> MemoryLimiter" where
  "room rng now key l = (if map_of (buckets l) key = None then make_room rng now l else l)"

lemma room_simps [simp]:
  "lim_max (room rng now key l) = lim_max l" "window (room rng now key l) = window l"
  "maxBuckets (room rng now key l) = maxBuckets l"
  "wf_alist (buckets l) \<Longrightarrow> wf_alist (buckets (room rng now key l))"
  by (simp_all add: room_def)

lemma Allow_alt:
  "Allow rng now un key l =
     (let e = next_entry now key l;
          l' = (room rng now key l)\<lparr>buckets := AList.update key e (buckets (room rng now key l))\<rparr>
      in if count e > lim_max l then ((False, saturate64 (resetAt e - un)), l') else ((True, 0), l'))"
proof (cases "map_of (buckets l) key")
  case None
  then show ?thesis
    by (simp add: Allow_def next_entry_def open_window_def room_def Let_def is_int64_def)
next
  case (Some e)
  then show ?thesis
    by (cases e) (auto simp: Allow_def next_entry_def open_window_def room_def Let_def is_int64_def)
qed

lemma Allow_simps [simp]:
  "lim_max (snd (Allow rng now un key l)) = lim_max l"
  "window (snd (Allow rng now un key l)) = window l"
  "maxBuckets (snd (Allow rng now un key l)) = maxBuckets l"
  "buckets (snd (Allow rng now un key l)) =
     AList.update key (next_entry now key l) (buckets (room rng now key l))"
  by (simp_all add: Allow_alt Let_def)

lemma open_window_nonneg:
  assumes "limiter_inv l" and "open_window now l k = Some (c, r)"
  shows "0 \<le> c" and "now < r"
  using assms by (fastforce simp: open_window_def limiter_inv_def split: option.splits if_splits
      dest: map_of_SomeD)+

lemma count_next_entry:
  assumes "limiter_inv l" and "no_wrap key l"
  shows "count (next_entry now key l) = used now l key + 1" and "0 \<le> used now l key"
proof -
  have "0 \<le> c \<and> c < MaxInt64" if "open_window now l key = Some (c, r)" for c r
    using that assms open_window_nonneg(1) [OF assms(1) that]
    by (auto simp: no_wrap_def open_window_def split: option.splits if_splits)
  then show "count (next_entry now key l) = used now l key + 1" and "0 \<le> used now l key"
    by (auto simp: next_entry_def used_def is_int64_def split: option.splits)
qed

lemma Allow_decision:
  assumes "limiter_inv l" and "no_wrap key l"
  shows "fst (fst (Allow rng now un key l)) \<longleftrightarrow> used now l key < lim_max l"
  using count_next_entry [OF assms] by (simp add: Allow_alt Let_def)

lemma open_window_Allow:
  assumes "wf_alist (buckets l)" and "\<not> evicts now key l" and "now \<le> t"
  shows "open_window t (snd (Allow rng now un key l)) k =
    (if k = key then
       let e = next_entry now key l in if t < resetAt e then Some (count e, resetAt e) else None
     else open_window t l k)"
proof -
  have "open_window t (room rng now key l) k = open_window t l k"
    using assms by (simp add: room_def make_room_no_evict)
  then show ?thesis by (simp add: open_window_def Let_def)
qed

lemma limiter_inv_Allow:
  assumes inv: "limiter_inv l" and "enumerates rng" and "key \<noteq> []" and "no_wrap key l"
  shows "limiter_inv (snd (Allow rng now un key l))"
proof -
  have sub: "set (buckets (room rng now key l)) \<subseteq> set (buckets l)"
    using set_make_room by (auto simp: room_def)
  have len: "length (AList.update key e (buckets (room rng now key l))) \<le> maxBuckets l" for e
  proof (cases "map_of (buckets l) key = None")
    case True
    then show ?thesis using length_make_room [OF inv assms(2), of now]
      by (simp add: room_def length_alist_update)
  next
    case False
    then have "key \<in> fst ` set (buckets l)" by (metis map_of_eq_None_iff)
    with False inv show ?thesis by (auto simp: room_def length_alist_update limiter_inv_def)
  qed
  have pos: "0 \<le> count (next_entry now key l)"
    using count_next_entry [OF inv assms(4), of now] by simp
  let ?m = "AList.update key (next_entry now key l) (buckets (room rng now key l))"
  have new: "set ?m \<subseteq> insert (key, next_entry now key l) (set (buckets l))"
    using sub set_alist_update [of key "next_entry now key l" "buckets (room rng now key l)"] by blast
  have "[] \<notin> fst ` set ?m" using new inv assms(3) by (auto simp: limiter_inv_def)
  moreover have "\<forall>(k, e) \<in> set ?m. 0 \<le> count e"
    using new inv pos by (auto simp: limiter_inv_def)
  ultimately show ?thesis
    using inv len by (simp add: limiter_inv_def)
qed

section \<open>The contract of the Limiter interface\<close>

text \<open>
  What a client of \<^verbatim>\<open>ratelimit.Limiter\<close> relies on: a request is granted exactly when fewer than
  \<open>limit\<close> requests are counted in the window of its bucket, and it is counted either way.
  \<open>ok e k n s\<close> says that \<open>n\<close> more calls for \<open>k\<close> under the environment \<open>e\<close> stay inside the contract
  (no counter overflow, and for a remote backend, a healthy connection).
\<close>

primrec burst :: "('e \<Rightarrow> string \<Rightarrow> 's \<Rightarrow> (bool \<times> duration) \<times> 's) \<Rightarrow> 'e \<Rightarrow> string \<Rightarrow> nat \<Rightarrow> 's \<Rightarrow> int" where
  "burst allow e k 0 s = 0"
| "burst allow e k (Suc n) s =
     (if fst (fst (allow e k s)) then 1 else 0) + burst allow e k n (snd (allow e k s))"

locale fixed_window =
  fixes allow :: "'e \<Rightarrow> string \<Rightarrow> 's \<Rightarrow> (bool \<times> duration) \<times> 's"
    and used :: "'e \<Rightarrow> 's \<Rightarrow> string \<Rightarrow> int"
    and limit :: "'s \<Rightarrow> int"
    and ok :: "'e \<Rightarrow> string \<Rightarrow> nat \<Rightarrow> 's \<Rightarrow> bool"
  assumes decision: "ok e k (Suc n) s \<Longrightarrow> fst (fst (allow e k s)) \<longleftrightarrow> used e s k < limit s"
    and counted: "ok e k (Suc n) s \<Longrightarrow> used e (snd (allow e k s)) k = used e s k + 1"
    and limit_kept: "ok e k (Suc n) s \<Longrightarrow> limit (snd (allow e k s)) = limit s"
    and ok_step: "ok e k (Suc n) s \<Longrightarrow> ok e k n (snd (allow e k s))"
begin

lemma burst_granted:
  "ok e k n s \<Longrightarrow> burst allow e k n s = min (int n) (max 0 (limit s - used e s k))"
proof (induction n arbitrary: s)
  case (Suc n)
  note ok = Suc.prems
  show ?case using Suc.IH [OF ok_step [OF ok]] decision [OF ok] counted [OF ok] limit_kept [OF ok]
    by auto
qed simp

end

definition allow_at :: "range_order \<times> time \<times> time \<Rightarrow> string \<Rightarrow> MemoryLimiter \<Rightarrow> (bool \<times> duration) \<times> MemoryLimiter" where
  "allow_at = (\<lambda>(rng, now, un) key l. Allow rng now un key l)"

definition memory_ok :: "range_order \<times> time \<times> time \<Rightarrow> string \<Rightarrow> nat \<Rightarrow> MemoryLimiter \<Rightarrow> bool" where
  "memory_ok = (\<lambda>(rng, now, un) k n l.
     limiter_inv l \<and> enumerates rng \<and> k \<noteq> [] \<and> 0 < window l \<and>
     int n \<le> MaxInt64 \<and>
     (case map_of (buckets l) k of Some e \<Rightarrow> count e + int n \<le> MaxInt64 | None \<Rightarrow> True))"

lemma memory_ok_no_wrap: "memory_ok (rng, now, un) k (Suc n) l \<Longrightarrow> no_wrap k l"
  by (auto simp: memory_ok_def no_wrap_def split: option.splits)

lemma used_Allow_same:
  assumes "limiter_inv l" and "no_wrap k l" and "0 < window l"
  shows "used now (snd (Allow rng now un k l)) k = used now l k + 1"
proof -
  have "now < resetAt (next_entry now k l)"
    using assms(1,3) open_window_nonneg(2) [of l now k] by (auto simp: next_entry_def split: option.splits)
  then show ?thesis using count_next_entry(1) [OF assms(1,2), of now]
    by (simp add: used_def [of now "snd (Allow rng now un k l)"] open_window_def)
qed

lemma memory_ok_step:
  assumes "memory_ok (rng, now, un) k (Suc n) l"
  shows "memory_ok (rng, now, un) k n (snd (Allow rng now un k l))"
proof -
  have inv: "limiter_inv l" and nw: "no_wrap k l"
    using assms memory_ok_no_wrap by (auto simp: memory_ok_def)
  have "used now l k + 1 + int n \<le> MaxInt64"
    using assms by (auto simp: memory_ok_def used_def open_window_def split: option.splits)
  then have "count (next_entry now k l) + int n \<le> MaxInt64"
    using count_next_entry(1) [OF inv nw, of now] by simp
  then show ?thesis
    using assms limiter_inv_Allow [OF inv _ _ nw] by (simp add: memory_ok_def)
qed

interpretation lw: fixed_window allow_at "\<lambda>(rng, now, un) l k. used now l k" lim_max memory_ok
proof unfold_locales
  fix e :: "range_order \<times> time \<times> time" and k n s
  assume ok: "memory_ok e k (Suc n) s"
  obtain rng now un where e: "e = (rng, now, un)" by (cases e)
  have inv: "limiter_inv s" "no_wrap k s" "0 < window s"
    using ok memory_ok_no_wrap by (auto simp: e memory_ok_def)
  show "fst (fst (allow_at e k s)) \<longleftrightarrow> (case e of (rng, now, un) \<Rightarrow> \<lambda>l k. used now l k) s k < lim_max s"
    using Allow_decision [OF inv(1,2)] by (simp add: e allow_at_def)
  show "(case e of (rng, now, un) \<Rightarrow> \<lambda>l k. used now l k) (snd (allow_at e k s)) k =
      (case e of (rng, now, un) \<Rightarrow> \<lambda>l k. used now l k) s k + 1"
    using used_Allow_same [OF inv] by (simp add: e allow_at_def)
  show "lim_max (snd (allow_at e k s)) = lim_max s" by (simp add: e allow_at_def)
  show "memory_ok e k n (snd (allow_at e k s))"
    using memory_ok_step ok by (simp add: e allow_at_def)
qed

section \<open>Limiters over time\<close>

text \<open>
  The contract of a limiter over a sequence of calls at non-decreasing times: each call is one
  \<open>window_step\<close> of its own bucket, is granted when the window still has budget, and leaves the other windows
  alone. \<open>ok n\<close> says that the state can take \<open>n\<close> more calls, \<open>fine\<close> that a call is of the admitted kind.
  \<open>granted\<close> counts the grants of one bucket.
\<close>

primrec granted ::
  "('c \<Rightarrow> 's \<Rightarrow> (bool \<times> duration) \<times> 's) \<Rightarrow> ('c \<Rightarrow> string) \<Rightarrow> string \<Rightarrow> 'c list \<Rightarrow> 's \<Rightarrow> int" where
  "granted act named k [] s = 0"
| "granted act named k (c # cs) s =
     (if named c = k \<and> fst (fst (act c s)) then 1 else 0) + granted act named k cs (snd (act c s))"

definition counted :: "(int \<times> time) option \<Rightarrow> int" where
  "counted w = (case w of Some (n, r) \<Rightarrow> n | None \<Rightarrow> 0)"

lemma counted_simps [simp]: "counted None = 0" "counted (Some (n, r)) = n"
  by (simp_all add: counted_def)

locale window_limiter =
  fixes act :: "'c \<Rightarrow> 's \<Rightarrow> (bool \<times> duration) \<times> 's"
    and time_of :: "'c \<Rightarrow> time"
    and named :: "'c \<Rightarrow> string"
    and opened :: "time \<Rightarrow> 's \<Rightarrow> string \<Rightarrow> (int \<times> time) option"
    and limit :: "'s \<Rightarrow> int"
    and len :: "'s \<Rightarrow> duration"
    and ok :: "nat \<Rightarrow> 's \<Rightarrow> bool"
    and fine :: "'c \<Rightarrow> bool"
  assumes stepped: "ok (Suc n) s \<Longrightarrow> fine c \<Longrightarrow> opened (time_of c) (snd (act c s)) k =
      (if named c = k then Some (window_step (len s) (time_of c) (opened (time_of c) s k)) else opened (time_of c) s k)"
    and decided: "ok (Suc n) s \<Longrightarrow> fine c \<Longrightarrow>
      fst (fst (act c s)) \<longleftrightarrow> counted (opened (time_of c) s (named c)) < limit s"
    and ok_step: "ok (Suc n) s \<Longrightarrow> fine c \<Longrightarrow> ok n (snd (act c s))"
    and kept: "ok (Suc n) s \<Longrightarrow> fine c \<Longrightarrow> limit (snd (act c s)) = limit s \<and> len (snd (act c s)) = len s"
    and later: "ok n s \<Longrightarrow> opened t s k = Some (m, r) \<Longrightarrow> t \<le> t' \<Longrightarrow> opened t' s k = (if t' < r then Some (m, r) else None)"
    and none_later: "ok n s \<Longrightarrow> opened t s k = None \<Longrightarrow> t \<le> t' \<Longrightarrow> opened t' s k = None"
    and nonneg: "ok n s \<Longrightarrow> opened t s k = Some (m, r) \<Longrightarrow> 0 \<le> m"
begin

text \<open>Inside one window the limiter grants exactly what is left of the budget.\<close>

lemma in_window:
  assumes "ok (length cs) s" and "sorted (t # map time_of cs)" and "\<forall>c \<in> set cs. fine c"
    and "opened t s k = Some (n, r)" and "\<forall>c \<in> set cs. time_of c < r"
  shows "granted act named k cs s = min (int (length (filter (\<lambda>c. named c = k) cs))) (max 0 (limit s - n))"
  using assms
proof (induction cs arbitrary: s t n)
  case (Cons c cs)
  have step: "ok (Suc (length cs)) s" "fine c" using Cons.prems(1,3) by simp_all
  have now: "opened (time_of c) s k = Some (n, r)"
    using later [OF step(1) Cons.prems(4), of "time_of c"] Cons.prems(2,5) by simp
  let ?n = "if named c = k then n + 1 else n"
  have "opened (time_of c) (snd (act c s)) k = Some (?n, r)"
    using stepped [OF step, of k] now by (simp add: window_step_def)
  from Cons.IH [OF ok_step [OF step] _ _ this] Cons.prems(2,3,5) decided [OF step] kept [OF step] now
  show ?case by auto
qed simp

lemma fresh:
  assumes "ok (length cs) s" and "sorted (t # map time_of cs)" and "\<forall>c \<in> set cs. fine c"
    and "opened t s k = None" and "\<forall>c \<in> set cs. time_of c < t + len s"
  shows "granted act named k cs s \<le> max 0 (limit s)"
  using assms
proof (induction cs arbitrary: s t)
  case (Cons c cs)
  have step: "ok (Suc (length cs)) s" "fine c" using Cons.prems(1,3) by simp_all
  have now: "opened (time_of c) s k = None"
    using none_later [OF step(1) Cons.prems(4), of "time_of c"] Cons.prems(2) by simp
  have later': "\<forall>c' \<in> set cs. time_of c' < time_of c + len s" using Cons.prems(2,5) by force
  show ?case
  proof (cases "named c = k")
    case True
    then have "opened (time_of c) (snd (act c s)) k = Some (1, time_of c + len s)"
      using stepped [OF step, of k] now by (simp add: window_step_def)
    from in_window [OF ok_step [OF step] _ _ this] Cons.prems(2,3) later' decided [OF step] kept [OF step] True now
    show ?thesis by auto
  next
    case False
    then have "opened (time_of c) (snd (act c s)) k = None" using stepped [OF step, of k] now by simp
    from Cons.IH [OF ok_step [OF step] _ _ this] Cons.prems(2,3) later' kept [OF step] False show ?thesis by simp
  qed
qed simp

lemma sliding:
  assumes "ok (length cs) s" and "sorted (t # map time_of cs)" and "\<forall>c \<in> set cs. fine c"
    and "opened t s k = Some (n, r)" and "\<forall>c \<in> set cs. time_of c < t + len s"
  shows "granted act named k cs s \<le> max 0 (limit s - n) + max 0 (limit s)"
  using assms
proof (induction cs arbitrary: s t n)
  case (Cons c cs)
  have step: "ok (Suc (length cs)) s" "fine c" using Cons.prems(1,3) by simp_all
  have t: "t \<le> time_of c" using Cons.prems(2) by simp
  have later': "\<forall>c' \<in> set cs. time_of c' < time_of c + len s" using Cons.prems(2,5) by force
  show ?case
  proof (cases "time_of c < r")
    case True
    then have now: "opened (time_of c) s k = Some (n, r)" using later [OF step(1) Cons.prems(4) t] by simp
    let ?n = "if named c = k then n + 1 else n"
    have "opened (time_of c) (snd (act c s)) k = Some (?n, r)"
      using stepped [OF step, of k] now by (simp add: window_step_def)
    from Cons.IH [OF ok_step [OF step] _ _ this] Cons.prems(2,3) later' decided [OF step] kept [OF step] now
    show ?thesis by auto
  next
    case False
    then have none: "opened (time_of c) s k = None" using later [OF step(1) Cons.prems(4) t] by simp
    have "sorted (time_of c # map time_of (c # cs))" using Cons.prems(2) by simp
    moreover have "\<forall>c' \<in> set (c # cs). time_of c' < time_of c + len s"
      using later' Cons.prems(2,5) t by force
    ultimately have "granted act named k (c # cs) s \<le> max 0 (limit s)"
      using fresh [OF Cons.prems(1) _ Cons.prems(3) none] by blast
    then show ?thesis by linarith
  qed
qed simp

lemma sliding_bound:
  assumes "ok (length cs) s" and "sorted (t # map time_of cs)" and "\<forall>c \<in> set cs. fine c"
    and "\<forall>c \<in> set cs. time_of c < t + len s" and "0 \<le> limit s"
  shows "granted act named k cs s \<le> 2 * limit s"
proof (cases "opened t s k")
  case None
  then show ?thesis using fresh [OF assms(1-3) None assms(4)] assms(5) by simp
next
  case (Some w)
  obtain n r where w: "w = (n, r)" by (cases w)
  have "0 \<le> n" using nonneg [OF assms(1)] Some by (simp add: w)
  then show ?thesis using sliding [OF assms(1-3) Some [unfolded w] assms(4)] assms(5) by simp
qed

end

section \<open>Runs\<close>

record call =
  at :: time
  until_at :: time
  order :: range_order
  bucket :: string

definition do_call :: "call \<Rightarrow> MemoryLimiter \<Rightarrow> (bool \<times> duration) \<times> MemoryLimiter" where
  "do_call c l = Allow (order c) (at c) (until_at c) (bucket c) l"

primrec allowed :: "string \<Rightarrow> call list \<Rightarrow> MemoryLimiter \<Rightarrow> int" where
  "allowed k [] l = 0"
| "allowed k (c # cs) l =
     (if bucket c = k \<and> fst (fst (do_call c l)) then 1 else 0) + allowed k cs (snd (do_call c l))"

definition run_calls :: "call list \<Rightarrow> MemoryLimiter \<Rightarrow> MemoryLimiter" where
  "run_calls cs l = fold (\<lambda>c l. snd (do_call c l)) cs l"

text \<open>
  The environment of a run: the clock does not go back, every bucket key comes from a set \<open>K\<close> that
  fits into the bucket map (so no bucket is evicted), and no counter can reach the \<open>int64\<close> maximum.
\<close>

definition calls_ok :: "string set \<Rightarrow> time \<Rightarrow> call list \<Rightarrow> bool" where
  "calls_ok K t cs \<longleftrightarrow>
     sorted (t # map at cs) \<and> (\<forall>c \<in> set cs. bucket c \<in> K \<and> enumerates (order c)) \<and>
     finite K \<and> [] \<notin> K"

definition headroom :: "nat \<Rightarrow> MemoryLimiter \<Rightarrow> bool" where
  "headroom n l \<longleftrightarrow>
     limiter_inv l \<and> (\<forall>(k, e) \<in> set (buckets l). count e + int n \<le> MaxInt64) \<and> int n \<le> MaxInt64"

definition run_ok :: "string set \<Rightarrow> nat \<Rightarrow> MemoryLimiter \<Rightarrow> bool" where
  "run_ok K n l \<longleftrightarrow> headroom n l \<and> card K \<le> maxBuckets l \<and> fst ` set (buckets l) \<subseteq> K"

lemma run_ok_no_evict:
  assumes "run_ok K n l" and "finite K" and "k \<in> K"
  shows "\<not> evicts now k l"
proof
  assume "evicts now k l"
  then have none: "map_of (buckets l) k = None" and len: "maxBuckets l \<le> length (buckets l)"
    using length_purge_le [of now l] by (auto simp: evicts_def)
  have "k \<notin> fst ` set (buckets l)" using none by (simp add: map_of_eq_None_iff)
  then have "fst ` set (buckets l) \<subset> K" using assms by (auto simp: run_ok_def)
  then have "card (fst ` set (buckets l)) < card K" using assms(2) by (rule psubset_card_mono [rotated])
  moreover have "card (fst ` set (buckets l)) = length (buckets l)"
    using assms(1) by (metis distinct_card headroom_def length_map limiter_inv_def list.set_map run_ok_def)
  ultimately show False using assms(1) len by (simp add: run_ok_def)
qed

lemma headroom_no_wrap: "headroom (Suc n) l \<Longrightarrow> no_wrap k l"
  by (fastforce simp: headroom_def no_wrap_def split: option.splits dest: map_of_SomeD)

lemma headroom_used:
  assumes "headroom (Suc n) l"
  shows "used now l k + 1 + int n \<le> MaxInt64"
  using assms by (fastforce simp: headroom_def used_def open_window_def split: option.splits dest: map_of_SomeD)

lemma set_do_call:
  "set (buckets (snd (do_call c l))) \<subseteq>
     insert (bucket c, next_entry (at c) (bucket c) l) (set (buckets l))"
proof -
  let ?r = "room (order c) (at c) (bucket c) l"
  have "set (buckets ?r) \<subseteq> set (buckets l)" using set_make_room by (auto simp: room_def)
  then show ?thesis unfolding do_call_def Allow_simps
    using set_alist_update [of "bucket c" "next_entry (at c) (bucket c) l" "buckets ?r"] by blast
qed

lemma headroom_step:
  assumes ok: "headroom (Suc n) l" and "bucket c \<noteq> []" and "enumerates (order c)"
  shows "headroom n (snd (do_call c l))"
proof -
  have inv: "limiter_inv l" and nw: "no_wrap (bucket c) l"
    using ok headroom_no_wrap by (auto simp: headroom_def)
  have inv': "limiter_inv (snd (do_call c l))"
    unfolding do_call_def using inv nw assms(2,3) by (intro limiter_inv_Allow)
  have cnt: "count (next_entry (at c) (bucket c) l) + int n \<le> MaxInt64"
    using headroom_used [OF ok, of "at c" "bucket c"] count_next_entry(1) [OF inv nw, of "at c"] by simp
  have "\<forall>(k, e) \<in> set (buckets (snd (do_call c l))). count e + int n \<le> MaxInt64"
    using set_do_call [of c l] ok cnt by (fastforce simp: headroom_def)
  then show ?thesis using ok inv' by (simp add: headroom_def)
qed

lemma run_ok_step:
  assumes "run_ok K (Suc n) l" and "[] \<notin> K" and "bucket c \<in> K" and "enumerates (order c)"
  shows "run_ok K n (snd (do_call c l))"
proof -
  have "bucket c \<noteq> []" using assms(2,3) by auto
  then have "headroom n (snd (do_call c l))"
    using assms(1,4) headroom_step by (simp add: run_ok_def)
  moreover have "fst ` set (buckets (snd (do_call c l))) \<subseteq> K"
    using set_do_call [of c l] assms(1,3) by (fastforce simp: run_ok_def)
  ultimately show ?thesis using assms(1) by (simp add: run_ok_def do_call_def)
qed

lemma calls_ok_Cons:
  "calls_ok K t (c # cs) \<longleftrightarrow>
     t \<le> at c \<and> bucket c \<in> K \<and> enumerates (order c) \<and> calls_ok K (at c) cs"
  by (auto simp: calls_ok_def)

lemma open_window_later:
  assumes "open_window t l k = Some (c, r)" and "t \<le> t'"
  shows "open_window t' l k = (if t' < r then Some (c, r) else None)"
  using assms by (auto simp: open_window_def split: option.splits if_splits)

lemma open_window_None_later:
  "open_window t l k = None \<Longrightarrow> t \<le> t' \<Longrightarrow> open_window t' l k = None"
  by (auto simp: open_window_def split: option.splits if_splits)

text \<open>One call of a run, seen from the window of \<open>k\<close>.\<close>

lemma run_step_window:
  assumes "run_ok K (Suc n) l" and "calls_ok K t (c # cs)" and "0 < window l"
  shows "open_window (at c) (snd (do_call c l)) k =
      (if bucket c = k then Some (window_step (window l) (at c) (open_window (at c) l k))
       else open_window (at c) l k)"
    and "fst (fst (do_call c l)) \<longleftrightarrow> used (at c) l (bucket c) < lim_max l"
    and "run_ok K n (snd (do_call c l))"
    and "window (snd (do_call c l)) = window l" "lim_max (snd (do_call c l)) = lim_max l"
proof -
  let ?k = "bucket c"
  have K: "finite K" "[] \<notin> K" "?k \<in> K" "enumerates (order c)"
    using assms(2) by (auto simp: calls_ok_def)
  have inv: "limiter_inv l" "wf_alist (buckets l)" and nw: "no_wrap ?k l"
    using assms(1) headroom_no_wrap by (auto simp: run_ok_def headroom_def limiter_inv_def)
  have ne: "\<not> evicts (at c) ?k l" by (rule run_ok_no_evict [OF assms(1) K(1,3)])
  have e: "next_entry (at c) ?k l = (let (n, r) = window_step (window l) (at c) (open_window (at c) l ?k)
      in \<lparr>count = n, resetAt = r\<rparr>)" "at c < resetAt (next_entry (at c) ?k l)"
    using count_next_entry(1) [OF inv(1) nw, of "at c"] open_window_nonneg(2) [OF inv(1), of "at c" ?k] assms(3)
    by (auto simp: next_entry_def window_step_def used_def split: option.splits)
  show "open_window (at c) (snd (do_call c l)) k =
      (if ?k = k then Some (window_step (window l) (at c) (open_window (at c) l k))
       else open_window (at c) l k)"
    unfolding do_call_def open_window_Allow [OF inv(2) ne order_refl]
    using e by (auto simp: Let_def split: prod.splits)
  show "fst (fst (do_call c l)) \<longleftrightarrow> used (at c) l ?k < lim_max l"
    unfolding do_call_def by (rule Allow_decision [OF inv(1) nw])
  show "run_ok K n (snd (do_call c l))" by (rule run_ok_step [OF assms(1) K(2-)])
  show "window (snd (do_call c l)) = window l" "lim_max (snd (do_call c l)) = lim_max l"
    by (simp_all add: do_call_def)
qed

text \<open>
  The in-memory limiter meets the contract as long as the bucket keys come from a set \<open>K\<close> that fits the map.
\<close>

lemma allowed_granted: "allowed k cs l = granted do_call bucket k cs l"
  by (induction cs arbitrary: l) simp_all

interpretation mw: window_limiter do_call at bucket open_window lim_max window
  "\<lambda>n l. run_ok K n l \<and> finite K \<and> [] \<notin> K \<and> 0 < window l" "\<lambda>c. bucket c \<in> K \<and> enumerates (order c)" for K
proof (unfold_locales, goal_cases)
  case (1 n s c k)
  then have "calls_ok K (at c) [c]" by (simp add: calls_ok_def)
  then show ?case using 1 by (intro run_step_window(1)) auto
next
  case (2 n s c)
  then have "calls_ok K (at c) [c]" by (simp add: calls_ok_def)
  then show ?case using 2 run_step_window(2) [of K n s "at c" c "[]"] by (simp add: used_def counted_def)
next
  case (3 n s c)
  then have "calls_ok K (at c) [c]" by (simp add: calls_ok_def)
  then show ?case using 3 run_step_window(3,4) [of K n s "at c" c "[]"] by simp
next
  case (4 n s c)
  then show ?case by (simp add: do_call_def)
next
  case (5 n s t k m r t')
  from open_window_later [OF 5(2,3)] show ?case .
next
  case (6 n s t k t')
  from open_window_None_later [OF 6(2,3)] show ?case .
next
  case (7 n s t k m r)
  then have "limiter_inv s" by (simp add: run_ok_def headroom_def)
  from open_window_nonneg(1) [OF this 7(2)] show ?case .
qed

text \<open>The call that the middleware makes with its readings, and the time of a call.\<close>

definition mem_call :: "range_order \<times> time \<times> time \<Rightarrow> string \<Rightarrow> call" where
  "mem_call e b = \<lparr>at = fst (snd e), until_at = snd (snd e), order = fst e, bucket = b\<rparr>"

definition call_at :: "call \<Rightarrow> time" where
  "call_at c = at c"

lemma mem_call_simps [simp]:
  "call_at (mem_call e b) = fst (snd e)" "bucket (mem_call e b) = b" "order (mem_call e b) = fst e"
  "do_call (mem_call e b) l = allow_at e b l"
  by (simp_all add: mem_call_def call_at_def do_call_def allow_at_def split: prod.splits)

lemma memory_sliding_bound:
  assumes "run_ok K (length cs) l" and "finite K" and "[] \<notin> K" and "0 < window l" and "0 \<le> lim_max l"
    and "sorted (t # map call_at cs)"
    and "\<forall>c \<in> set cs. bucket c \<in> K \<and> enumerates (order c) \<and> call_at c < t + window l"
  shows "granted do_call bucket k cs l \<le> 2 * lim_max l"
proof -
  have "call_at = at" by (simp add: call_at_def fun_eq_iff)
  then show ?thesis
    using assms by (intro mw.sliding_bound [where K = K and t = t]) auto
qed

lemma calls_ok_run:
  "calls_ok K t cs \<longleftrightarrow>
     sorted (t # map at cs) \<and> (\<forall>c \<in> set cs. bucket c \<in> K \<and> enumerates (order c)) \<and> finite K \<and> [] \<notin> K"
  by (simp add: calls_ok_def)

lemma headroom_run:
  assumes "headroom (length cs) l" and "\<forall>c \<in> set cs. bucket c \<noteq> [] \<and> enumerates (order c)"
  shows "headroom 0 (run_calls cs l) \<and> maxBuckets (run_calls cs l) = maxBuckets l"
  using assms
proof (induction cs arbitrary: l)
  case (Cons c cs)
  have "headroom (length cs) (snd (do_call c l))" using Cons.prems by (intro headroom_step) simp_all
  with Cons show ?case by (simp add: run_calls_def do_call_def)
qed (simp add: run_calls_def)

section \<open>Properties of the limiter\<close>

text \<open>
  C34: The in-memory limiter implements the fixed-window specification. A call is granted exactly when
  the number of requests in the window, this one included, is at most the limit; it advances the
  window of its own bucket by one step and leaves every other open window as it was. Purging
  expired buckets is invisible; the only exception is the eviction of a live bucket.
\<close>

theorem Allow_refines_window:
  assumes "limiter_inv l" and "no_wrap key l" and "0 < window l" and "\<not> evicts now key l"
  shows "(fst (fst (Allow rng now un key l)) \<longleftrightarrow>
      fst (window_step (window l) now (open_window now l key)) \<le> lim_max l) \<and>
    open_window now (snd (Allow rng now un key l)) =
      (open_window now l)(key \<mapsto> window_step (window l) now (open_window now l key))"
proof -
  have wf: "wf_alist (buckets l)" using assms(1) by (simp add: limiter_inv_def)
  have e: "next_entry now key l = (let (n, r) = window_step (window l) now (open_window now l key)
      in \<lparr>count = n, resetAt = r\<rparr>)" "now < resetAt (next_entry now key l)"
    using count_next_entry(1) [OF assms(1,2), of now] open_window_nonneg(2) [OF assms(1), of now key] assms(3)
    by (auto simp: next_entry_def window_step_def used_def split: option.splits)
  have "fst (fst (Allow rng now un key l)) \<longleftrightarrow>
      fst (window_step (window l) now (open_window now l key)) \<le> lim_max l"
    using Allow_decision [OF assms(1,2), of rng now un]
    by (auto simp: used_def window_step_def split: option.splits)
  moreover have "open_window now (snd (Allow rng now un key l)) =
      (open_window now l)(key \<mapsto> window_step (window l) now (open_window now l key))"
    using e by (auto simp: fun_eq_iff open_window_Allow [OF wf assms(4)] Let_def split: prod.splits)
  ultimately show ?thesis by blast
qed

theorem Allow_refines_window_witness:
  "fst (fst (Allow (\<lambda>m. m) 10 10 ''ip:a'' ((NewMemory 2 60)\<lparr>buckets := [(''ip:a'', \<lparr>count = 1, resetAt = 70\<rparr>)]\<rparr>)))"
  using Allow_refines_window [of "(NewMemory 2 60)\<lparr>buckets := [(''ip:a'', \<lparr>count = 1, resetAt = 70\<rparr>)]\<rparr>"
      "''ip:a''" 10 "\<lambda>m. m" 10]
  by (simp add: limiter_inv_def NewMemory_def no_wrap_def evicts_def open_window_def window_step_def)

text \<open>
  Bounded memory. Starting from \<open>NewMemory\<close>, after any sequence of fewer than \<open>2 ^ 63\<close> calls with
  non-empty keys and whatever the map enumeration order, the limiter holds at most \<open>maxBuckets\<close>
  buckets with distinct keys and counters that never went negative.
\<close>

theorem limiter_bounded:
  assumes "int (length cs) \<le> MaxInt64" and "\<forall>c \<in> set cs. bucket c \<noteq> [] \<and> enumerates (order c)"
  shows "limiter_inv (run_calls cs (NewMemory mx win)) \<and>
    length (buckets (run_calls cs (NewMemory mx win))) \<le> 10000"
proof -
  have "headroom (length cs) (NewMemory mx win)"
    using assms(1) by (simp add: headroom_def limiter_inv_def NewMemory_def)
  from headroom_run [OF this assms(2)] show ?thesis
    by (simp add: headroom_def limiter_inv_def NewMemory_def)
qed

theorem limiter_bounded_witness:
  "limiter_inv (run_calls [\<lparr>at = 1, until_at = 1, order = \<lambda>m. m, bucket = ''ip:a''\<rparr>] (NewMemory 1 60))"
  using limiter_bounded [of "[\<lparr>at = 1, until_at = 1, order = \<lambda>m. m, bucket = ''ip:a''\<rparr>]" 1 60]
  by (simp add: enumerates_def)

text \<open>
  \<open>evictOldest\<close> removes exactly one bucket, and one whose window ends no later than every other,
  whatever order the runtime enumerates the map in.
\<close>

theorem evictOldest_removes_soonest:
  assumes "limiter_inv l" and "enumerates rng" and "buckets l \<noteq> []"
  shows "\<exists>k e. map_of (buckets l) k = Some e \<and> (\<forall>(k', e') \<in> set (buckets l). resetAt e \<le> resetAt e') \<and>
    map_of (buckets (evictOldest rng l)) = (map_of (buckets l))(k := None) \<and>
    Suc (length (buckets (evictOldest rng l))) = length (buckets l)"
proof -
  obtain k e where ke: "(k, e) \<in> set (buckets l)" "\<forall>(k', e') \<in> set (buckets l). resetAt e \<le> resetAt e'"
    "buckets (evictOldest rng l) = AList.delete k (buckets l)"
    using evictOldest_spec [OF assms] by metis
  have wf: "wf_alist (buckets l)" using assms(1) by (simp add: limiter_inv_def)
  have "k \<in> fst ` set (buckets l)" using ke(1) by force
  with ke wf show ?thesis
    by (intro exI [of _ k] exI [of _ e]) (simp add: length_alist_delete)
qed

theorem evictOldest_removes_soonest_witness:
  "\<exists>k e. map_of [(''ip:a'', \<lparr>count = 1, resetAt = 70\<rparr>), (''ip:b'', \<lparr>count = 1, resetAt = 60\<rparr>)] k = Some e \<and>
     resetAt e \<le> 60"
  using evictOldest_removes_soonest [of "(NewMemory 2 60)\<lparr>buckets :=
      [(''ip:a'', \<lparr>count = 1, resetAt = 70\<rparr>), (''ip:b'', \<lparr>count = 1, resetAt = 60\<rparr>)]\<rparr>" rev]
  by (auto simp: limiter_inv_def NewMemory_def enumerates_def)

text \<open>
  Safety over a sliding interval. While the bucket keys in use fit the bucket map, in any interval
  of one window length at most twice the limit of requests for a key are granted, wherever the
  interval starts relative to the fixed windows.
\<close>

theorem Allow_sliding_window_bound:
  assumes "run_ok K (length cs) l" and "calls_ok K t cs" and "0 < window l" and "0 \<le> lim_max l"
    and "\<forall>c \<in> set cs. at c < t + window l"
  shows "allowed k cs l \<le> 2 * lim_max l"
  unfolding allowed_granted by (rule mw.sliding_bound [where K = K]) (use assms in \<open>auto simp: calls_ok_run\<close>)

theorem Allow_sliding_window_bound_witness:
  "allowed ''ip:a'' [\<lparr>at = 1, until_at = 1, order = \<lambda>m. m, bucket = ''ip:a''\<rparr>,
     \<lparr>at = 2, until_at = 2, order = \<lambda>m. m, bucket = ''ip:a''\<rparr>] (NewMemory 1 60) \<le> 2 * 1"
  using Allow_sliding_window_bound [of "{''ip:a''}" "[\<lparr>at = 1, until_at = 1, order = \<lambda>m. m, bucket = ''ip:a''\<rparr>,
     \<lparr>at = 2, until_at = 2, order = \<lambda>m. m, bucket = ''ip:a''\<rparr>]" "NewMemory 1 60" 1 "''ip:a''"]
  by (simp add: run_ok_def headroom_def limiter_inv_def NewMemory_def calls_ok_def enumerates_def)

text \<open>
  Exactness inside a window. Once a window with \<open>n\<close> counted requests is open, the requests for that
  key made before it ends are granted exactly until the budget \<open>lim_max\<close> is used up, independently
  of the requests for other keys interleaved with them.
\<close>

theorem Allow_window_exact:
  assumes "run_ok K (length cs) l" and "calls_ok K t cs" and "0 < window l"
    and "open_window t l k = Some (n, r)" and "\<forall>c \<in> set cs. at c < r"
  shows "allowed k cs l = min (int (length (filter (\<lambda>c. bucket c = k) cs))) (max 0 (lim_max l - n))"
  unfolding allowed_granted by (rule mw.in_window [where K = K]) (use assms in \<open>auto simp: calls_ok_run\<close>)

theorem Allow_window_exact_witness:
  "allowed ''ip:a'' [\<lparr>at = 1, until_at = 1, order = \<lambda>m. m, bucket = ''ip:a''\<rparr>,
     \<lparr>at = 2, until_at = 2, order = \<lambda>m. m, bucket = ''ip:b''\<rparr>,
     \<lparr>at = 3, until_at = 3, order = \<lambda>m. m, bucket = ''ip:a''\<rparr>]
     ((NewMemory 2 60)\<lparr>buckets := [(''ip:a'', \<lparr>count = 1, resetAt = 50\<rparr>)]\<rparr>) = 1"
  using Allow_window_exact [of "{''ip:a'', ''ip:b''}" "[\<lparr>at = 1, until_at = 1, order = \<lambda>m. m, bucket = ''ip:a''\<rparr>,
     \<lparr>at = 2, until_at = 2, order = \<lambda>m. m, bucket = ''ip:b''\<rparr>,
     \<lparr>at = 3, until_at = 3, order = \<lambda>m. m, bucket = ''ip:a''\<rparr>]"
     "(NewMemory 2 60)\<lparr>buckets := [(''ip:a'', \<lparr>count = 1, resetAt = 50\<rparr>)]\<rparr>" 1 "''ip:a''" 1 50]
  by (simp add: run_ok_def headroom_def limiter_inv_def NewMemory_def calls_ok_def enumerates_def open_window_def)

text \<open>
  The wait returned with a denial is honest: a request for the same key made at least that long
  after the denial's clock reading is granted, as long as the limit allows any request at all and
  the duration did not saturate.
\<close>

theorem Allow_retry_after_succeeds:
  assumes "Allow rng now un key l = ((False, d), l')" and "d < MaxInt64" and "1 \<le> lim_max l"
    and "un + d \<le> t"
  shows "fst (fst (Allow rng' t un' key l'))"
proof -
  have l': "l' = snd (Allow rng now un key l)" using assms(1) by simp
  have d: "d = saturate64 (resetAt (next_entry now key l) - un)"
    using assms(1) by (auto simp: Allow_alt Let_def split: if_splits)
  then have "resetAt (next_entry now key l) - un \<le> d"
    using assms(2) by (auto simp: saturate64_def)
  with assms(4) have "resetAt (next_entry now key l) \<le> t" by linarith
  then have "open_window t l' key = None" by (simp add: l' open_window_def)
  then have "count (next_entry t key l') = 1" by (simp add: next_entry_def)
  moreover have "lim_max l' = lim_max l" by (simp add: l')
  ultimately show ?thesis using assms(3) by (simp add: Allow_alt [of rng' t un' key l'] Let_def)
qed

theorem Allow_retry_after_succeeds_witness:
  "fst (fst (Allow rev 52 52 ''ip:a'' (snd (Allow (\<lambda>m. m) 10 12 ''ip:a''
     ((NewMemory 1 60)\<lparr>buckets := [(''ip:a'', \<lparr>count = 1, resetAt = 50\<rparr>)]\<rparr>)))))"
  using Allow_retry_after_succeeds [of "\<lambda>m. m" 10 12 "''ip:a''"
      "(NewMemory 1 60)\<lparr>buckets := [(''ip:a'', \<lparr>count = 1, resetAt = 50\<rparr>)]\<rparr>" 38
      "(NewMemory 1 60)\<lparr>buckets := [(''ip:a'', \<lparr>count = 2, resetAt = 50\<rparr>)]\<rparr>" 52 rev 52]
  by (simp add: Allow_def NewMemory_def is_int64_def)

text \<open>
  A burst of \<open>n\<close> requests for one key at one instant is granted exactly as often as the remaining
  budget allows, from any state that satisfies the invariant, eviction included.
\<close>

theorem Allow_burst:
  assumes "memory_ok (rng, now, un) k n l"
  shows "burst allow_at (rng, now, un) k n l = min (int n) (max 0 (lim_max l - used now l k))"
  using lw.burst_granted [OF assms] by simp

theorem Allow_burst_witness:
  "burst allow_at (\<lambda>m. m, 5, 5) ''key:7'' 3 (NewMemory 2 60) = 2"
  using Allow_burst [of "\<lambda>m. m" 5 5 "''key:7''" 3 "NewMemory 2 60"]
  by (simp add: memory_ok_def limiter_inv_def NewMemory_def enumerates_def used_def open_window_def)

end
