(* ===== verification/Middleware.thy ===== *)
theory Middleware
  imports Http Float64 Ratelimit
begin

text \<open>
  The middleware of \<^verbatim>\<open>internal/middleware\<close>. A middleware takes the next handler and gives a handler; the
  store, the limiters, the spawning of goroutines and the log are given as functions on the server's
  state, whose type is left open here.
\<close>

section \<open>Addresses of the standard library\<close>

text \<open>The host that \<^verbatim>\<open>net.SplitHostPort\<close> returns, or \<open>None\<close> for its errors.\<close>

definition SplitHost :: "string \<Rightarrow> string option" where
  "SplitHost hostport =
     (case LastIndexByte hostport (CHR '':'') of
        None \<Rightarrow> None
      | Some i \<Rightarrow>
          if hostport ! 0 = CHR ''['' then
            (case IndexByte hostport (CHR '']'') of
               None \<Rightarrow> None
             | Some e \<Rightarrow>
                 if e + 1 \<noteq> i then None
                 else if CHR ''['' \<in> set (drop 1 hostport) then None
                 else if CHR '']'' \<in> set (drop (e + 1) hostport) then None
                 else Some (take (e - 1) (drop 1 hostport)))
          else
            let host = take i hostport in
            if CHR '':'' \<in> set host then None
            else if CHR ''['' \<in> set hostport then None
            else if CHR '']'' \<in> set hostport then None
            else Some host)"

section \<open>Client addresses\<close>

definition clientIP :: "request \<Rightarrow> bool \<Rightarrow> string" where
  "clientIP r trustProxy =
     (let remote = (case SplitHost (RemoteAddr r) of Some host \<Rightarrow> host | None \<Rightarrow> RemoteAddr r);
          xff = Header_Get r ''X-Forwarded-For''
      in if trustProxy \<and> xff \<noteq> [] then
           let xff = (case LastIndexByte xff (CHR '','') of Some i \<Rightarrow> drop (i + 1) xff | None \<Rightarrow> xff);
               xff = TrimSpace xff
           in if xff \<noteq> [] then xff else remote
         else remote)"

section \<open>Cross-origin requests\<close>

text \<open>The options handed to the CORS library.\<close>

record cors_Options =
  AllowedOrigins :: "string list"
  AllowedMethods :: "string list"
  AllowedHeaders :: "string list"
  AllowCredentials :: bool
  MaxAge :: int

definition CORS_options :: "string list \<Rightarrow> cors_Options" where
  "CORS_options allowOrigins =
     \<lparr>AllowedOrigins = allowOrigins,
      AllowedMethods = [''GET'', ''POST'', ''PUT'', ''PATCH'', ''DELETE'', ''OPTIONS''],
      AllowedHeaders = [''Accept'', ''Authorization'', ''Content-Type'', ''X-API-Key''],
      AllowCredentials = False,
      MaxAge = 300\<rparr>"

text \<open>The key that authentication puts into the context of a request; the second result of the Go function is whether it is there.\<close>

definition APIKeyFromContext :: "request \<Rightarrow> ApiKey option" where
  [simp]: "APIKeyFromContext r = ctx_api_key r"

section \<open>Rate limiting\<close>

definition writeRateLimitError :: "duration \<Rightarrow> ResponseWriter \<Rightarrow> ResponseWriter" where
  "writeRateLimitError retryAfter w =
     (let secs = math_Ceil (Seconds retryAfter);
          secs = (if secs < 1 then 1 else secs);
          w = Header_Set ''Retry-After'' (FormatInt secs) w
      in response_Error 429 ''rate limit exceeded'' w)"

type_synonym 'st allow = "string \<Rightarrow> 'st \<Rightarrow> (bool \<times> duration) \<times> 'st"

definition RateLimit :: "'st allow \<Rightarrow> 'st allow \<Rightarrow> bool \<Rightarrow> 'st handler \<Rightarrow> 'st handler" where
  "RateLimit member partner trustProxy next r st w =
     (let limited = (\<lambda>allow bucket.
            (case allow bucket st of ((ok, retryAfter), st) \<Rightarrow>
               if \<not> ok then (Returned, st, writeRateLimitError retryAfter w) else next r st w))
      in case APIKeyFromContext r of
           None \<Rightarrow> limited member (''ip:'' @ clientIP r trustProxy)
         | Some key \<Rightarrow>
             if Rank key = ''admin'' then next r st w
             else limited (if Rank key = ''partner'' then partner else member) (''key:'' @ FormatInt (ID key)))"

definition RateLimitIP :: "'st allow \<Rightarrow> bool \<Rightarrow> 'st handler \<Rightarrow> 'st handler" where
  "RateLimitIP allow trustProxy next r st w =
     (case allow (''ip:'' @ clientIP r trustProxy) st of ((ok, retryAfter), st) \<Rightarrow>
        if \<not> ok then (Returned, st, writeRateLimitError retryAfter w) else next r st w)"

section \<open>Authentication and authorization\<close>

text \<open>
  \<open>lookup\<close> is \<^verbatim>\<open>store.GetByHash\<close>, \<open>spawn\<close> starts the goroutine \<^verbatim>\<open>touchAsync\<close> for an identity, \<open>now\<close> is the clock
  reading of the expiry check; \<^verbatim>\<open>subtle.ConstantTimeCompare\<close> compares for equality.
\<close>

definition Auth ::
  "('st \<Rightarrow> string \<Rightarrow> ApiKey result) \<Rightarrow> (int \<Rightarrow> 'st \<Rightarrow> 'st) \<Rightarrow> time \<Rightarrow> 'st handler \<Rightarrow> 'st handler" where
  "Auth lookup spawn now next r st w =
     (let key = Header_Get r ''X-Api-Key'' in
      if key = [] then
        (Returned, st, response_Error 401 ''missing api key'' (Header_Set ''Www-Authenticate'' ''ApiKey'' w))
      else
        let hash = Hash key in
        (case lookup st hash of
           Inl err \<Rightarrow> (Returned, st, response_Error 401 ''invalid api key'' w)
         | Inr rec \<Rightarrow>
             if KeyHash rec \<noteq> hash then (Returned, st, response_Error 401 ''invalid api key'' w)
             else if RevokedAt rec \<noteq> None \<or> (case ExpiresAt rec of None \<Rightarrow> False | Some t \<Rightarrow> \<not> now < t)
             then (Returned, st, response_Error 403 ''api key revoked or expired'' w)
             else next (r\<lparr>ctx_api_key := Some rec\<rparr>) (spawn (ID rec) st) w))"

text \<open>\<^verbatim>\<open>touchAsync\<close> on the store; a failure is only logged.\<close>

definition touchAsync :: "'s key_repo \<Rightarrow> time \<Rightarrow> int \<Rightarrow> 's \<Rightarrow> 's" where
  "touchAsync repo now i s = snd (repo_Touch repo now i s)"

definition hasScope :: "string list \<Rightarrow> string \<Rightarrow> bool" where
  "hasScope scopes required =
     (if length scopes = 0 then False else list_ex (\<lambda>s. s = required) scopes)"

definition RequireScope :: "string \<Rightarrow> 'st handler \<Rightarrow> 'st handler" where
  "RequireScope scope next r st w =
     (case APIKeyFromContext r of
        None \<Rightarrow> (Returned, st, response_Error 401 ''missing api key'' w)
      | Some key \<Rightarrow>
          if \<not> hasScope (Scopes key) scope then (Returned, st, response_Error 403 ''insufficient scope'' w)
          else next r st w)"

section \<open>Headers, recovery and logging\<close>

definition SecurityHeaders :: "'st handler \<Rightarrow> 'st handler" where
  "SecurityHeaders next r st w =
     (let w = Header_Set ''X-Content-Type-Options'' ''nosniff'' w;
          w = Header_Set ''X-Frame-Options'' ''DENY'' w;
          w = Header_Set ''Referrer-Policy'' ''no-referrer'' w;
          w = Header_Set ''Permissions-Policy'' ''camera=(), microphone=(), geolocation=()'' w;
          w = Header_Set ''Cache-Control'' ''no-store'' w
      in next r st w)"

datatype log_entry =
    LogRequest string string int \<comment> \<open>method, redacted path, status\<close>
  | LogPanic string \<comment> \<open>path\<close>

definition Recover :: "(log_entry \<Rightarrow> 'st \<Rightarrow> 'st) \<Rightarrow> 'st handler \<Rightarrow> 'st handler" where
  "Recover logger next r st w =
     (case next r st w of
        (Panicked, st, w) \<Rightarrow> (Returned, logger (LogPanic (URL_Path r)) st, response_Error 500 ''internal server error'' w)
      | (Returned, st, w) \<Rightarrow> (Returned, st, w))"

definition sensitivePathPrefixes :: "string list" where
  "sensitivePathPrefixes = [''/tw/'']"

definition redactPath :: "string \<Rightarrow> string" where
  "redactPath p =
     (case find (\<lambda>prefix. HasPrefix p prefix \<and> length p > length prefix) sensitivePathPrefixes of
        Some prefix \<Rightarrow> prefix @ ''***''
      | None \<Rightarrow> p)"

text \<open>The status the wrapped writer reports is 0 when nothing was written.\<close>

definition Logging :: "(log_entry \<Rightarrow> 'st \<Rightarrow> 'st) \<Rightarrow> 'st handler \<Rightarrow> 'st handler" where
  "Logging logger next r st w =
     (case next r st w of
        (Panicked, st, w) \<Rightarrow> (Panicked, st, w)
      | (Returned, st, w) \<Rightarrow>
          (Returned,
           logger (LogRequest (Method r) (redactPath (URL_Path r)) (case status_of w of Some st \<Rightarrow> st | None \<Rightarrow> 0)) st, w))"

section \<open>Client addresses cannot be forged\<close>

text \<open>
  Without a trusted proxy the rate-limit address is a function of the connection alone: no header can
  change it. Behind a trusted proxy the address is the last entry of the forwarding header line, so
  whatever a client puts in front of the entry the proxy appends (commas included) has no effect.
\<close>

theorem clientIP_unforgeable:
  assumes "map_of (Header r) ''X-Forwarded-For'' = Some [forged @ '','' @ hop]" and "CHR '','' \<notin> set hop"
    and "TrimSpace hop \<noteq> []"
  shows "clientIP r True = TrimSpace hop \<and> clientIP (r\<lparr>Header := hs\<rparr>) False = clientIP r False"
proof -
  have "Header_Get r ''X-Forwarded-For'' = forged @ CHR '','' # hop" using assms(1) by (simp add: Header_Get_def)
  then show ?thesis using assms(2,3) by (simp add: clientIP_def Let_def split: option.splits)
qed

definition sample_forwarded :: request where
  "sample_forwarded = sample_get\<lparr>Header := [(''X-Forwarded-For'', [''6.6.6.6, 10.0.0.1''])], RemoteAddr := ''9.9.9.9:4711''\<rparr>"

lemma sample_hop: "TrimSpace '' 10.0.0.1'' = ''10.0.0.1''"
  by code_simp

theorem clientIP_unforgeable_witness:
  "clientIP sample_forwarded True = ''10.0.0.1'' \<and> clientIP (sample_forwarded\<lparr>Header := []\<rparr>) False = clientIP sample_forwarded False"
proof -
  have "map_of (Header sample_forwarded) ''X-Forwarded-For'' = Some [''6.6.6.6'' @ '','' @ '' 10.0.0.1'']"
    by (simp add: sample_forwarded_def)
  from clientIP_unforgeable [OF this, of "[]"] show ?thesis using sample_hop by simp
qed

text \<open>
  The header may arrive on several lines. \<^verbatim>\<open>Header.Get\<close> reads the first one only, so a proxy that appends
  its entry as a further line leaves the address in the hands of the client.

  Behind a trusted proxy the address comes from the first forwarding header line, whatever the lines after
  it say: with a first line of one entry, that entry is the address.
\<close>

theorem clientIP_first_line_wins:
  assumes "map_of (Header r) ''X-Forwarded-For'' = Some (forged # appended)" and "CHR '','' \<notin> set forged"
    and "TrimSpace forged \<noteq> []"
  shows "clientIP r True = TrimSpace forged"
proof -
  have "TrimSpace [] = []" by code_simp
  then have "forged \<noteq> []" using assms(3) by auto
  then show ?thesis using assms by (simp add: clientIP_def Header_Get_def Let_def)
qed

theorem clientIP_first_line_wins_witness:
  "clientIP (sample_forwarded\<lparr>Header := [(''X-Forwarded-For'', [''6.6.6.6'', ''10.0.0.1''])]\<rparr>) True = ''6.6.6.6''"
proof -
  have "TrimSpace ''6.6.6.6'' = ''6.6.6.6''" by code_simp
  then show ?thesis
    using clientIP_first_line_wins [of "sample_forwarded\<lparr>Header := [(''X-Forwarded-For'', [''6.6.6.6'', ''10.0.0.1''])]\<rparr>"
      "''6.6.6.6''" "[''10.0.0.1'']"] by simp
qed

section \<open>The advertised waiting time\<close>

lemma Retry_After_header:
  assumes "W_Wrote w = None"
  shows "\<exists>st hs. W_Wrote (writeRateLimitError d w) = Some (429, hs) \<and>
    map_of hs ''Retry-After'' = Some (FormatInt (max 1 (math_Ceil (Seconds d))))"
  using assms by (simp add: writeRateLimitError_def Let_def) (simp add: Header_Set_def)

text \<open>
  The \<^verbatim>\<open>Retry-After\<close> header of a 429 reply is the waiting time rounded up to whole seconds, at least one,
  in spite of the floating-point conversion: waiting that long is always enough, and one second less is
  not (for waiting times below 2^22 seconds, about 48 days).
\<close>

theorem Retry_After_exact:
  assumes "W_Wrote w = None" and "0 < d" and "d < 2 ^ 22 * 1000000000"
  shows "\<exists>n hs. W_Wrote (writeRateLimitError d w) = Some (429, hs) \<and> map_of hs ''Retry-After'' = Some (FormatInt n) \<and>
    1 \<le> n \<and> d \<le> n * 1000000000 \<and> (n - 1) * 1000000000 < d"
proof (cases "d mod 1000000000 = 0")
  case True
  then have "1 \<le> d div 1000000000" using assms(2) by (auto simp: zmod_eq_0_iff)
  then show ?thesis
    using Retry_After_header [OF assms(1), of d] Seconds_whole [of d] True assms(2,3)
    by (intro exI [of _ "d div 1000000000"]) (auto simp: zmod_eq_0_iff)
next
  case False
  define q where "q = d div 1000000000"
  have "d = q * 1000000000 + d mod 1000000000" by (simp add: q_def)
  moreover have "0 < d mod 1000000000" "d mod 1000000000 < 1000000000"
    using False pos_mod_bound [of 1000000000 d] pos_mod_sign [of 1000000000 d] by linarith+
  ultimately have "d \<le> (q + 1) * 1000000000" "(q + 1 - 1) * 1000000000 < d" by simp_all
  moreover have "1 \<le> q + 1" using assms(2) by (simp add: q_def)
  moreover have "math_Ceil (Seconds d) = q + 1" using Seconds_part [of d] False assms(2,3) by (simp add: q_def)
  ultimately show ?thesis
    using Retry_After_header [OF assms(1), of d] by (intro exI [of _ "q + 1"]) auto
qed

theorem Retry_After_exact_witness:
  "\<exists>n hs. W_Wrote (writeRateLimitError 1500000000 new_writer) = Some (429, hs) \<and>
     map_of hs ''Retry-After'' = Some (FormatInt n) \<and> 1500000000 \<le> n * 1000000000 \<and> (n - 1) * 1000000000 < 1500000000"
  using Retry_After_exact [of new_writer 1500000000] by auto

section \<open>Logs and buckets\<close>

lemma hasScope_iff: "hasScope scopes required \<longleftrightarrow> required \<in> set scopes"
  by (auto simp: hasScope_def list_ex_iff)

text \<open>
  The request log never holds a phone number or a gift code: every path below \<^verbatim>\<open>/tw/\<close> is logged as the same
  constant text, so two requests that differ only in what they carry in the path leave the same log entry.
\<close>

theorem Logging_hides_secrets:
  assumes "HasPrefix (URL_Path r) ''/tw/''" and "HasPrefix p' ''/tw/''" and "URL_Path r \<noteq> ''/tw/''" and "p' \<noteq> ''/tw/''"
    and "next r st w = (Returned, st1, w1)" and "next (r\<lparr>URL_Path := p'\<rparr>) st w = (Returned, st1, w1)"
  shows "Logging logger next r st w = Logging logger next (r\<lparr>URL_Path := p'\<rparr>) st w \<and>
    redactPath (URL_Path r) = ''/tw/***''"
proof -
  have "redactPath p = ''/tw/***''" if hp: "HasPrefix p ''/tw/''" and ne: "p \<noteq> ''/tw/''" for p
  proof -
    obtain q where "p = ''/tw/'' @ q" using hp unfolding HasPrefix_iff by blast
    with hp ne show ?thesis by (simp add: redactPath_def sensitivePathPrefixes_def)
  qed
  then show ?thesis using assms by (simp add: Logging_def)
qed

theorem Logging_hides_secrets_witness:
  "Logging (#) (\<lambda>r st w. (Returned, st, w)) sample_get [] new_writer =
   Logging (#) (\<lambda>r st w. (Returned, st, w)) (sample_get\<lparr>URL_Path := ''/tw/0899999999/secret''\<rparr>) [] new_writer"
  using Logging_hides_secrets [of sample_get "''/tw/0899999999/secret''" "\<lambda>r st w. (Returned, st, w)" "[]" new_writer "[]" new_writer "(#)"]
  by (simp add: sample_get_def HasPrefix_def)

text \<open>The entry of a recovered panic holds the path as it is.\<close>

lemma Recover_logs_raw_path:
  assumes "next r st w = (Panicked, st1, w1)"
  shows "fst (snd (Recover logger next r st w)) = logger (LogPanic (URL_Path r)) st1"
  using assms by (simp add: Recover_def)

definition key_bucket :: "ApiKey \<Rightarrow> string" where
  "key_bucket key = ''key:'' @ FormatInt (ID key)"

lemma buckets_separate:
  "key_bucket k = key_bucket k' \<longleftrightarrow> ID k = ID k'" "key_bucket k \<noteq> ''ip:'' @ a"
  by (auto simp: key_bucket_def)

end
