(* ===== verification/Config.thy ===== *)
theory Config
  imports Model Ratelimit
begin

text \<open>
  The configuration of \<^verbatim>\<open>internal/config/config.go\<close>. Reading the environment is done by a library: the
  record it fills in, or its error, is the argument of \<open>Load\<close>.
\<close>

record Config =
  Addr :: string
  Env :: string
  DatabaseURL :: string
  AllowOrigins :: "string list"
  ReadTimeout :: duration
  WriteTimeout :: duration
  IdleTimeout :: duration
  ShutdownTimeout :: duration
  TrueMoneyBaseURL :: string
  TrueMoneyTimeout :: duration
  BootstrapAPIKey :: string
  RateLimitEnabled :: bool
  RateLimitMemberMax :: int
  RateLimitPartnerMax :: int
  RateLimitWindow :: duration
  RateLimitIPEnabled :: bool
  RateLimitIPMax :: int
  RateLimitIPWindow :: duration
  TrustProxyHeaders :: bool
  RedisURL :: string

definition require_max :: "string \<Rightarrow> int \<Rightarrow> bool \<Rightarrow> go_error option" where
  "require_max name limit enabled =
     (if enabled \<and> limit < 1 then Some (OtherError (Msg (''config: '' @ name @ '' must be at least 1 when enabled'')))
      else None)"

definition validate :: "Config \<Rightarrow> go_error option" where
  "validate c =
     (case require_max ''RATE_LIMIT_MEMBER_MAX'' (RateLimitMemberMax c) (RateLimitEnabled c) of
        Some err \<Rightarrow> Some err
      | None \<Rightarrow>
     (case require_max ''RATE_LIMIT_PARTNER_MAX'' (RateLimitPartnerMax c) (RateLimitEnabled c) of
        Some err \<Rightarrow> Some err
      | None \<Rightarrow>
     (case require_max ''RATE_LIMIT_IP_MAX'' (RateLimitIPMax c) (RateLimitIPEnabled c) of
        Some err \<Rightarrow> Some err
      | None \<Rightarrow>
        if RateLimitEnabled c \<and> RateLimitWindow c \<le> 0
        then Some (OtherError (Msg ''config: RATE_LIMIT_WINDOW must be positive when rate limiting is enabled''))
        else if RateLimitIPEnabled c \<and> RateLimitIPWindow c \<le> 0
        then Some (OtherError (Msg ''config: RATE_LIMIT_IP_WINDOW must be positive when IP rate limiting is enabled''))
        else if Env c = ''production'' \<and> BootstrapAPIKey c = []
        then Some (OtherError (Msg ''config: BOOTSTRAP_API_KEY is required when APP_ENV=production (a silently generated key would be impossible to recover)''))
        else None)))"

definition Load :: "Config result \<Rightarrow> Config result" where
  "Load parsed =
     (case parsed of
        Inl err \<Rightarrow> Inl (Errorf ''parse env'' err)
      | Inr cfg \<Rightarrow> (case validate cfg of Some err \<Rightarrow> Inl err | None \<Rightarrow> Inr cfg))"

lemma validate_None_iff:
  "validate c = None \<longleftrightarrow>
     (RateLimitEnabled c \<longrightarrow> 1 \<le> RateLimitMemberMax c \<and> 1 \<le> RateLimitPartnerMax c \<and> 0 < RateLimitWindow c) \<and>
     (RateLimitIPEnabled c \<longrightarrow> 1 \<le> RateLimitIPMax c \<and> 0 < RateLimitIPWindow c) \<and>
     (Env c = ''production'' \<longrightarrow> BootstrapAPIKey c \<noteq> [])"
  by (auto simp: validate_def require_max_def split: option.splits)

text \<open>What validation gives the limiters: a limit of at least one grants, a smaller one never would.\<close>

lemma loaded_config_admits:
  assumes "Load parsed = Inr cfg"
  shows "(RateLimitEnabled cfg \<longrightarrow>
      fst (fst (Allow rng now un k (NewMemory (RateLimitMemberMax cfg) (RateLimitWindow cfg)))) \<and>
      fst (fst (Allow rng now un k (NewMemory (RateLimitPartnerMax cfg) (RateLimitWindow cfg))))) \<and>
    (RateLimitIPEnabled cfg \<longrightarrow>
      fst (fst (Allow rng now un k (NewMemory (RateLimitIPMax cfg) (RateLimitIPWindow cfg))))) \<and>
    (Env cfg = ''production'' \<longrightarrow> BootstrapAPIKey cfg \<noteq> []) \<and>
    (m < 1 \<longrightarrow> \<not> fst (fst (Allow rng now un k (NewMemory m win))))"
proof -
  have valid: "validate cfg = None" using assms by (auto simp: Load_def split: sum.splits option.splits)
  have inv: "limiter_inv (NewMemory m win)" "no_wrap k (NewMemory m win)" for m win
    by (simp_all add: limiter_inv_def no_wrap_def NewMemory_def)
  have "fst (fst (Allow rng now un k (NewMemory m win))) \<longleftrightarrow> used now (NewMemory m win) k < m" for m win
    using Allow_decision [OF inv] by (simp add: NewMemory_def)
  moreover have "used now (NewMemory m win) k = 0" for m win
    by (simp add: used_def open_window_def NewMemory_def)
  ultimately have "fst (fst (Allow rng now un k (NewMemory m win))) \<longleftrightarrow> 0 < m" for m win by simp
  then show ?thesis using valid by (auto simp: validate_None_iff)
qed

definition default_config :: Config where
  "default_config = \<lparr>Addr = '':8080'', Env = ''development'', DatabaseURL = [], AllowOrigins = [],
     ReadTimeout = 15000000000, WriteTimeout = 35000000000, IdleTimeout = 60000000000, ShutdownTimeout = 10000000000,
     TrueMoneyBaseURL = ''https://gift.truemoney.com'', TrueMoneyTimeout = 30000000000, BootstrapAPIKey = [],
     RateLimitEnabled = True, RateLimitMemberMax = 60, RateLimitPartnerMax = 1000, RateLimitWindow = 60000000000,
     RateLimitIPEnabled = True, RateLimitIPMax = 1000, RateLimitIPWindow = 60000000000,
     TrustProxyHeaders = False, RedisURL = []\<rparr>"

end
