(* ===== verification/Server.thy ===== *)
theory Server
  imports Middleware Config
begin

text \<open>
  The composition of the server in \<^verbatim>\<open>internal/server/router.go\<close>: the state of all components as one record, the
  middleware chains of the three route groups in the order the router mounts them (a request that no route of its group
  takes passes them too, and gets a 404 or 405), and the runs of the
  system as a step relation whose steps are served requests and usage recordings. The router's match of a
  request (\<open>route\<close>), the CORS and timeout middleware of its library, the backends and the readings of
  clocks and random source are arguments.
\<close>

section \<open>State and environment\<close>

record ('k, 't, 'u, 'l) world =
  w_keys :: 'k
  w_stats :: 't
  w_net :: 'u
  w_member :: 'l
  w_partner :: 'l
  w_ip :: 'l
  w_pending :: "int list" \<comment> \<open>started \<^verbatim>\<open>touchAsync\<close> goroutines that have not run yet\<close>
  w_log :: "log_entry list"

record ('k, 't, 'u, 'l, 'e) deps =
  dep_keys :: "'k key_repo"
  dep_stats :: "'t stats_repo"
  dep_allow :: "'e \<Rightarrow> string \<Rightarrow> 'l \<Rightarrow> (bool \<times> duration) \<times> 'l"
  dep_net :: "'u upstream"
  dep_decode_key :: "CreateApiKeyInput decoder"
  dep_decode_tw :: "TwRedeemRequest decoder"
  dep_cors :: "cors_Options \<Rightarrow> request \<Rightarrow> ResponseWriter \<Rightarrow> bool \<times> ResponseWriter" \<comment> \<open>false: a preflight, answered\<close>
  dep_timeout :: "duration \<Rightarrow> ResponseWriter \<Rightarrow> ResponseWriter" \<comment> \<open>what the timeout middleware does after the handler\<close>

text \<open>The readings of one request: two limiter calls, the authentication and the service.\<close>

record 'e moment =
  m_ip :: 'e
  m_auth :: time
  m_key :: 'e
  m_readings :: readings

text \<open>
  What the router makes of a request: one of the endpoints, or none. A request for a path below one of the groups
  reaches the router of that group, and so its middleware, even when no endpoint matches; the flag tells whether the
  path is known with another method (405) or not at all (404).
\<close>

datatype group = TwGroup | KeysGroup | StatsGroup

datatype route = TwGet | TwPost | KeysCreate | KeysList | KeysRevoke | KeysRotate | StatsGet | NoRoute "group option" bool

fun route_group :: "route \<Rightarrow> group option" where
  "route_group TwGet = Some TwGroup"
| "route_group TwPost = Some TwGroup"
| "route_group KeysCreate = Some KeysGroup"
| "route_group KeysList = Some KeysGroup"
| "route_group KeysRevoke = Some KeysGroup"
| "route_group KeysRotate = Some KeysGroup"
| "route_group StatsGet = Some StatsGroup"
| "route_group (NoRoute g na) = g"

definition authenticated_route :: "route \<Rightarrow> bool" where
  "authenticated_route rt \<longleftrightarrow> route_group rt \<in> {Some TwGroup, Some KeysGroup}"

definition behind_limit :: "route \<Rightarrow> bool" where
  "behind_limit rt \<longleftrightarrow> route_group rt \<noteq> None"

lemma authenticated_behind [simp]: "authenticated_route rt \<Longrightarrow> behind_limit rt"
  by (auto simp: authenticated_route_def behind_limit_def)

section \<open>The router\<close>

definition on_keys :: "'k handler \<Rightarrow> ('k, 't, 'u, 'l) world handler" where
  "on_keys h r st w = (case h r (w_keys st) w of (f, k, w) \<Rightarrow> (f, st\<lparr>w_keys := k\<rparr>, w))"

definition on_stats :: "'t handler \<Rightarrow> ('k, 't, 'u, 'l) world handler" where
  "on_stats h r st w = (case h r (w_stats st) w of (f, t, w) \<Rightarrow> (f, st\<lparr>w_stats := t\<rparr>, w))"

text \<open>
  \<^verbatim>\<open>service.NewTwService(service.NewCoalescedTwProvider(tmClient), statsStore, logger)\<close>; a request served alone is a
  flight of its own.
\<close>

definition tw_service ::
  "('k, 't, 'u, 'l, 'e) deps \<Rightarrow> Config \<Rightarrow> ('k, 't, 'u, 'l) world twRedeem" where
  "tw_service d cfg req st =
     (let tmClient = NewClient (TrueMoneyBaseURL cfg) (TrueMoneyTimeout cfg);
          provider = (\<lambda>req u. (case Coalesced_Redeem (Client_Redeem tmClient (dep_net d))
                                      \<lparr>leader = req, followers = []\<rparr> u of (rs, u) \<Rightarrow> (hd rs, u)))
      in case TwService_Redeem (ipv6_literal (dep_net d)) provider (Some (dep_stats d)) req (w_net st, w_stats st) of
           (res, u, t) \<Rightarrow> (res, st\<lparr>w_net := u, w_stats := t\<rparr>))"

definition allow_ip :: "('k, 't, 'u, 'l, 'e) deps \<Rightarrow> 'e \<Rightarrow> ('k, 't, 'u, 'l) world allow" where
  "allow_ip d e b st = (case dep_allow d e b (w_ip st) of (a, l) \<Rightarrow> (a, st\<lparr>w_ip := l\<rparr>))"

definition allow_member :: "('k, 't, 'u, 'l, 'e) deps \<Rightarrow> 'e \<Rightarrow> ('k, 't, 'u, 'l) world allow" where
  "allow_member d e b st = (case dep_allow d e b (w_member st) of (a, l) \<Rightarrow> (a, st\<lparr>w_member := l\<rparr>))"

definition allow_partner :: "('k, 't, 'u, 'l, 'e) deps \<Rightarrow> 'e \<Rightarrow> ('k, 't, 'u, 'l) world allow" where
  "allow_partner d e b st = (case dep_allow d e b (w_partner st) of (a, l) \<Rightarrow> (a, st\<lparr>w_partner := l\<rparr>))"

definition ip_limited ::
  "('k, 't, 'u, 'l, 'e) deps \<Rightarrow> Config \<Rightarrow> 'e moment \<Rightarrow> ('k, 't, 'u, 'l) world handler \<Rightarrow> ('k, 't, 'u, 'l) world handler" where
  "ip_limited d cfg m next =
     (if RateLimitIPEnabled cfg then RateLimitIP (allow_ip d (m_ip m)) (TrustProxyHeaders cfg) next else next)"

definition key_limited ::
  "('k, 't, 'u, 'l, 'e) deps \<Rightarrow> Config \<Rightarrow> 'e moment \<Rightarrow> ('k, 't, 'u, 'l) world handler \<Rightarrow> ('k, 't, 'u, 'l) world handler" where
  "key_limited d cfg m next =
     (if RateLimitEnabled cfg
      then RateLimit (allow_member d (m_key m)) (allow_partner d (m_key m)) (TrustProxyHeaders cfg) next else next)"

definition authenticated ::
  "('k, 't, 'u, 'l, 'e) deps \<Rightarrow> 'e moment \<Rightarrow> ('k, 't, 'u, 'l) world handler \<Rightarrow> ('k, 't, 'u, 'l) world handler" where
  "authenticated d m next =
     Auth (\<lambda>st h. repo_GetByHash (dep_keys d) h (w_keys st)) (\<lambda>i st. st\<lparr>w_pending := w_pending st @ [i]\<rparr>) (m_auth m) next"

definition guarded ::
  "('k, 't, 'u, 'l, 'e) deps \<Rightarrow> Config \<Rightarrow> 'e moment \<Rightarrow> ('k, 't, 'u, 'l) world handler \<Rightarrow> ('k, 't, 'u, 'l) world handler" where
  "guarded d cfg m next = ip_limited d cfg m (authenticated d m (key_limited d cfg m next))"

text \<open>The router's own answer, of which only the status is kept.\<close>

definition no_route :: "bool \<Rightarrow> 'st handler" where
  "no_route na r st w = (Returned, st, WriteHeader (if na then 405 else 404) w)"

definition route_handler ::
  "('k, 't, 'u, 'l, 'e) deps \<Rightarrow> Config \<Rightarrow> 'e moment \<Rightarrow> route \<Rightarrow> ('k, 't, 'u, 'l) world handler" where
  "route_handler d cfg m rt =
     (let tw = guarded d cfg m;
          keys = (\<lambda>h. guarded d cfg m (RequireScope ''admin'' h));
          stats = ip_limited d cfg m
      in case rt of
           TwGet \<Rightarrow> tw (RedeemGet (tw_service d cfg))
         | TwPost \<Rightarrow> tw (RedeemPost (dep_decode_tw d) (tw_service d cfg))
         | KeysCreate \<Rightarrow> keys (on_keys (KeyHandler_Create (dep_decode_key d) (dep_keys d) (m_readings m)))
         | KeysList \<Rightarrow> keys (on_keys (KeyHandler_List (dep_keys d)))
         | KeysRevoke \<Rightarrow> keys (on_keys (KeyHandler_Revoke (dep_keys d) (revoked_at (m_readings m))))
         | KeysRotate \<Rightarrow> keys (on_keys (KeyHandler_Rotate (dep_keys d) (m_readings m)))
         | StatsGet \<Rightarrow> stats (on_stats (StatsHandler_Stats (dep_stats d)))
         | NoRoute (Some TwGroup) na \<Rightarrow> tw (no_route na)
         | NoRoute (Some KeysGroup) na \<Rightarrow> keys (no_route na)
         | NoRoute (Some StatsGroup) na \<Rightarrow> stats (no_route na)
         | NoRoute None na \<Rightarrow> no_route na)"

definition logger :: "log_entry \<Rightarrow> ('k, 't, 'u, 'l) world \<Rightarrow> ('k, 't, 'u, 'l) world" where
  "logger e st = st\<lparr>w_log := w_log st @ [e]\<rparr>"

abbreviation cors :: "('k, 't, 'u, 'l, 'e) deps \<Rightarrow> Config \<Rightarrow> request \<Rightarrow> ResponseWriter \<Rightarrow> bool \<times> ResponseWriter" where
  "cors d cfg \<equiv> dep_cors d (CORS_options (AllowOrigins cfg))"

definition CORS :: "('k, 't, 'u, 'l, 'e) deps \<Rightarrow> string list \<Rightarrow> ('k, 't, 'u, 'l) world handler \<Rightarrow> ('k, 't, 'u, 'l) world handler" where
  "CORS d allowOrigins next r st w =
     (case dep_cors d (CORS_options allowOrigins) r w of (go, w) \<Rightarrow> if go then next r st w else (Returned, st, w))"

definition Timeout :: "('k, 't, 'u, 'l, 'e) deps \<Rightarrow> duration \<Rightarrow> ('k, 't, 'u, 'l) world handler \<Rightarrow> ('k, 't, 'u, 'l) world handler" where
  "Timeout d timeout next r st w = (case next r st w of (f, st, w) \<Rightarrow> (f, st, dep_timeout d timeout w))"

definition serve ::
  "('k, 't, 'u, 'l, 'e) deps \<Rightarrow> Config \<Rightarrow> 'e moment \<Rightarrow> route \<Rightarrow> ('k, 't, 'u, 'l) world handler" where
  "serve d cfg m rt =
     Logging logger (Recover logger (CORS d (AllowOrigins cfg) (SecurityHeaders
       (Timeout d (WriteTimeout cfg) (route_handler d cfg m rt)))))"

text \<open>The start of the router: empty limiters, and the bootstrap of the key store, whose failure is only logged.\<close>

definition boot ::
  "('k, 't, 'u, 'l, 'e) deps \<Rightarrow> Config \<Rightarrow> readings \<Rightarrow> ('k, 't, 'u, 'l) world \<Rightarrow> ('k, 't, 'u, 'l) world" where
  "boot d cfg rd st = st\<lparr>w_keys := snd (Bootstrap (dep_keys d) rd (BootstrapAPIKey cfg) (w_keys st))\<rparr>"

section \<open>Runs\<close>

text \<open>
  The key uses a request amounts to: the identity of the key it is admitted with, if it asks for a path of a group
  that authenticates, is not a preflight, and its client address is within the limit.
\<close>

definition admitted_ids :: "('k, 't, 'u, 'l, 'e) deps \<Rightarrow> 'e moment \<Rightarrow> ('k, 't, 'u, 'l) world \<Rightarrow> request \<Rightarrow> int list" where
  "admitted_ids d m st r =
     (let key = Header_Get r ''X-Api-Key'' in
      if key = [] then []
      else
        (case repo_GetByHash (dep_keys d) (Hash key) (w_keys st) of
           Inl e \<Rightarrow> []
         | Inr k \<Rightarrow>
             if KeyHash k = Hash key \<and> RevokedAt k = None \<and> (case ExpiresAt k of None \<Rightarrow> True | Some t \<Rightarrow> m_auth m < t)
             then [ID k] else []))"

definition key_uses ::
  "('k, 't, 'u, 'l, 'e) deps \<Rightarrow> Config \<Rightarrow> 'e moment \<Rightarrow> route \<Rightarrow> request \<Rightarrow> ('k, 't, 'u, 'l) world \<Rightarrow> int list" where
  "key_uses d cfg m rt r st =
     (if fst (cors d cfg r new_writer) \<and> authenticated_route rt \<and>
         (RateLimitIPEnabled cfg \<longrightarrow> fst (fst (allow_ip d (m_ip m) (''ip:'' @ clientIP r (TrustProxyHeaders cfg)) st)))
      then admitted_ids d m st r else [])"

text \<open>
  The system: requests are served (each handler runs as one step; the stores and limiters serialise their
  own operations), and started usage recorders run at any later time, in any order. A step is labelled with
  the key uses of its request.
\<close>

inductive step ::
  "('k, 't, 'u, 'l, 'e) deps \<Rightarrow> Config \<Rightarrow> ('k, 't, 'u, 'l) world \<Rightarrow> int list \<Rightarrow> ('k, 't, 'u, 'l) world \<Rightarrow> bool"
  for d :: "('k, 't, 'u, 'l, 'e) deps" and cfg :: Config where
  step_serve: "serve d cfg m rt r st new_writer = (f, st', w') \<Longrightarrow> ctx_api_key r = None \<Longrightarrow>
     step d cfg st (key_uses d cfg m rt r st) st'"
| step_touch: "w_pending st = before @ i # after \<Longrightarrow>
     step d cfg st [] (st\<lparr>w_keys := touchAsync (dep_keys d) now i (w_keys st), w_pending := before @ after\<rparr>)"

inductive run ::
  "('k, 't, 'u, 'l, 'e) deps \<Rightarrow> Config \<Rightarrow> nat \<Rightarrow> ('k, 't, 'u, 'l) world \<Rightarrow> int list \<Rightarrow> ('k, 't, 'u, 'l) world \<Rightarrow> bool"
  for d :: "('k, 't, 'u, 'l, 'e) deps" and cfg :: Config where
  run_refl: "run d cfg 0 st [] st"
| run_step: "run d cfg n st is st' \<Longrightarrow> step d cfg st' js st'' \<Longrightarrow> run d cfg (Suc n) st (is @ js) st''"

inductive_cases step_cases: "step d cfg st is st'"

section \<open>What a request can touch\<close>

text \<open>The key that authentication admits a request with.\<close>

definition admits :: "('k, 't, 'u, 'l, 'e) deps \<Rightarrow> 'e moment \<Rightarrow> ('k, 't, 'u, 'l) world \<Rightarrow> request \<Rightarrow> ApiKey \<Rightarrow> bool" where
  "admits d m st r k \<longleftrightarrow>
     Header_Get r ''X-Api-Key'' \<noteq> [] \<and>
     repo_GetByHash (dep_keys d) (Hash (Header_Get r ''X-Api-Key'')) (w_keys st) = Inr k \<and>
     KeyHash k = Hash (Header_Get r ''X-Api-Key'') \<and> RevokedAt k = None \<and>
     (\<forall>t. ExpiresAt k = Some t \<longrightarrow> m_auth m < t)"

definition same_data :: "('k, 't, 'u, 'l) world \<Rightarrow> ('k, 't, 'u, 'l) world \<Rightarrow> bool" where
  "same_data st st' \<longleftrightarrow> w_keys st' = w_keys st \<and> w_stats st' = w_stats st \<and> w_net st' = w_net st"

lemma same_data_refl [simp]: "same_data st st"
  by (simp add: same_data_def)

lemma same_data_updates [simp]:
  "same_data st (st'\<lparr>w_ip := l\<rparr>) = same_data st st'" "same_data st (st'\<lparr>w_member := l\<rparr>) = same_data st st'"
  "same_data st (st'\<lparr>w_partner := l\<rparr>) = same_data st st'" "same_data st (st'\<lparr>w_pending := p\<rparr>) = same_data st st'"
  "same_data st (st'\<lparr>w_log := x\<rparr>) = same_data st st'"
  by (simp_all add: same_data_def)

lemma allow_same [simp]:
  "same_data st (snd (allow_ip d e b st))" "same_data st (snd (allow_member d e b st))"
  "same_data st (snd (allow_partner d e b st))"
  "w_pending (snd (allow_ip d e b st)) = w_pending st" "w_pending (snd (allow_member d e b st)) = w_pending st"
  "w_pending (snd (allow_partner d e b st)) = w_pending st"
  by (simp_all add: allow_ip_def allow_member_def allow_partner_def split: prod.splits)

lemma same_data_trans [trans]: "same_data a b \<Longrightarrow> same_data b c \<Longrightarrow> same_data a c"
  by (simp add: same_data_def)

text \<open>Every refusal is one of three statuses and carries no data.\<close>

definition refusal :: "ResponseWriter \<Rightarrow> ResponseWriter \<Rightarrow> bool" where
  "refusal w w' \<longleftrightarrow>
     (\<exists>m. W_Body w' = W_Body w @ [\<lparr>Env_Data = None, Env_Error = m, Env_Details = None\<rparr>]) \<and>
     (W_Wrote w = None \<longrightarrow> status_of w' \<in> {Some 401, Some 403, Some 429})"

lemma refusals:
  "refusal w (writeRateLimitError x w)" "refusal w (response_Error 401 t w)" "refusal w (response_Error 403 t w)"
  "refusal w (response_Error 401 t (Header_Set k v w))"
  by (auto simp: refusal_def writeRateLimitError_def status_of_def Let_def)

lemma ip_limited_cases:
  obtains (limited) st' x where "same_data st st'" "w_pending st' = w_pending st"
      "ip_limited d cfg m next r st w = (Returned, st', writeRateLimitError x w)"
  | (passed) st' where "same_data st st'" "w_pending st' = w_pending st"
      "ip_limited d cfg m next r st w = next r st' w"
proof (cases "RateLimitIPEnabled cfg")
  case True
  obtain ok x st' where a: "allow_ip d (m_ip m) (''ip:'' @ clientIP r (TrustProxyHeaders cfg)) st = ((ok, x), st')"
    by (metis prod.exhaust)
  have "same_data st st'" "w_pending st' = w_pending st"
    using a by (metis allow_same(1) snd_conv, metis allow_same(4) snd_conv)
  with True a that show ?thesis by (cases ok) (simp_all add: ip_limited_def RateLimitIP_def)
next
  case False
  with that(2) [of st] show ?thesis by (simp add: ip_limited_def)
qed

lemma key_limited_cases:
  obtains (limited) st' x where "same_data st st'" "w_pending st' = w_pending st"
      "key_limited d cfg m next r st w = (Returned, st', writeRateLimitError x w)"
  | (passed) st' where "same_data st st'" "w_pending st' = w_pending st"
      "key_limited d cfg m next r st w = next r st' w"
proof (cases "RateLimitEnabled cfg \<and> (\<forall>k. ctx_api_key r = Some k \<longrightarrow> Rank k \<noteq> ''admin'')")
  case True
  define al where "al = (case ctx_api_key r of Some k \<Rightarrow> if Rank k = ''partner'' then allow_partner d (m_key m)
    else allow_member d (m_key m) | None \<Rightarrow> allow_member d (m_key m))"
  define b where "b = (case ctx_api_key r of Some k \<Rightarrow> ''key:'' @ FormatInt (ID k)
    | None \<Rightarrow> ''ip:'' @ clientIP r (TrustProxyHeaders cfg))"
  obtain ok x st' where a: "al b st = ((ok, x), st')" by (metis prod.exhaust)
  have "same_data st (snd (al b st))" "w_pending (snd (al b st)) = w_pending st"
    by (simp_all add: al_def split: option.splits)
  then have "same_data st st'" "w_pending st' = w_pending st" using a by simp_all
  moreover have "key_limited d cfg m next r st w =
    (if \<not> ok then (Returned, st', writeRateLimitError x w) else next r st' w)"
    using True a by (auto simp: key_limited_def RateLimit_def al_def b_def Let_def split: option.splits)
  ultimately show ?thesis using that by (cases ok) simp_all
next
  case False
  then have "key_limited d cfg m next r st w = next r st w"
    by (auto simp: key_limited_def RateLimit_def Let_def)
  with that(2) [of st] show ?thesis by simp
qed

lemma authenticated_cases:
  obtains (refused) w' where "refusal w w'" "authenticated d m next r st w = (Returned, st, w')"
  | (admitted) k where "admits d m st r k"
      "authenticated d m next r st w = next (r\<lparr>ctx_api_key := Some k\<rparr>) (st\<lparr>w_pending := w_pending st @ [ID k]\<rparr>) w"
proof (cases "\<exists>k. admits d m st r k")
  case True
  then obtain k where k: "admits d m st r k" by blast
  then have "authenticated d m next r st w = next (r\<lparr>ctx_api_key := Some k\<rparr>) (st\<lparr>w_pending := w_pending st @ [ID k]\<rparr>) w"
    by (auto simp: admits_def authenticated_def Auth_def Let_def split: option.splits)
  with k that(2) show ?thesis by blast
next
  case False
  have "\<exists>w'. refusal w w' \<and> authenticated d m next r st w = (Returned, st, w')"
  proof (cases "repo_GetByHash (dep_keys d) (Hash (Header_Get r ''X-Api-Key'')) (w_keys st)")
    case (Inl e)
    then show ?thesis using refusals by (auto simp: authenticated_def Auth_def Let_def)
  next
    case (Inr k)
    then show ?thesis using False refusals
      by (auto simp: admits_def authenticated_def Auth_def Let_def split: option.splits)
  qed
  with that(1) show ?thesis by blast
qed

text \<open>The three guards in front of the protected routes.\<close>

lemma guarded_cases:
  obtains (refused) st' w' where "same_data st st'" "refusal w w'" "guarded d cfg m next r st w = (Returned, st', w')"
      "w_pending st' = w_pending st \<or> (\<exists>k. admits d m st r k \<and> w_pending st' = w_pending st @ [ID k])"
  | (admitted) k st' where "admits d m st r k" "same_data st st'" "w_pending st' = w_pending st @ [ID k]"
      "guarded d cfg m next r st w = next (r\<lparr>ctx_api_key := Some k\<rparr>) st' w"
proof (cases rule: ip_limited_cases [of st d cfg m "authenticated d m (key_limited d cfg m next)" r w])
  case (limited st' x)
  then show ?thesis using that(1) refusals unfolding guarded_def by blast
next
  case ip: (passed st1)
  have adm: "admits d m st1 r k = admits d m st r k" for k using ip(1) by (simp add: admits_def same_data_def)
  show ?thesis
  proof (cases rule: authenticated_cases [of w d m "key_limited d cfg m next" r st1])
    case (refused w')
    then show ?thesis using that(1) [of st1 w'] ip unfolding guarded_def by simp
  next
    case k: (admitted k)
    let ?st = "st1\<lparr>w_pending := w_pending st1 @ [ID k]\<rparr>"
    show ?thesis
    proof (cases rule: key_limited_cases [of ?st d cfg m "next" "r\<lparr>ctx_api_key := Some k\<rparr>" w])
      case (limited st' x)
      then have "same_data st st'" "w_pending st' = w_pending st @ [ID k]"
        using ip(1,2) by (simp_all add: same_data_def)
      with limited ip(3) k adm that(1) [OF _ refusals(1) [of w x]] show ?thesis unfolding guarded_def by auto
    next
      case (passed st')
      then have "same_data st st'" "w_pending st' = w_pending st @ [ID k]"
        using ip(1,2) by (simp_all add: same_data_def)
      with passed ip(3) k adm that(2)
      show ?thesis unfolding guarded_def by simp
    qed
  qed
qed

text \<open>The outer middleware changes nothing but the log.\<close>

lemma serve_cases:
  obtains (preflight) w1 st' where "cors d cfg r w = (False, w1)" "serve d cfg m rt r st w = (Returned, st', w1)"
      "same_data st st'" "w_pending st' = w_pending st"
  | (routed) w1 f st1 w2 st' w3 where "cors d cfg r w = (True, w1)"
      "route_handler d cfg m rt r st (snd (snd (SecurityHeaders (\<lambda>r st w. (Returned, st, w)) r st w1))) = (f, st1, w2)"
      "w3 = (case f of Returned \<Rightarrow> dep_timeout d (WriteTimeout cfg) w2 | Panicked \<Rightarrow> response_Error 500 ''internal server error'' (dep_timeout d (WriteTimeout cfg) w2))"
      "serve d cfg m rt r st w = (Returned, st', w3)" "same_data st1 st'" "w_pending st' = w_pending st1"
proof (cases "cors d cfg r w")
  case (Pair go w1)
  show ?thesis
  proof (cases go)
    case False
    then show ?thesis using that(1) Pair by (simp add: serve_def Logging_def Recover_def CORS_def logger_def)
  next
    case True
    let ?w = "snd (snd (SecurityHeaders (\<lambda>r st w. (Returned, st, w)) r st w1))"
    obtain f st1 w2 where h: "route_handler d cfg m rt r st ?w = (f, st1, w2)" by (metis prod.exhaust)
    then have "SecurityHeaders (Timeout d (WriteTimeout cfg) (route_handler d cfg m rt)) r st w1 = (f, st1, dep_timeout d (WriteTimeout cfg) w2)"
      by (simp add: SecurityHeaders_def Timeout_def Let_def)
    then show ?thesis using that(2) [OF _ h] Pair True
      by (cases f) (simp_all add: serve_def Logging_def Recover_def CORS_def logger_def)
  qed
qed

lemma SecurityHeaders_writer:
  "W_Body (snd (snd (SecurityHeaders (\<lambda>r st w. (Returned, st, w)) r st w))) = W_Body w"
  "W_Wrote (snd (snd (SecurityHeaders (\<lambda>r st w. (Returned, st, w)) r st w))) = W_Wrote w"
  by (simp_all add: SecurityHeaders_def Let_def)

text \<open>
  The documented behaviour of the two library middlewares: CORS answers a preflight or passes the request on,
  writes no body, and allows credentials only when its options do; the timeout answers 504 when the deadline has passed.
\<close>

definition no_credentials :: "(string, string) gomap \<Rightarrow> bool" where
  "no_credentials hs \<longleftrightarrow> map_of hs ''Access-Control-Allow-Credentials'' = None"

definition mw_law :: "('k, 't, 'u, 'l, 'e) deps \<Rightarrow> bool" where
  "mw_law d \<longleftrightarrow>
     (\<forall>opts r w. W_Body (snd (dep_cors d opts r w)) = W_Body w \<and>
        (if fst (dep_cors d opts r w) then W_Wrote (snd (dep_cors d opts r w)) = W_Wrote w
         else W_Wrote (snd (dep_cors d opts r w)) \<noteq> None)) \<and>
     (\<forall>opts r w. \<not> AllowCredentials opts \<longrightarrow> no_credentials (W_Header w) \<longrightarrow>
        no_credentials (W_Header (snd (dep_cors d opts r w))) \<and>
        (W_Wrote w = None \<longrightarrow> (\<forall>c hs. W_Wrote (snd (dep_cors d opts r w)) = Some (c, hs) \<longrightarrow> no_credentials hs))) \<and>
     (\<forall>t w. dep_timeout d t w = w \<or> dep_timeout d t w = WriteHeader 504 w)"

lemma mw_law_body:
  assumes "mw_law d"
  shows "W_Body (dep_timeout d t w) = W_Body w" "W_Body (snd (dep_cors d opts r w)) = W_Body w"
  using assms by (metis mw_law_def writer_body(1))+

lemma mw_law_wrote:
  assumes "mw_law d" and "dep_cors d opts r w = (go, w')"
  shows "go \<Longrightarrow> W_Wrote w' = W_Wrote w" and "\<not> go \<Longrightarrow> W_Wrote w' \<noteq> None"
  using assms unfolding mw_law_def by (metis fst_conv snd_conv)+

lemma mw_law_credentials:
  assumes "mw_law d" and "cors d cfg r new_writer = (go, w')"
  shows "no_credentials (W_Header w')" and "W_Wrote w' = Some (c, hs) \<Longrightarrow> no_credentials hs"
proof -
  have "\<forall>opts r w. \<not> AllowCredentials opts \<longrightarrow> no_credentials (W_Header w) \<longrightarrow>
        no_credentials (W_Header (snd (dep_cors d opts r w))) \<and>
        (W_Wrote w = None \<longrightarrow> (\<forall>c hs. W_Wrote (snd (dep_cors d opts r w)) = Some (c, hs) \<longrightarrow> no_credentials hs))"
    using assms(1) unfolding mw_law_def by (elim conjE)
  from this [rule_format, of "CORS_options (AllowOrigins cfg)" new_writer r] assms(2)
  show "no_credentials (W_Header w')" and "W_Wrote w' = Some (c, hs) \<Longrightarrow> no_credentials hs"
    by (auto simp: CORS_options_def no_credentials_def new_writer_def)
qed

lemma mw_law_timeout: "mw_law d \<Longrightarrow> dep_timeout d t w = w \<or> dep_timeout d t w = WriteHeader 504 w"
  unfolding mw_law_def by blast

section \<open>Complete mediation\<close>

fun key_data :: "payload option \<Rightarrow> bool" where
  "key_data (Some (KeyView v)) = True"
| "key_data (Some (KeyViews vs)) = True"
| "key_data _ = False"

fun tw_data :: "payload option \<Rightarrow> bool" where
  "tw_data (Some (RawJSON b)) = True"
| "tw_data _ = False"

definition discloses :: "(payload option \<Rightarrow> bool) \<Rightarrow> ResponseWriter \<Rightarrow> bool" where
  "discloses P w \<longleftrightarrow> list_ex (\<lambda>env. P (Env_Data env)) (W_Body w)"

lemma discloses_simps [simp]:
  "discloses P (WriteHeader c w) = discloses P w" "discloses P (Header_Set k v w) = discloses P w"
  "discloses P (response_JSON c p w) \<longleftrightarrow> discloses P w \<or> P (Some p)"
  "\<not> P None \<Longrightarrow> discloses P (response_Error c t w) = discloses P w"
  "\<not> P None \<Longrightarrow> discloses P (response_ErrorDetails c t ds w) = discloses P w"
  "discloses P new_writer = False"
  by (auto simp: discloses_def new_writer_def)

lemma discloses_refusal: "\<not> P None \<Longrightarrow> refusal w w' \<Longrightarrow> discloses P w' = discloses P w"
  by (auto simp: discloses_def refusal_def)

lemma discloses_service_error [simp]: "\<not> P None \<Longrightarrow> discloses P (writeServiceError e w) = discloses P w"
  by (simp add: writeServiceError_eq split: option.splits)

lemma discloses_fail_with [simp]: "\<not> P None \<Longrightarrow> discloses P (snd (snd (fail_with e st w))) = discloses P w"
  by (simp add: fail_with_def)

lemma fail_with_state [simp]: "fst (snd (fail_with e st w)) = st"
  by (simp add: fail_with_def)

lemma discloses_decodeJSON [simp]: "\<not> P None \<Longrightarrow> discloses P (snd (decodeJSON dec r w)) = discloses P w"
  by (auto simp: decodeJSON_def split: sum.splits)

text \<open>What the inner handlers leave alone.\<close>

lemma tw_service_frame:
  assumes "tw_service d cfg req st = (res, st')"
  shows "w_keys st' = w_keys st" "w_pending st' = w_pending st"
  using assms by (auto simp: tw_service_def Let_def split: prod.splits)

lemma tw_service_frame' [simp]:
  "w_keys (snd (tw_service d cfg req st)) = w_keys st" "w_pending (snd (tw_service d cfg req st)) = w_pending st"
  using tw_service_frame [of d cfg req st] by (metis prod.collapse)+

lemma discloses_rate_limit [simp]: "\<not> P None \<Longrightarrow> discloses P (writeRateLimitError x w) = discloses P w"
  by (simp add: writeRateLimitError_def Let_def)

lemma redeem_frame:
  assumes "h \<in> {RedeemGet (tw_service d cfg), RedeemPost dec (tw_service d cfg)}"
  shows "w_keys (fst (snd (h r st w))) = w_keys st" "w_pending (fst (snd (h r st w))) = w_pending st"
    "discloses key_data (snd (snd (h r st w))) = discloses key_data w"
proof -
  obtain x y w1 where dj: "decodeJSON dec r w = ((x, y), w1)" by (metis prod.exhaust)
  then have "discloses key_data w1 = discloses key_data w" using discloses_decodeJSON [of key_data dec r w] by simp
  then show "w_keys (fst (snd (h r st w))) = w_keys st" "w_pending (fst (snd (h r st w))) = w_pending st"
    "discloses key_data (snd (snd (h r st w))) = discloses key_data w"
    using assms tw_service_frame [of d cfg]
    by (auto simp: RedeemGet_def RedeemPost_def dj split: sum.splits prod.splits option.splits)
qed

lemma on_keys_frame [simp]:
  "w_net (fst (snd (on_keys h r st w))) = w_net st" "w_stats (fst (snd (on_keys h r st w))) = w_stats st"
  "w_pending (fst (snd (on_keys h r st w))) = w_pending st"
  "w_keys (fst (snd (on_keys h r st w))) = fst (snd (h r (w_keys st) w))"
  "snd (snd (on_keys h r st w)) = snd (snd (h r (w_keys st) w))"
  by (simp_all add: on_keys_def split: prod.splits)

lemma on_stats_frame [simp]:
  "w_net (fst (snd (on_stats h r st w))) = w_net st" "w_keys (fst (snd (on_stats h r st w))) = w_keys st"
  "w_pending (fst (snd (on_stats h r st w))) = w_pending st"
  "snd (snd (on_stats h r st w)) = snd (snd (h r (w_stats st) w))"
  by (simp_all add: on_stats_def split: prod.splits)

definition key_handlers :: "('k, 't, 'u, 'l, 'e) deps \<Rightarrow> 'e moment \<Rightarrow> (route \<times> 'k handler) list" where
  "key_handlers d m =
     [(KeysCreate, KeyHandler_Create (dep_decode_key d) (dep_keys d) (m_readings m)), (KeysList, KeyHandler_List (dep_keys d)),
      (KeysRevoke, KeyHandler_Revoke (dep_keys d) (revoked_at (m_readings m))), (KeysRotate, KeyHandler_Rotate (dep_keys d) (m_readings m))]"

lemma key_handler_frame:
  assumes "(rt, h) \<in> set (key_handlers d m)"
  shows "discloses tw_data (snd (snd (h r s w))) = discloses tw_data w"
proof -
  obtain x y w1 where dj: "decodeJSON (dep_decode_key d) r w = ((x, y), w1)" by (metis prod.exhaust)
  then have "discloses tw_data w1 = discloses tw_data w"
    using discloses_decodeJSON [of tw_data "dep_decode_key d" r w] by simp
  then show ?thesis using assms
    by (auto simp: key_handlers_def KeyHandler_Create_def KeyHandler_List_def KeyHandler_Revoke_def KeyHandler_Rotate_def dj
        split: sum.splits prod.splits option.splits)
qed

lemma KeysList_state [simp]: "fst (snd (KeyHandler_List repo r s w)) = s"
  by (simp add: KeyHandler_List_def split: sum.splits)

lemma stats_frame [simp]:
  "fst (snd (StatsHandler_Stats store r s w)) = s"
  "discloses key_data (snd (snd (StatsHandler_Stats store r s w))) = discloses key_data w"
  "discloses tw_data (snd (snd (StatsHandler_Stats store r s w))) = discloses tw_data w"
  by (simp_all add: StatsHandler_Stats_def split: sum.splits)

text \<open>The routes by group.\<close>

lemma route_cases:
  obtains (tw) h where "rt \<in> {TwGet, TwPost}" "route_handler d cfg m rt = guarded d cfg m h"
      "h \<in> {RedeemGet (tw_service d cfg), RedeemPost (dep_decode_tw d) (tw_service d cfg)}"
  | (keys) h where "(rt, h) \<in> set (key_handlers d m)"
      "route_handler d cfg m rt = guarded d cfg m (RequireScope ''admin'' (on_keys h))"
  | (stats) "rt = StatsGet" "route_handler d cfg m rt = ip_limited d cfg m (on_stats (StatsHandler_Stats (dep_stats d)))"
  | (lost) na h where "rt \<in> {NoRoute (Some TwGroup) na, NoRoute (Some KeysGroup) na}" "route_handler d cfg m rt = guarded d cfg m h"
      "h \<in> {no_route na, RequireScope ''admin'' (no_route na)}"
  | (lost_stats) na where "rt = NoRoute (Some StatsGroup) na" "route_handler d cfg m rt = ip_limited d cfg m (no_route na)"
  | (none) na where "rt = NoRoute None na" "route_handler d cfg m rt = no_route na"
proof (cases rt)
  case (NoRoute g na)
  then show ?thesis
  proof (cases g)
    case (Some a)
    then show ?thesis using NoRoute lost [of na "no_route na"] lost [of na "RequireScope ''admin'' (no_route na)"] lost_stats [of na]
      by (cases a) (simp_all add: route_handler_def Let_def)
  qed (simp add: none route_handler_def)
qed (use tw keys stats in \<open>auto simp: route_handler_def key_handlers_def Let_def\<close>)

lemma route_group_key_handlers: "(rt, h) \<in> set (key_handlers d m) \<Longrightarrow> authenticated_route rt"
  by (auto simp: key_handlers_def authenticated_route_def)

lemma RequireScope_cases:
  obtains (refused) w' where "refusal w w'" "RequireScope sc next r st w = (Returned, st, w')"
  | (passed) k where "ctx_api_key r = Some k" "sc \<in> set (Scopes k)" "RequireScope sc next r st w = next r st w"
proof (cases "\<exists>k. ctx_api_key r = Some k \<and> sc \<in> set (Scopes k)")
  case True
  then show ?thesis using that(2) by (auto simp: RequireScope_def hasScope_iff)
next
  case False
  then have "\<exists>w'. refusal w w' \<and> RequireScope sc next r st w = (Returned, st, w')"
    using refusals(2,3) [of w] by (auto simp: RequireScope_def hasScope_iff split: option.splits)
  then show ?thesis using that(1) by blast
qed

text \<open>The router's own answer touches nothing.\<close>

lemma no_route_frame [simp]:
  "fst (snd (no_route na r st w)) = st" "discloses P (snd (snd (no_route na r st w))) = discloses P w"
  by (simp_all add: no_route_def)

lemma lost_frame:
  assumes "h \<in> {no_route na, RequireScope sc (no_route na)}"
  shows "fst (snd (h r st w)) = st" "\<not> P None \<Longrightarrow> discloses P (snd (snd (h r st w))) = discloses P w"
proof -
  have "fst (snd (RequireScope sc (no_route na) r st w)) = st \<and>
      (\<not> P None \<longrightarrow> discloses P (snd (snd (RequireScope sc (no_route na) r st w))) = discloses P w)"
    by (cases rule: RequireScope_cases [of w sc "no_route na" r st]) (simp_all add: discloses_refusal)
  then show "fst (snd (h r st w)) = st" "\<not> P None \<Longrightarrow> discloses P (snd (snd (h r st w))) = discloses P w"
    using assms by auto
qed

lemma lost_guarded:
  assumes "h \<in> {no_route na, RequireScope sc (no_route na)}"
  shows "same_data st (fst (snd (guarded d cfg m h r st w)))"
    "\<not> P None \<Longrightarrow> discloses P (snd (snd (guarded d cfg m h r st w))) = discloses P w"
    "w_pending (fst (snd (guarded d cfg m h r st w))) = w_pending st \<or>
      (\<exists>k. admits d m st r k \<and> w_pending (fst (snd (guarded d cfg m h r st w))) = w_pending st @ [ID k])"
  by (rule guarded_cases [of st w d cfg m h r]; use lost_frame [OF assms] in \<open>auto simp: discloses_refusal\<close>)+

lemma lost_ip_limited:
  "same_data st (fst (snd (ip_limited d cfg m (no_route na) r st w)))"
  "\<not> P None \<Longrightarrow> discloses P (snd (snd (ip_limited d cfg m (no_route na) r st w))) = discloses P w"
  "w_pending (fst (snd (ip_limited d cfg m (no_route na) r st w))) = w_pending st"
  by (rule ip_limited_cases [of st d cfg m "no_route na" r w]; simp)+

section \<open>The recorders a request starts\<close>

lemma admitted_ids_iff: "admits d m st r k \<Longrightarrow> admitted_ids d m st r = [ID k]"
  "\<nexists>k. admits d m st r k \<Longrightarrow> admitted_ids d m st r = []"
  by (auto simp: admits_def admitted_ids_def Let_def split: option.splits sum.splits)

lemma admitted_ids_same [simp]:
  assumes "same_data st st'"
  shows "admitted_ids d m st' r = admitted_ids d m st r"
proof -
  have "w_keys st' = w_keys st" using assms by (simp add: same_data_def)
  then show ?thesis unfolding admitted_ids_def by (rule ssubst) (rule refl)
qed

lemma authenticated_pending:
  assumes "\<And>r st w. w_pending (fst (snd (next r st w))) = w_pending st"
  shows "w_pending (fst (snd (authenticated d m next r st w))) = w_pending st @ admitted_ids d m st r"
  by (auto simp: authenticated_def Auth_def admitted_ids_def Let_def assms split: sum.splits option.splits)

lemma ip_limited_pending:
  assumes "\<And>r st w. w_pending (fst (snd (next r st w))) = w_pending st @ ids r st"
    and "\<And>r st st'. same_data st st' \<Longrightarrow> ids r st' = ids r st"
  shows "w_pending (fst (snd (ip_limited d cfg m next r st w))) = w_pending st @
    (if RateLimitIPEnabled cfg \<longrightarrow> fst (fst (allow_ip d (m_ip m) (''ip:'' @ clientIP r (TrustProxyHeaders cfg)) st))
     then ids r st else [])"
proof (cases "RateLimitIPEnabled cfg")
  case True
  obtain ok x st' where a: "allow_ip d (m_ip m) (''ip:'' @ clientIP r (TrustProxyHeaders cfg)) st = ((ok, x), st')"
    by (metis prod.exhaust)
  have "same_data st st'" "w_pending st' = w_pending st"
    using a by (metis allow_same(1) snd_conv, metis allow_same(4) snd_conv)
  then show ?thesis using True a assms by (cases ok) (simp_all add: ip_limited_def RateLimitIP_def)
next
  case False
  then show ?thesis using assms(1) by (simp add: ip_limited_def)
qed

lemma key_limited_pending:
  assumes "\<And>r st w. w_pending (fst (snd (next r st w))) = w_pending st"
  shows "w_pending (fst (snd (key_limited d cfg m next r st w))) = w_pending st"
  by (rule key_limited_cases [of st d cfg m "next" r w]) (simp_all add: assms)

lemma route_pending:
  "w_pending (fst (snd (route_handler d cfg m rt r st w))) = w_pending st @
    (if authenticated_route rt \<and>
        (RateLimitIPEnabled cfg \<longrightarrow> fst (fst (allow_ip d (m_ip m) (''ip:'' @ clientIP r (TrustProxyHeaders cfg)) st)))
     then admitted_ids d m st r else [])"
proof -
  have guard: "w_pending (fst (snd (guarded d cfg m next r st w))) = w_pending st @
      (if RateLimitIPEnabled cfg \<longrightarrow> fst (fst (allow_ip d (m_ip m) (''ip:'' @ clientIP r (TrustProxyHeaders cfg)) st))
       then admitted_ids d m st r else [])"
    if "\<And>r st w. w_pending (fst (snd (next r st w))) = w_pending st" for "next"
    unfolding guarded_def
    by (rule ip_limited_pending) (auto intro!: authenticated_pending key_limited_pending that)
  show ?thesis
  proof (cases rule: route_cases [of rt d cfg m])
    case (tw h)
    then show ?thesis using guard [of h] redeem_frame(2) [OF tw(3)] by (auto simp: authenticated_route_def)
  next
    case (keys h)
    have frame: "w_pending (fst (snd (RequireScope ''admin'' (on_keys h) r st w))) = w_pending st" for r st w
      by (rule RequireScope_cases [of w "''admin''" "on_keys h" r st]) simp_all
    show ?thesis unfolding keys(2) guard [OF frame] using route_group_key_handlers [OF keys(1)] by simp
  next
    case stats
    then show ?thesis
      using ip_limited_pending [of "on_stats (StatsHandler_Stats (dep_stats d))" "\<lambda>r st. []" d cfg m r st w]
      by (simp add: authenticated_route_def)
  next
    case (lost na h)
    then show ?thesis using guard [of h] lost_frame(1) [OF lost(3)] by (auto simp: authenticated_route_def)
  qed (simp_all add: authenticated_route_def lost_ip_limited(3))
qed

lemma serve_pending:
  assumes "serve d cfg m rt r st new_writer = (f, st', w')"
  shows "w_pending st' = w_pending st @ key_uses d cfg m rt r st"
proof (cases rule: serve_cases [of d cfg r new_writer m rt st])
  case (preflight w1 st1)
  then show ?thesis using assms by (simp add: key_uses_def)
next
  case (routed w1 f1 st1 w2 st2 w3)
  then have "w_pending st' = w_pending st1" using assms by simp
  then show ?thesis
    using route_pending [of d cfg m rt r st "snd (snd (SecurityHeaders (\<lambda>r st w. (Returned, st, w)) r st w1))"] routed(1,2)
    by (simp add: key_uses_def)
qed

lemma route_keys_mediated:
  assumes "w_keys (fst (snd (route_handler d cfg m rt r st w))) \<noteq> w_keys st \<or>
    discloses key_data (snd (snd (route_handler d cfg m rt r st w))) \<noteq> discloses key_data w"
  shows "rt \<in> {KeysCreate, KeysList, KeysRevoke, KeysRotate} \<and> (\<exists>k. admits d m st r k \<and> ''admin'' \<in> set (Scopes k))"
proof (cases rule: route_cases [of rt d cfg m])
  case (tw h)
  show ?thesis
  proof (cases rule: guarded_cases [of st w d cfg m h r])
    case (refused st' w')
    then show ?thesis using assms tw by (simp add: same_data_def discloses_refusal)
  next
    case (admitted k st')
    then show ?thesis using assms tw redeem_frame [OF tw(3), of "r\<lparr>ctx_api_key := Some k\<rparr>" st' w]
      by (simp add: same_data_def)
  qed
next
  case (keys h)
  have rt: "rt \<in> {KeysCreate, KeysList, KeysRevoke, KeysRotate}" using keys(1) by (auto simp: key_handlers_def)
  show ?thesis
  proof (cases rule: guarded_cases [of st w d cfg m "RequireScope ''admin'' (on_keys h)" r])
    case (refused st' w')
    then show ?thesis using assms keys by (simp add: same_data_def discloses_refusal)
  next
    case (admitted k st')
    show ?thesis
    proof (cases rule: RequireScope_cases [of w "''admin''" "on_keys h" "r\<lparr>ctx_api_key := Some k\<rparr>" st'])
      case (refused w')
      then show ?thesis using assms keys admitted by (simp add: same_data_def discloses_refusal)
    next
      case (passed k')
      then show ?thesis using admitted rt by auto
    qed
  qed
next
  case stats
  show ?thesis
    by (cases rule: ip_limited_cases [of st d cfg m "on_stats (StatsHandler_Stats (dep_stats d))" r w])
      (use assms stats refusals(1) [of w] in \<open>auto simp: same_data_def discloses_refusal\<close>)
next
  case (lost na h)
  then show ?thesis using assms lost_guarded(1) [OF lost(3), where d = d] lost_guarded(2) [OF lost(3), where d = d and P = key_data] by (simp add: same_data_def)
next
  case (lost_stats na)
  then show ?thesis using assms lost_ip_limited(1,2) [where d = d] by (simp add: same_data_def)
next
  case (none na)
  then show ?thesis using assms by simp
qed

lemma route_tw_mediated:
  assumes "w_net (fst (snd (route_handler d cfg m rt r st w))) \<noteq> w_net st \<or>
    discloses tw_data (snd (snd (route_handler d cfg m rt r st w))) \<noteq> discloses tw_data w"
  shows "rt \<in> {TwGet, TwPost} \<and> (\<exists>k. admits d m st r k)"
proof (cases rule: route_cases [of rt d cfg m])
  case (tw h)
  show ?thesis
  proof (cases rule: guarded_cases [of st w d cfg m h r])
    case (refused st' w')
    then show ?thesis using assms tw by (simp add: same_data_def discloses_refusal)
  next
    case (admitted k st')
    then show ?thesis using tw(1) by blast
  qed
next
  case (keys h)
  show ?thesis
  proof (cases rule: guarded_cases [of st w d cfg m "RequireScope ''admin'' (on_keys h)" r])
    case (refused st' w')
    then show ?thesis using assms keys by (simp add: same_data_def discloses_refusal)
  next
    case (admitted k st')
    then show ?thesis
      by (cases rule: RequireScope_cases [of w "''admin''" "on_keys h" "r\<lparr>ctx_api_key := Some k\<rparr>" st'])
        (use assms keys admitted key_handler_frame [OF keys(1)] in \<open>simp_all add: same_data_def discloses_refusal\<close>)
  qed
next
  case stats
  show ?thesis
    by (cases rule: ip_limited_cases [of st d cfg m "on_stats (StatsHandler_Stats (dep_stats d))" r w])
      (use assms stats refusals(1) [of w] in \<open>auto simp: same_data_def discloses_refusal\<close>)
next
  case (lost na h)
  then show ?thesis using assms lost_guarded(1) [OF lost(3), where d = d] lost_guarded(2) [OF lost(3), where d = d and P = tw_data] by (simp add: same_data_def)
next
  case (lost_stats na)
  then show ?thesis using assms lost_ip_limited(1,2) [where d = d] by (simp add: same_data_def)
next
  case (none na)
  then show ?thesis using assms by simp
qed

lemma serve_mediated:
  assumes law: "mw_law d" and P: "\<not> P None" and sv: "serve d cfg m rt r st new_writer = (f, st', w')"
    and change: "F st' \<noteq> F st \<or> discloses P w'" and F: "\<And>a b. same_data a b \<Longrightarrow> F b = F a"
  shows "\<exists>w. F (fst (snd (route_handler d cfg m rt r st w))) \<noteq> F st \<or>
    discloses P (snd (snd (route_handler d cfg m rt r st w))) \<noteq> discloses P w"
proof (cases rule: serve_cases [of d cfg r new_writer m rt st])
  case (preflight w1 st1)
  then show ?thesis using sv change F [of st st'] mw_law_body(2) [OF law, of "CORS_options (AllowOrigins cfg)" r new_writer]
    by (simp add: discloses_def new_writer_def)
next
  case (routed w1 f1 st1 w2 st2 w3)
  let ?w = "snd (snd (SecurityHeaders (\<lambda>r st w. (Returned, st, w)) r st w1))"
  have body: "W_Body ?w = []" "W_Body w1 = []"
    using mw_law_body(2) [OF law, of "CORS_options (AllowOrigins cfg)" r new_writer] routed(1) by (simp_all add: SecurityHeaders_writer new_writer_def)
  have "discloses P w3 = discloses P w2"
    using P mw_law_body(1) [OF law, of "WriteTimeout cfg" w2] routed(3) by (cases f1) (simp_all add: discloses_def)
  moreover have "F st2 = F st1" using F routed(5) by blast
  ultimately show ?thesis
    using sv change routed(2,4) body by (intro exI [of _ ?w]) (simp add: discloses_def)
qed

lemma keys_mediated_aux:
  assumes "mw_law d" and "serve d cfg m rt r st new_writer = (f, st', w')"
    and "w_keys st' \<noteq> w_keys st \<or> discloses key_data w'"
  shows "rt \<in> {KeysCreate, KeysList, KeysRevoke, KeysRotate} \<and> (\<exists>k. admits d m st r k \<and> ''admin'' \<in> set (Scopes k))"
proof -
  have same: "w_keys b = w_keys a" if "same_data a b" for a b :: "('a, 'b, 'c, 'd) world"
    using that by (simp add: same_data_def)
  have "\<not> key_data None" by simp
  from serve_mediated [where F = w_keys, OF assms(1) this assms(2,3) same]
  show ?thesis using route_keys_mediated by blast
qed

text \<open>
  Complete mediation of key management. Whatever request the server handles, on whatever route, the key
  store changes within it, or the reply carries a key view, only if the route is one of the four of \<^verbatim>\<open>/keys\<close> and
  the request presents a key whose hash the store knows, that is neither revoked nor expired at that moment
  and that holds the \<^verbatim>\<open>admin\<close> scope. No hypothesis on the backends is needed.
\<close>

theorem keys_mediated:
  assumes "mw_law d" and "serve d cfg m rt r st new_writer = (f, st', w')"
    and "w_keys st' \<noteq> w_keys st \<or> discloses key_data w'"
  shows "rt \<in> {KeysCreate, KeysList, KeysRevoke, KeysRotate} \<and> (\<exists>k. admits d m st r k \<and> ''admin'' \<in> set (Scopes k))"
  using assms by (rule keys_mediated_aux)

lemma tw_mediated_aux:
  assumes "mw_law d" and "serve d cfg m rt r st new_writer = (f, st', w')"
    and "w_net st' \<noteq> w_net st \<or> discloses tw_data w'"
  shows "rt \<in> {TwGet, TwPost} \<and> (\<exists>k. admits d m st r k)"
proof -
  have same: "w_net b = w_net a" if "same_data a b" for a b :: "('a, 'b, 'c, 'd) world"
    using that by (simp add: same_data_def)
  have "\<not> tw_data None" by simp
  from serve_mediated [where F = w_net, OF assms(1) this assms(2,3) same]
  show ?thesis using route_tw_mediated by blast
qed

text \<open>
  Every redemption is authenticated. Within a request the upstream is called, or the reply carries upstream
  data, only if the route is one of the two of \<^verbatim>\<open>/tw\<close> and the request presents a key that the store
  knows and that is neither revoked nor expired at that moment.
\<close>

theorem tw_mediated:
  assumes "mw_law d" and "serve d cfg m rt r st new_writer = (f, st', w')"
    and "w_net st' \<noteq> w_net st \<or> discloses tw_data w'"
  shows "rt \<in> {TwGet, TwPost} \<and> (\<exists>k. admits d m st r k)"
  using assms by (rule tw_mediated_aux)

text \<open>
  The scope of the key plays no part on \<^verbatim>\<open>/tw\<close>: the router does not mount \<^verbatim>\<open>RequireScope("tw")\<close> there, so
  a key without the \<^verbatim>\<open>tw\<close> scope redeems.
\<close>

lemma tw_scope_not_checked:
  assumes "admits d m st r k" and "\<not> RateLimitEnabled cfg" and "\<not> RateLimitIPEnabled cfg"
  shows "route_handler d cfg m TwGet r st w =
    RedeemGet (tw_service d cfg) (r\<lparr>ctx_api_key := Some k\<rparr>) (st\<lparr>w_pending := w_pending st @ [ID k]\<rparr>) w"
  using assms by (auto simp: route_handler_def guarded_def ip_limited_def key_limited_def authenticated_def
      Auth_def admits_def Let_def split: option.splits)

section \<open>Every request is answered\<close>

definition has_security :: "(string, string) gomap \<Rightarrow> bool" where
  "has_security hs \<longleftrightarrow>
     map_of hs ''X-Content-Type-Options'' = Some ''nosniff'' \<and> map_of hs ''X-Frame-Options'' = Some ''DENY'' \<and>
     map_of hs ''Referrer-Policy'' = Some ''no-referrer'' \<and>
     map_of hs ''Permissions-Policy'' = Some ''camera=(), microphone=(), geolocation=()'' \<and>
     map_of hs ''Cache-Control'' = Some ''no-store''"

definition safe_headers :: "(string, string) gomap \<Rightarrow> bool" where
  "safe_headers hs \<longleftrightarrow> has_security hs \<and> no_credentials hs"

definition secure :: "ResponseWriter \<Rightarrow> bool" where
  "secure w \<longleftrightarrow> safe_headers (W_Header w) \<and> (\<forall>c hs. W_Wrote w = Some (c, hs) \<longrightarrow> safe_headers hs)"

definition answered :: "ResponseWriter \<Rightarrow> bool" where
  "answered w \<longleftrightarrow> secure w \<and> W_Wrote w \<noteq> None"

lemma safe_headers_update [simp]:
  "safe_headers hs \<Longrightarrow> k \<in> {''Content-Type'', ''Retry-After'', ''Www-Authenticate''} \<Longrightarrow> safe_headers (AList.update k v hs)"
  by (auto simp: safe_headers_def has_security_def no_credentials_def)

lemma secure_ops:
  assumes "secure w"
  shows "answered (WriteHeader c w)" "answered (response_JSON c p w)" "answered (response_Error c t w)"
    "answered (response_ErrorDetails c t ds w)"
    "k \<in> {''Content-Type'', ''Retry-After'', ''Www-Authenticate''} \<Longrightarrow> secure (Header_Set k v w)"
  using assms by (auto simp: answered_def secure_def WriteHeader_def response_JSON_def response_Error_def
      response_ErrorDetails_def Encode_def Header_Set_def Let_def split: option.splits)

lemma secure_answered [simp]: "answered w \<Longrightarrow> secure w"
  by (simp add: answered_def)

lemma secure_errors:
  assumes "secure w"
  shows "answered (writeServiceError e w)" "answered (writeRateLimitError x w)"
  using assms secure_ops by (simp_all add: writeServiceError_eq writeRateLimitError_def Let_def split: option.splits)

text \<open>A handler that gets a secure writer leaves it secure, and answered when it returns.\<close>

definition good :: "flow \<times> 'st \<times> ResponseWriter \<Rightarrow> bool" where
  "good x \<longleftrightarrow> secure (snd (snd x)) \<and> (fst x = Returned \<longrightarrow> answered (snd (snd x)))"

definition replies :: "'st handler \<Rightarrow> bool" where
  "replies h \<longleftrightarrow> (\<forall>r st w. secure w \<longrightarrow> good (h r st w))"

lemma good_Returned [simp]: "good (Returned, st, w) = answered w"
  by (auto simp: good_def)

lemma good_fail_with [simp]: "secure w \<Longrightarrow> good (fail_with e st w)"
  by (simp add: good_def fail_with_def secure_errors)

lemma good_decodeJSON:
  assumes "secure w" and "decodeJSON dec r w = ((e, v), w')"
  shows "secure w' \<and> (e \<noteq> None \<or> v = None \<longrightarrow> answered w')"
  using assms by (auto simp: decodeJSON_def secure_ops split: sum.splits if_splits)

lemma replies_keys:
  assumes "(rt, h) \<in> set (key_handlers d m)"
  shows "replies h"
  unfolding replies_def
proof (intro allI impI)
  fix r s w
  assume w: "secure w"
  obtain e v w1 where dj: "decodeJSON (dep_decode_key d) r w = ((e, v), w1)" by (metis prod.exhaust)
  note dec = good_decodeJSON [OF w dj]
  have "good (KeyHandler_Create (dep_decode_key d) (dep_keys d) (m_readings m) r s w)"
    using dec secure_ops(2) [of w1] by (auto simp: KeyHandler_Create_def dj split: sum.splits prod.splits option.splits)
  moreover have "good (KeyHandler_List (dep_keys d) r s w)"
    using secure_ops [OF w] w by (simp add: KeyHandler_List_def split: sum.splits)
  moreover have "good (KeyHandler_Revoke (dep_keys d) now r s w)" for now
    using secure_ops [OF w] w by (simp add: KeyHandler_Revoke_def split: sum.splits prod.splits)
  moreover have "good (KeyHandler_Rotate (dep_keys d) (m_readings m) r s w)"
    using secure_ops [OF w] w by (simp add: KeyHandler_Rotate_def split: sum.splits prod.splits)
  ultimately show "good (h r s w)" using assms by (auto simp: key_handlers_def)
qed

lemma replies_tw: "replies (RedeemGet svc)" "replies (RedeemPost dec svc)"
  unfolding replies_def
proof (intro allI impI)
  fix r s w
  assume w: "secure w"
  show "good (RedeemGet svc r s w)"
    using secure_ops [OF w] w by (simp add: RedeemGet_def split: sum.splits prod.splits)
next
  show "\<forall>r st w. secure w \<longrightarrow> good (RedeemPost dec svc r st w)"
  proof (intro allI impI)
    fix r s w
    assume w: "secure w"
    obtain e v w1 where dj: "decodeJSON dec r w = ((e, v), w1)" by (metis prod.exhaust)
    show "good (RedeemPost dec svc r s w)"
      using good_decodeJSON [OF w dj] secure_ops(2) [of w1]
      by (auto simp: RedeemPost_def dj split: sum.splits prod.splits option.splits)
  qed
qed

lemma replies_stats: "replies (StatsHandler_Stats store)"
  by (simp add: replies_def StatsHandler_Stats_def secure_ops split: sum.splits)

lemma replies_lift: "replies h \<Longrightarrow> replies (on_keys h)" "replies g \<Longrightarrow> replies (on_stats g)"
  by (auto simp: replies_def good_def on_keys_def on_stats_def split: prod.splits) (metis fst_conv snd_conv)+

lemma replies_RateLimit:
  assumes "replies next"
  shows "replies (RateLimitIP al tp next)" "replies (RateLimit am ap tp next)"
  using assms by (auto simp: replies_def RateLimitIP_def RateLimit_def secure_errors Let_def
      split: prod.splits option.splits)

lemma replies_Auth: "replies next \<Longrightarrow> replies (Auth lk sp now next)"
  by (auto simp: replies_def Auth_def secure_ops Let_def split: sum.splits)

lemma replies_RequireScope: "replies next \<Longrightarrow> replies (RequireScope sc next)"
  by (auto simp: replies_def RequireScope_def secure_ops split: option.splits)

lemma replies_guarded: "replies next \<Longrightarrow> replies (guarded d cfg m next)"
  by (simp add: guarded_def ip_limited_def key_limited_def authenticated_def replies_Auth replies_RateLimit)

lemma replies_no_route: "replies (no_route na)"
  by (simp add: replies_def no_route_def secure_ops)

lemma replies_route: "replies (route_handler d cfg m rt)"
proof (cases rule: route_cases [of rt d cfg m])
  case (tw h)
  then have "replies h" using replies_tw by blast
  then show ?thesis using tw(2) replies_guarded by simp
next
  case (keys h)
  then show ?thesis using replies_guarded replies_RequireScope replies_lift(1) replies_keys by metis
next
  case stats
  then show ?thesis by (simp add: ip_limited_def replies_RateLimit(1) replies_lift(2) replies_stats)
next
  case (lost na h)
  then show ?thesis using replies_guarded replies_RequireScope replies_no_route by (metis insertE singletonD)
next
  case (lost_stats na)
  then show ?thesis by (simp add: ip_limited_def replies_RateLimit(1) replies_no_route)
next
  case (none na)
  then show ?thesis by (simp add: replies_no_route)
qed

text \<open>
  The server answers every request and never lets a panic escape: whatever the route, the request and the
  state of the backends, serving it returns with a status line sent; no response, a CORS preflight included,
  allows credentials to other origins, and unless the request was a preflight the headers sent include the five
  security headers with their exact values.
\<close>

theorem serve_answers_securely:
  assumes "mw_law d"
  shows "\<exists>st' w' c hs. serve d cfg m rt r st new_writer = (Returned, st', w') \<and> W_Wrote w' = Some (c, hs) \<and>
    map_of hs ''Access-Control-Allow-Credentials'' = None \<and>
    (fst (dep_cors d (CORS_options (AllowOrigins cfg)) r new_writer) \<longrightarrow> has_security hs)"
proof (cases rule: serve_cases [of d cfg r new_writer m rt st])
  case (preflight w1 st')
  obtain c hs where w: "W_Wrote w1 = Some (c, hs)" using mw_law_wrote(2) [OF assms preflight(1)] by auto
  then have "map_of hs ''Access-Control-Allow-Credentials'' = None"
    using mw_law_credentials(2) [OF assms preflight(1)] unfolding no_credentials_def by blast
  then show ?thesis using preflight(1,2) w by auto
next
  case (routed w1 f st1 w2 st' w3)
  let ?w = "snd (snd (SecurityHeaders (\<lambda>r st w. (Returned, st, w)) r st w1))"
  have "W_Wrote w1 = None" using mw_law_wrote(1) [OF assms routed(1)] by simp
  moreover have "no_credentials (W_Header w1)" by (rule mw_law_credentials(1) [OF assms routed(1)])
  ultimately have "secure ?w"
    by (simp add: secure_def safe_headers_def no_credentials_def SecurityHeaders_def Header_Set_def has_security_def Let_def)
  then have g: "good (f, st1, w2)" using replies_route routed(2) unfolding replies_def by metis
  note t = mw_law_timeout [OF assms, of "WriteTimeout cfg" w2]
  have "answered w3"
  proof (cases f)
    case Returned
    then have "answered w2" using g by simp
    then show ?thesis using routed(3) Returned t secure_ops(1) by auto
  next
    case Panicked
    then have "secure w2" using g by (simp add: good_def)
    then have "secure (dep_timeout d (WriteTimeout cfg) w2)" using t secure_ops(1) by auto
    then show ?thesis using routed(3) Panicked secure_ops(3) by simp
  qed
  then show ?thesis using routed(4) by (auto simp: answered_def secure_def safe_headers_def no_credentials_def)
qed

section \<open>Runs on the in-memory key store\<close>

text \<open>How a request can change the key store: by at most two store operations that count no use.\<close>

lemma key_handler_ops:
  assumes mem: "dep_keys d = memory_repo" and h: "(rt, h) \<in> set (key_handlers d m)"
  shows "\<exists>ops. fst (snd (h r s w)) = fold exec_op ops s \<and> list_all wf_op ops \<and> list_all fresh_op ops \<and> length ops \<le> 2"
proof -
  let ?ops = "\<lambda>s'. \<exists>ops. s' = fold exec_op ops s \<and> list_all wf_op ops \<and> list_all fresh_op ops \<and> length ops \<le> 2"
  have call: "?ops (do_key_call c s)" if "\<not> is_touch c" for c using do_key_call_as_ops [of c s] that by blast
  have none: "?ops s" by (intro exI [of _ "[]"]) simp
  have "?ops (fst (snd (KeyHandler_Create dec memory_repo rd r s w)))" for dec rd
  proof -
    obtain e v w1 where dj: "decodeJSON dec r w = ((e, v), w1)" by (metis prod.exhaust)
    show ?thesis
    proof (cases "e = None \<and> v \<noteq> None")
      case True
      then obtain inp where "v = Some inp" by auto
      then have "fst (snd (KeyHandler_Create dec memory_repo rd r s w)) = do_key_call (CallCreate rd inp) s"
        using True by (simp add: KeyHandler_Create_def dj split: prod.splits sum.splits)
      then show ?thesis using call [of "CallCreate rd inp"] by simp
    next
      case False
      then have "fst (snd (KeyHandler_Create dec memory_repo rd r s w)) = s"
        by (auto simp: KeyHandler_Create_def dj split: option.splits)
      then show ?thesis using none by simp
    qed
  qed
  moreover have "?ops (fst (snd (KeyHandler_Revoke memory_repo now r s w)))" for now
  proof (cases "idParam r")
    case (Inr i)
    then have "fst (snd (KeyHandler_Revoke memory_repo now r s w)) = do_key_call (CallRevoke now i) s"
      by (simp add: KeyHandler_Revoke_def split: prod.splits sum.splits)
    then show ?thesis using call [of "CallRevoke now i"] by simp
  qed (use none in \<open>simp add: KeyHandler_Revoke_def\<close>)
  moreover have "?ops (fst (snd (KeyHandler_Rotate memory_repo rd r s w)))" for rd
  proof (cases "idParam r")
    case (Inr i)
    then have "fst (snd (KeyHandler_Rotate memory_repo rd r s w)) = do_key_call (CallRotate rd i) s"
      by (simp add: KeyHandler_Rotate_def split: prod.splits sum.splits)
    then show ?thesis using call [of "CallRotate rd i"] by simp
  qed (use none in \<open>simp add: KeyHandler_Rotate_def\<close>)
  ultimately show ?thesis using h none mem by (auto simp: key_handlers_def)
qed

lemma route_ops:
  assumes "dep_keys d = memory_repo" and "route_handler d cfg m rt r st w = (f, st', w')"
  shows "(\<exists>ops. w_keys st' = fold exec_op ops (w_keys st) \<and> list_all wf_op ops \<and> list_all fresh_op ops \<and> length ops \<le> 2) \<and>
    (w_pending st' = w_pending st \<or> (\<exists>k. admits d m st r k \<and> w_pending st' = w_pending st @ [ID k]))"
proof -
  have idle: "\<exists>ops. s = fold exec_op ops s \<and> list_all wf_op ops \<and> list_all fresh_op ops \<and> length ops \<le> 2" for s
    by (intro exI [of _ "[]"]) simp
  show ?thesis
  proof (cases rule: route_cases [of rt d cfg m])
    case (tw h)
    show ?thesis
    proof (cases rule: guarded_cases [of st w d cfg m h r])
      case (refused st1 w1)
      then show ?thesis using assms(2) tw idle by (auto simp: same_data_def)
    next
      case (admitted k st1)
      then have "w_keys st' = w_keys st" "w_pending st' = w_pending st @ [ID k]"
        using assms(2) tw(2) redeem_frame(1,2) [OF tw(3), of "r\<lparr>ctx_api_key := Some k\<rparr>" st1 w] by (simp_all add: same_data_def)
      then show ?thesis using idle admitted(1) by auto
    qed
  next
    case (keys h)
    show ?thesis
    proof (cases rule: guarded_cases [of st w d cfg m "RequireScope ''admin'' (on_keys h)" r])
      case (refused st1 w1)
      then show ?thesis using assms(2) keys idle by (auto simp: same_data_def)
    next
      case (admitted k st1)
      then have res: "RequireScope ''admin'' (on_keys h) (r\<lparr>ctx_api_key := Some k\<rparr>) st1 w = (f, st', w')"
        using assms(2) keys(2) by simp
      have st1: "w_keys st1 = w_keys st" "w_pending st1 = w_pending st @ [ID k]"
        using admitted by (simp_all add: same_data_def)
      show ?thesis
      proof (cases rule: RequireScope_cases [of w "''admin''" "on_keys h" "r\<lparr>ctx_api_key := Some k\<rparr>" st1])
        case (refused w1)
        then show ?thesis using res st1 admitted(1) idle by auto
      next
        case (passed k')
        then have "w_keys st' = fst (snd (h (r\<lparr>ctx_api_key := Some k\<rparr>) (w_keys st) w))" "w_pending st' = w_pending st @ [ID k]"
          using res st1 on_keys_frame(3,4) [of h "r\<lparr>ctx_api_key := Some k\<rparr>" st1 w] by simp_all
        then show ?thesis using key_handler_ops [OF assms(1) keys(1)] admitted(1) by metis
      qed
    qed
  next
    case stats
    have "w_keys st' = w_keys st \<and> w_pending st' = w_pending st"
    proof (cases rule: ip_limited_cases [of st d cfg m "on_stats (StatsHandler_Stats (dep_stats d))" r w])
      case (limited st1 x)
      then show ?thesis using assms(2) stats(2) by (simp add: same_data_def)
    next
      case (passed st1)
      then show ?thesis
        using assms(2) stats(2) on_stats_frame(2,3) [of "StatsHandler_Stats (dep_stats d)" r st1 w]
        by (simp add: same_data_def)
    qed
    then show ?thesis using idle by simp
  next
    case (lost na h)
    have "st' = fst (snd (guarded d cfg m h r st w))" using assms(2) lost(2) by simp
    then show ?thesis using lost_guarded(1,3) [OF lost(3), where st = st and d = d and r = r] idle [of "w_keys st"] by (auto simp: same_data_def)
  next
    case (lost_stats na)
    have "st' = fst (snd (ip_limited d cfg m (no_route na) r st w))" using assms(2) lost_stats(2) by simp
    then show ?thesis using lost_ip_limited(1,3) [where d = d and st = st and na = na] idle [of "w_keys st"] by (auto simp: same_data_def)
  next
    case (none na)
    then show ?thesis using assms(2) idle [of "w_keys st"] by (auto simp: no_route_def)
  qed
qed

lemma serve_ops:
  assumes "dep_keys d = memory_repo" and "serve d cfg m rt r st w = (f, st', w')"
  shows "(\<exists>ops. w_keys st' = fold exec_op ops (w_keys st) \<and> list_all wf_op ops \<and> list_all fresh_op ops \<and> length ops \<le> 2) \<and>
    (w_pending st' = w_pending st \<or> (\<exists>k. admits d m st r k \<and> w_pending st' = w_pending st @ [ID k]))"
proof (cases rule: serve_cases [of d cfg r w m rt st])
  case (preflight w1 st1)
  then show ?thesis using assms(2) by (auto simp: same_data_def intro!: exI [of _ "[]"])
next
  case (routed w1 f1 st1 w2 st2 w3)
  then have "w_keys st' = w_keys st1" "w_pending st' = w_pending st1" using assms(2) by (auto simp: same_data_def)
  then show ?thesis using route_ops [OF assms(1) routed(2)] by simp
qed

text \<open>
  How store operations that count no use change the stored keys: a key keeps its identity and count and a
  new key starts at zero under an identity not used before.
\<close>

definition descends :: "int \<Rightarrow> ApiKey option \<Rightarrow> ApiKey \<Rightarrow> bool" where
  "descends n old k' = (case old of
     Some k \<Rightarrow> ID k' = ID k \<and> RequestCount k' = RequestCount k \<and> (RevokedAt k \<noteq> None \<longrightarrow> RevokedAt k' \<noteq> None)
   | None \<Rightarrow> n \<le> ID k' \<and> RequestCount k' = 0)"

definition evolves :: "KeyStore \<Rightarrow> KeyStore \<Rightarrow> bool" where
  "evolves s s' \<longleftrightarrow> nextID s \<le> nextID s' \<and> dom (map_of (keys s)) \<subseteq> dom (map_of (keys s')) \<and>
     (\<forall>h k'. map_of (keys s') h = Some k' \<longrightarrow> descends (nextID s) (map_of (keys s) h) k')"

lemma evolves_refl [simp]: "evolves s s"
  by (simp add: evolves_def descends_def)

lemma evolvesD: "evolves s s' \<Longrightarrow> map_of (keys s') h = Some k' \<Longrightarrow> descends (nextID s) (map_of (keys s) h) k'"
  by (simp add: evolves_def)

lemma evolves_trans:
  assumes ab: "evolves a b" and bc: "evolves b c"
  shows "evolves a c"
proof -
  have "descends (nextID a) (map_of (keys a) h) k''" if k'': "map_of (keys c) h = Some k''" for h k''
  proof (cases "map_of (keys b) h")
    case None
    then have "map_of (keys a) h = None" using ab unfolding evolves_def by blast
    moreover have "nextID a \<le> nextID b" using ab by (simp add: evolves_def)
    ultimately show ?thesis using evolvesD [OF bc k''] None by (simp add: descends_def)
  next
    case (Some k')
    show ?thesis using evolvesD [OF bc k''] evolvesD [OF ab Some] Some
      by (auto simp: descends_def split: option.splits)
  qed
  then show ?thesis using ab bc unfolding evolves_def by (meson order_trans)
qed

lemma exec_op_evolves:
  assumes inv: "keystore_inv s" and room: "nextID s < MaxInt64" and fresh: "fresh_op op"
  shows "evolves s (exec_op op s)"
proof (cases op)
  case (OpCreate now key)
  show ?thesis
  proof (cases "map_of (keys s) (KeyHash key)")
    case None
    have "wrap64 (nextID s + 1) = nextID s + 1"
      using inv room by (intro wrap64_id) (auto simp: keystore_inv_def is_int64_def)
    moreover have "RequestCount key = 0" using fresh OpCreate by (simp add: fresh_op_def unstored_def)
    ultimately show ?thesis using OpCreate None
      by (auto simp: evolves_def descends_def KeyStore_Create_new Let_def default_rank_def)
  qed (use OpCreate in \<open>simp add: KeyStore_Create_def\<close>)
next
  case (OpRevoke now i)
  then show ?thesis
    by (rule_tac KeyStore_Revoke_cases [OF inv, of i now]) (auto simp: evolves_def descends_def split: option.splits)
qed (use fresh in \<open>simp add: fresh_op_def\<close>)

lemma fold_exec_evolves:
  assumes "keystore_inv s" and "nextID s + int (length ops) \<le> MaxInt64" and "list_all fresh_op ops"
  shows "evolves s (fold exec_op ops s)"
  using assms
proof (induction ops arbitrary: s)
  case (Cons op ops)
  have room: "nextID s < MaxInt64" using Cons.prems(2) by simp
  have "nextID (exec_op op s) + int (length ops) \<le> MaxInt64"
    using exec_op_nextID [OF Cons.prems(1) room, of op] Cons.prems(2) by simp
  then have "evolves (exec_op op s) (fold exec_op ops (exec_op op s))"
    using Cons.IH exec_op_inv [OF Cons.prems(1) room] Cons.prems(3) by simp
  moreover have "evolves s (exec_op op s)" using exec_op_evolves [OF Cons.prems(1) room] Cons.prems(3) by simp
  ultimately show ?case using evolves_trans by auto
qed simp

lemma serve_evolves:
  assumes "dep_keys d = memory_repo" and "serve d cfg m rt r st w = (f, st', w')"
    and "keystore_inv (w_keys st)" and "nextID (w_keys st) + 2 \<le> MaxInt64"
  shows "keystore_inv (w_keys st') \<and> nextID (w_keys st') \<le> nextID (w_keys st) + 2 \<and> evolves (w_keys st) (w_keys st')"
proof -
  obtain ops where ops: "w_keys st' = fold exec_op ops (w_keys st)" "list_all fresh_op ops" "length ops \<le> 2"
    using serve_ops [OF assms(1,2)] by blast
  have "nextID (w_keys st) + int (length ops) \<le> MaxInt64" using assms(4) ops(3) by linarith
  with fold_exec_inv [OF assms(3) this] fold_exec_evolves [OF assms(3) this ops(2)] ops show ?thesis by auto
qed

text \<open>The invariant of a run: the store is consistent and pending recorders refer to assigned identities.\<close>

definition world_inv :: "(KeyStore, 't, 'u, 'l) world \<Rightarrow> bool" where
  "world_inv st \<longleftrightarrow> keystore_inv (w_keys st) \<and> (\<forall>i \<in> set (w_pending st). i < nextID (w_keys st))"

lemma admits_stored:
  assumes "dep_keys d = memory_repo" and "admits d m st r k"
  shows "map_of (keys (w_keys st)) (Hash (Header_Get r ''X-Api-Key'')) = Some k"
  using assms by (auto simp: admits_def KeyStore_GetByHash_def split: option.splits)

text \<open>
  What a step of the system does to the keys and the recorders, whether requests are served one after the
  other or step by step: a request adds or revokes keys and may start recorders of assigned identities, a recorder
  counts one use. What follows about the keys of a run is proved from this alone.
\<close>

inductive change :: "(KeyStore, 't, 'u, 'l) world \<Rightarrow> int list \<Rightarrow> (KeyStore, 't, 'u, 'l) world \<Rightarrow> bool" where
  change_request: "evolves (w_keys st) (w_keys st') \<Longrightarrow> w_pending st' = w_pending st @ js \<Longrightarrow> world_inv st' \<Longrightarrow>
     nextID (w_keys st') \<le> nextID (w_keys st) + 2 \<Longrightarrow> \<forall>i \<in> set js. i < nextID (w_keys st) \<Longrightarrow> change st js st'"
| change_touch: "w_pending st = before @ i # after \<Longrightarrow> w_pending st' = before @ after \<Longrightarrow>
     w_keys st' = snd (KeyStore_Touch now i (w_keys st)) \<Longrightarrow> world_inv st' \<Longrightarrow>
     nextID (w_keys st') = nextID (w_keys st) \<Longrightarrow> change st [] st'"

inductive changes :: "nat \<Rightarrow> (KeyStore, 't, 'u, 'l) world \<Rightarrow> int list \<Rightarrow> (KeyStore, 't, 'u, 'l) world \<Rightarrow> bool" where
  changes_refl: "changes 0 st [] st"
| changes_step: "changes n st is st' \<Longrightarrow> change st' js st'' \<Longrightarrow> changes (Suc n) st (is @ js) st''"

lemma Touch_world:
  assumes "world_inv st" and "w_pending st = before @ i # after" and "w_pending st' = before @ after"
    and "w_keys st' = snd (KeyStore_Touch now i (w_keys st))"
  shows "change st [] st'"
proof -
  have "keystore_inv (snd (KeyStore_Touch now i (w_keys st)))"
    using mks.touch_inv assms(1) by (simp add: world_inv_def)
  moreover have "nextID (snd (KeyStore_Touch now i (w_keys st))) = nextID (w_keys st)"
    by (simp add: KeyStore_Touch_def split: option.splits)
  ultimately show ?thesis
    using change_touch [OF assms(2,3,4)] assms by (auto simp: world_inv_def)
qed

lemma step_change:
  assumes mem: "dep_keys d = memory_repo" and "step d cfg st js st'" and inv: "world_inv st"
    and room: "nextID (w_keys st) + 2 \<le> MaxInt64"
  shows "change st js st'"
  using assms(2)
proof (cases rule: step.cases)
  case (step_serve m rt r f w')
  have ev: "keystore_inv (w_keys st')" "nextID (w_keys st') \<le> nextID (w_keys st) + 2" "evolves (w_keys st) (w_keys st')"
    using serve_evolves [OF mem step_serve(2) _ room] inv by (simp_all add: world_inv_def)
  have le: "nextID (w_keys st) \<le> nextID (w_keys st')" using ev(3) by (simp add: evolves_def)
  have pend: "w_pending st' = w_pending st \<or> (\<exists>k. admits d m st r k \<and> w_pending st' = w_pending st @ [ID k])"
    using serve_ops [OF mem step_serve(2)] by blast
  have app: "w_pending st' = w_pending st @ js" using serve_pending [OF step_serve(2)] step_serve(1) by simp
  have js: "\<forall>i \<in> set js. i < nextID (w_keys st)"
  proof
    fix i
    assume "i \<in> set js"
    then obtain k where "admits d m st r k" "i = ID k" using pend app by auto
    then show "i < nextID (w_keys st)"
      using admits_stored [OF mem] keystore_invD(4) inv by (fastforce simp: world_inv_def)
  qed
  have "world_inv st'" using ev(1) le inv app js by (fastforce simp: world_inv_def)
  with change_request [OF ev(3) app] ev(2) js show ?thesis by blast
next
  case (step_touch before i after now)
  then show ?thesis using Touch_world [OF inv, of before i after st' now] mem by (simp add: touchAsync_def)
qed

lemma Touch_dom:
  assumes "keystore_inv s"
  shows "dom (map_of (keys (snd (KeyStore_Touch now i s)))) = dom (map_of (keys s))"
  by (rule KeyStore_Touch_cases [OF assms, of i now]) auto

lemma change_world:
  assumes "change st js st'" and "world_inv st"
  shows "world_inv st' \<and> nextID (w_keys st') \<le> nextID (w_keys st) + 2 \<and> nextID (w_keys st) \<le> nextID (w_keys st') \<and>
    (\<forall>i \<in> set js. i < nextID (w_keys st')) \<and> dom (map_of (keys (w_keys st))) \<subseteq> dom (map_of (keys (w_keys st')))"
  using assms(1)
proof cases
  case change_request
  then show ?thesis by (force simp: evolves_def)
next
  case (change_touch before i after now)
  then show ?thesis using Touch_dom [of "w_keys st" now i] assms(2) by (simp add: world_inv_def)
qed

lemma changes_world:
  assumes "changes n st is st'" and "world_inv st"
  shows "world_inv st' \<and> nextID (w_keys st') \<le> nextID (w_keys st) + 2 * int n \<and>
    nextID (w_keys st) \<le> nextID (w_keys st') \<and> (\<forall>i \<in> set is. i < nextID (w_keys st')) \<and>
    dom (map_of (keys (w_keys st))) \<subseteq> dom (map_of (keys (w_keys st')))"
  using assms
proof (induction rule: changes.induct)
  case (changes_step n st "is" st' js st'')
  then have IH: "world_inv st'" "nextID (w_keys st') \<le> nextID (w_keys st) + 2 * int n" "nextID (w_keys st) \<le> nextID (w_keys st')"
    "\<forall>i \<in> set is. i < nextID (w_keys st')" "dom (map_of (keys (w_keys st))) \<subseteq> dom (map_of (keys (w_keys st')))" by auto
  have w: "world_inv st''" "nextID (w_keys st'') \<le> nextID (w_keys st') + 2" "nextID (w_keys st') \<le> nextID (w_keys st'')"
    "\<forall>i \<in> set js. i < nextID (w_keys st'')" "dom (map_of (keys (w_keys st'))) \<subseteq> dom (map_of (keys (w_keys st'')))"
    using change_world [OF changes_step.hyps(2) IH(1)] by auto
  have "\<forall>i \<in> set (is @ js). i < nextID (w_keys st'')" using IH(4) w(3,4) by (auto intro: less_le_trans)
  moreover have "nextID (w_keys st'') \<le> nextID (w_keys st) + 2 * int (Suc n)" using IH(2) w(2) by simp
  ultimately show ?case using w(1) IH(3) w(3) subset_trans [OF IH(5) w(5)] by simp
qed simp

lemma run_changes:
  assumes "run d cfg n st is st'" and "dep_keys d = memory_repo" and "world_inv st"
    and "nextID (w_keys st) + 2 * int n \<le> MaxInt64"
  shows "changes n st is st'"
  using assms
proof (induction rule: run.induct)
  case (run_step n st "is" st' js st'')
  have ch: "changes n st is st'" using run_step.IH [OF run_step.prems(1,2)] run_step.prems(3) by simp
  have inv: "world_inv st'" "nextID (w_keys st') \<le> nextID (w_keys st) + 2 * int n"
    using changes_world [OF ch run_step.prems(2)] by auto
  have "nextID (w_keys st') + 2 \<le> MaxInt64" using inv(2) run_step.prems(3) by simp
  from changes_step [OF ch step_change [OF run_step.prems(1) run_step.hyps(2) inv(1) this]] show ?case .
qed (rule changes_refl)

section \<open>Revocation is final\<close>

definition revoked :: "string \<Rightarrow> KeyStore \<Rightarrow> bool" where
  "revoked h s \<longleftrightarrow> (\<exists>k. map_of (keys s) h = Some k \<and> RevokedAt k \<noteq> None)"

lemma revoked_evolves:
  assumes "revoked h s" and "evolves s s'"
  shows "revoked h s'"
proof -
  obtain k where k: "map_of (keys s) h = Some k" "RevokedAt k \<noteq> None" using assms(1) by (auto simp: revoked_def)
  then obtain k' where "map_of (keys s') h = Some k'" using assms(2) unfolding evolves_def by blast
  with evolvesD [OF assms(2) this] k show ?thesis by (simp add: descends_def revoked_def)
qed

lemma revoked_touch:
  assumes "revoked h s" and "keystore_inv s"
  shows "revoked h (snd (KeyStore_Touch now i s))"
  using assms KeyStore_Touch_at [OF assms(2)] by (fastforce simp: revoked_def)

lemma change_revoked:
  assumes "change st js st'" and "world_inv st" and "revoked h (w_keys st)"
  shows "revoked h (w_keys st')"
  using assms(1)
proof cases
  case change_request
  then show ?thesis using revoked_evolves assms(3) by blast
next
  case (change_touch before i after now)
  then show ?thesis using revoked_touch assms(2,3) by (simp add: world_inv_def)
qed

lemma changes_revoked:
  assumes "changes n st is st'" and "world_inv st" and "revoked h (w_keys st)"
  shows "revoked h (w_keys st')"
  using assms
proof (induction rule: changes.induct)
  case (changes_step n st "is" st' js st'')
  then have "world_inv st'" using changes_world by blast
  with changes_step show ?case using change_revoked by blast
qed simp

text \<open>
  A revoked key is locked out for good. Once the store holds a key as revoked, in every later state of the
  system, after any number of requests and usage recordings in any order, a request that presents that key
  neither changes the key store nor reaches the upstream nor gets key or upstream data back.
\<close>

theorem revoked_key_locked_out:
  assumes "dep_keys d = memory_repo" and "mw_law d" and "world_inv st"
    and "run d cfg n st is st'" and "nextID (w_keys st) + 2 * int n \<le> MaxInt64"
    and "revoked (Hash (Header_Get r ''X-Api-Key'')) (w_keys st)"
    and "serve d cfg m rt r st' new_writer = (f, st'', w')"
  shows "w_keys st'' = w_keys st' \<and> w_net st'' = w_net st' \<and> \<not> discloses key_data w' \<and> \<not> discloses tw_data w'"
proof -
  have "revoked (Hash (Header_Get r ''X-Api-Key'')) (w_keys st')"
    using changes_revoked [OF run_changes [OF assms(4,1,3,5)] assms(3,6)] .
  moreover have "RevokedAt k = None" if "admits d m st' r k" for k using that by (simp add: admits_def)
  ultimately have "\<not> admits d m st' r k" for k
    using admits_stored [OF assms(1), of m st' r k] unfolding revoked_def by (metis option.inject)
  then show ?thesis using keys_mediated_aux [OF assms(2,7)] tw_mediated_aux [OF assms(2,7)] by blast
qed

section \<open>Usage counts\<close>

text \<open>The uses of a key that have been admitted: those counted already and those whose recorder is pending.\<close>

definition uses :: "(KeyStore, 't, 'u, 'l) world \<Rightarrow> ApiKey \<Rightarrow> int" where
  "uses st k = RequestCount k + int (count_list (w_pending st) (ID k))"

definition uses_before :: "(KeyStore, 't, 'u, 'l) world \<Rightarrow> string \<Rightarrow> int" where
  "uses_before st h = (case map_of (keys (w_keys st)) h of Some k \<Rightarrow> uses st k | None \<Rightarrow> 0)"

lemma count_list_fresh: "(\<And>i. i \<in> set xs \<Longrightarrow> i < n) \<Longrightarrow> n \<le> (j :: int) \<Longrightarrow> count_list xs j = 0"
  by (intro count_notin) fastforce

lemma uses_serve:
  assumes ev: "evolves (w_keys st) (w_keys st')" and p: "w_pending st' = w_pending st @ js"
    and inv: "world_inv st" and js: "\<forall>i \<in> set js. i < nextID (w_keys st)"
    and k': "map_of (keys (w_keys st')) h = Some k'"
  shows "uses st' k' = uses_before st h + int (count_list js (ID k'))"
    and "map_of (keys (w_keys st)) h = None \<Longrightarrow> nextID (w_keys st) \<le> ID k'"
    and "map_of (keys (w_keys st)) h = Some k \<Longrightarrow> ID k' = ID k \<and> RequestCount k' = RequestCount k"
  using evolvesD [OF ev k'] p inv count_list_fresh [of "w_pending st" "nextID (w_keys st)" "ID k'"]
    count_list_fresh [of js "nextID (w_keys st)" "ID k'"] js
  by (auto simp: descends_def uses_def uses_before_def world_inv_def split: option.splits)

lemma uses_touch:
  assumes inv: "keystore_inv s" and k: "map_of (keys s) h = Some k" and small: "0 \<le> RequestCount k" "RequestCount k < MaxInt64 \<or> i \<noteq> ID k"
  shows "\<exists>k'. map_of (keys (snd (KeyStore_Touch now i s))) h = Some k' \<and> ID k' = ID k \<and>
    RequestCount k' = RequestCount k + (if i = ID k then 1 else 0)"
  using KeyStore_Touch_at [OF inv k, of now i] small by (auto simp: is_int64_def)

lemma changes_uses:
  assumes "changes n st is st'" and "world_inv st"
    and "\<forall>h. 0 \<le> uses_before st h \<and> uses_before st h + int (length is) \<le> MaxInt64"
    and "\<forall>k \<in> ran (map_of (keys (w_keys st))). 0 \<le> RequestCount k"
    and "map_of (keys (w_keys st')) h = Some k'"
  shows "0 \<le> RequestCount k' \<and> uses st' k' = uses_before st h + int (count_list is (ID k'))"
  using assms
proof (induction arbitrary: h k' rule: changes.induct)
  case (changes_refl st)
  then show ?case by (auto simp: uses_before_def ran_def)
next
  case (changes_step n st "is" st' js st'')
  have bound: "\<forall>h. 0 \<le> uses_before st h \<and> uses_before st h + int (length is) \<le> MaxInt64"
  proof
    fix h
    show "0 \<le> uses_before st h \<and> uses_before st h + int (length is) \<le> MaxInt64"
      using changes_step.prems(2) [rule_format, of h] by simp
  qed
  have w: "world_inv st'" "\<forall>i \<in> set is. i < nextID (w_keys st')" "dom (map_of (keys (w_keys st))) \<subseteq> dom (map_of (keys (w_keys st')))"
    using changes_world [OF changes_step.hyps(1) changes_step.prems(1)] by auto
  have IH: "0 \<le> RequestCount k \<and> uses st' k = uses_before st h + int (count_list is (ID k))"
    if "map_of (keys (w_keys st')) h = Some k" for h k
    using changes_step.IH [OF changes_step.prems(1) bound changes_step.prems(3) that] .
  show ?case
    using changes_step.hyps(2)
  proof cases
    case change_request
    note us = uses_serve [OF change_request(1,2) w(1) change_request(5) changes_step.prems(4)]
    show ?thesis
    proof (cases "map_of (keys (w_keys st')) h")
      case None
      then have "map_of (keys (w_keys st)) h = None" using w(3) by blast
      then have "uses_before st h = 0" by (simp add: uses_before_def)
      moreover have "uses_before st' h = 0" using None by (simp add: uses_before_def)
      moreover have "count_list is (ID k') = 0" using us(2) [OF None] w(2) count_list_fresh by blast
      moreover have "0 \<le> RequestCount k'" using evolvesD [OF change_request(1) changes_step.prems(4)] None by (simp add: descends_def)
      ultimately show ?thesis using us(1) by simp
    next
      case (Some k)
      then show ?thesis using us(1) us(3) [OF Some] IH [OF Some] by (simp add: uses_before_def)
    qed
  next
    case (change_touch before i after now)
    have kinv: "keystore_inv (w_keys st')" using w(1) by (simp add: world_inv_def)
    have "h \<in> dom (map_of (keys (w_keys st')))"
      using Touch_dom [OF kinv, of now i] changes_step.prems(4) change_touch(4) by auto
    then obtain k where k: "map_of (keys (w_keys st')) h = Some k" by blast
    have "int (count_list is (ID k)) \<le> int (length is)" by (simp add: count_le_length)
    then have "uses st' k \<le> MaxInt64" using IH [OF k] bound by (metis add_left_mono order_trans)
    then have "RequestCount k < MaxInt64 \<or> i \<noteq> ID k" using change_touch(2) by (auto simp: uses_def)
    from uses_touch [OF kinv k _ this, of now] IH [OF k]
    have "ID k' = ID k" "RequestCount k' = RequestCount k + (if i = ID k then 1 else 0)"
      using changes_step.prems(4) change_touch(4) by auto
    then show ?thesis using IH [OF k] change_touch(1,2,3) by (cases "i = ID k") (simp_all add: uses_def)
  qed
qed

text \<open>
  Usage counts are exact in spite of their asynchronous recording. Over any run of the system (requests
  and recorders interleaved in any order), the use count of a stored key plus its recorders still pending
  equals what they were at the start plus the number of requests authenticated with that key since (on a
  protected route and within the limit of their client address; a later refusal by rank limit or
  scope does not matter); keys created on the way start at zero. In particular, once no recorder is pending
  the count is exact.
\<close>

theorem usage_counts_exact:
  assumes "run d cfg n st is st'" and "dep_keys d = memory_repo" and "world_inv st"
    and "nextID (w_keys st) + 2 * int n \<le> MaxInt64"
    and "\<forall>h. 0 \<le> uses_before st h \<and> uses_before st h + int (length is) \<le> MaxInt64"
    and "\<forall>k \<in> ran (map_of (keys (w_keys st))). 0 \<le> RequestCount k"
    and "map_of (keys (w_keys st')) h = Some k'"
  shows "RequestCount k' + int (count_list (w_pending st') (ID k')) = uses_before st h + int (count_list is (ID k'))"
  using changes_uses [OF run_changes [OF assms(1-4)] assms(3,5-7)] by (simp add: uses_def)

text \<open>A recorder that has been started runs, on its own.\<close>

definition records :: "('k, 't, 'u, 'l, 'e) deps \<Rightarrow> ('k, 't, 'u, 'l) world \<Rightarrow> ('k, 't, 'u, 'l) world \<Rightarrow> bool" where
  "records d st st' \<longleftrightarrow> (\<exists>before i after now. w_pending st = before @ i # after \<and>
     st' = st\<lparr>w_keys := touchAsync (dep_keys d) now i (w_keys st), w_pending := before @ after\<rparr>)"

lemma records_shrink: "records d st st' \<Longrightarrow> length (w_pending st) = Suc (length (w_pending st'))"
  by (auto simp: records_def)

lemma records_possible: "(\<exists>st'. records d st st') \<longleftrightarrow> w_pending st \<noteq> []"
proof
  show "\<exists>st'. records d st st'" if "w_pending st \<noteq> []"
  proof -
    have "w_pending st = [] @ hd (w_pending st) # tl (w_pending st)" using that by simp
    then show ?thesis unfolding records_def by blast
  qed
qed (auto simp: records_def)

lemma records_wf: "wf {(st', st). records d st st'}"
  by (rule wf_subset [OF wf_measure [of "\<lambda>st. length (w_pending st)"]]) (auto dest: records_shrink)

lemma records_run:
  assumes "(records d)\<^sup>*\<^sup>* st st'"
  shows "\<exists>n. run d cfg n st [] st' \<and> n + length (w_pending st') = length (w_pending st)"
  using assms
proof (induction rule: rtranclp_induct)
  case base
  show ?case using run_refl by fastforce
next
  case (step y z)
  then obtain n where n: "run d cfg n st [] y" "n + length (w_pending y) = length (w_pending st)" by blast
  have "Server.step d cfg y [] z" using step.hyps(2) by (auto simp: records_def intro: step_touch)
  from run_step [OF n(1) this] have "run d cfg (Suc n) st [] z" by simp
  moreover have "Suc n + length (w_pending z) = length (w_pending st)" using n(2) records_shrink [OF step.hyps(2)] by simp
  ultimately show ?case by blast
qed

text \<open>
  The asynchronous usage recorders drain: they cannot run forever, a state in which none can run has none
  pending, and then every key's count has caught up: it is the count at the start plus the uses that were
  still to be recorded, in whatever order the recorders ran.
\<close>

theorem recorders_drain:
  assumes "dep_keys d = memory_repo" and "world_inv st"
    and "nextID (w_keys st) + 2 * int (length (w_pending st)) \<le> MaxInt64"
    and "\<forall>h. 0 \<le> uses_before st h \<and> uses_before st h \<le> MaxInt64"
    and "\<forall>k \<in> ran (map_of (keys (w_keys st))). 0 \<le> RequestCount k"
  shows "wf {(y, x). records d x y} \<and>
    (\<forall>st'. (records d)\<^sup>*\<^sup>* st st' \<and> \<not> (\<exists>x. records d st' x) \<longrightarrow> w_pending st' = [] \<and>
       (\<forall>h k. map_of (keys (w_keys st')) h = Some k \<longrightarrow> RequestCount k = uses_before st h))"
proof (intro conjI allI impI records_wf; elim conjE)
  fix st'
  assume star: "(records d)\<^sup>*\<^sup>* st st'" and stuck: "\<not> (\<exists>x. records d st' x)"
  show empty: "w_pending st' = []" using stuck records_possible by blast
  fix h k and cfg :: Config
  assume k: "map_of (keys (w_keys st')) h = Some k"
  obtain n where n: "run d cfg n st [] st'" "n + length (w_pending st') = length (w_pending st)"
    using records_run [OF star] by blast
  have "changes n st [] st'" using run_changes [OF n(1) assms(1,2)] assms(3) n(2) empty by simp
  from changes_uses [OF this assms(2) _ assms(5) k] assms(4) empty
  show "RequestCount k = uses_before st h" by (simp add: uses_def)
qed

section \<open>A small instance\<close>

text \<open>A server on the in-memory backends with one stored admin key, which lacks the \<^verbatim>\<open>tw\<close> scope.\<close>

definition seed_key :: ApiKey where
  "seed_key = (sample_key (Hash ''seed''))\<lparr>ID := 1, Scopes := [''admin'']\<rparr>"

definition sample_deps :: "(KeyStore, StatsStore, http_request list, MemoryLimiter, range_order \<times> time \<times> time) deps" where
  "sample_deps = \<lparr>dep_keys = memory_repo, dep_stats = memory_stats, dep_allow = allow_at, dep_net = sample_net,
     dep_decode_key = sample_decoder,
     dep_decode_tw = \<lparr>Decode = \<lambda>b. Inr (sample_redeem, b), Decode_empty = \<lambda>b. Inl (Sentinel EOF)\<rparr>,
     dep_cors = \<lambda>_ r w. (True, w), dep_timeout = \<lambda>_ w. w\<rparr>"

definition sample_cfg :: Config where
  "sample_cfg = default_config\<lparr>RateLimitEnabled := False, RateLimitIPEnabled := False\<rparr>"

definition sample_world :: "(KeyStore, StatsStore, http_request list, MemoryLimiter) world" where
  "sample_world = \<lparr>w_keys = \<lparr>keys = [(Hash ''seed'', seed_key)], byID = [(1, Hash ''seed'')], nextID = 2\<rparr>,
     w_stats = NewStatsStore, w_net = [], w_member = NewMemory 60 60, w_partner = NewMemory 60 60, w_ip = NewMemory 60 60,
     w_pending = [], w_log = []\<rparr>"

definition sample_moment :: "(range_order \<times> time \<times> time) moment" where
  "sample_moment = \<lparr>m_ip = (\<lambda>x. x, 5, 5), m_auth = 5, m_key = (\<lambda>x. x, 5, 5), m_readings = sample_readings\<rparr>"

definition sample_auth :: request where
  "sample_auth = sample_get\<lparr>Header := [(''X-Api-Key'', [''seed''])]\<rparr>"

lemma sample_deps_simps [simp]:
  "dep_keys sample_deps = memory_repo" "dep_stats sample_deps = memory_stats" "dep_net sample_deps = sample_net"
  "dep_cors sample_deps opts r w = (True, w)" "dep_timeout sample_deps t w = w"
  by (simp_all add: sample_deps_def)

lemma sample_law: "mw_law sample_deps"
  by (simp add: mw_law_def)

lemma sample_admits: "admits sample_deps m sample_world sample_auth seed_key"
  by (simp add: admits_def sample_world_def sample_auth_def Header_Get_def KeyStore_GetByHash_def
      seed_key_def sample_key_def)

lemma sample_guarded:
  "guarded sample_deps sample_cfg m next sample_auth sample_world w =
     next (sample_auth\<lparr>ctx_api_key := Some seed_key\<rparr>) (sample_world\<lparr>w_pending := [1]\<rparr>) w"
  using sample_admits [of m]
  by (auto simp: guarded_def ip_limited_def key_limited_def sample_cfg_def authenticated_def Auth_def admits_def Let_def
      seed_key_def sample_world_def split: option.splits)

lemma sample_route:
  "route_handler sample_deps sample_cfg m KeysList sample_auth sample_world w =
     (Returned, sample_world\<lparr>w_pending := [1]\<rparr>, response_JSON 200 (KeyViews [viewFrom seed_key []]) w)"
proof -
  have "KeyHandler_List memory_repo r (w_keys sample_world) w =
      (Returned, w_keys sample_world, response_JSON 200 (KeyViews [viewFrom seed_key []]) w)" for r
    by (simp add: KeyHandler_List_def ListKeys_def KeyStore_List_def sample_world_def)
  moreover have "hasScope (Scopes seed_key) ''admin''" by (simp add: seed_key_def hasScope_iff)
  ultimately show ?thesis
    by (simp add: route_handler_def sample_guarded RequireScope_def on_keys_def Let_def)
qed

lemma sample_serve:
  "\<exists>x w'. serve sample_deps sample_cfg sample_moment KeysList sample_auth sample_world new_writer =
     (Returned, sample_world\<lparr>w_pending := [1], w_log := x\<rparr>, w') \<and> discloses key_data w'"
  by (simp add: serve_def Logging_def Recover_def CORS_def SecurityHeaders_def Timeout_def sample_route logger_def Let_def)
    blast

theorem keys_mediated_witness:
  "\<exists>k. admits sample_deps sample_moment sample_world sample_auth k \<and> ''admin'' \<in> set (Scopes k)"
proof -
  obtain st' w' where "serve sample_deps sample_cfg sample_moment KeysList sample_auth sample_world new_writer =
      (Returned, st', w')" "discloses key_data w'"
    using sample_serve by blast
  with keys_mediated [OF sample_law this(1)] show ?thesis by blast
qed

theorem serve_answers_securely_witness:
  "\<exists>st' w' c hs. serve sample_deps sample_cfg sample_moment KeysList sample_auth sample_world new_writer =
     (Returned, st', w') \<and> W_Wrote w' = Some (c, hs) \<and> has_security hs"
  using serve_answers_securely [OF sample_law, of sample_cfg sample_moment KeysList sample_auth sample_world]
  by (simp only: sample_deps_simps fst_conv simp_thms) blast

text \<open>The key without the \<^verbatim>\<open>tw\<close> scope redeems.\<close>

lemma sample_path:
  "pathParam (sample_auth\<lparr>ctx_api_key := x\<rparr>) ''phone'' = Inr ''0812345678''"
  "pathParam (sample_auth\<lparr>ctx_api_key := x\<rparr>) ''gift'' = Inr ''0123456789abcdefghij''"
proof -
  have "pathParam sample_get ''phone'' = Inr ''0812345678''" "pathParam sample_get ''gift'' = Inr ''0123456789abcdefghij''"
    by code_simp+
  then show "pathParam (sample_auth\<lparr>ctx_api_key := x\<rparr>) ''phone'' = Inr ''0812345678''"
    "pathParam (sample_auth\<lparr>ctx_api_key := x\<rparr>) ''gift'' = Inr ''0123456789abcdefghij''"
    by (simp_all add: sample_auth_def pathParam_def URLParam_def)
qed

lemma sample_tw_service:
  assumes "w_net st = []"
  shows "\<exists>hr t. tw_service sample_deps sample_cfg \<lparr>Phone = ''0812345678'', Gift = ''0123456789abcdefghij''\<rparr> st =
    (Inr \<lparr>Data = ''SUCCESS'', Amount = ''10.00'', Ref = ''v1''\<rparr>, st\<lparr>w_net := [hr], w_stats := t\<rparr>)"
proof -
  have req: "\<lparr>Phone = ''0812345678'', Gift = ''0123456789abcdefghij''\<rparr> = sample_redeem" by (simp add: sample_redeem_def)
  obtain hr where "Client_Redeem (NewClient (TrueMoneyBaseURL sample_cfg) (TrueMoneyTimeout sample_cfg)) sample_net sample_redeem [] =
      (Inr \<lparr>Data = ''SUCCESS'', Amount = ''10.00'', Ref = ''v1''\<rparr>, [hr])"
    using sample_call [of _ "[]"] by auto
  moreover have "ipv6_literal sample_net = (\<lambda>_. False)" by (simp add: sample_net_def)
  ultimately show ?thesis
    unfolding req using sample_redeem_valid assms
    by (auto simp: tw_service_def TwService_Redeem_def Coalesced_Redeem_eq callers_def Let_def)
qed

lemma sample_redeems:
  "\<exists>st' w' hr. serve sample_deps sample_cfg sample_moment TwGet sample_auth sample_world new_writer = (Returned, st', w') \<and>
     w_net st' = [hr] \<and> discloses tw_data w' \<and> w_net sample_world = [] \<and> ''tw'' \<notin> set (Scopes seed_key)"
proof -
  obtain hr t where svc: "tw_service sample_deps sample_cfg \<lparr>Phone = ''0812345678'', Gift = ''0123456789abcdefghij''\<rparr>
      (sample_world\<lparr>w_pending := [1]\<rparr>) = (Inr \<lparr>Data = ''SUCCESS'', Amount = ''10.00'', Ref = ''v1''\<rparr>,
      sample_world\<lparr>w_pending := [1], w_net := [hr], w_stats := t\<rparr>)"
    using sample_tw_service [of "sample_world\<lparr>w_pending := [1]\<rparr>"] by (auto simp: sample_world_def)
  have "route_handler sample_deps sample_cfg m TwGet sample_auth sample_world w =
    (Returned, sample_world\<lparr>w_pending := [1], w_net := [hr], w_stats := t\<rparr>, response_JSON 200 (RawJSON ''SUCCESS'') w)" for m w
    by (simp add: route_handler_def sample_guarded RedeemGet_def sample_path svc Let_def)
  then show ?thesis
    by (simp add: serve_def Logging_def Recover_def CORS_def SecurityHeaders_def Timeout_def logger_def Let_def)
      (simp add: sample_world_def seed_key_def)
qed

theorem tw_mediated_witness: "\<exists>k. admits sample_deps sample_moment sample_world sample_auth k"
proof -
  obtain st' w' hr where "serve sample_deps sample_cfg sample_moment TwGet sample_auth sample_world new_writer = (Returned, st', w')"
    "w_net st' = [hr]" "w_net sample_world = []"
    using sample_redeems by blast
  with tw_mediated [OF sample_law this(1)] show ?thesis by auto
qed

lemma sample_inv: "world_inv sample_world"
  by (simp add: world_inv_def sample_world_def keystore_inv_def seed_key_def sample_key_def)

lemma sample_uses: "key_uses sample_deps sample_cfg sample_moment KeysList sample_auth sample_world = [1]"
  using admitted_ids_iff(1) [OF sample_admits, of sample_moment]
  by (simp add: key_uses_def sample_cfg_def authenticated_route_def) (simp add: seed_key_def)

lemma sample_run: "\<exists>x. run sample_deps sample_cfg 1 sample_world [1] (sample_world\<lparr>w_pending := [1], w_log := x\<rparr>)"
proof -
  obtain x w' where "serve sample_deps sample_cfg sample_moment KeysList sample_auth sample_world new_writer =
     (Returned, sample_world\<lparr>w_pending := [1], w_log := x\<rparr>, w')"
    using sample_serve by blast
  from step_serve [OF this]
  have "step sample_deps sample_cfg sample_world [1] (sample_world\<lparr>w_pending := [1], w_log := x\<rparr>)"
    unfolding sample_uses by (simp add: sample_auth_def sample_get_def)
  from run_step [OF run_refl this] show ?thesis by auto
qed

theorem usage_counts_exact_witness:
  "\<exists>st'. run sample_deps sample_cfg 1 sample_world [1] st' \<and>
     RequestCount seed_key + int (count_list (w_pending st') (ID seed_key)) = 1"
proof -
  obtain x where run: "run sample_deps sample_cfg 1 sample_world [1] (sample_world\<lparr>w_pending := [1], w_log := x\<rparr>)"
    using sample_run by blast
  have "nextID (w_keys sample_world) + 2 * int 1 \<le> MaxInt64"
    "\<forall>h. 0 \<le> uses_before sample_world h \<and> uses_before sample_world h + int (length [1 :: int]) \<le> MaxInt64"
    "\<forall>k \<in> ran (map_of (keys (w_keys sample_world))). 0 \<le> RequestCount k"
    "map_of (keys (w_keys (sample_world\<lparr>w_pending := [1], w_log := x\<rparr>))) (Hash ''seed'') = Some seed_key"
    by (auto simp: uses_before_def uses_def sample_world_def seed_key_def sample_key_def ran_def split: if_splits)
  from usage_counts_exact [OF run _ sample_inv this] run show ?thesis
    by (auto simp: uses_before_def uses_def sample_world_def seed_key_def sample_key_def)
qed

theorem revoked_key_locked_out_witness:
  "let st = sample_world\<lparr>w_keys := \<lparr>keys = [(Hash ''seed'', seed_key\<lparr>RevokedAt := Some 3\<rparr>)], byID = [(1, Hash ''seed'')], nextID = 2\<rparr>\<rparr>
   in w_keys (fst (snd (serve sample_deps sample_cfg sample_moment KeysCreate sample_auth st new_writer))) = w_keys st"
proof -
  let ?st = "sample_world\<lparr>w_keys := \<lparr>keys = [(Hash ''seed'', seed_key\<lparr>RevokedAt := Some 3\<rparr>)], byID = [(1, Hash ''seed'')], nextID = 2\<rparr>\<rparr>"
  have inv: "world_inv ?st" by (simp add: world_inv_def sample_world_def keystore_inv_def seed_key_def sample_key_def)
  have rv: "revoked (Hash (Header_Get sample_auth ''X-Api-Key'')) (w_keys ?st)"
    by (simp add: revoked_def sample_auth_def Header_Get_def)
  obtain f st'' w' where sv: "serve sample_deps sample_cfg sample_moment KeysCreate sample_auth ?st new_writer = (f, st'', w')"
    by (metis prod.exhaust)
  from revoked_key_locked_out [OF _ sample_law inv run_refl _ rv sv] sv show ?thesis by simp
qed

theorem recorders_drain_witness:
  "\<exists>st' k. (records sample_deps)\<^sup>*\<^sup>* (sample_world\<lparr>w_pending := [1, 1]\<rparr>) st' \<and> w_pending st' = [] \<and>
     map_of (keys (w_keys st')) (Hash ''seed'') = Some k \<and> RequestCount k = 2"
proof -
  let ?st = "sample_world\<lparr>w_pending := [1, 1]\<rparr>"
  let ?w = "\<lambda>st ps. st\<lparr>w_keys := touchAsync (dep_keys sample_deps) 5 1 (w_keys st), w_pending := ps\<rparr>"
  have "records sample_deps ?st (?w ?st [1])" unfolding records_def by (intro exI [of _ "[]"] exI) auto
  moreover have "records sample_deps (?w ?st [1]) (?w (?w ?st [1]) [])" unfolding records_def by (intro exI [of _ "[]"] exI) auto
  ultimately have star: "(records sample_deps)\<^sup>*\<^sup>* ?st (?w (?w ?st [1]) [])" by simp
  have stuck: "\<not> (\<exists>x. records sample_deps (?w (?w ?st [1]) []) x)" by (simp add: records_possible)
  have hyps: "world_inv ?st" "nextID (w_keys ?st) + 2 * int (length (w_pending ?st)) \<le> MaxInt64"
    "\<forall>h. 0 \<le> uses_before ?st h \<and> uses_before ?st h \<le> MaxInt64" "\<forall>k \<in> ran (map_of (keys (w_keys ?st))). 0 \<le> RequestCount k"
    by (auto simp: world_inv_def keystore_inv_def uses_before_def uses_def sample_world_def seed_key_def sample_key_def ran_def
        split: if_splits)
  have "\<forall>h k. map_of (keys (w_keys (?w (?w ?st [1]) []))) h = Some k \<longrightarrow> RequestCount k = uses_before ?st h"
    using recorders_drain [OF sample_deps_simps(1) hyps] star stuck by blast
  moreover have "\<exists>k. map_of (keys (w_keys (?w (?w ?st [1]) []))) (Hash ''seed'') = Some k"
    by (simp add: sample_world_def touchAsync_def KeyStore_Touch_def)
  moreover have "uses_before ?st (Hash ''seed'') = 2"
    by (simp add: uses_before_def uses_def sample_world_def seed_key_def sample_key_def)
  ultimately show ?thesis using star by fastforce
qed

end
