(* ===== verification/Redislimit.thy ===== *)
theory Redislimit
  imports Ratelimit Float64 Model
begin

text \<open>
  \<^verbatim>\<open>internal/ratelimit/redislimit/limiter.go\<close>: the limiter shared by several instances of the server through a
  Redis server, with an in-memory limiter per instance to fall back on. The Redis server is an argument, a
  record of the three commands the script calls; \<open>redis_law\<close> states their documented behaviour in terms of
  what the server stores under a key: a counter and the time it expires at. The Lua script is modelled
  command by command. Redis executes a script atomically at one time.
\<close>

section \<open>Redis\<close>

record 'r redis_server =
  INCR :: "string \<Rightarrow> time \<Rightarrow> 'r \<Rightarrow> int \<times> 'r"
  EXPIRE :: "string \<Rightarrow> string \<Rightarrow> time \<Rightarrow> 'r \<Rightarrow> 'r"
  TTL :: "string \<Rightarrow> time \<Rightarrow> 'r \<Rightarrow> int"
  stored :: "string \<Rightarrow> 'r \<Rightarrow> (int \<times> time option) option" \<comment> \<open>observation: value and expiry, expired or not\<close>

definition live :: "'r redis_server \<Rightarrow> string \<Rightarrow> time \<Rightarrow> 'r \<Rightarrow> (int \<times> time option) option" where
  "live s k t r =
     (case stored s k r of
        Some (n, Some e) \<Rightarrow> if t < e then Some (n, Some e) else None
      | x \<Rightarrow> x)"

definition incr_post :: "'r redis_server \<Rightarrow> string \<Rightarrow> time \<Rightarrow> 'r \<Rightarrow> bool" where
  "incr_post s k t r \<longleftrightarrow>
     (case INCR s k t r of (n, r') \<Rightarrow>
        n = (case live s k t r of Some (m, e) \<Rightarrow> m + 1 | None \<Rightarrow> 1) \<and>
        stored s k r' = Some (n, (case live s k t r of Some (m, e) \<Rightarrow> e | None \<Rightarrow> None)) \<and>
        (\<forall>k'. k' \<noteq> k \<longrightarrow> stored s k' r' = stored s k' r))"

definition incr_law :: "'r redis_server \<Rightarrow> bool" where
  "incr_law s \<longleftrightarrow> (\<forall>k t r. (\<forall>m e. live s k t r = Some (m, e) \<longrightarrow> m < 2 ^ 53) \<longrightarrow> incr_post s k t r)"

definition expire_law :: "'r redis_server \<Rightarrow> bool" where
  "expire_law s \<longleftrightarrow> (\<forall>k secs t r n e. 1 \<le> secs \<and> secs \<le> 2 ^ 31 \<longrightarrow> live s k t r = Some (n, e) \<longrightarrow>
     stored s k (EXPIRE s k (FormatInt secs) t r) = Some (n, Some (t + secs * 1000000000)) \<and>
     (\<forall>k'. k' \<noteq> k \<longrightarrow> stored s k' (EXPIRE s k (FormatInt secs) t r) = stored s k' r))"

lemma incr_lawD:
  assumes "incr_law s" and "INCR s k t r = (n, r')" and "\<And>m e. live s k t r = Some (m, e) \<Longrightarrow> m < 2 ^ 53"
  shows "n = (case live s k t r of Some (m, e) \<Rightarrow> m + 1 | None \<Rightarrow> 1)"
    and "stored s k r' = Some (n, (case live s k t r of Some (m, e) \<Rightarrow> e | None \<Rightarrow> None))"
    and "k' \<noteq> k \<Longrightarrow> stored s k' r' = stored s k' r"
proof -
  have "incr_post s k t r" using assms(1,3) unfolding incr_law_def by blast
  then show "n = (case live s k t r of Some (m, e) \<Rightarrow> m + 1 | None \<Rightarrow> 1)"
    "stored s k r' = Some (n, (case live s k t r of Some (m, e) \<Rightarrow> e | None \<Rightarrow> None))"
    "k' \<noteq> k \<Longrightarrow> stored s k' r' = stored s k' r"
    using assms(2) by (simp_all add: incr_post_def)
qed

text \<open>The remaining time is reported in whole seconds, off by less than one.\<close>

definition ttl_law :: "'r redis_server \<Rightarrow> bool" where
  "ttl_law s \<longleftrightarrow> (\<forall>k t r n e. live s k t r = Some (n, Some e) \<longrightarrow>
     0 \<le> TTL s k t r \<and> \<bar>TTL s k t r * 1000000000 - (e - t)\<bar> < 1000000000)"

definition redis_law :: "'r redis_server \<Rightarrow> bool" where
  "redis_law s \<longleftrightarrow> incr_law s \<and> expire_law s \<and> ttl_law s"

datatype reply = RString string | RBytes bytes | RInt int | RArray "reply list" | RNil

definition allow_script :: "'r redis_server \<Rightarrow> time \<Rightarrow> string list \<Rightarrow> string list \<Rightarrow> 'r \<Rightarrow> reply \<times> 'r" where
  "allow_script s now KEYS ARGV r =
     (case INCR s (KEYS ! 0) now r of (cnt, r) \<Rightarrow>
        let r = (if cnt = 1 then EXPIRE s (KEYS ! 0) (ARGV ! 0) now r else r)
        in (RArray [RInt cnt, RInt (TTL s (KEYS ! 0) now r)], r))"

section \<open>The limiter\<close>

record Limiter =
  rl_max :: int
  rl_ttl :: duration
  fallback :: MemoryLimiter

definition New :: "int \<Rightarrow> duration \<Rightarrow> Limiter" where
  "New mx win = \<lparr>rl_max = mx, rl_ttl = win, fallback = NewMemory mx win\<rparr>"

fun redisToString :: "reply \<Rightarrow> string" where
  "redisToString (RString t) = t"
| "redisToString (RBytes t) = t"
| "redisToString (RInt t) = FormatInt t"
| "redisToString _ = []"

type_synonym 'r script_run = "string list \<Rightarrow> string list \<Rightarrow> 'r \<Rightarrow> (reply \<times> go_error option) \<times> 'r"

definition redis_key :: "string \<Rightarrow> string" where
  "redis_key key = ''rl:'' @ key"

definition script_ttl :: "Limiter \<Rightarrow> int" where
  "script_ttl l = (let ttl = go_int (Seconds (rl_ttl l)) in if ttl < 1 then 1 else ttl)"

definition Limiter_Allow ::
  "'r script_run \<Rightarrow> range_order \<Rightarrow> time \<Rightarrow> time \<Rightarrow> string \<Rightarrow> Limiter \<times> 'r \<Rightarrow> (bool \<times> duration) \<times> Limiter \<times> 'r" where
  "Limiter_Allow run rng now until_now key lr =
     (case lr of (l, r) \<Rightarrow>
       (case run [redis_key key] [FormatInt (script_ttl l)] r of ((res, err), r) \<Rightarrow>
          if (case err of Some e \<Rightarrow> \<not> errors_Is e RedisNil | None \<Rightarrow> False) then
            (case Allow rng now until_now key (fallback l) of (answer, m) \<Rightarrow> (answer, l\<lparr>fallback := m\<rparr>, r))
          else
            (case res of
               RArray [v0, v1] \<Rightarrow>
                 let cnt = fst (Atoi (redisToString v0)); remaining = fst (Atoi (redisToString v1))
                 in if cnt > rl_max l then ((False, wrap64 (remaining * 1000000000)), l, r) else ((True, 0), l, r)
             | _ \<Rightarrow> ((True, 0), l, r))))"

section \<open>A healthy Redis\<close>

definition healthy :: "'r redis_server \<Rightarrow> time \<Rightarrow> 'r script_run" where
  "healthy s now KEYS ARGV r = (case allow_script s now KEYS ARGV r of (v, r) \<Rightarrow> ((v, None), r))"

text \<open>The window of a bucket as Redis holds it.\<close>

definition redis_window :: "'r redis_server \<Rightarrow> time \<Rightarrow> 'r \<Rightarrow> string \<Rightarrow> (int \<times> time) option" where
  "redis_window s t r k = (case live s (redis_key k) t r of Some (n, Some e) \<Rightarrow> Some (n, e) | _ \<Rightarrow> None)"

text \<open>The limiter's keys always carry an expiry and a positive count with room for \<open>n\<close> more calls.\<close>

definition redis_ok :: "'r redis_server \<Rightarrow> nat \<Rightarrow> 'r \<Rightarrow> bool" where
  "redis_ok s n r \<longleftrightarrow> int n < 2 ^ 53 \<and>
     (\<forall>k m e. stored s (redis_key k) r = Some (m, e) \<longrightarrow> e \<noteq> None \<and> 1 \<le> m \<and> m + int n \<le> 2 ^ 53)"

definition script_state :: "'r redis_server \<Rightarrow> time \<Rightarrow> string \<Rightarrow> int \<Rightarrow> 'r \<Rightarrow> 'r" where
  "script_state s now key secs r = snd (allow_script s now [redis_key key] [FormatInt secs] r)"

lemma live_stored: "live s k t r = None \<or> live s k t r = stored s k r"
  by (auto simp: live_def split: option.splits)

lemma live_other: "stored s k r' = stored s k r \<Longrightarrow> live s k t r' = live s k t r"
  by (simp add: live_def)

lemma allow_script_spec:
  assumes law: "redis_law s" and ok: "redis_ok s (Suc n) r" and secs: "1 \<le> secs \<and> secs \<le> 2 ^ 31"
    and w: "window_step (secs * 1000000000) now (redis_window s now r key) = (c, e)"
  shows "\<exists>ttl. allow_script s now [redis_key key] [FormatInt secs] r = (RArray [RInt c, RInt ttl], script_state s now key secs r) \<and>
      0 \<le> ttl \<and> \<bar>ttl * 1000000000 - (e - now)\<bar> < 1000000000"
    and "stored s (redis_key key) (script_state s now key secs r) = Some (c, Some e)"
    and "k' \<noteq> redis_key key \<Longrightarrow> stored s k' (script_state s now key secs r) = stored s k' r"
    and "1 \<le> c" "c + int n \<le> 2 ^ 53" "now < e"
proof -
  let ?k = "redis_key key"
  obtain c1 r1 where incr: "INCR s ?k now r = (c1, r1)" by fastforce
  have room: "m < 2 ^ 53 \<and> 1 \<le> m \<and> e \<noteq> None \<and> m + 1 + int n \<le> 2 ^ 53" if "live s ?k now r = Some (m, e)" for m e
  proof -
    have "stored s ?k r = Some (m, e)" using that live_stored [of s ?k now r] by simp
    then have "e \<noteq> None \<and> 1 \<le> m \<and> m + int (Suc n) \<le> 2 ^ 53" using ok unfolding redis_ok_def by blast
    then show ?thesis by simp
  qed
  have small: "m < 2 ^ 53" if "live s ?k now r = Some (m, e)" for m e using room [OF that] by blast
  have "incr_law s" using law by (simp add: redis_law_def)
  note i = incr_lawD [OF this incr small]
  define r2 where "r2 = (if c1 = 1 then EXPIRE s ?k (FormatInt secs) now r1 else r1)"
  have st: "script_state s now key secs r = r2" by (simp add: script_state_def allow_script_def incr Let_def r2_def)
  have main: "stored s ?k r2 = Some (c, Some e) \<and> c1 = c \<and> 1 \<le> c \<and> c + int n \<le> 2 ^ 53 \<and> now < e \<and>
      (\<forall>k'. k' \<noteq> ?k \<longrightarrow> stored s k' r2 = stored s k' r)"
  proof (cases "live s ?k now r")
    case None
    then have one: "c1 = 1" "stored s ?k r1 = Some (1, None)" using i by simp_all
    have ce: "c = 1" "e = now + secs * 1000000000" using w None by (simp_all add: redis_window_def window_step_def)
    have "live s ?k now r1 = Some (1, None)" using one by (simp add: live_def)
    then have "stored s ?k (EXPIRE s ?k (FormatInt secs) now r1) = Some (1, Some e) \<and>
        (\<forall>k'. k' \<noteq> ?k \<longrightarrow> stored s k' (EXPIRE s ?k (FormatInt secs) now r1) = stored s k' r1)"
      using law secs ce(2) unfolding redis_law_def expire_law_def by blast
    then show ?thesis using one ce i(3) secs ok by (auto simp: redis_ok_def r2_def)
  next
    case (Some x)
    obtain m e0 where x: "x = (m, e0)" by (cases x)
    obtain e1 where e1: "e0 = Some e1" using room Some x by blast
    have "now < e1" using Some live_stored [of s ?k now r] by (auto simp: x e1 live_def split: option.splits if_splits prod.splits)
    moreover have "c = m + 1" "e = e1" using w Some by (simp_all add: redis_window_def window_step_def x e1)
    moreover have "c1 = m + 1" "stored s ?k r1 = Some (m + 1, Some e1)" using i Some by (simp_all add: x e1)
    ultimately show ?thesis using room [of m e0] Some x i(3) by (auto simp: r2_def)
  qed
  then have "live s ?k now r2 = Some (c, Some e)" by (simp add: live_def)
  then have "0 \<le> TTL s ?k now r2 \<and> \<bar>TTL s ?k now r2 * 1000000000 - (e - now)\<bar> < 1000000000"
    using law unfolding redis_law_def ttl_law_def by blast
  moreover have "allow_script s now [?k] [FormatInt secs] r = (RArray [RInt c, RInt (TTL s ?k now r2)], r2)"
    using main by (simp add: allow_script_def incr Let_def r2_def)
  ultimately show "\<exists>ttl. allow_script s now [?k] [FormatInt secs] r = (RArray [RInt c, RInt ttl], script_state s now key secs r) \<and>
      0 \<le> ttl \<and> \<bar>ttl * 1000000000 - (e - now)\<bar> < 1000000000"
    unfolding st by blast
  show "stored s ?k (script_state s now key secs r) = Some (c, Some e)"
    "k' \<noteq> ?k \<Longrightarrow> stored s k' (script_state s now key secs r) = stored s k' r"
    "1 \<le> c" "c + int n \<le> 2 ^ 53" "now < e" unfolding st using main by auto
qed

lemma script_ttl_eq:
  assumes "0 \<le> rl_ttl l" and "rl_ttl l < 2 ^ 22 * 1000000000"
  shows "script_ttl l = max 1 (rl_ttl l div 1000000000)"
  using go_int_Seconds [OF assms] by (simp add: script_ttl_def Let_def max_def)

text \<open>What one call on a healthy Redis does.\<close>

lemma healthy_Allow:
  assumes law: "redis_law s" and ok: "redis_ok s (Suc n) r"
    and ttl: "0 \<le> rl_ttl l" "rl_ttl l < 2 ^ 22 * 1000000000"
    and w: "window_step (script_ttl l * 1000000000) now (redis_window s now r key) = (c, e)"
  shows "\<exists>d. Limiter_Allow (healthy s now) rng now un key (l, r) =
      ((if c > rl_max l then (False, d) else (True, 0)), l, script_state s now key (script_ttl l) r) \<and>
      (e - now \<le> 2 ^ 62 \<longrightarrow> 0 \<le> d \<and> \<bar>d - (e - now)\<bar> < 1000000000)"
proof -
  have secs: "1 \<le> script_ttl l \<and> script_ttl l \<le> 2 ^ 31" using script_ttl_eq [OF ttl] ttl by simp
  note spec = allow_script_spec [OF law ok secs w]
  obtain t where run: "allow_script s now [redis_key key] [FormatInt (script_ttl l)] r =
      (RArray [RInt c, RInt t], script_state s now key (script_ttl l) r)"
    and t: "0 \<le> t" "\<bar>t * 1000000000 - (e - now)\<bar> < 1000000000"
    using spec(1) by blast
  have "is_int64 c" using spec(4,5) by (simp add: is_int64_def)
  then have c: "fst (Atoi (FormatInt c)) = c" by (simp add: Atoi_def ParseInt_FormatInt)
  have call: "Limiter_Allow (healthy s now) rng now un key (l, r) =
      ((if c > rl_max l then (False, wrap64 (fst (Atoi (FormatInt t)) * 1000000000)) else (True, 0)), l,
       script_state s now key (script_ttl l) r)"
    using c by (simp add: Limiter_Allow_def healthy_def run Let_def)
  moreover have "0 \<le> wrap64 (fst (Atoi (FormatInt t)) * 1000000000) \<and>
      \<bar>wrap64 (fst (Atoi (FormatInt t)) * 1000000000) - (e - now)\<bar> < 1000000000" if "e - now \<le> 2 ^ 62"
  proof -
    have "t * 1000000000 \<le> 2 ^ 62 + 1000000000" using that t(2) by linarith
    then have "is_int64 (t * 1000000000)" "is_int64 t" using t(1) by (simp_all add: is_int64_def)
    then show ?thesis using t by (simp add: Atoi_def ParseInt_FormatInt)
  qed
  ultimately show ?thesis by blast
qed

lemma script_state_window:
  assumes "redis_law s" and "redis_ok s (Suc n) r" and "1 \<le> secs \<and> secs \<le> 2 ^ 31"
  shows "redis_window s now (script_state s now key secs r) k =
      (if key = k then Some (window_step (secs * 1000000000) now (redis_window s now r k)) else redis_window s now r k)"
    and "redis_ok s n (script_state s now key secs r)"
proof -
  obtain c e where w: "window_step (secs * 1000000000) now (redis_window s now r key) = (c, e)" by fastforce
  note spec = allow_script_spec [OF assms w]
  have key: "redis_key k = redis_key key \<longleftrightarrow> k = key" for k by (simp add: redis_key_def)
  show "redis_window s now (script_state s now key secs r) k =
      (if key = k then Some (window_step (secs * 1000000000) now (redis_window s now r k)) else redis_window s now r k)"
    using spec(2,6) spec(3) [of "redis_key k"] w key [of k] by (auto simp: redis_window_def live_def)
  show "redis_ok s n (script_state s now key secs r)"
    unfolding redis_ok_def
  proof (intro conjI allI impI)
    show "int n < 2 ^ 53" using assms(2) by (simp add: redis_ok_def)
    fix k m x
    assume st: "stored s (redis_key k) (script_state s now key secs r) = Some (m, x)"
    show "x \<noteq> None" "1 \<le> m" "m + int n \<le> 2 ^ 53"
    proof (atomize(full), cases "k = key")
      case True
      then show "x \<noteq> None \<and> 1 \<le> m \<and> m + int n \<le> 2 ^ 53" using st spec(2,4,5) by auto
    next
      case False
      then have "stored s (redis_key k) r = Some (m, x)" using st spec(3) key by simp
      then have "x \<noteq> None \<and> 1 \<le> m \<and> m + int (Suc n) \<le> 2 ^ 53" using assms(2) unfolding redis_ok_def by blast
      then show "x \<noteq> None \<and> 1 \<le> m \<and> m + int n \<le> 2 ^ 53" by simp
    qed
  qed
qed

lemma redis_window_later:
  assumes "redis_window s t r k = Some (m, e)" and "t \<le> t'"
  shows "redis_window s t' r k = (if t' < e then Some (m, e) else None)"
  using assms by (auto simp: redis_window_def live_def split: option.splits if_splits)

lemma redis_window_None_later:
  assumes "redis_ok s n r" and "redis_window s t r k = None" and "t \<le> t'"
  shows "redis_window s t' r k = None"
  using assms(2,3) by (auto simp: redis_window_def live_def split: option.splits if_splits)

section \<open>Several instances\<close>

text \<open>
  The instances of a deployment share the Redis server; each has its own limiter object with the same
  configuration. A call arrives at one of them.
\<close>

record node_call =
  node :: nat
  node_at :: time
  node_until :: time
  node_order :: range_order
  node_bucket :: string

definition cluster_Allow ::
  "'r redis_server \<Rightarrow> node_call \<Rightarrow> Limiter list \<times> 'r \<Rightarrow> (bool \<times> duration) \<times> Limiter list \<times> 'r" where
  "cluster_Allow s c st =
     (case st of (ls, r) \<Rightarrow>
        case Limiter_Allow (healthy s (node_at c)) (node_order c) (node_at c) (node_until c) (node_bucket c) (ls ! node c, r) of
          (answer, l, r) \<Rightarrow> (answer, ls[node c := l], r))"

definition cluster_ok :: "'r redis_server \<Rightarrow> nat \<Rightarrow> int \<Rightarrow> duration \<Rightarrow> nat \<Rightarrow> Limiter list \<times> 'r \<Rightarrow> bool" where
  "cluster_ok s N mx win n st \<longleftrightarrow>
     redis_law s \<and> redis_ok s n (snd st) \<and> 0 \<le> win \<and> win < 2 ^ 22 * 1000000000 \<and> length (fst st) = N \<and>
     (\<forall>l \<in> set (fst st). rl_max l = mx \<and> rl_ttl l = win)"

definition ttl_window :: "duration \<Rightarrow> duration" where
  "ttl_window win = max 1 (win div 1000000000) * 1000000000"

lemma cluster_step:
  assumes ok: "cluster_ok s N mx win (Suc n) st" and c: "node c < N"
    and w: "window_step (ttl_window win) (node_at c) (redis_window s (node_at c) (snd st) (node_bucket c)) = (cnt, e)"
  shows "fst (fst (cluster_Allow s c st)) \<longleftrightarrow> cnt \<le> mx"
    and "fst (snd (cluster_Allow s c st)) = fst st"
    and "snd (snd (cluster_Allow s c st)) =
      script_state s (node_at c) (node_bucket c) (max 1 (win div 1000000000)) (snd st)"
proof -
  obtain ls r where st: "st = (ls, r)" by (cases st)
  have l: "rl_max (ls ! node c) = mx" "rl_ttl (ls ! node c) = win"
    using ok c nth_mem [of "node c" ls] by (auto simp: cluster_ok_def st)
  have law: "redis_law s" "redis_ok s (Suc n) r" "0 \<le> rl_ttl (ls ! node c)" "rl_ttl (ls ! node c) < 2 ^ 22 * 1000000000"
    using ok l by (simp_all add: cluster_ok_def st)
  have t: "script_ttl (ls ! node c) = max 1 (win div 1000000000)" using script_ttl_eq [OF law(3,4)] l by simp
  obtain d where "Limiter_Allow (healthy s (node_at c)) (node_order c) (node_at c) (node_until c) (node_bucket c) (ls ! node c, r) =
      ((if cnt > mx then (False, d) else (True, 0)), ls ! node c,
       script_state s (node_at c) (node_bucket c) (max 1 (win div 1000000000)) r)"
    using healthy_Allow [OF law, of "node_at c" "node_bucket c" cnt e] w l t by (auto simp: ttl_window_def st)
  then show "fst (fst (cluster_Allow s c st)) \<longleftrightarrow> cnt \<le> mx" "fst (snd (cluster_Allow s c st)) = fst st"
    "snd (snd (cluster_Allow s c st)) = script_state s (node_at c) (node_bucket c) (max 1 (win div 1000000000)) (snd st)"
    by (simp_all add: cluster_Allow_def st)
qed

interpretation rw: window_limiter "cluster_Allow s" node_at node_bucket
  "\<lambda>t st. redis_window s t (snd st)" "\<lambda>_. mx" "\<lambda>_. ttl_window win" "cluster_ok s N mx win" "\<lambda>c. node c < N"
  for s :: "'r redis_server" and mx :: int and win :: duration and N :: nat
proof (unfold_locales, goal_cases)
  case (1 n st c k)
  obtain cnt e where w: "window_step (ttl_window win) (node_at c) (redis_window s (node_at c) (snd st) (node_bucket c)) = (cnt, e)"
    by fastforce
  have "redis_law s" "redis_ok s (Suc n) (snd st)" "1 \<le> max 1 (win div 1000000000) \<and> max 1 (win div 1000000000) \<le> 2 ^ 31"
    using 1 by (auto simp: cluster_ok_def)
  from script_state_window(1) [OF this, of "node_at c" "node_bucket c" k]
  show ?case unfolding cluster_step(3) [OF 1 w] by (simp add: ttl_window_def)
next
  case (2 n st c)
  obtain cnt e where w: "window_step (ttl_window win) (node_at c) (redis_window s (node_at c) (snd st) (node_bucket c)) = (cnt, e)"
    by fastforce
  then have "cnt = counted (redis_window s (node_at c) (snd st) (node_bucket c)) + 1"
    by (auto simp: window_step_def split: option.splits)
  then show ?case using cluster_step(1) [OF 2 w] by auto
next
  case (3 n st c)
  obtain cnt e where w: "window_step (ttl_window win) (node_at c) (redis_window s (node_at c) (snd st) (node_bucket c)) = (cnt, e)"
    by fastforce
  have "redis_ok s n (script_state s (node_at c) (node_bucket c) (max 1 (win div 1000000000)) (snd st))"
    using 3(1) by (intro script_state_window(2)) (auto simp: cluster_ok_def)
  then show ?case using cluster_step(2,3) [OF 3 w] 3(1) by (simp add: cluster_ok_def)
next
  case (4 n st c)
  then show ?case by simp
next
  case (5 n st t k m r t')
  from redis_window_later [OF 5(2,3)] show ?case .
next
  case (6 n st t k t')
  then have "redis_ok s n (snd st)" by (simp add: cluster_ok_def)
  from redis_window_None_later [OF this 6(2,3)] show ?case .
next
  case (7 n st t k m r)
  have ok: "redis_ok s n (snd st)" using 7(1) by (simp add: cluster_ok_def)
  have "\<exists>x. stored s (redis_key k) (snd st) = Some (m, x)"
    using 7(2) by (auto simp: redis_window_def live_def split: option.splits if_splits)
  then show ?case using ok unfolding redis_ok_def by fastforce
qed

section \<open>A Redis that may fail\<close>

text \<open>
  When the client reports an error the script has run or not. The instance then decides alone, on its
  fallback.
\<close>

datatype outcome = Healthy | FailedBefore | FailedAfter

definition flaky :: "'r redis_server \<Rightarrow> time \<Rightarrow> outcome \<Rightarrow> 'r script_run" where
  "flaky s now out KEYS ARGV r =
     (case out of
        Healthy \<Rightarrow> healthy s now KEYS ARGV r
      | FailedBefore \<Rightarrow> ((RNil, Some (OtherError (Msg ''dial''))), r)
      | FailedAfter \<Rightarrow> ((RNil, Some (OtherError (Msg ''read''))), snd (allow_script s now KEYS ARGV r)))"

definition flaky_Allow :: "'r redis_server \<Rightarrow> outcome \<times> call \<Rightarrow> Limiter \<times> 'r \<Rightarrow> (bool \<times> duration) \<times> Limiter \<times> 'r" where
  "flaky_Allow s = (\<lambda>(out, c). Limiter_Allow (flaky s (call.at c) out) (order c) (call.at c) (until_at c) (bucket c))"

definition failed_calls :: "(outcome \<times> call) list \<Rightarrow> call list" where
  "failed_calls cs = map snd (filter (\<lambda>(out, c). out \<noteq> Healthy) cs)"

lemma flaky_failed:
  assumes "out \<noteq> Healthy"
  shows "\<exists>r'. flaky_Allow s (out, c) (l, r) =
      (fst (do_call c (fallback l)), l\<lparr>fallback := snd (do_call c (fallback l))\<rparr>, r') \<and>
      (r' = r \<or> r' = script_state s (call.at c) (bucket c) (script_ttl l) r)"
  using assms by (cases out) (auto simp: flaky_Allow_def Limiter_Allow_def flaky_def do_call_def script_state_def split: prod.splits)

lemma script_ttl_fallback [simp]: "script_ttl (l\<lparr>fallback := m\<rparr>) = script_ttl l"
  by (simp add: script_ttl_def)

definition flaky_ok :: "'r redis_server \<Rightarrow> nat \<Rightarrow> Limiter \<times> 'r \<Rightarrow> bool" where
  "flaky_ok s n st \<longleftrightarrow>
     redis_law s \<and> redis_ok s n (snd st) \<and> 0 \<le> rl_ttl (fst st) \<and> rl_ttl (fst st) < 2 ^ 22 * 1000000000"

lemma redis_ok_less: "redis_ok s (Suc n) r \<Longrightarrow> redis_ok s n r"
  unfolding redis_ok_def by fastforce

text \<open>One call of a bucket whose Redis window, when open, ends after the interval considered.\<close>

lemma flaky_step:
  assumes ok: "flaky_ok s (Suc n) (l, r)"
  obtains g d l' r' where "flaky_Allow s (out, c) (l, r) = ((g, d), l', r')" "flaky_ok s n (l', r')"
    "rl_max l' = rl_max l" "script_ttl l' = script_ttl l" 
    "fallback l' = (if out = Healthy then fallback l else snd (do_call c (fallback l)))"
    "r' = r \<and> out \<noteq> Healthy \<or> r' = script_state s (call.at c) (bucket c) (script_ttl l) r"
    "g \<longleftrightarrow> (if out = Healthy then counted (redis_window s (call.at c) r (bucket c)) < rl_max l
       else fst (fst (do_call c (fallback l))))"
proof -
  have law: "redis_law s" "redis_ok s (Suc n) r" "0 \<le> rl_ttl l" "rl_ttl l < 2 ^ 22 * 1000000000"
    using ok by (simp_all add: flaky_ok_def)
  have secs: "1 \<le> script_ttl l \<and> script_ttl l \<le> 2 ^ 31" using script_ttl_eq [OF law(3,4)] law(3,4) by simp
  note rok = script_state_window(2) [OF law(1,2) secs, of "call.at c" "bucket c"]
  show ?thesis
  proof (cases "out = Healthy")
    case True
    obtain cnt e where w: "window_step (script_ttl l * 1000000000) (call.at c) (redis_window s (call.at c) r (bucket c)) = (cnt, e)"
      by fastforce
    then have cnt: "cnt = counted (redis_window s (call.at c) r (bucket c)) + 1"
      by (auto simp: window_step_def split: option.splits)
    obtain d where "Limiter_Allow (healthy s (call.at c)) (order c) (call.at c) (until_at c) (bucket c) (l, r) =
        ((if cnt > rl_max l then (False, d) else (True, 0)), l, script_state s (call.at c) (bucket c) (script_ttl l) r)"
      using healthy_Allow [OF law w] by blast
    moreover have "flaky s (call.at c) out = healthy s (call.at c)" using True by (simp add: flaky_def fun_eq_iff)
    ultimately have "flaky_Allow s (out, c) (l, r) =
        ((if cnt > rl_max l then (False, d) else (True, 0)), l, script_state s (call.at c) (bucket c) (script_ttl l) r)"
      by (simp add: flaky_Allow_def)
    then show ?thesis using that [of False d l] that [of True 0 l] True rok law cnt
      by (cases "cnt > rl_max l") (simp_all add: flaky_ok_def)
  next
    case False
    obtain r' where r': "flaky_Allow s (out, c) (l, r) =
        (fst (do_call c (fallback l)), l\<lparr>fallback := snd (do_call c (fallback l))\<rparr>, r')"
      "r' = r \<or> r' = script_state s (call.at c) (bucket c) (script_ttl l) r"
      using flaky_failed [OF False, of s c l r] by (elim exE conjE)
    obtain g d where gd: "fst (do_call c (fallback l)) = (g, d)" by fastforce
    have "redis_ok s n r'" using r'(2) rok redis_ok_less [OF law(2)] by metis
    then have ok': "flaky_ok s n (l\<lparr>fallback := snd (do_call c (fallback l))\<rparr>, r')"
      using law(1,3,4) by (simp add: flaky_ok_def)
    show ?thesis
    proof (rule that)
      show "flaky_Allow s (out, c) (l, r) = ((g, d), l\<lparr>fallback := snd (do_call c (fallback l))\<rparr>, r')"
        using r'(1) by (simp add: gd)
      show "r' = r \<and> out \<noteq> Healthy \<or> r' = script_state s (call.at c) (bucket c) (script_ttl l) r"
        using r'(2) False by blast
    qed (use False ok' in \<open>simp_all add: gd\<close>)
  qed
qed

lemma flaky_in_window:
  assumes "flaky_ok s (length cs) (l, r)" and "sorted (t # map (\<lambda>c. call.at (snd c)) cs)"
    and "redis_window s t r k = Some (m, e)" and "\<forall>c \<in> set cs. call.at (snd c) < e"
  shows "granted (flaky_Allow s) (\<lambda>c. bucket (snd c)) k cs (l, r) \<le>
    max 0 (rl_max l - m) + granted do_call bucket k (failed_calls cs) (fallback l)"
  using assms
proof (induction cs arbitrary: l r t m)
  case (Cons oc cs)
  obtain out c where oc: "oc = (out, c)" by (cases oc)
  have ok: "flaky_ok s (Suc (length cs)) (l, r)" using Cons.prems(1) by simp
  have law: "redis_law s" "redis_ok s (Suc (length cs)) r" "0 \<le> rl_ttl l" "rl_ttl l < 2 ^ 22 * 1000000000"
    using ok by (simp_all add: flaky_ok_def)
  have secs: "1 \<le> script_ttl l \<and> script_ttl l \<le> 2 ^ 31" using script_ttl_eq [OF law(3,4)] law(3,4) by simp
  have now: "redis_window s (call.at c) r k = Some (m, e)"
    using redis_window_later [OF Cons.prems(3), of "call.at c"] Cons.prems(2,4) by (simp add: oc)
  have srt: "sorted (call.at c # map (\<lambda>c. call.at (snd c)) cs)" using Cons.prems(2) by (simp add: oc)
  show ?case
  proof (rule flaky_step [OF ok, of out c], goal_cases)
    case (1 g d l' r')
    have "\<exists>m'. redis_window s (call.at c) r' k = Some (m', e) \<and> m \<le> m' \<and> (out = Healthy \<and> bucket c = k \<longrightarrow> m' = m + 1)"
      using 1(6) now script_state_window(1) [OF law(1,2) secs, of "call.at c" "bucket c" k]
      by (cases "bucket c = k") (auto simp: window_step_def)
    then obtain m' where m': "redis_window s (call.at c) r' k = Some (m', e)" "m \<le> m'"
        "out = Healthy \<and> bucket c = k \<Longrightarrow> m' = m + 1" by blast
    have "granted (flaky_Allow s) (\<lambda>c. bucket (snd c)) k cs (l', r') \<le>
        max 0 (rl_max l - m') + granted do_call bucket k (failed_calls cs) (fallback l')"
      using Cons.IH [OF 1(2) srt m'(1)] Cons.prems(4) 1(3) by simp
    then show ?case using 1 m'(2,3) now by (auto simp: oc failed_calls_def)
  qed
qed (simp add: failed_calls_def)

lemma flaky_fresh:
  assumes "flaky_ok s (length cs) (l, r)" and "sorted (t # map (\<lambda>c. call.at (snd c)) cs)"
    and "redis_window s t r k = None" and "\<forall>c \<in> set cs. call.at (snd c) < t + script_ttl l * 1000000000"
  shows "granted (flaky_Allow s) (\<lambda>c. bucket (snd c)) k cs (l, r) \<le>
    max 0 (rl_max l) + granted do_call bucket k (failed_calls cs) (fallback l)"
  using assms
proof (induction cs arbitrary: l r t)
  case (Cons oc cs)
  obtain out c where oc: "oc = (out, c)" by (cases oc)
  have ok: "flaky_ok s (Suc (length cs)) (l, r)" using Cons.prems(1) by simp
  have law: "redis_law s" "redis_ok s (Suc (length cs)) r" "0 \<le> rl_ttl l" "rl_ttl l < 2 ^ 22 * 1000000000"
    using ok by (simp_all add: flaky_ok_def)
  have secs: "1 \<le> script_ttl l \<and> script_ttl l \<le> 2 ^ 31" using script_ttl_eq [OF law(3,4)] law(3,4) by simp
  have now: "redis_window s (call.at c) r k = None"
    using redis_window_None_later [OF law(2) Cons.prems(3), of "call.at c"] Cons.prems(2) by (simp add: oc)
  have srt: "sorted (call.at c # map (\<lambda>c. call.at (snd c)) cs)" using Cons.prems(2) by (simp add: oc)
  have late: "\<forall>x \<in> set cs. call.at (snd x) < call.at c + script_ttl l * 1000000000"
    using Cons.prems(2,4) by (force simp: oc)
  show ?case
  proof (rule flaky_step [OF ok, of out c], goal_cases)
    case (1 g d l' r')
    show ?case
    proof (cases "redis_window s (call.at c) r' k")
      case None
      then have "granted (flaky_Allow s) (\<lambda>c. bucket (snd c)) k cs (l', r') \<le>
          max 0 (rl_max l) + granted do_call bucket k (failed_calls cs) (fallback l')"
        using Cons.IH [OF 1(2) srt None] late 1(3,4) by simp
      moreover have "\<not> (out = Healthy \<and> bucket c = k)"
        using None 1(6) script_state_window(1) [OF law(1,2) secs, of "call.at c" "bucket c" k] by auto
      ultimately show ?thesis using 1 by (auto simp: oc failed_calls_def)
    next
      case (Some x)
      then have x: "x = (1, call.at c + script_ttl l * 1000000000)"
        using 1(6) now script_state_window(1) [OF law(1,2) secs, of "call.at c" "bucket c" k]
        by (auto simp: window_step_def split: if_splits)
      have "granted (flaky_Allow s) (\<lambda>c. bucket (snd c)) k cs (l', r') \<le>
          max 0 (rl_max l - 1) + granted do_call bucket k (failed_calls cs) (fallback l')"
        using flaky_in_window [OF 1(2) srt Some [unfolded x]] late 1(3) by simp
      then show ?thesis using 1 now by (auto simp: oc failed_calls_def)
    qed
  qed
qed (simp add: failed_calls_def)

section \<open>Properties\<close>

text \<open>
  On a healthy Redis the shared limiter implements the same fixed-window specification as the in-memory one,
  with the window cut to whole seconds and at least one: a call is granted exactly when the requests in
  the window, this one included, are at most the limit; it advances the window of its own bucket by one
  step and no other, and a denial reports the time to the end of the window up to one second.
\<close>

theorem redis_refines_window:
  assumes "redis_law s" and "redis_ok s (Suc n) r" and "0 \<le> rl_ttl l" and "rl_ttl l < 2 ^ 22 * 1000000000"
    and "window_step (ttl_window (rl_ttl l)) now (redis_window s now r key) = (c, e)"
  shows "\<exists>d r'. Limiter_Allow (healthy s now) rng now un key (l, r) = ((c \<le> rl_max l, d), l, r') \<and>
    redis_window s now r' = (redis_window s now r)(key \<mapsto> (c, e)) \<and> redis_ok s n r' \<and>
    (if c \<le> rl_max l then d = 0 else e - now \<le> 2 ^ 62 \<longrightarrow> 0 \<le> d \<and> \<bar>d - (e - now)\<bar> < 1000000000)"
proof -
  have t: "script_ttl l * 1000000000 = ttl_window (rl_ttl l)"
    using script_ttl_eq [OF assms(3,4)] by (simp add: ttl_window_def)
  have secs: "1 \<le> script_ttl l \<and> script_ttl l \<le> 2 ^ 31" using script_ttl_eq [OF assms(3,4)] assms(3,4) by simp
  let ?r = "script_state s now key (script_ttl l) r"
  note win = script_state_window [OF assms(1,2) secs, of now key]
  have "redis_window s now ?r = (redis_window s now r)(key \<mapsto> (c, e))"
    using win(1) assms(5) by (auto simp: fun_eq_iff t)
  moreover obtain d where "Limiter_Allow (healthy s now) rng now un key (l, r) =
      ((if c > rl_max l then (False, d) else (True, 0)), l, ?r)"
    "e - now \<le> 2 ^ 62 \<longrightarrow> 0 \<le> d \<and> \<bar>d - (e - now)\<bar> < 1000000000"
    using healthy_Allow [OF assms(1-4), of now key c e] assms(5) t by metis
  ultimately show ?thesis
    using win(2) by (intro exI [of _ "if c > rl_max l then d else 0"] exI [of _ ?r]) auto
qed

text \<open>A Redis as an association list, the instance for the examples.\<close>

type_synonym table = "(string, int \<times> time option) gomap"

definition table_live :: "string \<Rightarrow> time \<Rightarrow> table \<Rightarrow> (int \<times> time option) option" where
  "table_live k t r =
     (case map_of r k of
        Some (n, Some e) \<Rightarrow> if t < e then Some (n, Some e) else None
      | x \<Rightarrow> x)"

definition table_redis :: "table redis_server" where
  "table_redis =
     \<lparr>INCR = \<lambda>k t r. (let (m, e) = (case table_live k t r of Some v \<Rightarrow> v | None \<Rightarrow> (0, None))
                      in (m + 1, AList.update k (m + 1, e) r)),
      EXPIRE = \<lambda>k secs t r. (case table_live k t r of
                 Some (n, e) \<Rightarrow> AList.update k (n, Some (t + fst (Atoi secs) * 1000000000)) r
               | None \<Rightarrow> r),
      TTL = \<lambda>k t r. (case table_live k t r of
                 Some (n, Some e) \<Rightarrow> (e - t) div 1000000000
               | Some (n, None) \<Rightarrow> - 1 | None \<Rightarrow> - 2),
      stored = \<lambda>k r. map_of r k\<rparr>"

lemma table_live [simp]: "live table_redis = table_live"
  by (simp add: fun_eq_iff live_def table_live_def table_redis_def)

lemma table_law: "redis_law table_redis"
  unfolding redis_law_def
proof (intro conjI)
  show "incr_law table_redis"
    by (auto simp: incr_law_def incr_post_def Let_def split: option.splits prod.splits) (auto simp: table_redis_def Let_def split: option.splits prod.splits)
  show "expire_law table_redis"
    by (auto simp: expire_law_def) (auto simp: table_redis_def Atoi_def ParseInt_FormatInt is_int64_def)
  show "ttl_law table_redis"
    unfolding ttl_law_def table_live
  proof (intro allI impI)
    fix k t r n e
    assume live: "table_live k t r = Some (n, Some e)"
    then have "t < e" by (auto simp: table_live_def split: option.splits if_splits)
    moreover have "TTL table_redis k t r = (e - t) div 1000000000" using live by (simp add: table_redis_def)
    moreover have "(e - t) div 1000000000 * 1000000000 + (e - t) mod 1000000000 = e - t" by simp
    moreover have "0 \<le> (e - t) mod 1000000000" "(e - t) mod 1000000000 < 1000000000" by simp_all
    ultimately show "0 \<le> TTL table_redis k t r \<and> \<bar>TTL table_redis k t r * 1000000000 - (e - t)\<bar> < 1000000000"
      by (simp add: pos_imp_zdiv_nonneg_iff)
  qed
qed

lemma empty_ok: "int n < 2 ^ 53 \<Longrightarrow> redis_ok table_redis n []"
  by (simp add: redis_ok_def table_redis_def)

lemma empty_window [simp]: "redis_window table_redis t [] k = None"
  by (simp add: redis_window_def table_live_def)

theorem redis_refines_window_witness:
  "\<exists>d r'. Limiter_Allow (healthy table_redis 5) (\<lambda>m. m) 5 5 ''key:1'' (New 1 1500000000, []) = ((True, d), New 1 1500000000, r') \<and>
     redis_window table_redis 5 r' ''key:1'' = Some (1, 1000000005)"
  using redis_refines_window [OF table_law empty_ok [of "Suc 0"], of "New 1 1500000000" 5 "''key:1''" 1 1000000005 "\<lambda>m. m" 5]
  by (auto simp: New_def window_step_def ttl_window_def)

text \<open>
  C35: The limit holds across instances. However the calls of a bucket are spread over the instances of a
  deployment, and whatever other buckets are called in between, inside one window Redis grants exactly
  what is left of one budget, not one budget per instance.
\<close>

theorem redis_cluster_exact:
  assumes "cluster_ok s N mx win (length cs) st" and "sorted (t # map node_at cs)" and "\<forall>c \<in> set cs. node c < N"
    and "redis_window s t (snd st) k = Some (n, e)" and "\<forall>c \<in> set cs. node_at c < e"
  shows "granted (cluster_Allow s) node_bucket k cs st =
    min (int (length (filter (\<lambda>c. node_bucket c = k) cs))) (max 0 (mx - n))"
  by (rule rw.in_window [OF assms])

theorem redis_cluster_exact_witness:
  "granted (cluster_Allow table_redis) node_bucket ''key:1''
     [\<lparr>node = 0, node_at = 6, node_until = 6, node_order = \<lambda>m. m, node_bucket = ''key:1''\<rparr>,
      \<lparr>node = 1, node_at = 7, node_until = 7, node_order = \<lambda>m. m, node_bucket = ''key:1''\<rparr>]
     ([New 2 1000000000, New 2 1000000000], [(redis_key ''key:1'', (1, Some 9))]) = 1"
proof -
  let ?st = "([New 2 1000000000, New 2 1000000000], [(redis_key ''key:1'', (1, Some 9))])"
  let ?cs = "[\<lparr>node = 0, node_at = 6, node_until = 6, node_order = \<lambda>m. m, node_bucket = ''key:1''\<rparr>,
      \<lparr>node = 1, node_at = 7, node_until = 7, node_order = \<lambda>m. m, node_bucket = ''key:1''\<rparr>]"
  have "cluster_ok table_redis 2 2 1000000000 (length ?cs) ?st"
    using table_law by (auto simp: cluster_ok_def redis_ok_def New_def table_redis_def)
  moreover have "redis_window table_redis 5 (snd ?st) ''key:1'' = Some (1, 9)"
    by (simp add: redis_window_def table_live_def)
  moreover have "sorted (5 # map node_at ?cs)" "\<forall>c \<in> set ?cs. node c < 2" "\<forall>c \<in> set ?cs. node_at c < 9" by simp_all
  ultimately show ?thesis using redis_cluster_exact [of table_redis 2 2 1000000000 ?cs ?st 5 "''key:1''" 1 9]
    by (simp del: granted.simps)
qed



text \<open>A reply that is not a pair, or the library's empty reply, lets the request pass uncounted.\<close>

lemma odd_reply_passes:
  assumes "run [redis_key key] [FormatInt (script_ttl l)] r = ((res, err), r')"
    and "\<forall>e. err = Some e \<longrightarrow> errors_Is e RedisNil" and "\<nexists>v0 v1. res = RArray [v0, v1]"
  shows "Limiter_Allow run rng now un key (l, r) = ((True, 0), l, r')"
  using assms by (auto simp: Limiter_Allow_def split: reply.splits list.splits option.splits)

end
