(* ===== verification/Pgstore.thy ===== *)
theory Pgstore
  imports Keyservice Statstore
begin

text \<open>
  The PostgreSQL stores of \<^verbatim>\<open>internal/repository/postgres/keystore.go\<close> and \<^verbatim>\<open>stats.go\<close>. The database and
  its driver are an argument, \<open>engine\<close>; \<open>engine_law\<close> states what the code relies on: a statement that is
  answered has had the effect of its SQL text on the tables (\<open>sql_command\<close>, one equation per statement of the
  code), and a statement that fails on the way has had its effect or none. A
  transaction works on the tables as they were when it began and its commit installs its tables, which is how
  transactions that conflict behave: the second waits for the first.
\<close>

section \<open>Tables and statements\<close>

record tables =
  t_keys :: "ApiKey list" \<comment> \<open>\<^verbatim>\<open>api_keys\<close>\<close>
  t_seq :: int \<comment> \<open>next value of its \<^verbatim>\<open>BIGSERIAL\<close>\<close>
  t_totals :: "(int \<times> int \<times> int) option" \<comment> \<open>\<^verbatim>\<open>stats_totals\<close>: the row with \<^verbatim>\<open>id = 1\<close>\<close>
  t_refs :: "(string \<times> string) list" \<comment> \<open>\<^verbatim>\<open>recorded_refs\<close>\<close>

datatype command =
    InsertKey string string string "string list" "time option"
  | RevokeKeyRow int
  | TouchKeyRow int
  | CountTw int
  | CountTwError
  | InsertRef string string

datatype answer = Affected nat | Returning int time

type_synonym 'a rows = "'a result list \<times> go_error option" \<comment> \<open>the rows as they scan, and the error that ends them\<close>

record ('d, 'x) engine =
  text_ok :: "string \<Rightarrow> bool" \<comment> \<open>texts the database encoding can hold\<close>
  stamp :: "time \<Rightarrow> time" \<comment> \<open>the resolution of \<^verbatim>\<open>TIMESTAMPTZ\<close>\<close>
  tables_of :: "'d \<Rightarrow> tables"
  ready :: "'d \<Rightarrow> bool"
  select_key :: "string \<Rightarrow> 'd \<Rightarrow> ApiKey rows result"
  select_keys :: "'d \<Rightarrow> ApiKey rows result"
  select_totals :: "'d \<Rightarrow> (int \<times> int \<times> int) rows result"
  exec :: "command \<Rightarrow> time \<Rightarrow> 'd \<Rightarrow> answer result \<times> 'd"
  tx_begin :: "'d \<Rightarrow> 'x result \<times> 'd"
  tx_tables :: "'x \<Rightarrow> tables"
  tx_ready :: "'x \<Rightarrow> bool"
  tx_exec :: "command \<Rightarrow> time \<Rightarrow> 'x \<Rightarrow> answer result \<times> 'x"
  tx_commit :: "'x \<Rightarrow> 'd \<Rightarrow> unit result \<times> 'd"

section \<open>The key store\<close>

definition isUniqueViolation :: "go_error \<Rightarrow> bool" where
  "isUniqueViolation err \<longleftrightarrow> errors_As_Pg err = Some ''23505''"

text \<open>\<^verbatim>\<open>QueryRow(...).Scan(...)\<close> on the rows of a query.\<close>

definition scan_row :: "'a rows result \<Rightarrow> 'a result" where
  "scan_row r =
     (case r of
        Inl err \<Rightarrow> Inl err
      | Inr ([], None) \<Rightarrow> Inl (Sentinel ErrNoRows)
      | Inr ([], Some err) \<Rightarrow> Inl err
      | Inr (Inl err # _, _) \<Rightarrow> Inl err
      | Inr (Inr v # _, Some err) \<Rightarrow> Inl err
      | Inr (Inr v # _, None) \<Rightarrow> Inr v)"

definition scan_returning :: "answer result \<Rightarrow> (int \<times> time) result" where
  "scan_returning r =
     (case r of
        Inl err \<Rightarrow> Inl err
      | Inr (Returning i t) \<Rightarrow> Inr (i, t)
      | Inr (Affected n) \<Rightarrow> Inl (Sentinel ErrNoRows))"

definition RowsAffected :: "answer \<Rightarrow> nat" where
  "RowsAffected tag = (case tag of Affected n \<Rightarrow> n | Returning i t \<Rightarrow> 1)"

definition PgKeyStore_Create :: "('d, 'x) engine \<Rightarrow> time \<Rightarrow> ApiKey \<Rightarrow> 'd \<Rightarrow> ApiKey result \<times> 'd" where
  "PgKeyStore_Create eng now key d =
     (let rank = (if Rank key = [] then ''member'' else Rank key) in
      (case exec eng (InsertKey (Name key) rank (KeyHash key) (Scopes key) (ExpiresAt key)) now d of
         (r, d) \<Rightarrow>
           (case scan_returning r of
              Inl err \<Rightarrow>
                if isUniqueViolation err then (Inl (Sentinel ErrConflict), d)
                else (Inl (Errorf ''insert api key'' err), d)
            | Inr (i, t) \<Rightarrow> (Inr (key\<lparr>ID := i, CreatedAt := t, Rank := rank\<rparr>), d))))"

definition PgKeyStore_GetByHash :: "('d, 'x) engine \<Rightarrow> string \<Rightarrow> 'd \<Rightarrow> ApiKey result" where
  "PgKeyStore_GetByHash eng hash d =
     (case scan_row (select_key eng hash d) of
        Inl err \<Rightarrow>
          if errors_Is err ErrNoRows then Inl (Sentinel ErrNotFound)
          else Inl (Errorf ''get api key by hash'' err)
      | Inr key \<Rightarrow> Inr key)"

fun collect_keys :: "ApiKey result list \<Rightarrow> go_error option \<Rightarrow> ApiKey list \<Rightarrow> ApiKey list result" where
  "collect_keys [] None acc = Inr acc"
| "collect_keys [] (Some err) acc = Inl (Errorf ''iterate api keys'' err)"
| "collect_keys (Inl err # rs) e acc = Inl (Errorf ''scan api key'' err)"
| "collect_keys (Inr key # rs) e acc = collect_keys rs e (acc @ [key])"

definition PgKeyStore_List :: "('d, 'x) engine \<Rightarrow> 'd \<Rightarrow> ApiKey list result" where
  "PgKeyStore_List eng d =
     (case select_keys eng d of
        Inl err \<Rightarrow> Inl (Errorf ''list api keys'' err)
      | Inr (rs, e) \<Rightarrow> collect_keys rs e [])"

definition PgKeyStore_Revoke :: "('d, 'x) engine \<Rightarrow> time \<Rightarrow> int \<Rightarrow> 'd \<Rightarrow> unit result \<times> 'd" where
  "PgKeyStore_Revoke eng now i d =
     (case exec eng (RevokeKeyRow i) now d of
        (Inl err, d) \<Rightarrow> (Inl (Errorf ''revoke api key'' err), d)
      | (Inr tag, d) \<Rightarrow> if RowsAffected tag = 0 then (Inl (Sentinel ErrNotFound), d) else (Inr (), d))"

definition PgKeyStore_Touch :: "('d, 'x) engine \<Rightarrow> time \<Rightarrow> int \<Rightarrow> 'd \<Rightarrow> unit result \<times> 'd" where
  "PgKeyStore_Touch eng now i d =
     (case exec eng (TouchKeyRow i) now d of
        (Inl err, d) \<Rightarrow> (Inl (Errorf ''touch api key'' err), d)
      | (Inr tag, d) \<Rightarrow> if RowsAffected tag = 0 then (Inl (Sentinel ErrNotFound), d) else (Inr (), d))"

definition pg_repo :: "('d, 'x) engine \<Rightarrow> 'd key_repo" where
  "pg_repo eng =
     \<lparr>repo_Create = PgKeyStore_Create eng, repo_GetByHash = PgKeyStore_GetByHash eng, repo_List = PgKeyStore_List eng,
      repo_Revoke = PgKeyStore_Revoke eng, repo_Touch = PgKeyStore_Touch eng\<rparr>"

section \<open>The statistics store\<close>

text \<open>
  A transaction that returns before its commit is rolled back by the deferred call: the database stays as it
  is.
\<close>

definition countOnce ::
  "('d, 'x) engine \<Rightarrow> string \<Rightarrow> string \<Rightarrow> (int \<Rightarrow> command) \<Rightarrow> int \<Rightarrow> time \<Rightarrow> 'd \<Rightarrow> unit result \<times> 'd" where
  "countOnce eng channel ref updateSQL amountCents now d =
     (if ref = [] then
        (case exec eng (updateSQL amountCents) now d of
           (Inl err, d) \<Rightarrow> (Inl err, d)
         | (Inr tag, d) \<Rightarrow> (Inr (), d))
      else
        (case tx_begin eng d of
           (Inl err, d) \<Rightarrow> (Inl err, d)
         | (Inr tx, d) \<Rightarrow>
             (case tx_exec eng (InsertRef ref channel) now tx of
                (Inl err, tx) \<Rightarrow> (Inl err, d)
              | (Inr tag, tx) \<Rightarrow>
                  if RowsAffected tag > 0 then
                    (case tx_exec eng (updateSQL amountCents) now tx of
                       (Inl err, tx) \<Rightarrow> (Inl err, d)
                     | (Inr tag, tx) \<Rightarrow> tx_commit eng tx d)
                  else tx_commit eng tx d)))"

definition PgStatsStore_RecordTw :: "('d, 'x) engine \<Rightarrow> time \<Rightarrow> int \<Rightarrow> string \<Rightarrow> 'd \<Rightarrow> unit result \<times> 'd" where
  "PgStatsStore_RecordTw eng now amountCents ref d =
     (case countOnce eng ''tw'' ref CountTw amountCents now d of
        (Inl err, d) \<Rightarrow> (Inl (Errorf ''record tw stat'' err), d)
      | (Inr u, d) \<Rightarrow> (Inr (), d))"

definition PgStatsStore_RecordTwError :: "('d, 'x) engine \<Rightarrow> time \<Rightarrow> 'd \<Rightarrow> unit result \<times> 'd" where
  "PgStatsStore_RecordTwError eng now d =
     (case exec eng CountTwError now d of
        (Inl err, d) \<Rightarrow> (Inl (Errorf ''record tw error stat'' err), d)
      | (Inr tag, d) \<Rightarrow> (Inr (), d))"

definition PgStatsStore_Totals :: "('d, 'x) engine \<Rightarrow> 'd \<Rightarrow> Stats result" where
  "PgStatsStore_Totals eng d =
     (case scan_row (select_totals eng d) of
        Inl err \<Rightarrow> Inl (Errorf ''load stats totals'' err)
      | Inr (cnt, cents, errs) \<Rightarrow> Inr
          \<lparr>Stats_Amount = fl (fl (of_int cents) / 100), Stats_Count = cnt, Stats_Errors = errs,
           TrueMoney = \<lparr>Part_Amount = fl (fl (of_int cents) / 100), Part_Count = cnt, Part_Errors = errs\<rparr>\<rparr>)"

definition pg_stats :: "('d, 'x) engine \<Rightarrow> time \<Rightarrow> 'd stats_repo" where
  "pg_stats eng now =
     \<lparr>stats_RecordTw = PgStatsStore_RecordTw eng now, stats_RecordTwError = PgStatsStore_RecordTwError eng now,
      stats_Totals = PgStatsStore_Totals eng\<rparr>"

section \<open>What the statements do\<close>

text \<open>
  The tables are those of the migrations: hashes and references are unique, counters are 64-bit and
  overflow is an error, and a value taken from a sequence stays taken when the insert fails.
\<close>

definition update_rows :: "int \<Rightarrow> (ApiKey \<Rightarrow> ApiKey) \<Rightarrow> ApiKey list \<Rightarrow> ApiKey list" where
  "update_rows i f rows = map (\<lambda>k. if ID k = i then f k else k) rows"

definition touched :: "time \<Rightarrow> ApiKey \<Rightarrow> ApiKey" where
  "touched now k = k\<lparr>LastUsedAt := Some now, RequestCount := RequestCount k + 1\<rparr>"

fun sql_run :: "(string \<Rightarrow> bool) \<Rightarrow> (time \<Rightarrow> time) \<Rightarrow> command \<Rightarrow> time \<Rightarrow> tables \<Rightarrow> answer result \<times> tables" where
  "sql_run ok mark (InsertKey name rank hash scopes expires) now T =
     (if \<not> list_all ok (name # rank # hash # scopes) then (Inl (PgError ''22021''), T)
      else if MaxInt64 < t_seq T then (Inl (PgError ''2200H''), T)
      else if hash \<in> KeyHash ` set (t_keys T) then (Inl (PgError ''23505''), T\<lparr>t_seq := t_seq T + 1\<rparr>)
      else (Inr (Returning (t_seq T) now),
            T\<lparr>t_seq := t_seq T + 1, t_keys := t_keys T @
               [\<lparr>ID = t_seq T, Name = name, Rank = rank, KeyHash = hash, Scopes = scopes,
                 ExpiresAt = map_option mark expires, RevokedAt = None, LastUsedAt = None,
                 RequestCount = 0, CreatedAt = now\<rparr>]\<rparr>))"
| "sql_run ok mark (RevokeKeyRow i) now T =
     (Inr (Affected (length (filter (\<lambda>k. ID k = i) (t_keys T)))),
      T\<lparr>t_keys := update_rows i (\<lambda>k. k\<lparr>RevokedAt := Some now\<rparr>) (t_keys T)\<rparr>)"
| "sql_run ok mark (TouchKeyRow i) now T =
     (if list_ex (\<lambda>k. ID k = i \<and> MaxInt64 \<le> RequestCount k) (t_keys T) then (Inl (PgError ''22003''), T)
      else (Inr (Affected (length (filter (\<lambda>k. ID k = i) (t_keys T)))),
            T\<lparr>t_keys := update_rows i (touched now) (t_keys T)\<rparr>))"
| "sql_run ok mark (CountTw cents) now T =
     (case t_totals T of
        None \<Rightarrow> (Inr (Affected 0), T)
      | Some (n, c, e) \<Rightarrow>
          if is_int64 (n + 1) \<and> is_int64 (c + cents) then (Inr (Affected 1), T\<lparr>t_totals := Some (n + 1, c + cents, e)\<rparr>)
          else (Inl (PgError ''22003''), T))"
| "sql_run ok mark CountTwError now T =
     (case t_totals T of
        None \<Rightarrow> (Inr (Affected 0), T)
      | Some (n, c, e) \<Rightarrow>
          if is_int64 (e + 1) then (Inr (Affected 1), T\<lparr>t_totals := Some (n, c, e + 1)\<rparr>)
          else (Inl (PgError ''22003''), T))"
| "sql_run ok mark (InsertRef ref channel) now T =
     (if \<not> (ok ref \<and> ok channel) then (Inl (PgError ''22021''), T)
      else if ref \<in> fst ` set (t_refs T) then (Inr (Affected 0), T)
      else (Inr (Affected 1), T\<lparr>t_refs := t_refs T @ [(ref, channel)]\<rparr>))"

abbreviation sql_command :: "('d, 'x) engine \<Rightarrow> command \<Rightarrow> time \<Rightarrow> tables \<Rightarrow> answer result \<times> tables" where
  "sql_command eng \<equiv> sql_run (text_ok eng) (stamp eng)"

text \<open>An error of the driver or the network.\<close>

definition lost :: "go_error \<Rightarrow> bool" where
  "lost e \<longleftrightarrow> \<not> errors_Is e ErrNoRows \<and> errors_As_Pg e \<noteq> Some ''23505''"

text \<open>
  How the rows of a query arrive: all of them, or, when the database is not ready, with an error before,
  between or after them.
\<close>

definition delivers :: "bool \<Rightarrow> 'a list \<Rightarrow> 'a rows result \<Rightarrow> bool" where
  "delivers up xs r \<longleftrightarrow>
     r = Inr (map Inr xs, None) \<or>
     \<not> up \<and> (\<exists>e n x. lost e \<and>
       (r = Inl e \<or> r = Inr (map Inr (take n xs), Some e) \<or> r = Inr (map Inr (take n xs) @ [Inl e], x)))"

definition executes :: "bool \<Rightarrow> 'a result \<times> 's \<Rightarrow> 's \<Rightarrow> 'a result \<times> 's \<Rightarrow> bool" where
  "executes up right T res \<longleftrightarrow>
     res = right \<or> \<not> up \<and> (\<exists>e. lost e \<and> fst res = Inl e) \<and> snd res \<in> {T, snd right}"

definition engine_law :: "('d, 'x) engine \<Rightarrow> bool" where
  "engine_law eng \<longleftrightarrow>
     (\<forall>s. list_all (\<lambda>c. 0 < (of_char c :: nat) \<and> of_char c < (128::nat)) s \<longrightarrow> text_ok eng s) \<and>
     (\<forall>t. stamp eng (stamp eng t) = stamp eng t) \<and>
     (\<forall>h d. text_ok eng h \<longrightarrow>
        delivers (ready eng d) (filter (\<lambda>k. KeyHash k = h) (t_keys (tables_of eng d))) (select_key eng h d)) \<and>
     (\<forall>h d. \<not> text_ok eng h \<longrightarrow> (\<exists>e. select_key eng h d = Inl e)) \<and>
     (\<forall>d. delivers (ready eng d) (sort_key ID (t_keys (tables_of eng d))) (select_keys eng d)) \<and>
     (\<forall>d. delivers (ready eng d) (case t_totals (tables_of eng d) of Some x \<Rightarrow> [x] | None \<Rightarrow> []) (select_totals eng d)) \<and>
     (\<forall>c now d. case exec eng c now d of (r, d') \<Rightarrow>
        executes (ready eng d) (sql_command eng c now (tables_of eng d)) (tables_of eng d) (r, tables_of eng d') \<and>
        (ready eng d \<longrightarrow> ready eng d')) \<and>
     (\<forall>d. case tx_begin eng d of (r, d') \<Rightarrow> tables_of eng d' = tables_of eng d \<and> (ready eng d \<longrightarrow> ready eng d') \<and>
        (case r of
           Inr x \<Rightarrow> tx_tables eng x = tables_of eng d \<and> (ready eng d \<longrightarrow> tx_ready eng x)
         | Inl e \<Rightarrow> \<not> ready eng d)) \<and>
     (\<forall>c now x. case tx_exec eng c now x of (r, x') \<Rightarrow>
        ((r, tx_tables eng x') = sql_command eng c now (tx_tables eng x) \<or> \<not> tx_ready eng x \<and> (\<exists>e. lost e \<and> r = Inl e)) \<and>
        (tx_ready eng x \<longrightarrow> tx_ready eng x')) \<and>
     (\<forall>x d. case tx_commit eng x d of (r, d') \<Rightarrow>
        executes (ready eng d \<and> tx_ready eng x) (Inr (), tx_tables eng x) (tables_of eng d) (r, tables_of eng d') \<and>
        (ready eng d \<longrightarrow> ready eng d'))"

lemma law_text: "engine_law eng \<Longrightarrow> list_all (\<lambda>c. 0 < (of_char c :: nat) \<and> of_char c < (128::nat)) s \<Longrightarrow> text_ok eng s"
  unfolding engine_law_def by blast

lemma law_stamp: "engine_law eng \<Longrightarrow> stamp eng (stamp eng t) = stamp eng t"
  unfolding engine_law_def by blast

lemma law_hex: "engine_law eng \<Longrightarrow> set s \<subseteq> set ''0123456789abcdef'' \<Longrightarrow> text_ok eng s"
  by (rule law_text) (auto simp: list_all_iff)

lemma law_select:
  assumes "engine_law eng"
  shows "text_ok eng h \<Longrightarrow> delivers (ready eng d) (filter (\<lambda>k. KeyHash k = h) (t_keys (tables_of eng d))) (select_key eng h d)"
    and "\<not> text_ok eng h \<Longrightarrow> \<exists>e. select_key eng h d = Inl e"
    and "delivers (ready eng d) (sort_key ID (t_keys (tables_of eng d))) (select_keys eng d)"
    and "delivers (ready eng d) (case t_totals (tables_of eng d) of Some x \<Rightarrow> [x] | None \<Rightarrow> []) (select_totals eng d)"
  using assms unfolding engine_law_def by (elim conjE; blast)+

lemma law_exec:
  assumes "engine_law eng" and "exec eng c now d = (r, d')"
  shows "executes (ready eng d) (sql_command eng c now (tables_of eng d)) (tables_of eng d) (r, tables_of eng d')"
    and "ready eng d \<Longrightarrow> ready eng d'"
proof -
  have "case exec eng c now d of (r, d') \<Rightarrow>
      executes (ready eng d) (sql_command eng c now (tables_of eng d)) (tables_of eng d) (r, tables_of eng d') \<and>
      (ready eng d \<longrightarrow> ready eng d')"
    using assms(1) unfolding engine_law_def by (elim conjE allE)
  then show "executes (ready eng d) (sql_command eng c now (tables_of eng d)) (tables_of eng d) (r, tables_of eng d')"
    "ready eng d \<Longrightarrow> ready eng d'" using assms(2) by simp_all
qed

lemma exec_cases:
  assumes "engine_law eng" and "exec eng c now d = (r, d')"
  obtains (exact) "sql_command eng c now (tables_of eng d) = (r, tables_of eng d')" "ready eng d \<Longrightarrow> ready eng d'"
  | (failed) e where "\<not> ready eng d" "r = Inl e" "lost e"
      "tables_of eng d' = tables_of eng d \<or> tables_of eng d' = snd (sql_command eng c now (tables_of eng d))"
  using law_exec [OF assms] by (auto simp: executes_def)

section \<open>The tables of keys\<close>

definition row_map :: "tables \<Rightarrow> string \<Rightarrow> ApiKey option" where
  "row_map T = map_of (map (\<lambda>k. (KeyHash k, k)) (t_keys T))"

definition key_table_inv :: "tables \<Rightarrow> bool" where
  "key_table_inv T \<longleftrightarrow>
     distinct (map KeyHash (t_keys T)) \<and> distinct (map ID (t_keys T)) \<and> (\<forall>k \<in> set (t_keys T). ID k < t_seq T)"

lemma row_map_iff:
  assumes "key_table_inv T"
  shows "row_map T h = Some k \<longleftrightarrow> k \<in> set (t_keys T) \<and> KeyHash k = h"
proof -
  have "distinct (map fst (map (\<lambda>k. (KeyHash k, k)) (t_keys T)))" using assms by (simp add: key_table_inv_def comp_def)
  then show ?thesis by (auto simp: row_map_def)
qed

lemma row_map_None: "row_map T h = None \<longleftrightarrow> h \<notin> KeyHash ` set (t_keys T)"
  by (simp add: row_map_def map_of_eq_None_iff image_image)

lemma same_id:
  assumes "key_table_inv T" and "k \<in> set (t_keys T)" and "k' \<in> set (t_keys T)" and "ID k = ID k'"
  shows "k = k'"
  using assms by (auto simp: key_table_inv_def distinct_map inj_on_def)

lemma update_rows_inv:
  assumes "key_table_inv T" and "\<And>k. ID (f k) = ID k \<and> KeyHash (f k) = KeyHash k"
  shows "key_table_inv (T\<lparr>t_keys := update_rows i f (t_keys T)\<rparr>)"
proof -
  have "map KeyHash (update_rows i f rows) = map KeyHash rows" "map ID (update_rows i f rows) = map ID rows" for rows
    using assms(2) by (simp_all add: update_rows_def)
  moreover have "\<forall>k \<in> set (update_rows i f (t_keys T)). ID k < t_seq T"
    using assms by (auto simp: update_rows_def key_table_inv_def)
  ultimately show ?thesis using assms(1) by (simp add: key_table_inv_def)
qed

lemma update_rows_map:
  assumes inv: "key_table_inv T" and f: "\<And>k. ID (f k) = ID k \<and> KeyHash (f k) = KeyHash k"
    and k: "k \<in> set (t_keys T)" "ID k = i"
  shows "row_map (T\<lparr>t_keys := update_rows i f (t_keys T)\<rparr>) = (row_map T)(KeyHash k \<mapsto> f k)"
proof
  fix h
  let ?g = "\<lambda>k. if ID k = i then f k else k"
  have "map (\<lambda>k. (KeyHash k, k)) (update_rows i f (t_keys T)) =
      map (\<lambda>(h, k). (h, ?g k)) (map (\<lambda>k. (KeyHash k, k)) (t_keys T))"
    using f by (simp add: update_rows_def)
  then have upd: "row_map (T\<lparr>t_keys := update_rows i f (t_keys T)\<rparr>) h = map_option ?g (row_map T h)"
    by (simp add: row_map_def map_of_map del: map_map)
  show "row_map (T\<lparr>t_keys := update_rows i f (t_keys T)\<rparr>) h = ((row_map T)(KeyHash k \<mapsto> f k)) h"
  proof (cases "h = KeyHash k")
    case True
    then have "row_map T h = Some k" using row_map_iff [OF inv] k(1) by blast
    then show ?thesis using upd True k(2) by simp
  next
    case False
    have "ID k' \<noteq> i" if "row_map T h = Some k'" for k'
    proof
      assume "ID k' = i"
      moreover have "k' \<in> set (t_keys T)" "KeyHash k' = h" using that row_map_iff [OF inv] by blast+
      ultimately show False using same_id [OF inv k(1), of k'] k(2) False by simp
    qed
    then show ?thesis using upd False by (cases "row_map T h") auto
  qed
qed

lemma update_rows_missing: "i \<notin> ID ` set rows \<Longrightarrow> update_rows i f rows = rows"
  by (auto simp: update_rows_def intro!: map_idI)

lemma affected_zero: "length (filter (\<lambda>k. ID k = i) rows) = 0 \<longleftrightarrow> i \<notin> ID ` set rows"
  by (auto simp: filter_empty_conv)

lemma touched_simps [simp]: "ID (touched now k) = ID k" "KeyHash (touched now k) = KeyHash k" "grants (touched now k) = grants k"
  by (simp_all add: touched_def grants_def)

lemma sql_key_inv:
  assumes "key_table_inv T"
  shows "key_table_inv (snd (sql_command eng c now T))"
proof (cases c)
  case (InsertKey n r h sc ex)
  have "ID k < t_seq T + 1" if "k \<in> set (t_keys T)" for k using assms that by (fastforce simp: key_table_inv_def)
  moreover have "t_seq T \<notin> ID ` set (t_keys T)" using assms by (auto simp: key_table_inv_def)
  ultimately show ?thesis using assms by (auto simp: InsertKey key_table_inv_def)
next
  case (RevokeKeyRow i)
  then show ?thesis using update_rows_inv [OF assms] by simp
next
  case (TouchKeyRow i)
  then show ?thesis using update_rows_inv [OF assms] assms by simp
next
  case (CountTw x)
  then show ?thesis using assms by (auto simp: key_table_inv_def split: option.splits)
next
  case CountTwError
  then show ?thesis using assms by (auto simp: key_table_inv_def split: option.splits)
next
  case (InsertRef x y)
  then show ?thesis using assms by (auto simp: key_table_inv_def)
qed

lemma exec_key_inv:
  assumes "engine_law eng" and "key_table_inv (tables_of eng d)" and "exec eng c now d = (r, d')"
  shows "key_table_inv (tables_of eng d')"
  using exec_cases [OF assms(1,3)] sql_key_inv [OF assms(2), of eng c now] assms(2) by (metis snd_conv)

lemma delivers_scan:
  assumes "delivers up xs r" and "scan_row r = Inr v"
  shows "\<exists>ys. xs = v # ys"
proof -
  have "\<exists>ys. xs = v # ys" if "(Inr v :: 'a result) # zs = map Inr (take n xs) @ [Inl e]" for n e zs
    using that by (cases "take n xs"; cases xs; cases n) auto
  moreover have "\<exists>zs x. r = Inr (Inr v # zs, x) \<and> x = None"
    using assms(2) by (auto simp: scan_row_def split: sum.splits list.splits option.splits)
  ultimately show ?thesis using assms(1) by (auto simp: delivers_def map_eq_Cons_conv)
qed

lemma delivers_scan_up:
  assumes "delivers True xs r"
  shows "scan_row r = (case xs of [] \<Rightarrow> Inl (Sentinel ErrNoRows) | v # _ \<Rightarrow> Inr v)"
  using assms by (auto simp: delivers_def scan_row_def split: list.splits)

lemma collect_good: "collect_keys (map Inr ks) None acc = Inr (acc @ ks)"
  by (induction ks arbitrary: acc) simp_all

lemma collect_bad:
  "\<exists>e'. collect_keys (map Inr ks) (Some e) acc = Inl e'" "\<exists>e'. collect_keys (map Inr ks @ [Inl e]) x acc = Inl e'"
  by (induction ks arbitrary: acc) simp_all

lemma filter_hash:
  assumes "key_table_inv T"
  shows "filter (\<lambda>k. KeyHash k = h) (t_keys T) = (case row_map T h of None \<Rightarrow> [] | Some k \<Rightarrow> [k])"
proof -
  have "filter (\<lambda>k. KeyHash k = h) rows = (case map_of (map (\<lambda>k. (KeyHash k, k)) rows) h of None \<Rightarrow> [] | Some k \<Rightarrow> [k])"
    if "distinct (map KeyHash rows)" for rows :: "ApiKey list"
    using that
  proof (induction rows)
    case (Cons k rows)
    from Cons.prems have "KeyHash k = h \<Longrightarrow> filter (\<lambda>k. KeyHash k = h) rows = []"
      by (simp add: filter_empty_conv) (metis imageI)
    note none = this
    show ?case
    proof (cases "KeyHash k = h")
      case True
      then show ?thesis using none by simp
    next
      case False
      then show ?thesis using Cons.IH Cons.prems by simp
    qed
  qed simp
  then show ?thesis using assms by (simp add: key_table_inv_def row_map_def)
qed

section \<open>The stores keep their contracts\<close>

definition pg_takes :: "('d, 'x) engine \<Rightarrow> ApiKey \<Rightarrow> 'd \<Rightarrow> bool" where
  "pg_takes eng key d \<longleftrightarrow>
     list_all (text_ok eng) (Name key # (if Rank key = [] then ''member'' else Rank key) # KeyHash key # Scopes key) \<and>
     map_option (stamp eng) (ExpiresAt key) = ExpiresAt key \<and> t_seq (tables_of eng d) \<le> MaxInt64"

definition row_fine :: "('d, 'x) engine \<Rightarrow> ApiKey \<Rightarrow> bool" where
  "row_fine eng k \<longleftrightarrow> is_int64 (RequestCount k) \<and> list_all (text_ok eng) (KeyHash k # Name k # Rank k # Scopes k) \<and>
     map_option (stamp eng) (ExpiresAt k) = ExpiresAt k"

definition pg_key_inv :: "('d, 'x) engine \<Rightarrow> 'd \<Rightarrow> bool" where
  "pg_key_inv eng d \<longleftrightarrow> engine_law eng \<and> key_table_inv (tables_of eng d) \<and>
     (\<forall>k \<in> set (t_keys (tables_of eng d)). row_fine eng k)"

lemma pg_repo_simps [simp]:
  "repo_Create (pg_repo eng) = PgKeyStore_Create eng" "repo_GetByHash (pg_repo eng) = PgKeyStore_GetByHash eng"
  "repo_List (pg_repo eng) = PgKeyStore_List eng" "repo_Revoke (pg_repo eng) = PgKeyStore_Revoke eng"
  "repo_Touch (pg_repo eng) = PgKeyStore_Touch eng"
  by (simp_all add: pg_repo_def)

lemma sql_rows_fine:
  assumes "engine_law eng" and "\<forall>k \<in> set (t_keys T). row_fine eng k"
  shows "\<forall>k \<in> set (t_keys (snd (sql_command eng c now T))). row_fine eng k"
  using assms(2) law_stamp [OF assms(1)]
  by (cases c)
    (auto simp: row_fine_def update_rows_def touched_def is_int64_def list_ex_iff option.map_comp comp_def split: option.splits)

lemma exec_pg_inv:
  assumes "pg_key_inv eng d" and "exec eng c now d = (r, d')"
  shows "pg_key_inv eng d'"
proof -
  have law: "engine_law eng" and rows: "\<forall>k \<in> set (t_keys (tables_of eng d)). row_fine eng k"
    using assms(1) by (simp_all add: pg_key_inv_def)
  have "tables_of eng d' = tables_of eng d \<or> tables_of eng d' = snd (sql_command eng c now (tables_of eng d))"
    using exec_cases [OF law assms(2)] by (metis snd_conv)
  then have "\<forall>k \<in> set (t_keys (tables_of eng d')). row_fine eng k"
    using rows sql_rows_fine [OF law rows, of c now] by (elim disjE) simp_all
  then show ?thesis using exec_key_inv [OF law _ assms(2)] assms(1) by (simp add: pg_key_inv_def)
qed

lemma pg_op_inv:
  assumes "pg_key_inv eng d"
  shows "pg_key_inv eng (snd (PgKeyStore_Create eng now key d))" "pg_key_inv eng (snd (PgKeyStore_Revoke eng now i d))"
    "pg_key_inv eng (snd (PgKeyStore_Touch eng now i d))"
proof -
  let ?c = "InsertKey (Name key) (if Rank key = [] then ''member'' else Rank key) (KeyHash key) (Scopes key) (ExpiresAt key)"
  obtain a1 d1 where e1: "exec eng ?c now d = (a1, d1)" by fastforce
  obtain a2 d2 where e2: "exec eng (RevokeKeyRow i) now d = (a2, d2)" by fastforce
  obtain a3 d3 where e3: "exec eng (TouchKeyRow i) now d = (a3, d3)" by fastforce
  have "snd (PgKeyStore_Create eng now key d) = d1" "snd (PgKeyStore_Revoke eng now i d) = d2" "snd (PgKeyStore_Touch eng now i d) = d3"
    by (simp_all add: PgKeyStore_Create_def PgKeyStore_Revoke_def PgKeyStore_Touch_def e1 e2 e3 Let_def split: sum.splits)
  then show "pg_key_inv eng (snd (PgKeyStore_Create eng now key d))" "pg_key_inv eng (snd (PgKeyStore_Revoke eng now i d))"
    "pg_key_inv eng (snd (PgKeyStore_Touch eng now i d))"
    using exec_pg_inv [OF assms] e1 e2 e3 by auto
qed

text \<open>The row a key becomes.\<close>

definition row_for :: "int \<Rightarrow> time \<Rightarrow> ApiKey \<Rightarrow> ApiKey" where
  "row_for i now key = (default_rank key)\<lparr>ID := i, CreatedAt := now, RevokedAt := None, LastUsedAt := None, RequestCount := 0\<rparr>"

lemma row_for_simps [simp]: "KeyHash (row_for i now key) = KeyHash key" "ID (row_for i now key) = i"
  by (simp_all add: row_for_def default_rank_def)

lemma row_for_unstored: "unstored key \<Longrightarrow> row_for i now key = (default_rank key)\<lparr>ID := i, CreatedAt := now\<rparr>"
  by (cases key) (simp add: row_for_def default_rank_def unstored_def)

lemma sql_insert:
  assumes "pg_takes eng key d"
  shows "sql_command eng (InsertKey (Name key) (if Rank key = [] then ''member'' else Rank key) (KeyHash key) (Scopes key) (ExpiresAt key))
      now (tables_of eng d) =
    (let T = tables_of eng d in
     if row_map T (KeyHash key) \<noteq> None then (Inl (PgError ''23505''), T\<lparr>t_seq := t_seq T + 1\<rparr>)
     else (Inr (Returning (t_seq T) now), T\<lparr>t_seq := t_seq T + 1, t_keys := t_keys T @ [row_for (t_seq T) now key]\<rparr>))"
  using assms by (cases key) (auto simp: pg_takes_def row_for_def default_rank_def row_map_None Let_def)

lemma row_map_append:
  assumes "row_map T (KeyHash k) = None"
  shows "row_map (T\<lparr>t_seq := n, t_keys := t_keys T @ [k]\<rparr>) = (row_map T)(KeyHash k \<mapsto> k)"
  using assms by (auto simp: row_map_def fun_eq_iff map_add_def split: option.splits)

lemma row_map_seq [simp]: "row_map (T\<lparr>t_seq := n\<rparr>) = row_map T"
  by (simp add: row_map_def)

lemma Create_cases:
  assumes inv: "pg_key_inv eng d" and takes: "pg_takes eng key d" and res: "PgKeyStore_Create eng now key d = (r, d')"
  obtains (conflict) "row_map (tables_of eng d) (KeyHash key) \<noteq> None" "r = Inl (Sentinel ErrConflict)"
      "row_map (tables_of eng d') = row_map (tables_of eng d)" "ready eng d \<Longrightarrow> ready eng d'"
  | (created) i where "row_map (tables_of eng d) (KeyHash key) = None"
      "r = Inr (key\<lparr>ID := i, CreatedAt := now, Rank := (if Rank key = [] then ''member'' else Rank key)\<rparr>)"
      "row_map (tables_of eng d') = (row_map (tables_of eng d))(KeyHash key \<mapsto> row_for i now key)" "ready eng d \<Longrightarrow> ready eng d'"
  | (failed) e where "\<not> ready eng d" "r = Inl e" "row_map (tables_of eng d) \<subseteq>\<^sub>m row_map (tables_of eng d')"
proof -
  let ?c = "InsertKey (Name key) (if Rank key = [] then ''member'' else Rank key) (KeyHash key) (Scopes key) (ExpiresAt key)"
  let ?T = "tables_of eng d"
  have law: "engine_law eng" using inv by (simp add: pg_key_inv_def)
  obtain a d1 where ex: "exec eng ?c now d = (a, d1)" by fastforce
  have d1: "d1 = d'" using res ex by (auto simp: PgKeyStore_Create_def Let_def split: sum.splits prod.splits if_splits)
  have new: "row_map ?T \<subseteq>\<^sub>m row_map (snd (sql_command eng ?c now ?T))"
    unfolding sql_insert [OF takes] by (auto simp: Let_def row_map_append map_le_def)
  show ?thesis
  proof (rule exec_cases [OF law ex], goal_cases)
    case 1
    then have T': "sql_command eng ?c now ?T = (a, tables_of eng d')" using d1 by simp
    show ?thesis
    proof (cases "row_map ?T (KeyHash key)")
      case None
      then have "a = Inr (Returning (t_seq ?T) now)"
        and eq: "tables_of eng d' = ?T\<lparr>t_seq := t_seq ?T + 1, t_keys := t_keys ?T @ [row_for (t_seq ?T) now key]\<rparr>"
        using T' unfolding sql_insert [OF takes] by (auto simp: Let_def)
      moreover have "row_map (tables_of eng d') = (row_map ?T)(KeyHash key \<mapsto> row_for (t_seq ?T) now key)"
        unfolding eq using row_map_append [of ?T "row_for (t_seq ?T) now key"] None by simp
      ultimately show ?thesis using created [of "t_seq ?T"] None res ex d1 1(2)
        by (simp add: PgKeyStore_Create_def scan_returning_def)
    next
      case (Some k)
      then have "a = Inl (PgError ''23505'')" and eq: "tables_of eng d' = ?T\<lparr>t_seq := t_seq ?T + 1\<rparr>"
        using T' unfolding sql_insert [OF takes] by (auto simp: Let_def)
      moreover have "row_map (tables_of eng d') = row_map ?T" unfolding eq by simp
      ultimately show ?thesis using conflict Some res ex d1 1(2)
        by (simp add: PgKeyStore_Create_def scan_returning_def isUniqueViolation_def)
    qed
  next
    case (2 e)
    then have "row_map ?T \<subseteq>\<^sub>m row_map (tables_of eng d')" using new d1 by auto
    then show ?thesis using failed [of "Errorf ''insert api key'' e"] 2 res ex d1
      by (simp add: PgKeyStore_Create_def scan_returning_def isUniqueViolation_def lost_def)
  qed
qed

lemma Update_cases:
  assumes inv: "pg_key_inv eng d" and ex: "exec eng c now d = (a, d')"
    and c: "c = RevokeKeyRow i \<and> f = (\<lambda>k. k\<lparr>RevokedAt := Some now\<rparr>) \<or> c = TouchKeyRow i \<and> f = touched now"
  obtains (missing) "i \<notin> ID ` set (t_keys (tables_of eng d))" "a = Inr (Affected 0)" "tables_of eng d' = tables_of eng d"
      "ready eng d \<Longrightarrow> ready eng d'"
  | (found) k where "k \<in> set (t_keys (tables_of eng d))" "ID k = i" "\<exists>n. a = Inr (Affected (Suc n))"
      "c = TouchKeyRow i \<Longrightarrow> RequestCount k < MaxInt64"
      "row_map (tables_of eng d') = (row_map (tables_of eng d))(KeyHash k \<mapsto> f k)" "ready eng d \<Longrightarrow> ready eng d'"
  | (overflow) k where "k \<in> set (t_keys (tables_of eng d))" "ID k = i" "c = TouchKeyRow i" "MaxInt64 \<le> RequestCount k"
      "\<exists>e. a = Inl e" "tables_of eng d' = tables_of eng d"
  | (failed) e where "\<not> ready eng d" "a = Inl e"
      "row_map (tables_of eng d') = row_map (tables_of eng d) \<or>
       (\<exists>k. k \<in> set (t_keys (tables_of eng d)) \<and> ID k = i \<and>
          row_map (tables_of eng d') = (row_map (tables_of eng d))(KeyHash k \<mapsto> f k))"
proof -
  let ?T = "tables_of eng d"
  have law: "engine_law eng" and tinv: "key_table_inv ?T" using inv by (simp_all add: pg_key_inv_def)
  have f: "ID (f k) = ID k \<and> KeyHash (f k) = KeyHash k" for k using c by auto
  note upd = update_rows_map [OF tinv f]
  have sql: "sql_command eng c now ?T =
      (if c = TouchKeyRow i \<and> list_ex (\<lambda>k. ID k = i \<and> MaxInt64 \<le> RequestCount k) (t_keys ?T) then (Inl (PgError ''22003''), ?T)
       else (Inr (Affected (length (filter (\<lambda>k. ID k = i) (t_keys ?T)))), ?T\<lparr>t_keys := update_rows i f (t_keys ?T)\<rparr>))"
    using c by auto
  show ?thesis
  proof (rule exec_cases [OF law ex], goal_cases)
    case 1
    show ?thesis
    proof (cases "\<exists>k \<in> set (t_keys ?T). ID k = i")
      case False
      then have "i \<notin> ID ` set (t_keys ?T)" by auto
      then show ?thesis using missing 1 False update_rows_missing [of i "t_keys ?T" f] affected_zero [of i "t_keys ?T"]
        unfolding sql by (auto simp: list_ex_iff)
    next
      case True
      then obtain k where k: "k \<in> set (t_keys ?T)" "ID k = i" by blast
      show ?thesis
      proof (cases "c = TouchKeyRow i \<and> MaxInt64 \<le> RequestCount k")
        case True
        then have "list_ex (\<lambda>k. ID k = i \<and> MaxInt64 \<le> RequestCount k) (t_keys ?T)" using k by (auto simp: list_ex_iff)
        then have "a = Inl (PgError ''22003'')" "tables_of eng d' = ?T" using 1(1) True unfolding sql by simp_all
        then show ?thesis using overflow [OF k] True by simp
      next
        case False
        have "\<not> (c = TouchKeyRow i \<and> list_ex (\<lambda>k. ID k = i \<and> MaxInt64 \<le> RequestCount k) (t_keys ?T))"
          using False same_id [OF tinv k(1)] k(2) unfolding list_ex_iff by metis
        then have res: "a = Inr (Affected (length (filter (\<lambda>k. ID k = i) (t_keys ?T))))"
          "tables_of eng d' = ?T\<lparr>t_keys := update_rows i f (t_keys ?T)\<rparr>" using 1(1) unfolding sql by auto
        moreover have "length (filter (\<lambda>k. ID k = i) (t_keys ?T)) \<noteq> 0" using affected_zero k by blast
        ultimately show ?thesis using found [OF k] upd [OF k] False 1(2) not0_implies_Suc by (metis leI)
      qed
    qed
  next
    case (2 e)
    have "row_map (tables_of eng d') = row_map ?T \<or>
       (\<exists>k. k \<in> set (t_keys ?T) \<and> ID k = i \<and> row_map (tables_of eng d') = (row_map ?T)(KeyHash k \<mapsto> f k))"
    proof (cases "tables_of eng d' = ?T\<lparr>t_keys := update_rows i f (t_keys ?T)\<rparr>")
      case True
      then show ?thesis using upd update_rows_missing [of i "t_keys ?T" f]
        by (cases "i \<in> ID ` set (t_keys ?T)") auto
    next
      case False
      then have "tables_of eng d' = ?T" using 2(4) unfolding sql by (auto split: if_splits)
      then show ?thesis by simp
    qed
    then show ?thesis using failed 2 by blast
  qed
qed

lemma Revoke_cases:
  assumes inv: "pg_key_inv eng d" and res: "PgKeyStore_Revoke eng now i d = (r, d')"
  obtains (missing) "i \<notin> ID ` set (t_keys (tables_of eng d))" "r = Inl (Sentinel ErrNotFound)"
      "row_map (tables_of eng d') = row_map (tables_of eng d)" "ready eng d \<Longrightarrow> ready eng d'"
  | (found) k where "row_map (tables_of eng d) (KeyHash k) = Some k" "ID k = i" "r = Inr ()"
      "row_map (tables_of eng d') = (row_map (tables_of eng d))(KeyHash k \<mapsto> k\<lparr>RevokedAt := Some now\<rparr>)" "ready eng d \<Longrightarrow> ready eng d'"
  | (failed) e where "\<not> ready eng d" "r = Inl e"
      "row_map (tables_of eng d') = row_map (tables_of eng d) \<or>
       (\<exists>k. row_map (tables_of eng d) (KeyHash k) = Some k \<and> ID k = i \<and>
          row_map (tables_of eng d') = (row_map (tables_of eng d))(KeyHash k \<mapsto> k\<lparr>RevokedAt := Some now\<rparr>))"
proof -
  obtain a d1 where ex: "exec eng (RevokeKeyRow i) now d = (a, d1)" by fastforce
  have d1: "d1 = d'" using res ex by (auto simp: PgKeyStore_Revoke_def split: sum.splits if_splits)
  have tinv: "key_table_inv (tables_of eng d)" using inv by (simp add: pg_key_inv_def)
  have rm: "k \<in> set (t_keys (tables_of eng d)) \<longleftrightarrow> row_map (tables_of eng d) (KeyHash k) = Some k" for k
    using row_map_iff [OF tinv] by blast
  have out: "(r, d') = (case a of Inl err \<Rightarrow> (Inl (Errorf ''revoke api key'' err), d')
      | Inr tag \<Rightarrow> if RowsAffected tag = 0 then (Inl (Sentinel ErrNotFound), d') else (Inr (), d'))"
    using res ex d1 by (simp add: PgKeyStore_Revoke_def split: sum.splits)
  show ?thesis
  proof (rule Update_cases [OF inv ex, of i "\<lambda>k. k\<lparr>RevokedAt := Some now\<rparr>"], goal_cases)
    case 2
    then show ?case using missing d1 out by (simp add: RowsAffected_def)
  next
    case (3 k)
    then show ?case using found [of k] d1 out rm by (auto simp: RowsAffected_def)
  next
    case (5 e)
    then show ?case using failed [of "Errorf ''revoke api key'' e"] d1 out rm by auto
  qed simp_all
qed

lemma Touch_cases:
  assumes inv: "pg_key_inv eng d" and res: "PgKeyStore_Touch eng now i d = (r, d')"
  obtains (missing) "i \<notin> ID ` set (t_keys (tables_of eng d))" "r = Inl (Sentinel ErrNotFound)"
      "row_map (tables_of eng d') = row_map (tables_of eng d)"
  | (found) k where "row_map (tables_of eng d) (KeyHash k) = Some k" "ID k = i" "r = Inr ()" "RequestCount k < MaxInt64"
      "row_map (tables_of eng d') = (row_map (tables_of eng d))(KeyHash k \<mapsto> touched now k)" "ready eng d \<Longrightarrow> ready eng d'"
  | (overflow) k where "row_map (tables_of eng d) (KeyHash k) = Some k" "ID k = i" "\<exists>e. r = Inl e" "MaxInt64 \<le> RequestCount k"
      "row_map (tables_of eng d') = row_map (tables_of eng d)"
  | (failed) e where "\<not> ready eng d" "r = Inl e"
      "row_map (tables_of eng d') = row_map (tables_of eng d) \<or>
       (\<exists>k. row_map (tables_of eng d) (KeyHash k) = Some k \<and> ID k = i \<and>
          row_map (tables_of eng d') = (row_map (tables_of eng d))(KeyHash k \<mapsto> touched now k))"
proof -
  obtain a d1 where ex: "exec eng (TouchKeyRow i) now d = (a, d1)" by fastforce
  have d1: "d1 = d'" using res ex by (auto simp: PgKeyStore_Touch_def split: sum.splits if_splits)
  have tinv: "key_table_inv (tables_of eng d)" using inv by (simp add: pg_key_inv_def)
  have rm: "k \<in> set (t_keys (tables_of eng d)) \<longleftrightarrow> row_map (tables_of eng d) (KeyHash k) = Some k" for k
    using row_map_iff [OF tinv] by blast
  have out: "(r, d') = (case a of Inl err \<Rightarrow> (Inl (Errorf ''touch api key'' err), d')
      | Inr tag \<Rightarrow> if RowsAffected tag = 0 then (Inl (Sentinel ErrNotFound), d') else (Inr (), d'))"
    using res ex d1 by (simp add: PgKeyStore_Touch_def split: sum.splits)
  show ?thesis
  proof (rule Update_cases [OF inv ex, of i "touched now"], goal_cases)
    case 2
    then show ?case using missing d1 out by (simp add: RowsAffected_def)
  next
    case (3 k)
    then show ?case using found [of k] d1 out rm by (auto simp: RowsAffected_def)
  next
    case (4 k)
    then show ?case using overflow [of k] d1 out rm by auto
  next
    case (5 e)
    then show ?case using failed [of "Errorf ''touch api key'' e"] d1 out rm by auto
  qed simp_all
qed

lemma pg_get:
  assumes "pg_key_inv eng d"
  shows "PgKeyStore_GetByHash eng h d = Inr k \<Longrightarrow> row_map (tables_of eng d) h = Some k"
    and "ready eng d \<Longrightarrow> text_ok eng h \<Longrightarrow> PgKeyStore_GetByHash eng h d =
      (case row_map (tables_of eng d) h of None \<Rightarrow> Inl (Sentinel ErrNotFound) | Some k \<Rightarrow> Inr k)"
proof -
  have law: "engine_law eng" and tinv: "key_table_inv (tables_of eng d)" using assms by (simp_all add: pg_key_inv_def)
  note sel = law_select(1) [OF law, of h d, unfolded filter_hash [OF tinv]]
  { assume get: "PgKeyStore_GetByHash eng h d = Inr k"
    then have scan: "scan_row (select_key eng h d) = Inr k"
      by (auto simp: PgKeyStore_GetByHash_def split: sum.splits if_splits)
    have "text_ok eng h"
    proof (rule ccontr)
      assume "\<not> text_ok eng h"
      then obtain e where "select_key eng h d = Inl e" using law_select(2) [OF law] by blast
      then show False using scan by (simp add: scan_row_def)
    qed
    from delivers_scan [OF sel [OF this] scan] show "row_map (tables_of eng d) h = Some k"
      by (auto split: option.splits) }
  { assume up: "ready eng d" "text_ok eng h"
    from delivers_scan_up [of _ "select_key eng h d"] sel [OF up(2)] up(1)
    show "PgKeyStore_GetByHash eng h d =
      (case row_map (tables_of eng d) h of None \<Rightarrow> Inl (Sentinel ErrNotFound) | Some k \<Rightarrow> Inr k)"
      by (auto simp: PgKeyStore_GetByHash_def split: option.splits) }
qed

lemma pg_list:
  assumes "pg_key_inv eng d"
  shows "PgKeyStore_List eng d = Inr ks \<Longrightarrow> ks = sort_key ID (t_keys (tables_of eng d))"
    and "ready eng d \<Longrightarrow> PgKeyStore_List eng d = Inr (sort_key ID (t_keys (tables_of eng d)))"
proof -
  have law: "engine_law eng" using assms by (simp add: pg_key_inv_def)
  note sel = law_select(3) [OF law, of d]
  let ?xs = "sort_key ID (t_keys (tables_of eng d))"
  show "ks = ?xs" if res: "PgKeyStore_List eng d = Inr ks"
  proof (cases "select_keys eng d = Inr (map Inr ?xs, None)")
    case True
    then show ?thesis using res by (simp add: PgKeyStore_List_def collect_good)
  next
    case False
    then obtain e n x where "select_keys eng d \<in> {Inl e, Inr (map Inr (take n ?xs), Some e), Inr (map Inr (take n ?xs) @ [Inl e], x)}"
      using sel unfolding delivers_def by blast
    then have "\<exists>e'. PgKeyStore_List eng d = Inl e'"
      using collect_bad(1) [of "take n ?xs" e "[]"] collect_bad(2) [of "take n ?xs" e x "[]"] by (auto simp: PgKeyStore_List_def)
    then show ?thesis using res by auto
  qed
  show "ready eng d \<Longrightarrow> PgKeyStore_List eng d = Inr (sort_key ID (t_keys (tables_of eng d)))"
    using sel by (simp add: PgKeyStore_List_def delivers_def collect_good)
qed

lemma ran_row_map: "key_table_inv T \<Longrightarrow> ran (row_map T) = set (t_keys T)"
  by (auto simp: ran_def row_map_iff)

interpretation pks: key_store "pg_repo eng" "pg_key_inv eng"
  "ready eng" "pg_takes eng" "\<lambda>d. row_map (tables_of eng d)" for eng :: "('d, 'x) engine"
proof (unfold_locales, goal_cases)
  case (1 s h k)
  then show ?case using row_map_iff [of "tables_of eng s" h k] by (simp add: pg_key_inv_def)
next
  case (2 s h k h' k')
  then have inv: "key_table_inv (tables_of eng s)" by (simp add: pg_key_inv_def)
  show ?case using 2(2-) same_id [OF inv, of k k'] row_map_iff [OF inv] by auto
next
  case (3 s h k)
  then show ?case using pg_get(1) [of eng s h k] by simp
next
  case (4 s h k)
  then have "text_ok eng h" using row_map_iff [of "tables_of eng s" h k] by (auto simp: pg_key_inv_def row_fine_def)
  then show ?case using 4 pg_get(2) [of eng s h] by simp
next
  case (5 s h)
  then have "text_ok eng h" using law_hex [of eng h] by (simp add: pg_key_inv_def)
  then show ?case using 5 pg_get(2) [of eng s h] by simp
next
  case (6 s ks)
  then have inv: "key_table_inv (tables_of eng s)" by (simp add: pg_key_inv_def)
  have ks: "ks = sort_key ID (t_keys (tables_of eng s))" using 6 pg_list(1) by simp
  have "distinct (map ID ks)"
  proof -
    have "mset (map ID ks) = mset (map ID (t_keys (tables_of eng s)))" by (simp add: ks)
    then show ?thesis using inv mset_eq_imp_distinct_iff unfolding key_table_inv_def by blast
  qed
  then show ?case using ran_row_map [OF inv] by (simp add: ks strict_sorted_iff)
next
  case (7 s)
  then show ?case using pg_list(2) [of eng s] by simp
next
  case (8 s key now)
  then show ?case using pg_op_inv(1) by simp
next
  case (9 s key now)
  obtain r d' where cr: "PgKeyStore_Create eng now key s = (r, d')" by fastforce
  from 9(1) 9(2) cr show ?case by (rule Create_cases) (auto simp: cr map_le_def)
next
  case (10 s key now k s')
  from 10(1) 10(2) 10(4) [unfolded pg_repo_simps] show ?case
  proof (rule Create_cases, goal_cases)
    case (2 i)
    have "key\<lparr>ID := i, CreatedAt := now, Rank := (if Rank key = [] then ''member'' else Rank key)\<rparr> =
        (default_rank key)\<lparr>ID := i, CreatedAt := now\<rparr>" by (cases key) (simp add: default_rank_def)
    with 2 show ?case using row_for_unstored [OF 10(3)] by auto
  qed auto
next
  case (11 s key now)
  obtain r d' where cr: "PgKeyStore_Create eng now key s = (r, d')" by fastforce
  from 11(1) 11(2) cr show ?case by (rule Create_cases) (use 11 cr in auto)
next
  case (12 s key now)
  obtain r d' where cr: "PgKeyStore_Create eng now key s = (r, d')" by fastforce
  from 12(1) 12(2) cr show ?case by (rule Create_cases) (use 12 cr in auto)
next
  case (13 s now i)
  then show ?case using pg_op_inv(2) by simp
next
  case (14 s now i u s')
  from 14(1) 14(2) [unfolded pg_repo_simps] show ?case by (rule Revoke_cases) auto
next
  case (15 s h k now)
  obtain r d' where rv: "PgKeyStore_Revoke eng now (ID k) s = (r, d')" by fastforce
  have inv: "pg_key_inv eng s" "key_table_inv (tables_of eng s)" using 15(1) by (simp_all add: pg_key_inv_def)
  have "ID k \<in> ID ` set (t_keys (tables_of eng s))" using 15(3) row_map_iff [OF inv(2)] by blast
  with inv(1) rv show ?case by (rule_tac Revoke_cases) (use 15(2) rv in auto)
next
  case (16 s i now)
  obtain r d' where rv: "PgKeyStore_Revoke eng now i s = (r, d')" by fastforce
  have inv: "pg_key_inv eng s" "key_table_inv (tables_of eng s)" using 16(1) by (simp_all add: pg_key_inv_def)
  from inv(1) rv show ?case by (rule Revoke_cases) (use 16(2,3) rv in auto)
next
  case (17 s now i)
  then show ?case using pg_op_inv(3) by simp
next
  case (18 s now i u s')
  have inv: "pg_key_inv eng s" using 18(1) by simp
  from this 18(2) [unfolded pg_repo_simps] show ?case
  proof (rule Touch_cases, goal_cases)
    case (2 k)
    have "is_int64 (RequestCount k)"
      using 2(1) inv row_map_iff [of "tables_of eng s" "KeyHash k" k] by (auto simp: pg_key_inv_def row_fine_def)
    then have "touched now k = k\<lparr>LastUsedAt := Some now, RequestCount := wrap64 (RequestCount k + 1)\<rparr>"
      using 2(4) by (simp add: touched_def is_int64_def)
    with 2 show ?case by auto
  qed auto
next
  case (19 s h k now)
  obtain r d' where rv: "PgKeyStore_Touch eng now (ID k) s = (r, d')" by fastforce
  have inv: "pg_key_inv eng s" "key_table_inv (tables_of eng s)" using 19(1) by (simp_all add: pg_key_inv_def)
  have k: "k \<in> set (t_keys (tables_of eng s))" using 19(3) row_map_iff [OF inv(2)] by blast
  have uniq: "k' = k" if "row_map (tables_of eng s) (KeyHash k') = Some k'" "ID k' = ID k" for k'
    using that row_map_iff [OF inv(2)] same_id [OF inv(2) _ k] by blast
  from inv(1) rv show ?case by (rule Touch_cases) (use 19(2,4) rv k uniq in \<open>auto dest: uniq\<close>)
next
  case (20 s now i h)
  obtain r d' where rv: "PgKeyStore_Touch eng now i s = (r, d')" by fastforce
  have inv: "pg_key_inv eng s" using 20(1) by simp
  from inv rv show ?case by (rule Touch_cases) (use rv in auto)
next
  case (21 s now i h)
  obtain r d' where rv: "PgKeyStore_Revoke eng now i s = (r, d')" by fastforce
  have inv: "pg_key_inv eng s" using 21(1) by simp
  from inv rv show ?case by (rule Revoke_cases) (use 21(2) rv in \<open>auto split: if_splits\<close>)
qed

section \<open>The tables of statistics\<close>

definition totals_ok :: "tables \<Rightarrow> bool" where
  "totals_ok T \<longleftrightarrow> (case t_totals T of Some (n, c, e) \<Rightarrow> is_int64 n \<and> is_int64 c \<and> is_int64 e | None \<Rightarrow> False)"

definition pg_ledger :: "tables \<Rightarrow> ledger" where
  "pg_ledger T = (case t_totals T of
     Some (n, c, e) \<Rightarrow> \<lparr>led_refs = fst ` set (t_refs T), led_count = n, led_cents = c, led_errors = e\<rparr>
   | None \<Rightarrow> \<lparr>led_refs = fst ` set (t_refs T), led_count = 0, led_cents = 0, led_errors = 0\<rparr>)"

definition pg_stats_inv :: "('d, 'x) engine \<Rightarrow> 'd \<Rightarrow> bool" where
  "pg_stats_inv eng d \<longleftrightarrow> engine_law eng \<and> totals_ok (tables_of eng d)"

lemma sql_totals_ok: "totals_ok T \<Longrightarrow> totals_ok (snd (sql_command eng c now T))"
  by (cases c) (auto simp: totals_ok_def split: option.splits)

lemma exec_stats_inv:
  assumes "pg_stats_inv eng d" and "exec eng c now d = (r, d')"
  shows "pg_stats_inv eng d'"
proof -
  have law: "engine_law eng" and ok: "totals_ok (tables_of eng d)" using assms(1) by (simp_all add: pg_stats_inv_def)
  show ?thesis using exec_cases [OF law assms(2)] ok sql_totals_ok [OF ok, of eng c now] law
    by (metis pg_stats_inv_def snd_conv)
qed

text \<open>The effect of the three statements of the store on the ledger.\<close>

lemma sql_CountTw:
  assumes "totals_ok T"
  shows "sql_command eng (CountTw cents) now T = (Inr a, T') \<Longrightarrow> pg_ledger T' = ledger_record cents [] (pg_ledger T) \<and> t_refs T' = t_refs T"
    and "sql_command eng (CountTw cents) now T = (Inl e, T') \<Longrightarrow> T' = T"
  using assms by (auto simp: totals_ok_def pg_ledger_def ledger_record_def split: option.splits if_splits) (metis fst_conv image_eqI)+

lemma sql_CountTwError:
  assumes "totals_ok T"
  shows "sql_command eng CountTwError now T = (Inr a, T') \<Longrightarrow> pg_ledger T' = ledger_error (pg_ledger T)"
    and "sql_command eng CountTwError now T = (Inl e, T') \<Longrightarrow> T' = T"
  using assms by (auto simp: totals_ok_def pg_ledger_def ledger_error_def split: option.splits if_splits) (metis fst_conv image_eqI)+

lemma led_refs_ledger: "led_refs (pg_ledger T) = fst ` set (t_refs T)"
  by (auto simp: pg_ledger_def split: option.splits)

lemma tx_exec_cases:
  assumes "engine_law eng" and "tx_exec eng c now x = (r, x')"
  obtains (exact) "sql_command eng c now (tx_tables eng x) = (r, tx_tables eng x')" "tx_ready eng x \<Longrightarrow> tx_ready eng x'"
  | (failed) e where "\<not> tx_ready eng x" "r = Inl e"
proof -
  have "case tx_exec eng c now x of (r, x') \<Rightarrow>
      ((r, tx_tables eng x') = sql_command eng c now (tx_tables eng x) \<or> \<not> tx_ready eng x \<and> (\<exists>e. lost e \<and> r = Inl e)) \<and>
      (tx_ready eng x \<longrightarrow> tx_ready eng x')"
    using assms(1) unfolding engine_law_def by (elim conjE allE)
  then show ?thesis using assms(2) exact failed by auto
qed

lemma tx_begin_cases:
  assumes "engine_law eng" and "tx_begin eng d = (r, d')"
  shows "tables_of eng d' = tables_of eng d" "ready eng d \<Longrightarrow> ready eng d'"
    "r = Inr x \<Longrightarrow> tx_tables eng x = tables_of eng d \<and> (ready eng d \<longrightarrow> tx_ready eng x)" "r = Inl e \<Longrightarrow> \<not> ready eng d"
proof -
  have "case tx_begin eng d of (r, d') \<Rightarrow> tables_of eng d' = tables_of eng d \<and> (ready eng d \<longrightarrow> ready eng d') \<and>
      (case r of Inr x \<Rightarrow> tx_tables eng x = tables_of eng d \<and> (ready eng d \<longrightarrow> tx_ready eng x) | Inl e \<Rightarrow> \<not> ready eng d)"
    using assms(1) unfolding engine_law_def by (elim conjE allE)
  then show "tables_of eng d' = tables_of eng d" "ready eng d \<Longrightarrow> ready eng d'"
    "r = Inr x \<Longrightarrow> tx_tables eng x = tables_of eng d \<and> (ready eng d \<longrightarrow> tx_ready eng x)" "r = Inl e \<Longrightarrow> \<not> ready eng d"
    using assms(2) by auto
qed

lemma tx_commit_cases:
  assumes "engine_law eng" and "tx_commit eng x d = (r, d')"
  obtains (committed) "r = Inr ()" "tables_of eng d' = tx_tables eng x" "ready eng d \<Longrightarrow> ready eng d'"
  | (failed) e where "\<not> (ready eng d \<and> tx_ready eng x)" "r = Inl e" "tables_of eng d' \<in> {tables_of eng d, tx_tables eng x}"
proof -
  have "case tx_commit eng x d of (r, d') \<Rightarrow>
      executes (ready eng d \<and> tx_ready eng x) (Inr (), tx_tables eng x) (tables_of eng d) (r, tables_of eng d') \<and>
      (ready eng d \<longrightarrow> ready eng d')"
    using assms(1) unfolding engine_law_def by (elim conjE allE)
  then show ?thesis using assms(2) committed failed by (auto simp: executes_def)
qed

text \<open>The tables a recording leaves: those it found or those with the recording, the latter on success.\<close>

definition recorded :: "int \<Rightarrow> string \<Rightarrow> tables \<Rightarrow> tables \<Rightarrow> bool" where
  "recorded c ref T T' \<longleftrightarrow> totals_ok T' \<and> pg_ledger T' = ledger_record c ref (pg_ledger T)"

lemma recorded_ref:
  assumes "totals_ok T" and "ref \<noteq> []" and "sql_command eng (InsertRef ref ch) now T = (Inr (Affected 0), T')"
  shows "recorded c ref T T'"
  using assms led_refs_ledger [of T] by (auto simp: recorded_def ledger_record_def split: if_splits)

lemma recorded_new:
  assumes ok: "totals_ok T" and "ref \<noteq> []" and ins: "sql_command eng (InsertRef ref ch) now T = (Inr tag, T1)" "RowsAffected tag > 0"
    and cnt: "sql_command eng (CountTw c) now T1 = (Inr a, T2)"
  shows "recorded c ref T T2"
proof -
  have T1: "T1 = T\<lparr>t_refs := t_refs T @ [(ref, ch)]\<rparr>" and new: "ref \<notin> fst ` set (t_refs T)"
    using ins by (auto simp: RowsAffected_def split: if_splits)
  have ok1: "totals_ok T1" using ok by (simp add: T1 totals_ok_def)
  have "totals_ok T2" using sql_totals_ok [OF ok1, of eng "CountTw c" now] cnt by simp
  moreover have "pg_ledger T2 = ledger_record c [] (pg_ledger T1)" using sql_CountTw(1) [OF ok1 cnt] by blast
  moreover have "pg_ledger T1 = (pg_ledger T)\<lparr>led_refs := insert ref (led_refs (pg_ledger T))\<rparr>"
    by (auto simp: pg_ledger_def T1 split: option.splits)
  ultimately show ?thesis using new assms(2) led_refs_ledger [of T] by (simp add: recorded_def ledger_record_def)
qed

lemma countOnce_effect:
  assumes inv: "pg_stats_inv eng d" and res: "countOnce eng ''tw'' ref CountTw c now d = (r, d')"
  shows "(tables_of eng d' = tables_of eng d \<and> r \<noteq> Inr ()) \<or> recorded c ref (tables_of eng d) (tables_of eng d')"
proof -
  let ?T = "tables_of eng d"
  have law: "engine_law eng" and ok: "totals_ok ?T" using inv by (simp_all add: pg_stats_inv_def)
  show ?thesis
  proof (cases "ref = []")
    case True
    obtain a d1 where ex: "exec eng (CountTw c) now d = (a, d1)" by fastforce
    have d1: "d1 = d'" and r: "r = (case a of Inl e \<Rightarrow> Inl e | Inr t \<Rightarrow> Inr ())"
      using res ex True by (auto simp: countOnce_def split: sum.splits)
    have rec: "recorded c ref ?T T'" if "sql_command eng (CountTw c) now ?T = (Inr t, T')" for t T'
      using sql_CountTw(1) [OF ok that] sql_totals_ok [OF ok, of eng "CountTw c" now] that True by (simp add: recorded_def)
    obtain a0 T0 where sq: "sql_command eng (CountTw c) now ?T = (a0, T0)" by fastforce
    have keep: "T0 = ?T" if "a0 = Inl e" for e using sql_CountTw(2) [OF ok] sq that by blast
    show ?thesis
    proof (rule exec_cases [OF law ex], goal_cases)
      case 1
      then show ?thesis using sq rec keep r d1 by (cases a) auto
    next
      case (2 e)
      then show ?thesis using sq rec keep r d1 by (cases a0) auto
    qed
  next
    case False
    obtain b d1 where bg: "tx_begin eng d = (b, d1)" by fastforce
    note beg = tx_begin_cases [OF law bg]
    show ?thesis
    proof (cases b)
      case (Inl e)
      then show ?thesis using res bg False beg(1) by (auto simp: countOnce_def)
    next
      case (Inr x)
      have x: "tx_tables eng x = ?T" using beg(3) Inr by blast
      obtain a1 x1 where e1: "tx_exec eng (InsertRef ref ''tw'') now x = (a1, x1)" by fastforce
      obtain a2 x2 where e2: "tx_exec eng (CountTw c) now x1 = (a2, x2)" by fastforce
      have commit: ?thesis if "tx_commit eng y d1 = (r, d')" "recorded c ref ?T (tx_tables eng y)" for y
        using tx_commit_cases [OF law that(1)] that(2) beg(1) by (metis Inl_Inr_False insert_iff singletonD)
      show ?thesis
      proof (cases a1)
        case (Inl e)
        then show ?thesis using res bg False beg(1) Inr e1 by (auto simp: countOnce_def)
      next
        case a1: (Inr tag)
        then have ins: "sql_command eng (InsertRef ref ''tw'') now ?T = (Inr tag, tx_tables eng x1)"
          using tx_exec_cases [OF law e1] x by (metis Inl_Inr_False)
        show ?thesis
        proof (cases "RowsAffected tag > 0")
          case True
          show ?thesis
          proof (cases a2)
            case (Inl e)
            then show ?thesis using res bg False beg(1) \<open>b = Inr x\<close> e1 a1 True e2 by (auto simp: countOnce_def)
          next
            case a2: (Inr t2)
            then have "sql_command eng (CountTw c) now (tx_tables eng x1) = (Inr t2, tx_tables eng x2)"
              using tx_exec_cases [OF law e2] by (metis Inl_Inr_False)
            then have "recorded c ref ?T (tx_tables eng x2)" using recorded_new [OF ok False ins True] by blast
            then show ?thesis using commit res bg False \<open>b = Inr x\<close> e1 a1 True e2 a2 by (simp add: countOnce_def)
          qed
        next
          case no: False
          have "tag = Affected 0" using ins no by (auto simp: RowsAffected_def split: if_splits)
          then have "recorded c ref ?T (tx_tables eng x1)" using recorded_ref [OF ok False] ins by blast
          then show ?thesis using commit res bg False \<open>b = Inr x\<close> e1 a1 no by (simp add: countOnce_def)
        qed
      qed
    qed
  qed
qed

lemma pg_stats_simps [simp]:
  "stats_RecordTw (pg_stats eng now) = PgStatsStore_RecordTw eng now"
  "stats_RecordTwError (pg_stats eng now) = PgStatsStore_RecordTwError eng now"
  "stats_Totals (pg_stats eng now) = PgStatsStore_Totals eng"
  by (simp_all add: pg_stats_def)

lemma RecordTw_effect:
  assumes "pg_stats_inv eng d" and "PgStatsStore_RecordTw eng now c ref d = (r, d')"
  shows "(tables_of eng d' = tables_of eng d \<and> r \<noteq> Inr ()) \<or> recorded c ref (tables_of eng d) (tables_of eng d')"
    and "pg_stats_inv eng d'"
proof -
  obtain r1 where "countOnce eng ''tw'' ref CountTw c now d = (r1, d')" "r = Inr () \<longleftrightarrow> r1 = Inr ()"
    using assms(2) by (auto simp: PgStatsStore_RecordTw_def split: prod.splits sum.splits)
  with countOnce_effect [OF assms(1)]
  show eff: "(tables_of eng d' = tables_of eng d \<and> r \<noteq> Inr ()) \<or> recorded c ref (tables_of eng d) (tables_of eng d')" by metis
  then show "pg_stats_inv eng d'" using assms(1) by (auto simp: pg_stats_inv_def recorded_def)
qed

lemma RecordTwError_effect:
  assumes inv: "pg_stats_inv eng d" and res: "PgStatsStore_RecordTwError eng now d = (r, d')"
  shows "(tables_of eng d' = tables_of eng d \<and> r \<noteq> Inr ()) \<or>
      pg_ledger (tables_of eng d') = ledger_error (pg_ledger (tables_of eng d))"
    and "pg_stats_inv eng d'"
proof -
  let ?T = "tables_of eng d"
  have law: "engine_law eng" and ok: "totals_ok ?T" using inv by (simp_all add: pg_stats_inv_def)
  obtain a d1 where ex: "exec eng CountTwError now d = (a, d1)" by fastforce
  have d1: "d1 = d'" and r: "r = (case a of Inl e \<Rightarrow> Inl (Errorf ''record tw error stat'' e) | Inr t \<Rightarrow> Inr ())"
    using res ex by (auto simp: PgStatsStore_RecordTwError_def split: sum.splits)
  obtain a0 T0 where sq: "sql_command eng CountTwError now ?T = (a0, T0)" by fastforce
  have rec: "pg_ledger T0 = ledger_error (pg_ledger ?T)" if "a0 = Inr t" for t using sql_CountTwError(1) [OF ok] sq that by blast
  have keep: "T0 = ?T" if "a0 = Inl e" for e using sql_CountTwError(2) [OF ok] sq that by blast
  show "(tables_of eng d' = ?T \<and> r \<noteq> Inr ()) \<or> pg_ledger (tables_of eng d') = ledger_error (pg_ledger ?T)"
  proof (rule exec_cases [OF law ex], goal_cases)
    case 1
    then show ?thesis using sq rec keep r d1 by (cases a) auto
  next
    case (2 e)
    then show ?thesis using sq rec keep r d1 by (cases a0) auto
  qed
  show "pg_stats_inv eng d'" using exec_stats_inv [OF inv ex] d1 by simp
qed

interpretation pst: stats_store "pg_stats eng now" "pg_stats_inv eng" "ready eng" "\<lambda>d. pg_ledger (tables_of eng d)"
  for eng :: "('d, 'x) engine" and now :: time
proof (unfold_locales, goal_cases)
  case (1 s c r)
  then show ?case using RecordTw_effect(2) [of eng s now c r] by (metis pg_stats_simps(1) prod.collapse)
next
  case (2 s c r)
  obtain a d' where "PgStatsStore_RecordTw eng now c r s = (a, d')" by fastforce
  then show ?case using 2 RecordTw_effect(1) [of eng s now c r a d'] by (auto simp: recorded_def)
next
  case (3 s c r u s')
  then show ?case using RecordTw_effect(1) [OF 3(1), of now c r "Inr u" s'] by (auto simp: recorded_def)
next
  case (4 s)
  then show ?case using RecordTwError_effect(2) [of eng s now] by (metis pg_stats_simps(2) prod.collapse)
next
  case (5 s)
  obtain a d' where "PgStatsStore_RecordTwError eng now s = (a, d')" by fastforce
  then show ?case using 5 RecordTwError_effect(1) [of eng s now a d'] by auto
next
  case (6 s u s')
  then show ?case using RecordTwError_effect(1) [OF 6(1), of now "Inr u" s'] by auto
next
  case (7 s st)
  have law: "engine_law eng" and ok: "totals_ok (tables_of eng s)" using 7(1) by (simp_all add: pg_stats_inv_def)
  obtain n c e where row: "t_totals (tables_of eng s) = Some (n, c, e)"
    using ok by (auto simp: totals_ok_def split: option.splits)
  obtain x where x: "scan_row (select_totals eng s) = Inr x"
    using 7(2) by (auto simp: PgStatsStore_Totals_def split: sum.splits)
  from delivers_scan [OF law_select(4) [OF law, of s] this] have "x = (n, c, e)" by (simp add: row)
  then show ?case using 7(2) x row by (simp add: PgStatsStore_Totals_def ledger_stats_def pg_ledger_def Let_def)
next
  case (8 s)
  have law: "engine_law eng" and ok: "totals_ok (tables_of eng s)" using 8(1) by (simp_all add: pg_stats_inv_def)
  obtain n c e where row: "t_totals (tables_of eng s) = Some (n, c, e)"
    using ok by (auto simp: totals_ok_def split: option.splits)
  have "scan_row (select_totals eng s) = Inr (n, c, e)"
    using delivers_scan_up [of _ "select_totals eng s"] law_select(4) [OF law, of s] 8(2) row by fastforce
  then show ?case by (simp add: PgStatsStore_Totals_def)
qed

section \<open>A database for the examples\<close>

text \<open>Tables behind a connection whose next write commands may get lost before or after their execution.\<close>

datatype fault = Deliver | LoseBefore | LoseAfter

record 's database =
  db_tables :: 's
  db_faults :: "fault list"

definition through :: "'a result \<times> 's \<Rightarrow> 's database \<Rightarrow> 'a result \<times> 's database" where
  "through right d =
     (case db_faults d of
        [] \<Rightarrow> (fst right, d\<lparr>db_tables := snd right\<rparr>)
      | Deliver # fs \<Rightarrow> (fst right, d\<lparr>db_tables := snd right, db_faults := fs\<rparr>)
      | LoseBefore # fs \<Rightarrow> (Inl (OtherError (Msg ''connection lost'')), d\<lparr>db_faults := fs\<rparr>)
      | LoseAfter # fs \<Rightarrow> (Inl (OtherError (Msg ''connection lost'')), d\<lparr>db_tables := snd right, db_faults := fs\<rparr>))"

definition nul_free :: "string \<Rightarrow> bool" where
  "nul_free s \<longleftrightarrow> CHR 0x00 \<notin> set s"

definition microseconds :: "time \<Rightarrow> time" where
  "microseconds t = t div 1000 * 1000"

definition sample_engine :: "(tables database, tables) engine" where
  "sample_engine = \<lparr>text_ok = nul_free, stamp = microseconds, tables_of = db_tables, ready = \<lambda>d. db_faults d = [],
     select_key = \<lambda>h d. if nul_free h then Inr (map Inr (filter (\<lambda>k. KeyHash k = h) (t_keys (db_tables d))), None)
       else Inl (PgError ''22021''),
     select_keys = \<lambda>d. Inr (map Inr (sort_key ID (t_keys (db_tables d))), None),
     select_totals = \<lambda>d. Inr (map Inr (case t_totals (db_tables d) of Some x \<Rightarrow> [x] | None \<Rightarrow> []), None),
     exec = \<lambda>c now d. through (sql_run nul_free microseconds c now (db_tables d)) d,
     tx_begin = \<lambda>d. (Inr (db_tables d), d), tx_tables = \<lambda>x. x, tx_ready = \<lambda>_. True,
     tx_exec = \<lambda>c now x. sql_run nul_free microseconds c now x, tx_commit = \<lambda>x d. through (Inr (), x) d\<rparr>"

lemma through_executes:
  assumes "through right d = (r, d')"
  shows "executes (db_faults d = []) right (db_tables d) (r, db_tables d')" "db_faults d = [] \<Longrightarrow> db_faults d' = []"
  using assms by (auto simp: through_def executes_def lost_def split: list.splits fault.splits)

lemma sample_engine_law: "engine_law sample_engine"
proof -
  have "nul_free s" if "list_all (\<lambda>c. 0 < (of_char c :: nat) \<and> of_char c < (128::nat)) s" for s
    using that by (auto simp: nul_free_def list_all_iff)
  moreover have "microseconds (microseconds t) = microseconds t" for t by (simp add: microseconds_def)
  ultimately show ?thesis
    unfolding engine_law_def
    by (auto simp: sample_engine_def delivers_def split: prod.splits intro: through_executes)
qed

section \<open>The key service over the database\<close>

lemma pg_takes_row:
  assumes "pg_key_inv eng d" and "t_seq (tables_of eng d) \<le> MaxInt64" and "row_map (tables_of eng d) h = Some k"
  shows "pg_takes eng (input_key (replacement k) (Hash p)) d"
proof -
  have law: "engine_law eng" and "row_fine eng k"
    using assms(1,3) row_map_iff [of "tables_of eng d" h k] by (auto simp: pg_key_inv_def)
  moreover have "text_ok eng (Hash p)" unfolding Hash_def by (rule law_hex [OF law set_hex])
  moreover have "text_ok eng ''member''" by (rule law_text [OF law]) simp
  ultimately show ?thesis using assms(2) by (auto simp: pg_takes_def row_fine_def replacement_def input_rank_def)
qed

text \<open>
  C13: Rotation over PostgreSQL, whatever statement fails on the way. A key that is not as before is the rotated
  one: it is revoked, and its replacement (an unrevoked key with the same name, scopes, expiry and rank)
  is stored; a view is returned only with such a replacement, under the hash of the plaintext it carries.
  If the database answers every statement, an error means that no key has changed; otherwise the rotated
  key may be revoked although an error is returned, and then the replacement's plaintext is not delivered.
\<close>

theorem pg_RotateKey_interrupted:
  assumes "pg_key_inv eng d" and "t_seq (tables_of eng d) \<le> MaxInt64" and "RotateKey (pg_repo eng) rd i d = (r, d')"
  shows "(\<forall>h k. row_map (tables_of eng d) h = Some k \<and> row_map (tables_of eng d') h \<noteq> Some k \<longrightarrow>
       ID k = i \<and> row_map (tables_of eng d') h = Some (k\<lparr>RevokedAt := Some (revoked_at rd)\<rparr>) \<and>
       (\<exists>p k'. row_map (tables_of eng d) (Hash p) = None \<and> row_map (tables_of eng d') (Hash p) = Some k' \<and>
         RevokedAt k' = None \<and> Name k' = Name k \<and> Scopes k' = Scopes k \<and> ExpiresAt k' = ExpiresAt k \<and>
         Rank k' = (if Rank k = [] then ''member'' else Rank k) \<and> (\<forall>v. r = Inr v \<longrightarrow> View_Key v = p))) \<and>
     (\<forall>v. r = Inr v \<longrightarrow> (\<exists>h k. row_map (tables_of eng d) h = Some k \<and> ID k = i \<and>
       row_map (tables_of eng d') h = Some (k\<lparr>RevokedAt := Some (revoked_at rd)\<rparr>))) \<and>
     (ready eng d \<longrightarrow> (\<forall>e. r = Inl e \<longrightarrow> row_map (tables_of eng d') = row_map (tables_of eng d)))"
proof (intro conjI; intro allI impI)
  note takes = pg_takes_row [OF assms(1,2)]
  have rank: "input_rank (replacement k) = (if Rank k = [] then ''member'' else Rank k)" for k
    by (simp add: input_rank_def replacement_def)
  fix h k
  assume "row_map (tables_of eng d) h = Some k \<and> row_map (tables_of eng d') h \<noteq> Some k"
  then show "ID k = i \<and> row_map (tables_of eng d') h = Some (k\<lparr>RevokedAt := Some (revoked_at rd)\<rparr>) \<and>
     (\<exists>p k'. row_map (tables_of eng d) (Hash p) = None \<and> row_map (tables_of eng d') (Hash p) = Some k' \<and>
       RevokedAt k' = None \<and> Name k' = Name k \<and> Scopes k' = Scopes k \<and> ExpiresAt k' = ExpiresAt k \<and>
       Rank k' = (if Rank k = [] then ''member'' else Rank k) \<and> (\<forall>v. r = Inr v \<longrightarrow> View_Key v = p))"
    by (elim conjE) (rule pks.RotateKey_interrupted [OF assms(1) takes assms(3), unfolded rank])
next
  fix v
  assume "r = Inr v"
  then have "RotateKey (pg_repo eng) rd i d = (Inr v, d')" using assms(3) by simp
  then show "\<exists>h k. row_map (tables_of eng d) h = Some k \<and> ID k = i \<and>
      row_map (tables_of eng d') h = Some (k\<lparr>RevokedAt := Some (revoked_at rd)\<rparr>)"
    by (rule pks.RotateKey_success [OF assms(1) pg_takes_row [OF assms(1,2)], rotated]) (metis fun_upd_same)+
next
  fix e
  assume "ready eng d" and "r = Inl e"
  then have "RotateKey (pg_repo eng) rd i d = (Inl e, d')" using assms(3) by simp
  then show "row_map (tables_of eng d') = row_map (tables_of eng d)"
    by (rule pks.RotateKey_failure [OF assms(1) pg_takes_row [OF assms(1,2)] \<open>ready eng d\<close>, rotated])
qed

text \<open>A database with one key, whose second write is executed but not answered.\<close>

definition sample_row :: ApiKey where
  "sample_row = \<lparr>ID = 1, Name = ''shop'', Rank = ''member'', KeyHash = ''a'', Scopes = [''tw''], ExpiresAt = None,
     RevokedAt = None, LastUsedAt = None, RequestCount = 0, CreatedAt = 1\<rparr>"

definition sample_db :: "fault list \<Rightarrow> tables database" where
  "sample_db fs = \<lparr>db_tables = \<lparr>t_keys = [sample_row], t_seq = 2, t_totals = Some (0, 0, 0), t_refs = []\<rparr>, db_faults = fs\<rparr>"

lemma sample_engine_simps [simp]:
  "tables_of sample_engine = db_tables" "ready sample_engine d \<longleftrightarrow> db_faults d = []" "text_ok sample_engine = nul_free"
  "exec sample_engine c now d = through (sql_run nul_free microseconds c now (db_tables d)) d"
  "select_keys sample_engine d = Inr (map Inr (sort_key ID (t_keys (db_tables d))), None)"
  by (simp_all add: sample_engine_def)

lemma sample_db_inv: "pg_key_inv sample_engine (sample_db fs)" "pg_stats_inv sample_engine (sample_db fs)"
  by (simp_all add: pg_key_inv_def pg_stats_inv_def sample_engine_law sample_db_def sample_row_def key_table_inv_def
      row_fine_def nul_free_def is_int64_def totals_ok_def)

text \<open>The old key is revoked and its owner gets an error: the plaintext of the replacement is lost.\<close>

theorem pg_RotateKey_interrupted_witness:
  "\<exists>e d' p k'. RotateKey (pg_repo sample_engine) sample_readings 1 (sample_db [Deliver, LoseAfter]) = (Inl e, d') \<and>
     row_map (db_tables d') ''a'' = Some (sample_row\<lparr>RevokedAt := Some 12\<rparr>) \<and>
     row_map (db_tables d') (Hash p) = Some k' \<and> RevokedAt k' = None \<and> Scopes k' = [''tw'']"
proof -
  let ?d = "sample_db [Deliver, LoseAfter]" and ?p = "RawURLEncoding (replicate 32 (CHR ''r''))"
  have "length (Hash p) \<noteq> length ''a''" for p by simp
  then have not_a: "''a'' \<noteq> Hash p" for p by metis
  have "nul_free (Hash ?p)" using law_hex [OF sample_engine_law set_hex] by (simp add: Hash_def)
  moreover have "nul_free ''shop'' \<and> nul_free ''member'' \<and> nul_free ''tw''" by (simp add: nul_free_def)
  ultimately obtain e d' where res: "RotateKey (pg_repo sample_engine) sample_readings 1 ?d = (Inl e, d')"
    and "row_map (db_tables d') ''a'' \<noteq> Some sample_row"
    using not_a [of ?p]
    by (auto simp: RotateKey_def PgKeyStore_List_def sample_db_def sample_row_def CreateKey_def check_input_def go_index_def
        allowedScopes_def allowedRanks_def defaultRank_def Generate_def sample_readings_def PgKeyStore_Create_def
        PgKeyStore_Revoke_def through_def scan_returning_def new_key_def row_map_def update_rows_def Let_def)
  moreover have old: "row_map (db_tables ?d) ''a'' = Some sample_row" by (simp add: sample_db_def sample_row_def row_map_def)
  moreover have "t_seq (db_tables ?d) \<le> MaxInt64" by (simp add: sample_db_def)
  ultimately show ?thesis
    using pg_RotateKey_interrupted [OF sample_db_inv(1) _ res]
    by (fastforce simp: sample_row_def sample_readings_def)
qed

section \<open>Recording over the database\<close>

lemma countOnce_up:
  assumes inv: "pg_stats_inv eng d" and up: "ready eng d" and ref: "text_ok eng ref" "ref \<noteq> []"
    and row: "t_totals (tables_of eng d) = Some (n, s, e)"
    and fits: "ref \<in> fst ` set (t_refs (tables_of eng d)) \<or> is_int64 (n + 1) \<and> is_int64 (s + c)"
  shows "\<exists>d'. countOnce eng ''tw'' ref CountTw c now d = (Inr (), d')"
proof -
  have law: "engine_law eng" using inv by (simp add: pg_stats_inv_def)
  have tw: "text_ok eng ''tw''" by (rule law_text [OF law]) simp
  obtain b d1 where bg: "tx_begin eng d = (b, d1)" by fastforce
  then obtain x where b: "b = Inr x" using tx_begin_cases(4) [OF law bg] up by (cases b) auto
  have x: "tx_tables eng x = tables_of eng d" "tx_ready eng x" and d1: "ready eng d1"
    using tx_begin_cases(2,3) [OF law bg] b up by auto
  obtain a1 x1 where e1: "tx_exec eng (InsertRef ref ''tw'') now x = (a1, x1)" by fastforce
  have s1: "sql_command eng (InsertRef ref ''tw'') now (tables_of eng d) = (a1, tx_tables eng x1)" and r1: "tx_ready eng x1"
    using tx_exec_cases [OF law e1] x by metis+
  have t1: "t_totals (tx_tables eng x1) = Some (n, s, e)"
    using arg_cong [OF s1, of "\<lambda>z. t_totals (snd z)"] row by (simp split: if_splits)
  obtain tag where a1: "a1 = Inr tag" and once: "RowsAffected tag > 0 \<Longrightarrow> ref \<notin> fst ` set (t_refs (tables_of eng d))"
    using s1 ref tw by (auto simp: RowsAffected_def split: if_splits)
  obtain a2 x2 where e2: "tx_exec eng (CountTw c) now x1 = (a2, x2)" by fastforce
  have r2: "tx_ready eng x2" and "sql_command eng (CountTw c) now (tx_tables eng x1) = (a2, tx_tables eng x2)"
    using tx_exec_cases [OF law e2] r1 by metis+
  then have a2: "\<exists>tag. a2 = Inr tag" if "RowsAffected tag > 0" using t1 fits once [OF that] by auto
  have commit: "\<exists>d'. tx_commit eng y d1 = (Inr (), d')" if "tx_ready eng y" for y
    using tx_commit_cases [OF law, of y d1] that d1 by (metis prod.collapse)
  show ?thesis
    using ref(2) bg b e1 a1 e2 a2 commit [OF r1] commit [OF r2] by (auto simp: countOnce_def)
qed

definition attempts :: "('d, 'x) engine \<Rightarrow> int \<Rightarrow> string \<Rightarrow> time list \<Rightarrow> 'd \<Rightarrow> 'd" where
  "attempts eng c ref ts d = fold (\<lambda>now d. snd (PgStatsStore_RecordTw eng now c ref d)) ts d"

lemma attempts_once:
  assumes "pg_stats_inv eng d" and "ref \<noteq> []"
  shows "pg_stats_inv eng (attempts eng c ref ts d) \<and>
    pg_ledger (tables_of eng (attempts eng c ref ts d)) \<in>
      {pg_ledger (tables_of eng d), ledger_record c ref (pg_ledger (tables_of eng d))}"
proof (induction ts rule: rev_induct)
  case (snoc now ts)
  let ?d = "attempts eng c ref ts d"
  have "ledger_record c ref (ledger_record c ref l) = ledger_record c ref l" for l
    using assms(2) by (simp add: ledger_record_def)
  then show ?case
    using snoc pst.record_inv [of eng ?d now c ref] pst.record_atomic [of eng ?d now c ref]
    by (auto simp: attempts_def)
qed (use assms in \<open>simp add: attempts_def\<close>)

lemma RecordTw_up:
  assumes inv: "pg_stats_inv eng d" and "ready eng d" and "text_ok eng ref" and "ref \<noteq> []"
    and fits: "ref \<in> led_refs (pg_ledger (tables_of eng d)) \<or>
      is_int64 (led_count (pg_ledger (tables_of eng d)) + 1) \<and> is_int64 (led_cents (pg_ledger (tables_of eng d)) + c)"
  shows "\<exists>d'. PgStatsStore_RecordTw eng now c ref d = (Inr (), d')"
proof -
  obtain n s e where row: "t_totals (tables_of eng d) = Some (n, s, e)"
    using inv by (auto simp: pg_stats_inv_def totals_ok_def split: option.splits)
  then have "led_count (pg_ledger (tables_of eng d)) = n" "led_cents (pg_ledger (tables_of eng d)) = s"
    by (simp_all add: pg_ledger_def)
  then obtain d' where "countOnce eng ''tw'' ref CountTw c now d = (Inr (), d')"
    using countOnce_up [OF assms(1-4) row, of c now] fits by (auto simp: led_refs_ledger)
  then show ?thesis by (simp add: PgStatsStore_RecordTw_def)
qed

text \<open>
  C14: A redemption with a reference is counted once however often its recording is attempted and wherever the
  attempts fail, before, during or after their commit: the totals are those with it or without it, those
  with it as soon as an attempt has succeeded, and an attempt on a database that answers succeeds unless
  a 64-bit total is full.
\<close>

theorem pg_RecordTw_exactly_once:
  assumes "pg_stats_inv eng d" and "ref \<noteq> []" and "pg_ledger (tables_of eng d) = L" and "attempts eng c ref ts d = d1"
  shows "pg_ledger (tables_of eng d1) \<in> {L, ledger_record c ref L} \<and>
    (\<forall>d2. PgStatsStore_RecordTw eng now c ref d1 = (Inr (), d2) \<longrightarrow>
       pg_ledger (tables_of eng d2) = ledger_record c ref L \<and>
       (\<forall>st. PgStatsStore_Totals eng d2 = Inr st \<longrightarrow> st = ledger_stats (ledger_record c ref L))) \<and>
    (ready eng d1 \<and> text_ok eng ref \<and> is_int64 (led_count L + 1) \<and> is_int64 (led_cents L + c) \<longrightarrow>
       (\<exists>d2. PgStatsStore_RecordTw eng now c ref d1 = (Inr (), d2)))"
proof -
  have inv: "pg_stats_inv eng d1" and led: "pg_ledger (tables_of eng d1) \<in> {L, ledger_record c ref L}"
    using attempts_once [OF assms(1,2), of c ts] assms(3,4) by auto
  have again: "ledger_record c ref (ledger_record c ref L) = ledger_record c ref L"
    using assms(2) by (simp add: ledger_record_def)
  have done_once: "pg_ledger (tables_of eng d2) = ledger_record c ref L" "pg_stats_inv eng d2"
    if "PgStatsStore_RecordTw eng now c ref d1 = (Inr (), d2)" for d2
    using pst.record_sound [OF inv, of now c ref "()" d2] pst.record_inv [OF inv, of now c ref] that led again by auto
  have "st = ledger_stats (ledger_record c ref L)"
    if "PgStatsStore_RecordTw eng now c ref d1 = (Inr (), d2)" "PgStatsStore_Totals eng d2 = Inr st" for d2 st
    using pst.totals_sound [of eng d2 now st] done_once [OF that(1)] that(2) by simp
  moreover have "ref \<in> led_refs (ledger_record c ref L)" using assms(2) by (simp add: ledger_record_def)
  then have "\<exists>d2. PgStatsStore_RecordTw eng now c ref d1 = (Inr (), d2)"
    if "ready eng d1 \<and> text_ok eng ref \<and> is_int64 (led_count L + 1) \<and> is_int64 (led_cents L + c)"
    using RecordTw_up [OF inv _ _ assms(2), of c now] led that by auto
  ultimately show ?thesis using led done_once by blast
qed

text \<open>Three attempts, the first lost before and the second after its commit.\<close>

theorem pg_RecordTw_exactly_once_witness:
  "\<exists>d. PgStatsStore_RecordTw sample_engine 3 1500 ''ref-1'' (attempts sample_engine 1500 ''ref-1'' [1, 2] (sample_db [LoseBefore, LoseAfter]))
      = (Inr (), d) \<and> led_count (pg_ledger (db_tables d)) = 1 \<and> led_cents (pg_ledger (db_tables d)) = 1500"
proof -
  let ?d = "sample_db [LoseBefore, LoseAfter]"
  let ?d1 = "attempts sample_engine 1500 ''ref-1'' [1, 2] ?d"
  have "db_faults ?d1 = []"
    by (simp add: attempts_def PgStatsStore_RecordTw_def countOnce_def sample_engine_def sample_db_def through_def nul_free_def
        RowsAffected_def is_int64_def)
  moreover have led: "pg_ledger (tables_of sample_engine ?d) = \<lparr>led_refs = {}, led_count = 0, led_cents = 0, led_errors = 0\<rparr>"
    by (simp add: sample_db_def pg_ledger_def)
  moreover have "nul_free ''ref-1''" by (simp add: nul_free_def)
  ultimately show ?thesis
    using pg_RecordTw_exactly_once [OF sample_db_inv(2) _ led refl, of "''ref-1''" 1500 "[1, 2]" 3]
    by (auto simp: is_int64_def ledger_record_def wrap64_def)
qed

end
