(* ===== verification/Migrate.thy ===== *)
theory Migrate
  imports Pgstore "HOL-Library.List_Lexorder" "HOL-Library.Char_ord"
begin

text \<open>
  The schema migrations of \<^verbatim>\<open>internal/repository/postgres/migrate.go\<close> and the scripts it embeds. The database
  is an argument, \<open>migrator\<close>, with \<open>migrator_law\<close> as what the code relies on: statements have their
  effect or fail, and \<^verbatim>\<open>pgx.BeginFunc\<close> runs its function on the schema as it is and keeps the outcome only if
  the function succeeds. Here runs follow one another; \<open>Rollout\<close> takes them apart into the calls of the database
  and lets several instances run at once.
\<close>

section \<open>The schema and the embedded scripts\<close>

record stats_table =
  has_errors :: bool \<comment> \<open>column \<^verbatim>\<open>tw_error_count\<close>\<close>
  has_bank :: bool \<comment> \<open>the columns of the removed channel\<close>
  totals_row :: "(int \<times> int \<times> int) option"

record schema =
  versions :: "string list option" \<comment> \<open>\<^verbatim>\<open>schema_migrations\<close>\<close>
  keys_table :: "(ApiKey list \<times> int) option" \<comment> \<open>rows and next identity\<close>
  has_rank :: bool
  stats_tbl :: "stats_table option"
  refs_table :: "(string \<times> string) list option"

datatype stmt =
    CreateKeys | IndexKeys | FixEmptyScopes | AddRank | CreateStats | SeedStats | CreateRefs | AddErrors | DropBank | StripBank

abbreviation undefined_table :: "'a result" where
  "undefined_table \<equiv> Inl (PgError ''42P01'')"

fun run_stmt :: "stmt \<Rightarrow> schema \<Rightarrow> schema result" where
  "run_stmt CreateKeys S =
     Inr (case keys_table S of None \<Rightarrow> S\<lparr>keys_table := Some ([], 1), has_rank := False\<rparr> | Some _ \<Rightarrow> S)"
| "run_stmt IndexKeys S = (case keys_table S of None \<Rightarrow> undefined_table | Some _ \<Rightarrow> Inr S)"
| "run_stmt FixEmptyScopes S =
     (case keys_table S of
        None \<Rightarrow> undefined_table
      | Some (ks, n) \<Rightarrow> Inr (S\<lparr>keys_table := Some (map (\<lambda>k.
          if set (Scopes k) \<inter> {''tw'', ''admin''} = {} then k\<lparr>Scopes := [''tw'']\<rparr> else k) ks, n)\<rparr>))"
| "run_stmt AddRank S =
     (case keys_table S of
        None \<Rightarrow> undefined_table
      | Some (ks, n) \<Rightarrow>
          Inr (if has_rank S then S
               else S\<lparr>keys_table := Some (map (\<lambda>k. k\<lparr>Rank := ''member''\<rparr>) ks, n), has_rank := True\<rparr>))"
| "run_stmt CreateStats S =
     Inr (case stats_tbl S of
            None \<Rightarrow> S\<lparr>stats_tbl := Some \<lparr>has_errors = False, has_bank = False, totals_row = None\<rparr>\<rparr>
          | Some _ \<Rightarrow> S)"
| "run_stmt SeedStats S =
     (case stats_tbl S of
        None \<Rightarrow> undefined_table
      | Some t \<Rightarrow> Inr (case totals_row t of None \<Rightarrow> S\<lparr>stats_tbl := Some (t\<lparr>totals_row := Some (0, 0, 0)\<rparr>)\<rparr> | Some _ \<Rightarrow> S))"
| "run_stmt CreateRefs S = Inr (case refs_table S of None \<Rightarrow> S\<lparr>refs_table := Some []\<rparr> | Some _ \<Rightarrow> S)"
| "run_stmt AddErrors S =
     (case stats_tbl S of
        None \<Rightarrow> undefined_table
      | Some t \<Rightarrow>
          Inr (if has_errors t then S
               else S\<lparr>stats_tbl := Some (t\<lparr>has_errors := True, totals_row := map_option (\<lambda>(n, c, _). (n, c, 0)) (totals_row t)\<rparr>)\<rparr>))"
| "run_stmt DropBank S =
     (case stats_tbl S of None \<Rightarrow> undefined_table | Some t \<Rightarrow> Inr (S\<lparr>stats_tbl := Some (t\<lparr>has_bank := False\<rparr>)\<rparr>))"
| "run_stmt StripBank S =
     (case keys_table S of
        None \<Rightarrow> undefined_table
      | Some (ks, n) \<Rightarrow> Inr (S\<lparr>keys_table := Some (map (\<lambda>k. k\<lparr>Scopes := removeAll ''bank'' (Scopes k)\<rparr>) ks, n)\<rparr>))"

fun run_script :: "stmt list \<Rightarrow> schema \<Rightarrow> schema result" where
  "run_script [] S = Inr S"
| "run_script (st # sts) S = (case run_stmt st S of Inl e \<Rightarrow> Inl e | Inr S \<Rightarrow> run_script sts S)"

record embedFS =
  ReadDir :: "string \<Rightarrow> string list result"
  ReadFile :: "string \<Rightarrow> stmt list result"

definition migration_files :: "(string \<times> stmt list) list" where
  "migration_files =
     [(''0001_create_api_keys.sql'', [CreateKeys, IndexKeys]),
      (''002_fix_empty_scopes.sql'', [FixEmptyScopes]),
      (''003_add_rank.sql'', [AddRank]),
      (''004_create_stats.sql'', [CreateStats, SeedStats]),
      (''005_create_recorded_refs.sql'', [CreateRefs]),
      (''006_add_error_stats.sql'', [AddErrors]),
      (''007_remove_bank.sql'', [DropBank, StripBank])]"

definition not_exist :: "'a result" where
  "not_exist = Inl (OtherError (Msg ''file does not exist''))"

definition migrationsFS :: embedFS where
  "migrationsFS =
     \<lparr>ReadDir = \<lambda>dir. if dir = ''migrations'' then Inr (map fst migration_files) else not_exist,
      ReadFile = \<lambda>p. case map_of (map (\<lambda>(n, s). (''migrations/'' @ n, s)) migration_files) p of
        Some s \<Rightarrow> Inr s | None \<Rightarrow> not_exist\<rparr>"

section \<open>Migrate\<close>

definition migrationLockKey :: int where
  "migrationLockKey = 0x747972616b6f"

record ('d, 'x) migrator =
  schema_of :: "'d \<Rightarrow> schema"
  db_up :: "'d \<Rightarrow> bool"
  advisory_lock :: "int \<Rightarrow> 'd \<Rightarrow> unit result \<times> 'd"
  advisory_unlock :: "int \<Rightarrow> 'd \<Rightarrow> unit result \<times> 'd"
  create_versions :: "'d \<Rightarrow> unit result \<times> 'd"
  select_version :: "string \<Rightarrow> 'd \<Rightarrow> bool result"
  BeginFunc :: "('x \<Rightarrow> unit result \<times> 'x) \<Rightarrow> 'd \<Rightarrow> unit result \<times> 'd"
  tx_schema :: "'x \<Rightarrow> schema"
  tx_up :: "'x \<Rightarrow> bool"
  exec_script :: "stmt list \<Rightarrow> 'x \<Rightarrow> unit result \<times> 'x"
  insert_version :: "string \<Rightarrow> 'x \<Rightarrow> unit result \<times> 'x"

definition isApplied :: "('d, 'x) migrator \<Rightarrow> string \<Rightarrow> 'd \<Rightarrow> bool result" where
  "isApplied m version d =
     (case select_version m version d of
        Inl err \<Rightarrow> Inl (Errorf (''check migration '' @ version) err)
      | Inr exists \<Rightarrow> Inr exists)"

definition apply_migration :: "('d, 'x) migrator \<Rightarrow> string \<Rightarrow> stmt list \<Rightarrow> 'd \<Rightarrow> unit result \<times> 'd" where
  "apply_migration m version sql d =
     BeginFunc m (\<lambda>tx.
       case exec_script m sql tx of
         (Inl err, tx) \<Rightarrow> (Inl err, tx)
       | (Inr u, tx) \<Rightarrow> insert_version m version tx) d"

fun migrate_loop :: "('d, 'x) migrator \<Rightarrow> embedFS \<Rightarrow> string list \<Rightarrow> 'd \<Rightarrow> unit result \<times> 'd" where
  "migrate_loop m fs [] d = (Inr (), d)"
| "migrate_loop m fs (name # names) d =
     (case isApplied m name d of
        Inl err \<Rightarrow> (Inl err, d)
      | Inr applied \<Rightarrow>
          if applied then migrate_loop m fs names d
          else
            (case ReadFile fs (''migrations/'' @ name) of
               Inl err \<Rightarrow> (Inl (Errorf (''read migration '' @ name) err), d)
             | Inr sql \<Rightarrow>
                 (case apply_migration m name sql d of
                    (Inl err, d) \<Rightarrow> (Inl (Errorf (''apply migration '' @ name) err), d)
                  | (Inr u, d) \<Rightarrow> migrate_loop m fs names d)))"

definition migrate_locked :: "('d, 'x) migrator \<Rightarrow> embedFS \<Rightarrow> 'd \<Rightarrow> unit result \<times> 'd" where
  "migrate_locked m fs d =
     (case create_versions m d of
        (Inl err, d) \<Rightarrow> (Inl (Errorf ''create schema_migrations'' err), d)
      | (Inr u, d) \<Rightarrow>
          (case ReadDir fs ''migrations'' of
             Inl err \<Rightarrow> (Inl (Errorf ''read embedded migrations'' err), d)
           | Inr names \<Rightarrow> migrate_loop m fs (sort names) d))"

definition Migrate :: "('d, 'x) migrator \<Rightarrow> embedFS \<Rightarrow> 'd \<Rightarrow> unit result \<times> 'd" where
  "Migrate m fs d =
     (case advisory_lock m migrationLockKey d of
        (Inl err, d) \<Rightarrow> (Inl (Errorf ''acquire migration lock'' err), d)
      | (Inr u, d) \<Rightarrow>
          (case migrate_locked m fs d of
             (r, d) \<Rightarrow> (r, snd (advisory_unlock m migrationLockKey d))))"

section \<open>What the code relies on\<close>

definition add_version :: "string \<Rightarrow> schema \<Rightarrow> schema result" where
  "add_version v S =
     (case versions S of
        None \<Rightarrow> undefined_table
      | Some vs \<Rightarrow> if v \<in> set vs then Inl (PgError ''23505'') else Inr (S\<lparr>versions := Some (vs @ [v])\<rparr>))"

definition ensure_versions :: "schema \<Rightarrow> schema" where
  "ensure_versions S = (case versions S of None \<Rightarrow> S\<lparr>versions := Some []\<rparr> | Some _ \<Rightarrow> S)"

text \<open>A statement inside a transaction; what it leaves after an error is rolled back.\<close>

definition tx_runs :: "('d, 'x) migrator \<Rightarrow> schema result \<Rightarrow> 'x \<Rightarrow> unit result \<times> 'x \<Rightarrow> bool" where
  "tx_runs m right x res \<longleftrightarrow>
     (case res of
        (Inr u, x') \<Rightarrow> right = Inr (tx_schema m x')
      | (Inl e, x') \<Rightarrow> \<not> tx_up m x \<or> (\<exists>e'. right = Inl e')) \<and>
     (tx_up m x \<longrightarrow> tx_up m (snd res))"

definition migrator_law :: "('d, 'x) migrator \<Rightarrow> bool" where
  "migrator_law m \<longleftrightarrow>
     (\<forall>k d. case advisory_lock m k d of (r, d') \<Rightarrow>
        schema_of m d' = schema_of m d \<and> (db_up m d \<longrightarrow> r = Inr () \<and> db_up m d')) \<and>
     (\<forall>k d. case advisory_unlock m k d of (r, d') \<Rightarrow>
        schema_of m d' = schema_of m d \<and> (db_up m d \<longrightarrow> r = Inr () \<and> db_up m d')) \<and>
     (\<forall>d. case create_versions m d of (r, d') \<Rightarrow>
        executes (db_up m d) (Inr (), ensure_versions (schema_of m d)) (schema_of m d) (r, schema_of m d') \<and>
        (db_up m d \<longrightarrow> db_up m d')) \<and>
     (\<forall>v d. case select_version m v d of
        Inr b \<Rightarrow> \<exists>vs. versions (schema_of m d) = Some vs \<and> b = (v \<in> set vs)
      | Inl e \<Rightarrow> \<not> db_up m d \<or> versions (schema_of m d) = None) \<and>
     (\<forall>sql x. tx_runs m (run_script sql (tx_schema m x)) x (exec_script m sql x)) \<and>
     (\<forall>v x. tx_runs m (add_version v (tx_schema m x)) x (insert_version m v x)) \<and>
     (\<forall>f d. case BeginFunc m f d of (r, d') \<Rightarrow>
        (\<not> db_up m d \<and> (\<exists>e. r = Inl e) \<and> schema_of m d' = schema_of m d \<or>
         (\<exists>x. tx_schema m x = schema_of m d \<and> (db_up m d \<longrightarrow> tx_up m x) \<and>
           (case f x of
              (Inl e, x') \<Rightarrow> (\<exists>e. r = Inl e) \<and> schema_of m d' = schema_of m d
            | (Inr u, x') \<Rightarrow>
                executes (db_up m d \<and> tx_up m x') (Inr (), tx_schema m x') (schema_of m d) (r, schema_of m d')))) \<and>
        (db_up m d \<longrightarrow> db_up m d'))"

lemma law_lock:
  assumes "migrator_law m"
  shows "advisory_lock m k d = (r, d') \<Longrightarrow> schema_of m d' = schema_of m d \<and> (db_up m d \<longrightarrow> r = Inr () \<and> db_up m d')"
    and "schema_of m (snd (advisory_unlock m k d)) = schema_of m d"
    and "db_up m d \<Longrightarrow> db_up m (snd (advisory_unlock m k d))"
    and "select_version m v d = Inr b \<Longrightarrow> \<exists>vs. versions (schema_of m d) = Some vs \<and> b = (v \<in> set vs)"
    and "select_version m v d = Inl e \<Longrightarrow> \<not> db_up m d \<or> versions (schema_of m d) = None"
    and "db_up m d \<Longrightarrow> fst (advisory_unlock m k d) = Inr ()"
proof -
  have "case advisory_lock m k d of (r, d') \<Rightarrow>
      schema_of m d' = schema_of m d \<and> (db_up m d \<longrightarrow> r = Inr () \<and> db_up m d')"
    using assms unfolding migrator_law_def by (elim conjE allE)
  moreover have "case advisory_unlock m k d of (r, d') \<Rightarrow> schema_of m d' = schema_of m d \<and> (db_up m d \<longrightarrow> r = Inr () \<and> db_up m d')"
    using assms unfolding migrator_law_def by (elim conjE allE)
  moreover have "case select_version m v d of
        Inr b \<Rightarrow> \<exists>vs. versions (schema_of m d) = Some vs \<and> b = (v \<in> set vs)
      | Inl e \<Rightarrow> \<not> db_up m d \<or> versions (schema_of m d) = None"
    using assms unfolding migrator_law_def by (elim conjE allE)
  ultimately show "advisory_lock m k d = (r, d') \<Longrightarrow> schema_of m d' = schema_of m d \<and> (db_up m d \<longrightarrow> r = Inr () \<and> db_up m d')"
    "schema_of m (snd (advisory_unlock m k d)) = schema_of m d" "db_up m d \<Longrightarrow> db_up m (snd (advisory_unlock m k d))"
    "select_version m v d = Inr b \<Longrightarrow> \<exists>vs. versions (schema_of m d) = Some vs \<and> b = (v \<in> set vs)"
    "select_version m v d = Inl e \<Longrightarrow> \<not> db_up m d \<or> versions (schema_of m d) = None"
    "db_up m d \<Longrightarrow> fst (advisory_unlock m k d) = Inr ()"
    by (auto split: prod.splits)
qed

lemma law_create:
  assumes "migrator_law m" and "create_versions m d = (r, d')"
  shows "r = Inr () \<and> schema_of m d' = ensure_versions (schema_of m d) \<or>
      \<not> db_up m d \<and> (\<exists>e. r = Inl e) \<and> schema_of m d' \<in> {schema_of m d, ensure_versions (schema_of m d)}"
    and "db_up m d \<Longrightarrow> db_up m d'"
proof -
  have "case create_versions m d of (r, d') \<Rightarrow>
      executes (db_up m d) (Inr (), ensure_versions (schema_of m d)) (schema_of m d) (r, schema_of m d') \<and>
      (db_up m d \<longrightarrow> db_up m d')"
    using assms(1) unfolding migrator_law_def by (elim conjE allE)
  then show "r = Inr () \<and> schema_of m d' = ensure_versions (schema_of m d) \<or>
      \<not> db_up m d \<and> (\<exists>e. r = Inl e) \<and> schema_of m d' \<in> {schema_of m d, ensure_versions (schema_of m d)}"
    "db_up m d \<Longrightarrow> db_up m d'" using assms(2) by (auto simp: executes_def)
qed

section \<open>One migration\<close>

definition install_one :: "embedFS \<Rightarrow> string \<Rightarrow> schema \<Rightarrow> schema result" where
  "install_one fs name S =
     (case ReadFile fs (''migrations/'' @ name) of
        Inl e \<Rightarrow> Inl e
      | Inr sql \<Rightarrow> (case run_script sql S of Inl e \<Rightarrow> Inl e | Inr S \<Rightarrow> add_version name S))"

fun installs :: "embedFS \<Rightarrow> string list \<Rightarrow> schema \<Rightarrow> schema result" where
  "installs fs [] S = Inr S"
| "installs fs (n # ns) S = (case install_one fs n S of Inl e \<Rightarrow> Inl e | Inr S \<Rightarrow> installs fs ns S)"

lemma installs_append:
  "installs fs (xs @ ys) S = (case installs fs xs S of Inl e \<Rightarrow> Inl e | Inr S \<Rightarrow> installs fs ys S)"
  by (induction xs arbitrary: S) (auto split: sum.splits)

lemma run_stmt_versions: "run_stmt st S = Inr S' \<Longrightarrow> versions S' = versions S"
  by (cases st) (auto split: option.splits prod.splits if_splits)

lemma run_script_versions: "run_script sts S = Inr S' \<Longrightarrow> versions S' = versions S"
  by (induction sts arbitrary: S) (auto dest!: run_stmt_versions split: sum.splits)

lemma install_one_versions:
  assumes "install_one fs name S = Inr S'" and "versions S = Some vs"
  shows "versions S' = Some (vs @ [name])" "name \<notin> set vs"
  using assms run_script_versions
  by (fastforce simp: install_one_def add_version_def split: sum.splits option.splits if_splits)+

lemma installs_versions:
  "installs fs ns S = Inr S' \<Longrightarrow> versions S = Some vs \<Longrightarrow> versions S' = Some (vs @ ns)"
proof (induction ns arbitrary: S vs)
  case (Cons n ns)
  then show ?case by (auto split: sum.splits dest!: install_one_versions(1))
qed simp

lemma apply_effect:
  assumes law: "migrator_law m" and fl: "ReadFile fs (''migrations/'' @ name) = Inr sql"
    and res: "apply_migration m name sql d = (r, d')"
  shows "schema_of m d' = schema_of m d \<and> (\<exists>e. r = Inl e) \<or> install_one fs name (schema_of m d) = Inr (schema_of m d')"
    and "db_up m d \<Longrightarrow> install_one fs name (schema_of m d) = Inr S \<Longrightarrow> r = Inr ()"
    and "db_up m d \<Longrightarrow> db_up m d'"
proof -
  let ?f = "\<lambda>tx. case exec_script m sql tx of (Inl err, tx) \<Rightarrow> (Inl err, tx) | (Inr u, tx) \<Rightarrow> insert_version m name tx"
  have f: "tx_runs m (install_one fs name (tx_schema m x)) x (?f x)" for x
  proof -
    obtain a y where ex: "exec_script m sql x = (a, y)" by fastforce
    have "tx_runs m (run_script sql (tx_schema m x)) x (exec_script m sql x)"
      using law unfolding migrator_law_def by (elim conjE allE)
    moreover have "tx_runs m (add_version name (tx_schema m y)) y (insert_version m name y)"
      using law unfolding migrator_law_def by (elim conjE allE)
    moreover have "install_one fs name S = (case run_script sql S of Inl e \<Rightarrow> Inl e | Inr S \<Rightarrow> add_version name S)" for S
      unfolding install_one_def fl by simp
    ultimately show ?thesis unfolding ex
      by (cases a; cases "insert_version m name y") (auto simp: tx_runs_def split: sum.splits)
  qed
  have "case BeginFunc m ?f d of (r, d') \<Rightarrow>
        (\<not> db_up m d \<and> (\<exists>e. r = Inl e) \<and> schema_of m d' = schema_of m d \<or>
         (\<exists>x. tx_schema m x = schema_of m d \<and> (db_up m d \<longrightarrow> tx_up m x) \<and>
           (case ?f x of
              (Inl e, x') \<Rightarrow> (\<exists>e. r = Inl e) \<and> schema_of m d' = schema_of m d
            | (Inr u, x') \<Rightarrow>
                executes (db_up m d \<and> tx_up m x') (Inr (), tx_schema m x') (schema_of m d) (r, schema_of m d')))) \<and>
        (db_up m d \<longrightarrow> db_up m d')"
    using law unfolding migrator_law_def by (elim conjE allE)
  then have cases: "\<not> db_up m d \<and> (\<exists>e. r = Inl e) \<and> schema_of m d' = schema_of m d \<or>
         (\<exists>x. tx_schema m x = schema_of m d \<and> (db_up m d \<longrightarrow> tx_up m x) \<and>
           (case ?f x of
              (Inl e, x') \<Rightarrow> (\<exists>e. r = Inl e) \<and> schema_of m d' = schema_of m d
            | (Inr u, x') \<Rightarrow>
                executes (db_up m d \<and> tx_up m x') (Inr (), tx_schema m x') (schema_of m d) (r, schema_of m d')))"
    and up: "db_up m d \<Longrightarrow> db_up m d'"
    using res by (simp_all add: apply_migration_def)
  from cases have "(schema_of m d' = schema_of m d \<and> (\<exists>e. r = Inl e) \<or> install_one fs name (schema_of m d) = Inr (schema_of m d')) \<and>
    (db_up m d \<and> install_one fs name (schema_of m d) = Inr S \<longrightarrow> r = Inr ())"
  proof (elim disjE exE conjE)
    fix x
    assume x: "tx_schema m x = schema_of m d" "db_up m d \<longrightarrow> tx_up m x"
      "case ?f x of (Inl e, x') \<Rightarrow> (\<exists>e. r = Inl e) \<and> schema_of m d' = schema_of m d
       | (Inr u, x') \<Rightarrow> executes (db_up m d \<and> tx_up m x') (Inr (), tx_schema m x') (schema_of m d) (r, schema_of m d')"
    obtain a x' where ax: "?f x = (a, x')" by fastforce
    from f [of x] x show ?thesis unfolding ax by (cases a) (auto simp: tx_runs_def executes_def)
  qed auto
  then show "schema_of m d' = schema_of m d \<and> (\<exists>e. r = Inl e) \<or> install_one fs name (schema_of m d) = Inr (schema_of m d')"
    "db_up m d \<Longrightarrow> install_one fs name (schema_of m d) = Inr S \<Longrightarrow> r = Inr ()" "db_up m d \<Longrightarrow> db_up m d'"
    using up by blast+
qed

section \<open>The loop\<close>

definition pending :: "string list \<Rightarrow> schema \<Rightarrow> string list" where
  "pending names S = filter (\<lambda>n. n \<notin> set (case versions S of Some vs \<Rightarrow> vs | None \<Rightarrow> [])) names"

lemma pending_installed:
  assumes "installs fs (take n (pending names S)) S = Inr S'" and "distinct names" and "versions S \<noteq> None"
  shows "pending names S' = drop n (pending names S)"
proof -
  obtain vs where vs: "versions S = Some vs" using assms(3) by auto
  let ?P = "pending names S"
  have "versions S' = Some (vs @ take n ?P)" by (rule installs_versions [OF assms(1) vs])
  then have "pending names S' = filter (\<lambda>x. x \<notin> set (take n ?P)) ?P"
    by (auto simp: pending_def vs intro: filter_cong)
  also have "\<dots> = filter (\<lambda>x. x \<notin> set (take n ?P)) (take n ?P @ drop n ?P)" by simp
  also have "\<dots> = drop n ?P"
  proof -
    have "distinct ?P" using assms(2) by (simp add: pending_def)
    then have "set (take n ?P) \<inter> set (drop n ?P) = {}" by (rule set_take_disj_set_drop_if_distinct) simp
    then show ?thesis unfolding filter_append by (auto simp: filter_empty_conv filter_id_conv)
  qed
  finally show ?thesis .
qed

lemma migrate_loop_effect:
  assumes "migrator_law m" and "distinct names" and "versions (schema_of m d) \<noteq> None" and "migrate_loop m fs names d = (r, d')"
  shows "\<exists>n. installs fs (take n (pending names (schema_of m d))) (schema_of m d) = Inr (schema_of m d') \<and>
    (r = Inr () \<longrightarrow> length (pending names (schema_of m d)) \<le> n)"
  using assms(2-)
proof (induction names arbitrary: d)
  case (Cons name names)
  let ?S = "schema_of m d"
  show ?case
  proof (cases "select_version m name d")
    case (Inl e)
    then have "d' = d" "r \<noteq> Inr ()" using Cons.prems(3) by (auto simp: isApplied_def)
    then show ?thesis by (intro exI [of _ 0]) simp
  next
    case (Inr b)
    then obtain vs where vs: "versions ?S = Some vs" and b: "b = (name \<in> set vs)" using law_lock(4) [OF assms(1)] by blast
    show ?thesis
    proof (cases b)
      case True
      then have "migrate_loop m fs names d = (r, d')" using Cons.prems(3) Inr by (simp add: isApplied_def)
      with Cons.IH [of d] Cons.prems(1,2) b True vs show ?thesis by (simp add: pending_def)
    next
      case False
      have P: "pending (name # names) ?S = name # pending names ?S" using False b vs by (simp add: pending_def)
      show ?thesis
      proof (cases "ReadFile fs (''migrations/'' @ name)")
        case (Inl e)
        then have "d' = d" "r \<noteq> Inr ()" using Cons.prems(3) Inr False by (auto simp: isApplied_def)
        then show ?thesis by (intro exI [of _ 0]) simp
      next
        case fl: (Inr sql)
        obtain a d1 where ap: "apply_migration m name sql d = (a, d1)" by fastforce
        note eff = apply_effect(1) [OF assms(1) fl ap]
        show ?thesis
        proof (cases a)
          case (Inl e)
          then have d1: "d1 = d'" "r \<noteq> Inr ()" using Cons.prems(3) Inr False fl ap by (auto simp: isApplied_def)
          from eff show ?thesis
          proof
            assume "schema_of m d1 = ?S \<and> (\<exists>e. a = Inl e)"
            then show ?thesis using d1 by (intro exI [of _ 0]) simp
          next
            assume "install_one fs name ?S = Inr (schema_of m d1)"
            then show ?thesis using d1 P by (intro exI [of _ 1]) simp
          qed
        next
          case a: (Inr u)
          then have one: "install_one fs name ?S = Inr (schema_of m d1)" using eff by auto
          have rest: "migrate_loop m fs names d1 = (r, d')" using Cons.prems(3) Inr False fl ap a by (auto simp: isApplied_def)
          have v1: "versions (schema_of m d1) = Some (vs @ [name])" by (rule install_one_versions(1) [OF one vs])
          have "pending names (schema_of m d1) = pending names ?S"
            using Cons.prems(1) by (auto simp: pending_def v1 vs intro: filter_cong)
          with Cons.IH [OF _ _ rest] v1 Cons.prems(1) obtain n where
            "installs fs (take n (pending names ?S)) (schema_of m d1) = Inr (schema_of m d')"
            "r = Inr () \<longrightarrow> length (pending names ?S) \<le> n" by auto
          then show ?thesis using one P by (intro exI [of _ "Suc n"]) simp
        qed
      qed
    qed
  qed
qed (auto simp: pending_def)

lemma migrate_loop_up:
  assumes "migrator_law m" and "distinct names" and "versions (schema_of m d) \<noteq> None" and "db_up m d"
    and "installs fs (pending names (schema_of m d)) (schema_of m d) = Inr S"
  shows "\<exists>d'. migrate_loop m fs names d = (Inr (), d') \<and> db_up m d'"
  using assms(2-)
proof (induction names arbitrary: d)
  case (Cons name names)
  let ?S = "schema_of m d"
  obtain b where sel: "select_version m name d = Inr b"
    using law_lock(5) [OF assms(1), of name d] Cons.prems(2,3) by (cases "select_version m name d") auto
  then obtain vs where vs: "versions ?S = Some vs" and b: "b = (name \<in> set vs)" using law_lock(4) [OF assms(1)] by blast
  show ?case
  proof (cases b)
    case True
    with Cons.IH [of d] Cons.prems sel b vs show ?thesis by (simp add: pending_def isApplied_def)
  next
    case False
    then have P: "pending (name # names) ?S = name # pending names ?S" using b vs by (simp add: pending_def)
    then obtain S1 where one: "install_one fs name ?S = Inr S1" and more: "installs fs (pending names ?S) S1 = Inr S"
      using Cons.prems(4) by (auto split: sum.splits)
    then obtain sql where fl: "ReadFile fs (''migrations/'' @ name) = Inr sql"
      by (auto simp: install_one_def split: sum.splits)
    obtain a d1 where ap: "apply_migration m name sql d = (a, d1)" by fastforce
    have a: "a = Inr ()" and up1: "db_up m d1" using apply_effect(2,3) [OF assms(1) fl ap Cons.prems(3)] one by blast+
    then have S1: "schema_of m d1 = S1" using apply_effect(1) [OF assms(1) fl ap] one by auto
    have v1: "versions S1 = Some (vs @ [name])" by (rule install_one_versions(1) [OF one vs])
    have "pending names S1 = pending names ?S"
      using Cons.prems(1) by (auto simp: pending_def v1 vs intro: filter_cong)
    with Cons.IH [of d1] Cons.prems(1) up1 S1 v1 more obtain d' where "migrate_loop m fs names d1 = (Inr (), d')" "db_up m d'"
      by auto
    then show ?thesis using sel False fl ap a by (simp add: isApplied_def)
  qed
qed simp

section \<open>Whole runs\<close>

lemma pending_ensure [simp]: "pending names (ensure_versions S) = pending names S"
  by (simp add: pending_def ensure_versions_def split: option.splits)

lemma ensure_ensure [simp]: "ensure_versions (ensure_versions S) = ensure_versions S"
  by (simp add: ensure_versions_def split: option.splits)

lemma versions_ensure [simp]: "versions (ensure_versions S) \<noteq> None"
  by (simp add: ensure_versions_def split: option.splits)

lemma ensure_id: "versions S \<noteq> None \<Longrightarrow> ensure_versions S = S"
  by (auto simp: ensure_versions_def)

lemma Migrate_effect:
  assumes law: "migrator_law m" and dir: "ReadDir fs ''migrations'' = Inr names" "distinct names"
    and res: "Migrate m fs d = (r, d')"
  shows "\<exists>n. installs fs (take n (pending (sort names) (schema_of m d))) (ensure_versions (schema_of m d)) =
      Inr (ensure_versions (schema_of m d')) \<and>
    (r = Inr () \<longrightarrow> length (pending (sort names) (schema_of m d)) \<le> n \<and> versions (schema_of m d') \<noteq> None)"
proof -
  let ?S = "schema_of m d"
  obtain a d1 where lk: "advisory_lock m migrationLockKey d = (a, d1)" by fastforce
  have S1: "schema_of m d1 = ?S" using law_lock(1) [OF law lk] by blast
  show ?thesis
  proof (cases a)
    case (Inl e)
    then have "d' = d1" "r \<noteq> Inr ()" using res lk by (auto simp: Migrate_def)
    then show ?thesis using S1 by (intro exI [of _ 0]) simp
  next
    case (Inr u)
    then obtain d2 where d2: "migrate_locked m fs d1 = (r, d2)" and "schema_of m d' = schema_of m d2"
      using res lk law_lock(2) [OF law] by (auto simp: Migrate_def split: prod.splits)
    note S' = this(2)
    obtain b d3 where cr: "create_versions m d1 = (b, d3)" by fastforce
    note eff = law_create(1) [OF law cr]
    show ?thesis
    proof (cases b)
      case (Inl e)
      then have "d2 = d3" "r \<noteq> Inr ()" using d2 cr by (auto simp: migrate_locked_def)
      then show ?thesis using eff Inl S1 S' by (intro exI [of _ 0]) auto
    next
      case (Inr v)
      then have S3: "schema_of m d3 = ensure_versions ?S" using eff S1 by auto
      have "migrate_loop m fs (sort names) d3 = (r, d2)" using d2 cr Inr dir(1) by (simp add: migrate_locked_def)
      from migrate_loop_effect [OF law _ _ this] S3 dir(2) obtain n where
        n: "installs fs (take n (pending (sort names) ?S)) (ensure_versions ?S) = Inr (schema_of m d2)"
        "r = Inr () \<longrightarrow> length (pending (sort names) ?S) \<le> n" by auto
      obtain vs where "versions (ensure_versions ?S) = Some vs" using versions_ensure [of ?S] by blast
      then have "versions (schema_of m d2) \<noteq> None" using installs_versions [OF n(1)] by simp
      then show ?thesis using n S' ensure_id by (intro exI [of _ n]) simp
    qed
  qed
qed

lemma Migrate_up:
  assumes law: "migrator_law m" and dir: "ReadDir fs ''migrations'' = Inr names" "distinct names" and up: "db_up m d"
    and goal: "installs fs (pending (sort names) (schema_of m d)) (ensure_versions (schema_of m d)) = Inr S"
  shows "\<exists>d'. Migrate m fs d = (Inr (), d') \<and> db_up m d'"
proof -
  obtain a d1 where lk: "advisory_lock m migrationLockKey d = (a, d1)" by fastforce
  have S1: "schema_of m d1 = schema_of m d" and a: "a = Inr ()" and up1: "db_up m d1" using law_lock(1) [OF law lk] up by auto
  obtain b d3 where cr: "create_versions m d1 = (b, d3)" by fastforce
  have b: "b = Inr ()" and S3: "schema_of m d3 = ensure_versions (schema_of m d)" and up3: "db_up m d3"
    using law_create [OF law cr] up1 S1 by auto
  obtain d2 where "migrate_loop m fs (sort names) d3 = (Inr (), d2)" "db_up m d2"
    using migrate_loop_up [OF law, of "sort names" d3 fs S] dir(2) S3 up3 goal by auto
  then show ?thesis using lk a cr b dir(1) law_lock(3) [OF law] by (simp add: Migrate_def migrate_locked_def)
qed

lemma Migrate_repeated:
  assumes law: "migrator_law m" and dir: "ReadDir fs ''migrations'' = Inr names" "distinct names"
  shows "\<exists>n. installs fs (take n (pending (sort names) (schema_of m d))) (ensure_versions (schema_of m d)) =
      Inr (ensure_versions (schema_of m (((\<lambda>d. snd (Migrate m fs d)) ^^ k) d)))"
proof (induction k)
  case (Suc k)
  let ?S = "schema_of m d" and ?d = "((\<lambda>d. snd (Migrate m fs d)) ^^ k) d"
  let ?P = "pending (sort names) ?S"
  obtain n where n: "installs fs (take n ?P) (ensure_versions ?S) = Inr (ensure_versions (schema_of m ?d))"
    using Suc by blast
  obtain r d' where mg: "Migrate m fs ?d = (r, d')" by fastforce
  obtain j where j: "installs fs (take j (pending (sort names) (schema_of m ?d))) (ensure_versions (schema_of m ?d)) =
      Inr (ensure_versions (schema_of m d'))"
    using Migrate_effect [OF law dir mg] by blast
  have "pending (sort names) (schema_of m ?d) = drop n ?P"
    using pending_installed [of fs n "sort names" "ensure_versions ?S"] n dir(2) by simp
  with n j have "installs fs (take (n + j) ?P) (ensure_versions ?S) = Inr (ensure_versions (schema_of m d'))"
    by (simp add: take_add installs_append)
  then show ?case using mg by auto
qed (auto intro: exI [of _ 0])

lemma Migrate_progress:
  assumes "migrator_law m" and "ReadDir fs ''migrations'' = Inr names" and "distinct names"
    and "((\<lambda>d. snd (Migrate m fs d)) ^^ k) d = d1" and "pending (sort names) (schema_of m d) = todo"
  obtains n where "installs fs (take n todo) (ensure_versions (schema_of m d)) = Inr (ensure_versions (schema_of m d1))"
    "pending (sort names) (schema_of m d1) = drop n todo"
    "installs fs todo (ensure_versions (schema_of m d)) = installs fs (drop n todo) (ensure_versions (schema_of m d1))"
proof -
  let ?S = "ensure_versions (schema_of m d)" and ?S1 = "ensure_versions (schema_of m d1)"
  obtain n where n: "installs fs (take n todo) ?S = Inr ?S1"
    using Migrate_repeated [OF assms(1-3), of d k] assms(4,5) by auto
  have "pending (sort names) (schema_of m d1) = drop n todo"
    using pending_installed [of fs n "sort names" ?S] n assms(3,5) by simp
  moreover have "installs fs todo ?S = installs fs (drop n todo) ?S1"
    using installs_append [of fs "take n todo" "drop n todo" ?S] n by simp
  ultimately show ?thesis using n that by blast
qed

lemma Migrate_completes:
  assumes "migrator_law m" and "ReadDir fs ''migrations'' = Inr names" and "distinct names"
    and "((\<lambda>d. snd (Migrate m fs d)) ^^ k) d = d1" and "pending (sort names) (schema_of m d) = todo"
  shows "Migrate m fs d1 = (Inr (), d2) \<Longrightarrow> installs fs todo (ensure_versions (schema_of m d)) = Inr (schema_of m d2)"
    and "db_up m d1 \<Longrightarrow> installs fs todo (ensure_versions (schema_of m d)) = Inr S \<Longrightarrow> \<exists>d2. Migrate m fs d1 = (Inr (), d2)"
proof -
  obtain n where n: "pending (sort names) (schema_of m d1) = drop n todo"
    "installs fs todo (ensure_versions (schema_of m d)) = installs fs (drop n todo) (ensure_versions (schema_of m d1))"
    by (rule Migrate_progress [OF assms])
  show "installs fs todo (ensure_versions (schema_of m d)) = Inr (schema_of m d2)" if "Migrate m fs d1 = (Inr (), d2)"
    using Migrate_effect [OF assms(1-3) that] n ensure_id by auto
  show "\<exists>d2. Migrate m fs d1 = (Inr (), d2)" if "db_up m d1" "installs fs todo (ensure_versions (schema_of m d)) = Inr S"
    using Migrate_up [OF assms(1-3) that(1), of S] that(2) n by auto
qed

text \<open>
  C9: Migrations run exactly once each, in the order of their file names, however often the process is
  started and wherever its runs fail. After any number of runs the schema is the old one with an initial part of
  the pending migrations installed (each with its row in \<^verbatim>\<open>schema_migrations\<close>); a run that succeeds has
  installed all of them, with none of the earlier ones repeated; and a run on a database that answers succeeds if
  the scripts can be executed in that order.
\<close>

theorem Migrate_exactly_once:
  assumes "migrator_law m" and "ReadDir fs ''migrations'' = Inr names" and "distinct names"
    and "((\<lambda>d. snd (Migrate m fs d)) ^^ k) d = d1" and "pending (sort names) (schema_of m d) = todo"
  shows "(\<exists>n. installs fs (take n todo) (ensure_versions (schema_of m d)) = Inr (ensure_versions (schema_of m d1))) \<and>
    (\<forall>d2. Migrate m fs d1 = (Inr (), d2) \<longrightarrow> installs fs todo (ensure_versions (schema_of m d)) = Inr (schema_of m d2)) \<and>
    (\<forall>S. db_up m d1 \<and> installs fs todo (ensure_versions (schema_of m d)) = Inr S \<longrightarrow>
      (\<exists>d2. Migrate m fs d1 = (Inr (), d2)))"
proof -
  obtain n where "installs fs (take n todo) (ensure_versions (schema_of m d)) = Inr (ensure_versions (schema_of m d1))"
    by (rule Migrate_progress [OF assms])
  then show ?thesis using Migrate_completes [OF assms] by blast
qed

section \<open>The scripts of the repository\<close>

definition migration_names :: "string list" where
  "migration_names = map fst migration_files"

lemma migrationsFS_dir: "ReadDir migrationsFS ''migrations'' = Inr migration_names" "distinct migration_names"
  "sort migration_names = migration_names"
  by (simp_all add: migrationsFS_def migration_names_def migration_files_def)

definition empty_schema :: schema where
  "empty_schema = \<lparr>versions = None, keys_table = None, has_rank = False, stats_tbl = None, refs_table = None\<rparr>"

text \<open>The tables the stores work on, once the schema has all of their columns.\<close>

definition store_tables :: "schema \<Rightarrow> tables option" where
  "store_tables S =
     (case (keys_table S, stats_tbl S, refs_table S) of
        (Some (ks, n), Some t, Some refs) \<Rightarrow>
          if has_rank S \<and> has_errors t then Some \<lparr>t_keys = ks, t_seq = n, t_totals = totals_row t, t_refs = refs\<rparr> else None
      | _ \<Rightarrow> None)"

lemma installs_empty:
  "\<exists>S. installs migrationsFS migration_names (ensure_versions empty_schema) = Inr S \<and>
     store_tables S = Some \<lparr>t_keys = [], t_seq = 1, t_totals = Some (0, 0, 0), t_refs = []\<rparr> \<and>
     versions S = Some migration_names"
  by (simp add: migrationsFS_def migration_names_def migration_files_def installs.simps install_one_def empty_schema_def
      ensure_versions_def add_version_def store_tables_def)

text \<open>What a migration may do to a stored key: it keeps all but rank and scopes, and adds no scope but \<^verbatim>\<open>tw\<close>.\<close>

definition key_kept :: "ApiKey \<Rightarrow> ApiKey \<Rightarrow> bool" where
  "key_kept k k' \<longleftrightarrow>
     k'\<lparr>Rank := Rank k, Scopes := Scopes k\<rparr> = k \<and> set (Scopes k') \<subseteq> insert ''tw'' (set (Scopes k)) \<and>
     (Rank k' = Rank k \<or> Rank k' = ''member'')"

definition kept_by :: "('a \<Rightarrow> 'a \<Rightarrow> bool) \<Rightarrow> 'a option \<Rightarrow> 'a option \<Rightarrow> bool" where
  "kept_by R x x' \<longleftrightarrow> (case x of None \<Rightarrow> True | Some a \<Rightarrow> (case x' of None \<Rightarrow> False | Some a' \<Rightarrow> R a a'))"

definition rows_kept :: "ApiKey list \<times> int \<Rightarrow> ApiKey list \<times> int \<Rightarrow> bool" where
  "rows_kept x x' \<longleftrightarrow> list_all2 key_kept (fst x) (fst x') \<and> snd x' = snd x"

definition totals_kept :: "stats_table \<Rightarrow> stats_table \<Rightarrow> bool" where
  "totals_kept t t' \<longleftrightarrow>
     kept_by (\<lambda>(n, c, e) (n', c', e'). n' = n \<and> c' = c \<and> (has_errors t \<longrightarrow> e' = e)) (totals_row t) (totals_row t') \<and>
     (has_errors t \<longrightarrow> has_errors t')"

definition data_kept :: "schema \<Rightarrow> schema \<Rightarrow> bool" where
  "data_kept S S' \<longleftrightarrow> kept_by rows_kept (keys_table S) (keys_table S') \<and> kept_by totals_kept (stats_tbl S) (stats_tbl S') \<and>
     kept_by (=) (refs_table S) (refs_table S')"

lemma kept_by_trans:
  assumes "kept_by R x y" and "kept_by R y z" and "\<And>a b c. R a b \<Longrightarrow> R b c \<Longrightarrow> R a c"
  shows "kept_by R x z"
  using assms by (auto simp: kept_by_def split: option.splits)

lemma key_kept_refl [simp]: "key_kept k k"
  by (auto simp: key_kept_def)

lemma key_kept_trans: "key_kept k k1 \<Longrightarrow> key_kept k1 k2 \<Longrightarrow> key_kept k k2"
  by (cases k; cases k1; cases k2) (auto simp: key_kept_def)

lemma list_kept [simp]: "list_all2 key_kept ks ks"
  by (simp add: list_all2_refl)

lemma list_kept_map: "(\<And>k. key_kept k (f k)) \<Longrightarrow> list_all2 key_kept ks (map f ks)"
  by (simp add: list_all2_map2 list_all2_refl)

lemma rows_kept_trans: "rows_kept x y \<Longrightarrow> rows_kept y z \<Longrightarrow> rows_kept x z"
  by (auto simp: rows_kept_def intro: list_all2_trans [of key_kept key_kept key_kept] key_kept_trans)

lemma totals_kept_trans: "totals_kept x y \<Longrightarrow> totals_kept y z \<Longrightarrow> totals_kept x z"
  by (auto simp: totals_kept_def kept_by_def split: option.splits prod.splits)

lemma kept_by_simps [simp]:
  "kept_by R None x" "kept_by R (Some a) (Some b) = R a b" "kept_by rows_kept k k" "kept_by totals_kept t t" "kept_by (=) r r"
  by (simp_all add: kept_by_def rows_kept_def totals_kept_def split: option.splits)

lemma data_kept_refl [simp]: "data_kept S S"
  by (simp add: data_kept_def)

lemma data_kept_trans: "data_kept S S1 \<Longrightarrow> data_kept S1 S2 \<Longrightarrow> data_kept S S2"
  unfolding data_kept_def by (blast intro: kept_by_trans rows_kept_trans totals_kept_trans trans)

lemma data_kept_keys:
  assumes "keys_table S = Some (ks, n)" and "\<And>k. key_kept k (f k)"
  shows "data_kept S (S\<lparr>keys_table := Some (map f ks, n)\<rparr>)" "data_kept S (S\<lparr>keys_table := Some (map f ks, n), has_rank := b\<rparr>)"
  using list_kept_map [of f ks, OF assms(2)] assms(1) by (simp_all add: data_kept_def rows_kept_def)

lemma data_kept_stats: "stats_tbl S = Some t \<Longrightarrow> totals_kept t t' \<Longrightarrow> data_kept S (S\<lparr>stats_tbl := Some t'\<rparr>)"
  by (simp add: data_kept_def)

lemma data_kept_new:
  "keys_table S = None \<Longrightarrow> data_kept S (S\<lparr>keys_table := x, has_rank := b\<rparr>)"
  "stats_tbl S = None \<Longrightarrow> data_kept S (S\<lparr>stats_tbl := y\<rparr>)" "refs_table S = None \<Longrightarrow> data_kept S (S\<lparr>refs_table := z\<rparr>)"
  by (simp_all add: data_kept_def)

lemma key_kept_rank: "key_kept k (k\<lparr>Rank := ''member''\<rparr>)"
  by (auto simp: key_kept_def)

lemma run_stmt_keeps: "run_stmt st S = Inr S' \<Longrightarrow> data_kept S S'"
  by (cases st)
    (auto simp: key_kept_def totals_kept_def kept_by_def intro: data_kept_keys(1) data_kept_stats data_kept_new
      data_kept_keys(2) [OF _ key_kept_rank] split: option.splits if_splits)

lemma run_script_keeps: "run_script sts S = Inr S' \<Longrightarrow> data_kept S S'"
  by (induction sts arbitrary: S) (auto dest: run_stmt_keeps intro: data_kept_trans split: sum.splits)

lemma install_one_keeps: "install_one fs n S = Inr S' \<Longrightarrow> data_kept S S'"
  by (auto simp: install_one_def add_version_def data_kept_def dest!: run_script_keeps split: sum.splits option.splits if_splits)

lemma installs_keeps: "installs fs ns S = Inr S' \<Longrightarrow> data_kept S S'"
  by (induction ns arbitrary: S) (auto dest: install_one_keeps intro: data_kept_trans split: sum.splits)

lemma ensure_data [simp]: "data_kept (ensure_versions S) S' = data_kept S S'" "data_kept S (ensure_versions S') = data_kept S S'"
  by (simp_all add: data_kept_def ensure_versions_def split: option.splits)

text \<open>
  A new database is ready for the stores: whatever runs have failed on it, once one succeeds it holds exactly
  the seven migrations of the repository, no keys, no recorded references and zero totals, so the invariants
  the stores rely on hold; and a run on a database that answers does succeed.
\<close>

theorem Migrate_prepares_stores:
  assumes "migrator_law m" and "schema_of m d = empty_schema" and "((\<lambda>d. snd (Migrate m migrationsFS d)) ^^ k) d = d1"
  shows "(\<forall>d2. Migrate m migrationsFS d1 = (Inr (), d2) \<longrightarrow>
      versions (schema_of m d2) = Some migration_names \<and>
      (\<exists>T. store_tables (schema_of m d2) = Some T \<and> key_table_inv T \<and> totals_ok T \<and> t_keys T = [] \<and>
        pg_ledger T = \<lparr>led_refs = {}, led_count = 0, led_cents = 0, led_errors = 0\<rparr>)) \<and>
    (db_up m d1 \<longrightarrow> (\<exists>d2. Migrate m migrationsFS d1 = (Inr (), d2)))"
proof -
  have todo: "pending (sort migration_names) (schema_of m d) = migration_names"
    unfolding migrationsFS_dir(3) assms(2) by (simp add: pending_def empty_schema_def)
  obtain S where S: "installs migrationsFS migration_names (ensure_versions empty_schema) = Inr S"
    "store_tables S = Some \<lparr>t_keys = [], t_seq = 1, t_totals = Some (0, 0, 0), t_refs = []\<rparr>" "versions S = Some migration_names"
    using installs_empty by blast
  note completes = Migrate_completes [OF assms(1) migrationsFS_dir(1,2) assms(3) todo]
  have "schema_of m d2 = S" if "Migrate m migrationsFS d1 = (Inr (), d2)" for d2
    using completes(1) [OF that] S(1) assms(2) by simp
  moreover have "\<exists>d2. Migrate m migrationsFS d1 = (Inr (), d2)" if "db_up m d1"
    using completes(2) [OF that] S(1) assms(2) by simp
  moreover have "key_table_inv T \<and> totals_ok T \<and> t_keys T = [] \<and>
      pg_ledger T = \<lparr>led_refs = {}, led_count = 0, led_cents = 0, led_errors = 0\<rparr>"
    if "T = \<lparr>t_keys = [], t_seq = 1, t_totals = Some (0, 0, 0), t_refs = []\<rparr>" for T
    by (simp add: that key_table_inv_def totals_ok_def pg_ledger_def is_int64_def)
  ultimately show ?thesis using S(2,3) by auto
qed

text \<open>
  C10: Migrations lose nothing and grant nothing. After any run, successful or not, every stored key is
  still there with its identity, hash, expiry, revocation and usage; its scopes are among the old ones and
  \<^verbatim>\<open>tw\<close>, so no key gains \<^verbatim>\<open>admin\<close>, and its rank is the old one or \<^verbatim>\<open>member\<close>; the recorded references and the
  totals are unchanged (the error total from when its column exists).
\<close>

theorem Migrate_keeps_data:
  assumes "migrator_law m" and "Migrate m migrationsFS d = (r, d')"
  shows "data_kept (schema_of m d) (schema_of m d')"
proof -
  obtain n where "installs migrationsFS (take n (pending (sort migration_names) (schema_of m d))) (ensure_versions (schema_of m d)) =
      Inr (ensure_versions (schema_of m d'))"
    using Migrate_effect [OF assms(1) migrationsFS_dir(1,2) assms(2)] by blast
  from installs_keeps [OF this] show ?thesis by simp
qed

section \<open>A database for the examples\<close>

definition sample_migrator :: "(schema database, schema) migrator" where
  "sample_migrator =
     \<lparr>schema_of = db_tables, db_up = \<lambda>d. db_faults d = [], advisory_lock = \<lambda>k d. (Inr (), d), advisory_unlock = \<lambda>k d. (Inr (), d),
      create_versions = \<lambda>d. through (Inr (), ensure_versions (db_tables d)) d,
      select_version = \<lambda>v d. case versions (db_tables d) of None \<Rightarrow> undefined_table | Some vs \<Rightarrow> Inr (v \<in> set vs),
      BeginFunc = \<lambda>f d. case f (db_tables d) of (Inl e, x) \<Rightarrow> (Inl e, d) | (Inr u, x) \<Rightarrow> through (Inr (), x) d,
      tx_schema = \<lambda>x. x, tx_up = \<lambda>_. True,
      exec_script = \<lambda>sql x. case run_script sql x of Inl e \<Rightarrow> (Inl e, x) | Inr x \<Rightarrow> (Inr (), x),
      insert_version = \<lambda>v x. case add_version v x of Inl e \<Rightarrow> (Inl e, x) | Inr x \<Rightarrow> (Inr (), x)\<rparr>"

lemma sample_migrator_law: "migrator_law sample_migrator"
  unfolding migrator_law_def
  by (auto simp: sample_migrator_def tx_runs_def split: prod.splits sum.splits option.splits intro: through_executes)

text \<open>A key from before scopes were mandatory, and a process that is cut off in its third and fourth write.\<close>

definition old_schema :: schema where
  "old_schema = \<lparr>versions = Some [''0001_create_api_keys.sql''], keys_table = Some ([sample_row\<lparr>Scopes := [], Rank := []\<rparr>], 2),
     has_rank = False, stats_tbl = None, refs_table = None\<rparr>"

definition cut_db :: "schema \<Rightarrow> schema database" where
  "cut_db S = \<lparr>db_tables = S, db_faults = [Deliver, Deliver, LoseAfter, Deliver, LoseBefore]\<rparr>"

lemma cut_runs:
  "db_faults (((\<lambda>d. snd (Migrate sample_migrator migrationsFS d)) ^^ 2) (cut_db old_schema)) = []"
  "db_faults (((\<lambda>d. snd (Migrate sample_migrator migrationsFS d)) ^^ 2) (cut_db empty_schema)) = []"
  by code_simp+

lemma sample_migrator_simps [simp]: "schema_of sample_migrator = db_tables" "db_up sample_migrator d \<longleftrightarrow> db_faults d = []"
  by (simp_all add: sample_migrator_def)

lemma installs_old:
  "\<exists>S. installs migrationsFS (tl migration_names) old_schema = Inr S \<and> versions S = Some migration_names"
  by (simp add: migrationsFS_def migration_names_def migration_files_def install_one_def old_schema_def add_version_def)

theorem Migrate_exactly_once_witness:
  "\<exists>d2. Migrate sample_migrator migrationsFS (((\<lambda>d. snd (Migrate sample_migrator migrationsFS d)) ^^ 2) (cut_db old_schema)) =
      (Inr (), d2) \<and> versions (db_tables d2) = Some migration_names"
proof -
  have "ensure_versions old_schema = old_schema" by (simp add: ensure_versions_def old_schema_def)
  moreover have "pending (sort migration_names) (schema_of sample_migrator (cut_db old_schema)) = tl migration_names"
    unfolding migrationsFS_dir(3) by (simp add: pending_def cut_db_def old_schema_def migration_names_def migration_files_def)
  ultimately show ?thesis
    using Migrate_exactly_once [OF sample_migrator_law migrationsFS_dir(1,2) refl, of "cut_db old_schema" _ 2]
      cut_runs(1) installs_old by (auto simp: cut_db_def)
qed

theorem Migrate_prepares_stores_witness:
  "\<exists>d2 T. Migrate sample_migrator migrationsFS (((\<lambda>d. snd (Migrate sample_migrator migrationsFS d)) ^^ 2) (cut_db empty_schema)) =
      (Inr (), d2) \<and> store_tables (db_tables d2) = Some T \<and> totals_ok T"
proof -
  have "schema_of sample_migrator (cut_db empty_schema) = empty_schema" by (simp add: cut_db_def)
  from Migrate_prepares_stores [OF sample_migrator_law this, of 2] show ?thesis using cut_runs(2) by auto
qed

theorem Migrate_keeps_data_witness:
  "data_kept old_schema (db_tables (snd (Migrate sample_migrator migrationsFS (cut_db old_schema)))) \<and>
     map Scopes (fst (the (keys_table (db_tables (snd (Migrate sample_migrator migrationsFS (cut_db old_schema))))))) = [[''tw'']]"
proof -
  have "data_kept (schema_of sample_migrator (cut_db old_schema))
      (schema_of sample_migrator (snd (Migrate sample_migrator migrationsFS (cut_db old_schema))))"
    by (rule Migrate_keeps_data [OF sample_migrator_law prod.collapse [symmetric]])
  moreover have "map Scopes (fst (the (keys_table (db_tables (snd (Migrate sample_migrator migrationsFS (cut_db old_schema))))))) = [[''tw'']]"
    by code_simp
  ultimately show ?thesis by (simp add: cut_db_def)
qed

end
