(* ===== verification/Startup.thy ===== *)
theory Startup
  imports Server Redislimit Migrate
begin

text \<open>
  The start and end of the process: \<^verbatim>\<open>cmd/server/main.go\<close>, the connection pool of
  \<^verbatim>\<open>internal/repository/postgres/db.go\<close>, \<^verbatim>\<open>internal/server/server.go\<close> and the choice of limiters and stores at the
  beginning of \<^verbatim>\<open>internal/server/router.go\<close>. What the libraries and the operating system answer is the record
  \<open>platform\<close>; the observable actions of the process are a list, deferred calls included: the log records of
  \<^verbatim>\<open>main.go\<close> and \<^verbatim>\<open>router.go\<close> (\<^verbatim>\<open>server starting\<close> goes with \<open>Serve\<close>), the pool, the listener and the clients that
  are closed.
\<close>

section \<open>The pool\<close>

record pool_config =
  pool_url :: string
  MaxConns :: int
  MaxConnIdleTime :: duration
  MaxConnLifetime :: duration

record 'p pgx =
  ParseConfig :: "string \<Rightarrow> pool_config result"
  NewWithConfig :: "pool_config \<Rightarrow> 'p result"
  Ping :: "'p \<Rightarrow> go_error option"

datatype action =
    Log string
  | ClosePool
  | Serve string bool \<comment> \<open>listening on an address, with or without a database\<close>
  | Shutdown duration
  | CloseRedis
  | StopSignals

definition NewPool :: "'p pgx \<Rightarrow> string \<Rightarrow> 'p result \<times> action list" where
  "NewPool lib databaseURL =
     (case ParseConfig lib databaseURL of
        Inl err \<Rightarrow> (Inl (Errorf ''parse database url'' err), [])
      | Inr poolCfg \<Rightarrow>
          (case NewWithConfig lib (poolCfg\<lparr>MaxConns := 10, MaxConnIdleTime := 30 * 60 * 1000000000, MaxConnLifetime := 3600 * 1000000000\<rparr>) of
             Inl err \<Rightarrow> (Inl (Errorf ''create pool'' err), [])
           | Inr pool \<Rightarrow>
               (case Ping lib pool of
                  Some err \<Rightarrow> (Inl (Errorf ''ping database'' err), [ClosePool])
                | None \<Rightarrow> (Inr pool, []))))"

section \<open>The parts of the router\<close>

datatype limiter = Memory_Limiter MemoryLimiter | Redis_Limiter Limiter

definition redis_client :: "(string \<Rightarrow> 'c result) \<Rightarrow> Config \<Rightarrow> 'c option \<times> action list" where
  "redis_client parse cfg =
     (if RedisURL cfg \<noteq> [] then
        (case parse (RedisURL cfg) of
           Inl err \<Rightarrow> (None, [Log ''invalid REDIS_URL''])
         | Inr client \<Rightarrow> (Some client, []))
      else (None, []))"

definition new_limiter :: "'c option \<Rightarrow> int \<Rightarrow> duration \<Rightarrow> limiter" where
  "new_limiter redisClient mx win =
     (case redisClient of Some c \<Rightarrow> Redis_Limiter (New mx win) | None \<Rightarrow> Memory_Limiter (NewMemory mx win))"

record 'p router_parts =
  memberLimiter :: "limiter option"
  partnerLimiter :: "limiter option"
  ipRateLimiter :: "limiter option"
  stores :: "KeyStore \<times> StatsStore + 'p" \<comment> \<open>in memory, or the pool\<close>

definition NewRouter_parts :: "'c option \<Rightarrow> Config \<Rightarrow> 'p option \<Rightarrow> 'p router_parts" where
  "NewRouter_parts redisClient cfg db =
     \<lparr>memberLimiter = (if RateLimitEnabled cfg then Some (new_limiter redisClient (RateLimitMemberMax cfg) (RateLimitWindow cfg)) else None),
      partnerLimiter = (if RateLimitEnabled cfg then Some (new_limiter redisClient (RateLimitPartnerMax cfg) (RateLimitWindow cfg)) else None),
      ipRateLimiter = (if RateLimitIPEnabled cfg then Some (new_limiter redisClient (RateLimitIPMax cfg) (RateLimitIPWindow cfg)) else None),
      stores = (case db of None \<Rightarrow> Inl (NewKeyStore, NewStatsStore) | Some pool \<Rightarrow> Inr pool)\<rparr>"

definition cleanup :: "'c option \<Rightarrow> action list" where
  "cleanup redisClient = (case redisClient of Some c \<Rightarrow> [CloseRedis] | None \<Rightarrow> [])"

text \<open>
  The router registers the bootstrap key in the store it has chosen, before anything listens; a failure is only
  logged. The database \<open>d\<close> is touched only when there is a pool.
\<close>

definition NewRouter_bootstrap ::
  "('p \<Rightarrow> ('d, 'x) engine) \<Rightarrow> readings \<Rightarrow> Config \<Rightarrow> 'p option \<Rightarrow> 'd \<Rightarrow> action list \<times> 'd" where
  "NewRouter_bootstrap pool_engine rd cfg db d =
     (case db of
        None \<Rightarrow>
          (case Bootstrap memory_repo rd (BootstrapAPIKey cfg) NewKeyStore of
             (Inl err, s) \<Rightarrow> ([Log ''bootstrap api key''], d)
           | (Inr u, s) \<Rightarrow> ([], d))
      | Some pool \<Rightarrow>
          (case Bootstrap (pg_repo (pool_engine pool)) rd (BootstrapAPIKey cfg) d of
             (Inl err, d') \<Rightarrow> ([Log ''bootstrap api key''], d')
           | (Inr u, d') \<Rightarrow> ([], d')))"

section \<open>The server and main\<close>

record http_Server =
  srv_Addr :: string
  srv_ReadTimeout :: duration
  ReadHeaderTimeout :: duration
  srv_WriteTimeout :: duration
  srv_IdleTimeout :: duration

definition server_New :: "Config \<Rightarrow> http_Server" where
  "server_New cfg = \<lparr>srv_Addr = Addr cfg, srv_ReadTimeout = ReadTimeout cfg, ReadHeaderTimeout = 5 * 1000000000,
     srv_WriteTimeout = WriteTimeout cfg, srv_IdleTimeout = IdleTimeout cfg\<rparr>"

datatype ending = ListenError go_error | Signal

record ('p, 'c, 'd, 'x) platform =
  environment :: "Config result"
  pgx_lib :: "'p pgx"
  database :: "'p \<Rightarrow> ('d, 'x) migrator"
  pool_engine :: "'p \<Rightarrow> ('d, 'x) engine" \<comment> \<open>the same database, for the statements of the stores\<close>
  start_readings :: readings \<comment> \<open>clock and entropy while the router is built\<close>
  ParseURL :: "string \<Rightarrow> 'c result"
  ends :: "http_Server \<Rightarrow> ending" \<comment> \<open>which channel the process hears from first\<close>
  shutdown_fails :: "duration \<Rightarrow> bool"

text \<open>The result has the database as it is when the process begins to listen, or ends before that.\<close>

definition serve_until :: "('p, 'c, 'd, 'x) platform \<Rightarrow> Config \<Rightarrow> 'p option \<Rightarrow> 'd \<Rightarrow> int \<times> action list \<times> 'd" where
  "serve_until pf cfg db d =
     (case redis_client (ParseURL pf) cfg of
        (redisClient, acts) \<Rightarrow>
          (case NewRouter_bootstrap (pool_engine pf) (start_readings pf) cfg db d of
             (booted, d) \<Rightarrow>
               let srv = server_New cfg; acts = acts @ booted @ [Serve (srv_Addr srv) (db \<noteq> None)] in
               case ends pf srv of
                 ListenError err \<Rightarrow> (1, acts @ [Log ''server error''] @ cleanup redisClient, d)
               | Signal \<Rightarrow>
                   (0, acts @ [Log ''shutdown signal received'', Shutdown (ShutdownTimeout cfg)] @
                      (if shutdown_fails pf (ShutdownTimeout cfg) then [Log ''graceful shutdown failed''] else []) @
                      [Log ''server stopped''] @ cleanup redisClient, d)))"

definition main_run :: "('p, 'c, 'd, 'x) platform \<Rightarrow> 'd \<Rightarrow> int \<times> action list \<times> 'd" where
  "main_run pf d =
     (case Load (environment pf) of
        Inl err \<Rightarrow> (1, [Log ''load config failed''], d)
      | Inr cfg \<Rightarrow>
          if DatabaseURL cfg \<noteq> [] then
            (case NewPool (pgx_lib pf) (DatabaseURL cfg) of
               (Inl err, acts) \<Rightarrow> (1, acts @ [Log ''connect db failed'', StopSignals], d)
             | (Inr pool, acts) \<Rightarrow>
                 (case Migrate (database pf pool) migrationsFS d of
                    (Inl err, d) \<Rightarrow> (1, acts @ [Log ''migrate db failed'', ClosePool, StopSignals], d)
                  | (Inr u, d) \<Rightarrow>
                      (case serve_until pf cfg (Some pool) d of
                         (code, acts', d) \<Rightarrow> (code, acts @ acts' @ [ClosePool, StopSignals], d))))
          else
            (case serve_until pf cfg None d of
               (code, acts, d) \<Rightarrow> (code, Log ''DATABASE_URL not set, running without database'' # acts @ [StopSignals], d)))"

section \<open>What is served\<close>

definition limiter_Allow ::
  "'r script_run \<Rightarrow> range_order \<Rightarrow> time \<Rightarrow> time \<Rightarrow> string \<Rightarrow> limiter \<times> 'r \<Rightarrow> (bool \<times> duration) \<times> limiter \<times> 'r" where
  "limiter_Allow sh rng now until_now key lr =
     (case lr of
        (Memory_Limiter l, r) \<Rightarrow> (case Allow rng now until_now key l of (a, l) \<Rightarrow> (a, Memory_Limiter l, r))
      | (Redis_Limiter l, r) \<Rightarrow> (case Limiter_Allow sh rng now until_now key (l, r) of (a, l, r) \<Rightarrow> (a, Redis_Limiter l, r)))"

definition unreachable :: "'r script_run \<Rightarrow> bool" where
  "unreachable sh \<longleftrightarrow> (\<forall>ks as r. \<exists>x e r'. sh ks as r = ((x, Some e), r') \<and> \<not> errors_Is e RedisNil)"

lemma new_limiter_admits:
  assumes "unreachable sh" and "fst (fst (Allow rng now un k (NewMemory mx win)))"
  shows "fst (fst (limiter_Allow sh rng now un k (new_limiter client mx win, r)))"
proof (cases client)
  case None
  then show ?thesis using assms(2) by (auto simp: limiter_Allow_def new_limiter_def split: prod.splits)
next
  case (Some c)
  obtain x e r' where "sh [redis_key k] [FormatInt (script_ttl (New mx win))] r = ((x, Some e), r')" "\<not> errors_Is e RedisNil"
    using assms(1) unfolding unreachable_def by blast
  then show ?thesis
    using assms(2) Some by (auto simp: limiter_Allow_def new_limiter_def Limiter_Allow_def New_def split: prod.splits)
qed

text \<open>
  A configuration that loads cannot disable the service by its rate limits. The server has the limiters the
  configuration enables, and each of them grants the first request of every bucket, whether it is in memory
  or has lost its Redis server; in production a bootstrap key is set.
\<close>

theorem configured_limiters_admit:
  assumes "Load parsed = Inr cfg" and "unreachable sh" and "NewRouter_parts client cfg db = rp"
  shows "(RateLimitEnabled cfg \<longleftrightarrow> memberLimiter rp \<noteq> None \<and> partnerLimiter rp \<noteq> None) \<and>
    (RateLimitIPEnabled cfg \<longleftrightarrow> ipRateLimiter rp \<noteq> None) \<and>
    (\<forall>l. Some l \<in> {memberLimiter rp, partnerLimiter rp, ipRateLimiter rp} \<longrightarrow>
       fst (fst (limiter_Allow sh rng now un k (l, r)))) \<and>
    (Env cfg = ''production'' \<longrightarrow> BootstrapAPIKey cfg \<noteq> [])"
  using loaded_config_admits [OF assms(1), of rng now un k 0 0] new_limiter_admits [OF assms(2), of rng now un k _ _ client r]
  by (auto simp: assms(3) [symmetric] NewRouter_parts_def)

text \<open>What the router's bootstrap leaves of the database.\<close>

abbreviation booted :: "('p, 'c, 'd, 'x) platform \<Rightarrow> Config \<Rightarrow> 'p \<Rightarrow> 'd \<Rightarrow> 'd" where
  "booted pf cfg pool d \<equiv> snd (Bootstrap (pg_repo (pool_engine pf pool)) (start_readings pf) (BootstrapAPIKey cfg) d)"

lemma NewRouter_bootstrap_acts:
  assumes "NewRouter_bootstrap eng rd cfg db d = (acts, d')"
  shows "Serve a b \<notin> set acts"
    and "d' = (case db of None \<Rightarrow> d | Some pool \<Rightarrow> snd (Bootstrap (pg_repo (eng pool)) rd (BootstrapAPIKey cfg) d))"
  using assms by (auto simp: NewRouter_bootstrap_def split: option.splits prod.splits sum.splits)

lemma serve_until_acts:
  assumes "serve_until pf cfg db d = (code, acts, d')"
  shows "Serve a b \<in> set acts \<longleftrightarrow> a = Addr cfg \<and> b = (db \<noteq> None)"
    and "code = (if ends pf (server_New cfg) = Signal then 0 else 1)"
    and "d' = (case db of None \<Rightarrow> d | Some pool \<Rightarrow> booted pf cfg pool d)"
proof -
  obtain bs d1 where b: "NewRouter_bootstrap (pool_engine pf) (start_readings pf) cfg db d = (bs, d1)" by fastforce
  show "Serve a b \<in> set acts \<longleftrightarrow> a = Addr cfg \<and> b = (db \<noteq> None)"
    and "code = (if ends pf (server_New cfg) = Signal then 0 else 1)"
    and "d' = (case db of None \<Rightarrow> d | Some pool \<Rightarrow> booted pf cfg pool d)"
    using assms NewRouter_bootstrap_acts [OF b]
    by (auto simp: serve_until_def b redis_client_def cleanup_def server_New_def Let_def
        split: prod.splits ending.splits if_splits option.splits sum.splits)
qed

lemma NewPool_acts: "NewPool lib url = (r, acts) \<Longrightarrow> Serve a b \<notin> set acts"
  by (auto simp: NewPool_def split: sum.splits option.splits)

lemma main_cases:
  assumes "main_run pf d = (code, acts, d')"
  obtains (refused) "code = 1" "\<And>a b. Serve a b \<notin> set acts"
  | (memory) cfg where "Load (environment pf) = Inr cfg" "d' = d" "\<And>a b. Serve a b \<in> set acts \<longleftrightarrow> a = Addr cfg \<and> \<not> b"
      "code = (if ends pf (server_New cfg) = Signal then 0 else 1)"
  | (postgres) cfg pool d1 xs where "Load (environment pf) = Inr cfg" "Migrate (database pf pool) migrationsFS d = (Inr (), d1)"
      "d' = booted pf cfg pool d1"
      "\<And>a b. Serve a b \<in> set acts \<longleftrightarrow> a = Addr cfg \<and> b" "acts = xs @ [ClosePool, StopSignals]"
      "code = (if ends pf (server_New cfg) = Signal then 0 else 1)"
proof (cases "Load (environment pf)")
  case (Inl e)
  then have "code = 1" "acts = [Log ''load config failed'']" using assms by (simp_all add: main_run_def)
  then show ?thesis using refused by simp
next
  case cfg: (Inr cfg)
  show ?thesis
  proof (cases "DatabaseURL cfg = []")
    case True
    obtain c as d1 where s: "serve_until pf cfg None d = (c, as, d1)" by (metis prod.exhaust)
    have run: "code = c" "acts = Log ''DATABASE_URL not set, running without database'' # as @ [StopSignals]" "d' = d"
      using assms cfg True s serve_until_acts(3) [OF s] by (simp_all add: main_run_def)
    show ?thesis
      by (rule memory [OF cfg run(3)]) (simp_all add: run(1,2) serve_until_acts(1) [OF s] serve_until_acts(2) [OF s])
  next
    case False
    obtain p as where p: "NewPool (pgx_lib pf) (DatabaseURL cfg) = (p, as)" by fastforce
    show ?thesis
    proof (cases p)
      case (Inl e)
      then have "code = 1" "acts = as @ [Log ''connect db failed'', StopSignals]"
        using assms cfg False p by (simp_all add: main_run_def)
      then show ?thesis using NewPool_acts [OF p] refused by simp
    next
      case pool: (Inr pool)
      obtain r d1 where m: "Migrate (database pf pool) migrationsFS d = (r, d1)" by fastforce
      show ?thesis
      proof (cases r)
        case (Inl e)
        then have "code = 1" "acts = as @ [Log ''migrate db failed'', ClosePool, StopSignals]"
          using assms cfg False p pool m by (simp_all add: main_run_def)
        then show ?thesis using NewPool_acts [OF p] refused by simp
      next
        case (Inr u)
        obtain c as' d2 where s: "serve_until pf cfg (Some pool) d1 = (c, as', d2)" by (metis prod.exhaust)
        have run: "code = c" "acts = (as @ as') @ [ClosePool, StopSignals]" "d' = booted pf cfg pool d1"
          using assms cfg False p pool m Inr s serve_until_acts(3) [OF s] by (simp_all add: main_run_def)
        have mig: "Migrate (database pf pool) migrationsFS d = (Inr (), d1)" using m Inr by simp
        show ?thesis
          by (rule postgres [OF cfg mig run(3) _ run(2)])
            (simp_all add: run(1,2) serve_until_acts(1) [OF s] serve_until_acts(2) [OF s] NewPool_acts [OF p])
      qed
    qed
  qed
qed

text \<open>
  C8: The process serves only what it has migrated. If it listens with a database, a run of the migrations on it has
  succeeded, with all pending migrations of the repository installed, once each and in order, nothing but the
  bootstrap of the configured key has changed it since, and the pool is closed at the end;
  if it listens without one, no database has been touched; a configuration that does not load, a pool
  that does not open and a migration that fails end it with status 1 without listening, and the status
  is 0 just when it listened and a signal ended it.
\<close>

theorem main_serves_migrated:
  assumes "\<forall>p. migrator_law (database pf p)" and "main_run pf d = (code, acts, d')"
  shows "(\<forall>a. Serve a True \<in> set acts \<longrightarrow>
      (\<exists>cfg pool d1. Load (environment pf) = Inr cfg \<and> Migrate (database pf pool) migrationsFS d = (Inr (), d1) \<and>
         installs migrationsFS (pending migration_names (schema_of (database pf pool) d))
           (ensure_versions (schema_of (database pf pool) d)) = Inr (schema_of (database pf pool) d1) \<and>
         d' = snd (Bootstrap (pg_repo (pool_engine pf pool)) (start_readings pf) (BootstrapAPIKey cfg) d1)) \<and>
      (\<exists>xs. acts = xs @ [ClosePool, StopSignals])) \<and>
    (\<forall>a. Serve a False \<in> set acts \<longrightarrow> d' = d) \<and>
    (code = 0 \<longleftrightarrow> (\<exists>cfg b. Load (environment pf) = Inr cfg \<and> Serve (Addr cfg) b \<in> set acts \<and> ends pf (server_New cfg) = Signal)) \<and>
    code \<in> {0, 1}"
  using assms(2)
proof (cases rule: main_cases)
  case (postgres cfg pool d1 xs)
  have todo: "pending (sort migration_names) (schema_of (database pf pool) d) = pending migration_names (schema_of (database pf pool) d)"
    by (simp add: migrationsFS_dir(3))
  have "installs migrationsFS (pending migration_names (schema_of (database pf pool) d))
      (ensure_versions (schema_of (database pf pool) d)) = Inr (schema_of (database pf pool) d1)"
    using Migrate_completes(1) [OF _ migrationsFS_dir(1,2) _ todo, of 0 d d1] assms(1) postgres(2) by simp
  with postgres show ?thesis by auto
qed auto

section \<open>A platform for the examples\<close>

text \<open>The tables of the stores, inside the schema the migrations work on.\<close>

definition put_tables :: "tables \<Rightarrow> schema \<Rightarrow> schema" where
  "put_tables T S =
     S\<lparr>keys_table := Some (t_keys T, t_seq T), refs_table := Some (t_refs T),
       stats_tbl := map_option (\<lambda>t. t\<lparr>totals_row := t_totals T\<rparr>) (stats_tbl S)\<rparr>"

definition schema_sql :: "command \<Rightarrow> time \<Rightarrow> schema \<Rightarrow> answer result \<times> schema" where
  "schema_sql c now S =
     (case store_tables S of
        None \<Rightarrow> (undefined_table, S)
      | Some T \<Rightarrow> (case sql_run nul_free microseconds c now T of (a, T') \<Rightarrow> (a, put_tables T' S)))"

definition schema_rows :: "(tables \<Rightarrow> 'a list) \<Rightarrow> schema \<Rightarrow> 'a rows result" where
  "schema_rows f S = (case store_tables S of None \<Rightarrow> undefined_table | Some T \<Rightarrow> Inr (map Inr (f T), None))"

definition schema_engine :: "(schema database, schema) engine" where
  "schema_engine = \<lparr>text_ok = nul_free, stamp = microseconds, tables_of = \<lambda>d. the (store_tables (db_tables d)),
     ready = \<lambda>d. db_faults d = [] \<and> store_tables (db_tables d) \<noteq> None,
     select_key = \<lambda>h d. if nul_free h then schema_rows (\<lambda>T. filter (\<lambda>k. KeyHash k = h) (t_keys T)) (db_tables d)
       else Inl (PgError ''22021''),
     select_keys = \<lambda>d. schema_rows (\<lambda>T. sort_key ID (t_keys T)) (db_tables d),
     select_totals = \<lambda>d. schema_rows (\<lambda>T. case t_totals T of Some x \<Rightarrow> [x] | None \<Rightarrow> []) (db_tables d),
     exec = \<lambda>c now d. through (schema_sql c now (db_tables d)) d,
     tx_begin = \<lambda>d. (Inr (db_tables d), d), tx_tables = \<lambda>x. the (store_tables x), tx_ready = \<lambda>x. store_tables x \<noteq> None,
     tx_exec = schema_sql, tx_commit = \<lambda>x d. through (Inr (), x) d\<rparr>"

definition sample_platform :: "(unit, unit, schema database, schema) platform" where
  "sample_platform =
     \<lparr>environment = Inr (default_config\<lparr>DatabaseURL := ''postgres://db'', RedisURL := ''redis:'', BootstrapAPIKey := ''seed''\<rparr>),
      pgx_lib = \<lparr>ParseConfig = \<lambda>u. Inr \<lparr>pool_url = u, MaxConns = 4, MaxConnIdleTime = 0, MaxConnLifetime = 0\<rparr>,
                 NewWithConfig = \<lambda>c. Inr (), Ping = \<lambda>p. None\<rparr>,
      database = \<lambda>p. sample_migrator, pool_engine = \<lambda>p. schema_engine, start_readings = sample_readings,
      ParseURL = \<lambda>u. Inl (OtherError (Msg ''redis: invalid URL'')),
      ends = \<lambda>s. Signal, shutdown_fails = \<lambda>t. False\<rparr>"

definition fresh_db :: "schema database" where
  "fresh_db = \<lparr>db_tables = empty_schema, db_faults = []\<rparr>"

lemma sample_main:
  "\<exists>acts d'. main_run sample_platform fresh_db = (0, acts, d') \<and> Serve '':8080'' True \<in> set acts"
proof -
  let ?cfg = "default_config\<lparr>DatabaseURL := ''postgres://db'', RedisURL := ''redis:'', BootstrapAPIKey := ''seed''\<rparr>"
  have ld: "Load (Inr ?cfg) = Inr ?cfg" by (simp add: Load_def validate_None_iff default_config_def split: option.splits)
  obtain d1 where mig: "Migrate sample_migrator migrationsFS fresh_db = (Inr (), d1)"
    using Migrate_up [OF sample_migrator_law migrationsFS_dir(1,2), of fresh_db] installs_empty
    by (auto simp: fresh_db_def pending_def empty_schema_def migrationsFS_dir(3))
  obtain c acts d2 where s: "serve_until sample_platform ?cfg (Some ()) d1 = (c, acts, d2)" by (metis prod.exhaust)
  have "main_run sample_platform fresh_db = (c, acts @ [ClosePool, StopSignals], d2)"
    using ld mig s by (simp add: main_run_def sample_platform_def NewPool_def default_config_def)
  moreover have "Addr ?cfg = '':8080''" by (simp add: default_config_def)
  ultimately show ?thesis using serve_until_acts(1,2) [OF s] by (auto simp: sample_platform_def)
qed

theorem main_serves_migrated_witness:
  "\<exists>acts d1 d'. main_run sample_platform fresh_db = (0, acts, d') \<and> Serve '':8080'' True \<in> set acts \<and>
     versions (db_tables d1) = Some migration_names \<and> d' = snd (Bootstrap (pg_repo schema_engine) sample_readings ''seed'' d1)"
proof -
  obtain acts d' where run: "main_run sample_platform fresh_db = (0, acts, d')" and served: "Serve '':8080'' True \<in> set acts"
    using sample_main by blast
  have pf: "database sample_platform p = sample_migrator" "pool_engine sample_platform p = schema_engine"
    "start_readings sample_platform = sample_readings" for p by (simp_all add: sample_platform_def)
  have key: "BootstrapAPIKey cfg = ''seed''" if "Load (environment sample_platform) = Inr cfg" for cfg
    using that by (auto simp: Load_def sample_platform_def split: option.splits)
  obtain cfg d1 where d1: "Load (environment sample_platform) = Inr cfg"
    "installs migrationsFS (pending migration_names empty_schema) (ensure_versions empty_schema) = Inr (db_tables d1)"
    "d' = snd (Bootstrap (pg_repo schema_engine) sample_readings (BootstrapAPIKey cfg) d1)"
    using main_serves_migrated [of sample_platform, OF _ run] served sample_migrator_law by (auto simp: pf fresh_db_def)
  moreover have "pending migration_names empty_schema = migration_names" by (simp add: pending_def empty_schema_def)
  ultimately show ?thesis using run served installs_empty key [OF d1(1)] by auto
qed

theorem configured_limiters_admit_witness:
  "\<exists>l. memberLimiter (NewRouter_parts (Some ()) default_config (None :: unit option)) = Some l \<and>
     fst (fst (limiter_Allow (\<lambda>ks as r. ((RNil, Some (OtherError (Msg ''redis down''))), r)) (\<lambda>m. m) 5 5 ''key:1'' (l, ())))"
proof -
  have ld: "Load (Inr default_config) = Inr default_config"
    by (simp add: Load_def validate_None_iff default_config_def split: option.splits)
  have down: "unreachable (\<lambda>ks as r. ((RNil, Some (OtherError (Msg ''redis down''))), r :: unit))" by (simp add: unreachable_def)
  have "RateLimitEnabled default_config" by (simp add: default_config_def)
  then show ?thesis
    using configured_limiters_admit [OF ld down refl, of "Some ()" "None :: unit option" "\<lambda>m. m" 5 5 "''key:1''" "()"] by auto
qed

end
