(* ===== verification/Flights.thy ===== *)
theory Flights
  imports Twservice
begin

text \<open>
  The redemption service under concurrency: callers of \<^verbatim>\<open>TwService.Redeem\<close> enter at any time, meet in the
  \<^verbatim>\<open>singleflight.Group\<close> of \<^verbatim>\<open>CoalescedTwProvider\<close>, and resume at any time after the call they share has
  returned. The state holds the group, the world outside, the statistics and one entry per caller; the steps
  are the stretches of code between two points at which the scheduler can switch.
\<close>

section \<open>The group\<close>

text \<open>
  \<^verbatim>\<open>singleflight.Group\<close> is a library type. \<open>sf_Do c key\<close> is the entry of a caller into \<^verbatim>\<open>Do\<close>: whether it executes its
  function (otherwise it waits); \<open>sf_end key\<close> is the return of the function that runs under a key: the
  waiting callers, which receive its results; \<open>sf_calls\<close> reads the executing caller and the waiting ones
  of a key. The law is the documentation of \<^verbatim>\<open>Do\<close>: only one execution is in flight for a given key at
  a time, a duplicate caller waits for the original to complete and receives the same results.
\<close>

record 'g singleflight =
  sf_zero :: 'g
  sf_Do :: "nat \<Rightarrow> string \<Rightarrow> 'g \<Rightarrow> bool \<times> 'g"
  sf_end :: "string \<Rightarrow> 'g \<Rightarrow> nat list \<times> 'g"
  sf_calls :: "'g \<Rightarrow> string \<Rightarrow> (nat \<times> nat list) option"

definition singleflight_law :: "'g singleflight \<Rightarrow> bool" where
  "singleflight_law G \<longleftrightarrow>
     sf_calls G (sf_zero G) = Map.empty \<and>
     (\<forall>c k g. fst (sf_Do G c k g) = (sf_calls G g k = None) \<and>
        sf_calls G (snd (sf_Do G c k g)) = (sf_calls G g)(k \<mapsto>
          (case sf_calls G g k of None \<Rightarrow> (c, []) | Some (l, ws) \<Rightarrow> (l, ws @ [c])))) \<and>
     (\<forall>k g l ws. sf_calls G g k = Some (l, ws) \<longrightarrow>
        fst (sf_end G k g) = ws \<and> sf_calls G (snd (sf_end G k g)) = (sf_calls G g)(k := None))"

section \<open>State\<close>

text \<open>The function given to \<^verbatim>\<open>Do\<close> returns \<^verbatim>\<open>(any, error)\<close>: a dynamic type and its value.\<close>

datatype any_value = TwResult TwRedeemResult | OfType string

datatype phase =
    Executing                           \<comment> \<open>inside the function, upstream not yet called\<close>
  | Called "any_value result"           \<comment> \<open>the upstream has answered; the function has not returned\<close>
  | Waiting                             \<comment> \<open>a duplicate, blocked in \<^verbatim>\<open>Do\<close>\<close>
  | Handed "any_value result"           \<comment> \<open>\<^verbatim>\<open>Do\<close> has a result for it\<close>
  | Answered "TwRedeemResult result"    \<comment> \<open>\<^verbatim>\<open>TwService.Redeem\<close> has returned\<close>

record ('g, 'w, 's) flights =
  fl_group :: 'g
  fl_world :: 'w
  fl_stats :: 's
  fl_callers :: "(TwRedeemRequest \<times> phase) list" \<comment> \<open>in the order of their arrival\<close>

record ('g, 'w, 's) flight_env =
  fe_ipv6 :: "string \<Rightarrow> bool"
  fe_inner :: "'w twProvider"
  fe_stats :: "'s stats_repo option"
  fe_group :: "'g singleflight"

definition NewCoalescedTwProvider :: "('g, 'w, 's) flight_env \<Rightarrow> 'w \<Rightarrow> 's \<Rightarrow> ('g, 'w, 's) flights" where
  "NewCoalescedTwProvider E w s =
     \<lparr>fl_group = sf_zero (fe_group E), fl_world = w, fl_stats = s, fl_callers = []\<rparr>"

section \<open>Steps\<close>

text \<open>What happened, for the theorems: arrivals, upstream calls, returns of a shared call, answers.\<close>

datatype event =
    Arrives nat TwRedeemRequest
  | Calls nat TwRedeemRequest "TwRedeemResult result"
  | Ends nat
  | Answers nat "TwRedeemResult result"

text \<open>\<^verbatim>\<open>TwService.Redeem\<close> up to the group: validation, whose failure is counted and returned, and the entry into \<^verbatim>\<open>Do\<close>.\<close>

definition enter ::
  "('g, 'w, 's) flight_env \<Rightarrow> TwRedeemRequest \<Rightarrow> ('g, 'w, 's) flights \<Rightarrow> event list \<times> ('g, 'w, 's) flights" where
  "enter E req S =
     (let c = length (fl_callers S) in
      case ValidateTwRedeem (fe_ipv6 E) req of
        Some err \<Rightarrow>
          (let a = Inl (Errorf ''validate redeem request'' err)
           in ([Arrives c req, Answers c a],
               S\<lparr>fl_callers := fl_callers S @ [(req, Answered a)], fl_stats := recordTwError (fe_stats E) (fl_stats S)\<rparr>))
      | None \<Rightarrow>
          (case sf_Do (fe_group E) c (twCoalesceKey (Phone req) (Gift req)) (fl_group S) of
             (executes, g) \<Rightarrow>
               ([Arrives c req],
                S\<lparr>fl_callers := fl_callers S @ [(req, if executes then Executing else Waiting)], fl_group := g\<rparr>)))"

text \<open>\<^verbatim>\<open>func() (any, error) { return p.inner.Redeem(callCtx, req) }\<close>\<close>

definition flight_func :: "'w twProvider \<Rightarrow> TwRedeemRequest \<Rightarrow> 'w \<Rightarrow> any_value result \<times> 'w" where
  "flight_func inner req w = (case inner req w of (Inl err, w) \<Rightarrow> (Inl err, w) | (Inr res, w) \<Rightarrow> (Inr (TwResult res), w))"

text \<open>What \<^verbatim>\<open>CoalescedTwProvider.Redeem\<close> makes of the results of \<^verbatim>\<open>Do\<close>.\<close>

definition flight_result :: "any_value result \<Rightarrow> TwRedeemResult result" where
  "flight_result v =
     (case v of
        Inl err \<Rightarrow> Inl err
      | Inr (TwResult res) \<Rightarrow> Inr res
      | Inr (OfType t) \<Rightarrow> Inl (OtherError (Msg (''coalesced tw provider: unexpected result type '' @ t))))"

text \<open>\<^verbatim>\<open>TwService.Redeem\<close> after its provider: the failure or the success is recorded and returned.\<close>

definition flight_answer ::
  "'s stats_repo option \<Rightarrow> TwRedeemResult result \<Rightarrow> 's \<Rightarrow> TwRedeemResult result \<times> 's" where
  "flight_answer stats v s =
     (case v of
        Inl err \<Rightarrow> (Inl (Errorf ''redeem gift'' err), recordTwError stats s)
      | Inr res \<Rightarrow> (Inr res, record_tw stats res s))"

text \<open>The results of a call reach its callers.\<close>

primrec hand :: "any_value result \<Rightarrow> nat list \<Rightarrow> (TwRedeemRequest \<times> phase) list \<Rightarrow> (TwRedeemRequest \<times> phase) list" where
  "hand v [] cs = cs"
| "hand v (c # ws) cs = hand v ws (cs[c := (fst (cs ! c), Handed v)])"

declare hand.simps [simp del]

inductive flight_step ::
  "('g, 'w, 's) flight_env \<Rightarrow> ('g, 'w, 's) flights \<Rightarrow> event list \<Rightarrow> ('g, 'w, 's) flights \<Rightarrow> bool"
  for E :: "('g, 'w, 's) flight_env" where
  fs_enter: "enter E req S = (es, S') \<Longrightarrow> flight_step E S es S'"
| fs_call: "c < length (fl_callers S) \<Longrightarrow> fl_callers S ! c = (req, Executing) \<Longrightarrow>
     fe_inner E req (fl_world S) = (r, w) \<Longrightarrow> flight_func (fe_inner E) req (fl_world S) = (v, w') \<Longrightarrow>
     flight_step E S [Calls c req r] (S\<lparr>fl_callers := (fl_callers S)[c := (req, Called v)], fl_world := w'\<rparr>)"
| fs_end: "c < length (fl_callers S) \<Longrightarrow> fl_callers S ! c = (req, Called v) \<Longrightarrow>
     sf_end (fe_group E) (twCoalesceKey (Phone req) (Gift req)) (fl_group S) = (ws, g) \<Longrightarrow>
     flight_step E S [Ends c] (S\<lparr>fl_callers := hand v (c # ws) (fl_callers S), fl_group := g\<rparr>)"
| fs_answer: "c < length (fl_callers S) \<Longrightarrow> fl_callers S ! c = (req, Handed v) \<Longrightarrow>
     flight_answer (fe_stats E) (flight_result v) (fl_stats S) = (a, s) \<Longrightarrow>
     flight_step E S [Answers c a] (S\<lparr>fl_callers := (fl_callers S)[c := (req, Answered a)], fl_stats := s\<rparr>)"

inductive_cases flight_step_cases: "flight_step E S es S'"

inductive flight_run ::
  "('g, 'w, 's) flight_env \<Rightarrow> ('g, 'w, 's) flights \<Rightarrow> event list \<Rightarrow> ('g, 'w, 's) flights \<Rightarrow> bool"
  for E :: "('g, 'w, 's) flight_env" where
  fr_refl: "flight_run E S [] S"
| fr_step: "flight_run E S tr S' \<Longrightarrow> flight_step E S' es S'' \<Longrightarrow> flight_run E S (tr @ es) S''"

lemma flight_run_trans:
  assumes "flight_run E S' es S''" and "flight_run E S tr S'"
  shows "flight_run E S (tr @ es) S''"
  using assms
proof (induction rule: flight_run.induct)
  case (fr_step S1 es1 S2 es2 S3)
  then show ?case using flight_run.fr_step by (metis append.assoc)
qed simp

lemma flight_run_one: "flight_step E S es S' \<Longrightarrow> flight_run E S es S'"
  using flight_run.fr_step [OF flight_run.fr_refl] by fastforce

section \<open>Invariant\<close>

abbreviation caller_req :: "('g, 'w, 's) flights \<Rightarrow> nat \<Rightarrow> TwRedeemRequest" where
  "caller_req S c \<equiv> fst (fl_callers S ! c)"

abbreviation caller_phase :: "('g, 'w, 's) flights \<Rightarrow> nat \<Rightarrow> phase" where
  "caller_phase S c \<equiv> snd (fl_callers S ! c)"

fun in_function :: "phase \<Rightarrow> bool" where
  "in_function Executing = True"
| "in_function (Called v) = True"
| "in_function _ = False"

fun answered :: "phase \<Rightarrow> bool" where
  "answered (Answered a) = True"
| "answered _ = False"

text \<open>
  The group and the callers agree: the executing caller of a key is inside its function, the waiting ones
  arrived later with the same key, and every caller inside its function or waiting is registered.
\<close>

definition flights_inv :: "('g, 'w, 's) flight_env \<Rightarrow> ('g, 'w, 's) flights \<Rightarrow> bool" where
  "flights_inv E S \<longleftrightarrow>
     (\<forall>k l ws. sf_calls (fe_group E) (fl_group S) k = Some (l, ws) \<longrightarrow>
        l < length (fl_callers S) \<and> key_of (caller_req S l) = k \<and> in_function (caller_phase S l) \<and>
        (\<forall>c \<in> set ws. l < c \<and> c < length (fl_callers S) \<and> key_of (caller_req S c) = k \<and> caller_phase S c = Waiting)) \<and>
     (\<forall>c < length (fl_callers S). in_function (caller_phase S c) \<longrightarrow>
        (\<exists>ws. sf_calls (fe_group E) (fl_group S) (key_of (caller_req S c)) = Some (c, ws))) \<and>
     (\<forall>c < length (fl_callers S). caller_phase S c = Waiting \<longrightarrow>
        (\<exists>l ws. sf_calls (fe_group E) (fl_group S) (key_of (caller_req S c)) = Some (l, ws) \<and> c \<in> set ws)) \<and>
     (\<forall>c < length (fl_callers S). \<not> answered (caller_phase S c) \<longrightarrow> ValidateTwRedeem (fe_ipv6 E) (caller_req S c) = None)"

lemma flights_invI:
  assumes "\<And>k l ws. sf_calls (fe_group E) (fl_group S) k = Some (l, ws) \<Longrightarrow>
      l < length (fl_callers S) \<and> key_of (caller_req S l) = k \<and> in_function (caller_phase S l)"
    and "\<And>k l ws c. sf_calls (fe_group E) (fl_group S) k = Some (l, ws) \<Longrightarrow> c \<in> set ws \<Longrightarrow>
      l < c \<and> c < length (fl_callers S) \<and> key_of (caller_req S c) = k \<and> caller_phase S c = Waiting"
    and "\<And>c. c < length (fl_callers S) \<Longrightarrow> in_function (caller_phase S c) \<Longrightarrow>
      \<exists>ws. sf_calls (fe_group E) (fl_group S) (key_of (caller_req S c)) = Some (c, ws)"
    and "\<And>c. c < length (fl_callers S) \<Longrightarrow> caller_phase S c = Waiting \<Longrightarrow>
      \<exists>l ws. sf_calls (fe_group E) (fl_group S) (key_of (caller_req S c)) = Some (l, ws) \<and> c \<in> set ws"
    and "\<And>c. c < length (fl_callers S) \<Longrightarrow> \<not> answered (caller_phase S c) \<Longrightarrow>
      ValidateTwRedeem (fe_ipv6 E) (caller_req S c) = None"
  shows "flights_inv E S"
  unfolding flights_inv_def using assms by blast

lemma flights_invD:
  assumes "flights_inv E S"
  shows "sf_calls (fe_group E) (fl_group S) k = Some (l, ws) \<Longrightarrow>
      l < length (fl_callers S) \<and> key_of (caller_req S l) = k \<and> in_function (caller_phase S l)"
    and "sf_calls (fe_group E) (fl_group S) k = Some (l, ws) \<Longrightarrow> c \<in> set ws \<Longrightarrow>
      l < c \<and> c < length (fl_callers S) \<and> key_of (caller_req S c) = k \<and> caller_phase S c = Waiting"
    and "c < length (fl_callers S) \<Longrightarrow> in_function (caller_phase S c) \<Longrightarrow>
      \<exists>ws. sf_calls (fe_group E) (fl_group S) (key_of (caller_req S c)) = Some (c, ws)"
    and "c < length (fl_callers S) \<Longrightarrow> caller_phase S c = Waiting \<Longrightarrow>
      \<exists>l ws. sf_calls (fe_group E) (fl_group S) (key_of (caller_req S c)) = Some (l, ws) \<and> c \<in> set ws"
    and "c < length (fl_callers S) \<Longrightarrow> \<not> answered (caller_phase S c) \<Longrightarrow>
      ValidateTwRedeem (fe_ipv6 E) (caller_req S c) = None"
  using assms unfolding flights_inv_def by blast+

lemma law_zero: "singleflight_law G \<Longrightarrow> sf_calls G (sf_zero G) = Map.empty"
  by (simp add: singleflight_law_def)

lemma law_Do:
  assumes "singleflight_law G" and "sf_Do G c k g = (executes, g')"
  shows "executes = (sf_calls G g k = None)"
    and "sf_calls G g' = (sf_calls G g)(k \<mapsto> (case sf_calls G g k of None \<Rightarrow> (c, []) | Some (l, ws) \<Rightarrow> (l, ws @ [c])))"
proof -
  have "\<forall>c k g. fst (sf_Do G c k g) = (sf_calls G g k = None) \<and>
        sf_calls G (snd (sf_Do G c k g)) = (sf_calls G g)(k \<mapsto>
          (case sf_calls G g k of None \<Rightarrow> (c, []) | Some (l, ws) \<Rightarrow> (l, ws @ [c])))"
    using assms(1) unfolding singleflight_law_def by (elim conjE)
  from spec [OF spec [OF spec [OF this]], of c k g] assms(2)
  show "executes = (sf_calls G g k = None)"
    and "sf_calls G g' = (sf_calls G g)(k \<mapsto> (case sf_calls G g k of None \<Rightarrow> (c, []) | Some (l, ws) \<Rightarrow> (l, ws @ [c])))"
    by simp_all
qed

lemma law_end:
  assumes "singleflight_law G" and "sf_calls G g k = Some (l, ws)" and "sf_end G k g = (ws', g')"
  shows "ws' = ws" and "sf_calls G g' = (sf_calls G g)(k := None)"
  using assms unfolding singleflight_law_def by (metis fst_conv, metis snd_conv)

lemma length_hand [simp]: "length (hand v ws cs) = length cs"
  by (induction ws arbitrary: cs) (simp_all add: hand.simps)

lemma nth_hand: "c < length cs \<Longrightarrow> hand v ws cs ! c = (if c \<in> set ws then (fst (cs ! c), Handed v) else cs ! c)"
proof (induction ws arbitrary: cs)
  case (Cons a ws)
  then show ?case by (cases "a = c") (auto simp: hand.simps nth_list_update)
qed (simp add: hand.simps)

lemma inv_start: "singleflight_law (fe_group E) \<Longrightarrow> flights_inv E (NewCoalescedTwProvider E w s)"
  by (simp add: flights_inv_def NewCoalescedTwProvider_def law_zero)

lemma key_of_eq: "twCoalesceKey (Phone req) (Gift req) = key_of req"
  by (simp add: key_of_def)

text \<open>A caller that only moves on within its function, or after it has its result, leaves the registration alone.\<close>

lemma inv_update:
  assumes inv: "flights_inv E S" and c: "c < length (fl_callers S)" "caller_req S c = req"
    and p: "in_function p = in_function (caller_phase S c)" "caller_phase S c \<noteq> Waiting" "p \<noteq> Waiting"
    and v: "\<not> answered (caller_phase S c)"
    and S': "fl_callers S' = (fl_callers S)[c := (req, p)]" "fl_group S' = fl_group S"
  shows "flights_inv E S'"
proof -
  have req: "caller_req S' d = caller_req S d" if "d < length (fl_callers S)" for d
    using c that by (cases "c = d") (simp_all add: S')
  have ph: "caller_phase S' d = (if d = c then p else caller_phase S d)" if "d < length (fl_callers S)" for d
    using c that by (simp add: S' nth_list_update)
  have n: "length (fl_callers S') = length (fl_callers S)" by (simp add: S')
  show ?thesis
  proof (rule flights_invI, goal_cases)
    case (1 k l ws)
    then show ?case using flights_invD(1) [OF inv, of k l ws] p(1) by (auto simp: n req ph S'(2))
  next
    case (2 k l ws d)
    then show ?case using flights_invD(2) [OF inv, of k l ws d] p(2) by (auto simp: n req ph S'(2))
  next
    case (3 d)
    then show ?case using flights_invD(3) [OF inv, of d] p(1) by (auto simp: n req ph S'(2) split: if_splits)
  next
    case (4 d)
    then show ?case using flights_invD(4) [OF inv, of d] p(3) by (auto simp: n req ph S'(2) split: if_splits)
  next
    case (5 d)
    then show ?case using flights_invD(5) [OF inv, of d] v by (auto simp: n req ph S'(2) split: if_splits)
  qed
qed

text \<open>The arrival of a caller: \<open>calls\<close> registers it when it enters the group.\<close>

lemma nth_snoc: "d < Suc (length xs) \<Longrightarrow> (xs @ [x]) ! d = (if d = length xs then x else xs ! d)"
  by (auto simp: nth_append)

lemma inv_arrive_answered:
  assumes inv: "flights_inv E S" and S': "fl_callers S' = fl_callers S @ [(req, Answered a)]" "fl_group S' = fl_group S"
  shows "flights_inv E S'"
proof (rule flights_invI, goal_cases)
  case (1 k l ws)
  then show ?case using flights_invD(1) [OF inv, of k l ws] by (auto simp: S' nth_append)
next
  case (2 k l ws d)
  then show ?case using flights_invD(2) [OF inv, of k l ws d] by (auto simp: S' nth_append)
next
  case (3 d)
  then show ?case using flights_invD(3) [OF inv, of d] by (auto simp: S' nth_snoc split: if_splits)
next
  case (4 d)
  then show ?case using flights_invD(4) [OF inv, of d] by (auto simp: S' nth_snoc split: if_splits)
next
  case (5 d)
  then show ?case using flights_invD(5) [OF inv, of d] by (auto simp: S' nth_snoc split: if_splits)
qed

lemma inv_arrive_leads:
  assumes inv: "flights_inv E S" and v: "ValidateTwRedeem (fe_ipv6 E) req = None"
    and none: "sf_calls (fe_group E) (fl_group S) (key_of req) = None"
    and S': "fl_callers S' = fl_callers S @ [(req, Executing)]"
      "sf_calls (fe_group E) (fl_group S') = (sf_calls (fe_group E) (fl_group S))(key_of req \<mapsto> (length (fl_callers S), []))"
  shows "flights_inv E S'"
proof (rule flights_invI, goal_cases)
  case (1 k l ws)
  then show ?case using flights_invD(1) [OF inv, of k l ws] by (auto simp: S' nth_append split: if_splits)
next
  case (2 k l ws d)
  then show ?case using flights_invD(2) [OF inv, of k l ws d] by (auto simp: S' nth_append split: if_splits)
next
  case (3 d)
  then show ?case using flights_invD(3) [OF inv, of d] none by (auto simp: S' nth_snoc split: if_splits)
next
  case (4 d)
  then show ?case using flights_invD(4) [OF inv, of d] none by (auto simp: S' nth_snoc split: if_splits)
next
  case (5 d)
  then show ?case using flights_invD(5) [OF inv, of d] v by (auto simp: S' nth_snoc split: if_splits)
qed

lemma inv_arrive_waits:
  assumes inv: "flights_inv E S" and v: "ValidateTwRedeem (fe_ipv6 E) req = None"
    and some: "sf_calls (fe_group E) (fl_group S) (key_of req) = Some (l0, ws0)"
    and S': "fl_callers S' = fl_callers S @ [(req, Waiting)]"
      "sf_calls (fe_group E) (fl_group S') = (sf_calls (fe_group E) (fl_group S))(key_of req \<mapsto> (l0, ws0 @ [length (fl_callers S)]))"
  shows "flights_inv E S'"
proof (rule flights_invI, goal_cases)
  case (1 k l ws)
  then show ?case using flights_invD(1) [OF inv, of k l] some by (fastforce simp: S' nth_append split: if_splits)
next
  case (2 k l ws d)
  then show ?case using flights_invD(1) [OF inv some] flights_invD(2) [OF inv, of k l _ d] some
    by (fastforce simp: S' nth_append split: if_splits)
next
  case (3 d)
  then show ?case using flights_invD(3) [OF inv, of d] some by (auto simp: S' nth_snoc split: if_splits)
next
  case (4 d)
  then show ?case using flights_invD(4) [OF inv, of d] some by (auto simp: S' nth_snoc split: if_splits)
next
  case (5 d)
  then show ?case using flights_invD(5) [OF inv, of d] v by (auto simp: S' nth_snoc split: if_splits)
qed

lemma enter_cases:
  assumes law: "singleflight_law (fe_group E)" and "enter E req S = (es, S')"
  obtains (refused) err where "ValidateTwRedeem (fe_ipv6 E) req = Some err"
      "es = [Arrives (length (fl_callers S)) req, Answers (length (fl_callers S)) (Inl (Errorf ''validate redeem request'' err))]"
      "S' = S\<lparr>fl_callers := fl_callers S @ [(req, Answered (Inl (Errorf ''validate redeem request'' err)))],
              fl_stats := recordTwError (fe_stats E) (fl_stats S)\<rparr>"
  | (leads) g where "ValidateTwRedeem (fe_ipv6 E) req = None" "es = [Arrives (length (fl_callers S)) req]"
      "S' = S\<lparr>fl_callers := fl_callers S @ [(req, Executing)], fl_group := g\<rparr>"
      "sf_calls (fe_group E) (fl_group S) (key_of req) = None"
      "sf_calls (fe_group E) g = (sf_calls (fe_group E) (fl_group S))(key_of req \<mapsto> (length (fl_callers S), []))"
  | (waits) g l ws where "ValidateTwRedeem (fe_ipv6 E) req = None" "es = [Arrives (length (fl_callers S)) req]"
      "S' = S\<lparr>fl_callers := fl_callers S @ [(req, Waiting)], fl_group := g\<rparr>"
      "sf_calls (fe_group E) (fl_group S) (key_of req) = Some (l, ws)"
      "sf_calls (fe_group E) g = (sf_calls (fe_group E) (fl_group S))(key_of req \<mapsto> (l, ws @ [length (fl_callers S)]))"
proof (cases "ValidateTwRedeem (fe_ipv6 E) req")
  case (Some err)
  then show ?thesis using that(1) assms(2) by (auto simp: enter_def Let_def)
next
  case None
  obtain e g where d: "sf_Do (fe_group E) (length (fl_callers S)) (key_of req) (fl_group S) = (e, g)" by fastforce
  have S': "es = [Arrives (length (fl_callers S)) req]"
    "S' = S\<lparr>fl_callers := fl_callers S @ [(req, if e then Executing else Waiting)], fl_group := g\<rparr>"
    using assms(2) None d by (auto simp: enter_def Let_def key_of_eq)
  show ?thesis
  proof (cases "sf_calls (fe_group E) (fl_group S) (key_of req)")
    case N: None
    then show ?thesis using that(2) [OF None] S' law_Do [OF law d] by simp
  next
    case (Some p)
    then show ?thesis using that(3) [OF None] S' law_Do [OF law d] by (cases p) simp
  qed
qed

lemma inv_enter:
  assumes law: "singleflight_law (fe_group E)" and inv: "flights_inv E S" and "enter E req S = (es, S')"
  shows "flights_inv E S'"
proof (cases rule: enter_cases [OF assms(1,3)])
  case (1 err)
  then show ?thesis using inv_arrive_answered [OF inv, of S'] by simp
next
  case (2 g)
  then show ?thesis using inv_arrive_leads [OF inv 2(1), of S'] by simp
next
  case (3 g l ws)
  then show ?thesis using inv_arrive_waits [OF inv 3(1), of l ws S'] by simp
qed

lemma inv_end:
  assumes law: "singleflight_law (fe_group E)" and inv: "flights_inv E S" and c: "c < length (fl_callers S)"
    and p: "fl_callers S ! c = (req, Called v)"
    and e: "sf_end (fe_group E) (key_of req) (fl_group S) = (ws, g)"
    and S': "S' = S\<lparr>fl_callers := hand v (c # ws) (fl_callers S), fl_group := g\<rparr>"
  shows "flights_inv E S'" and "sf_calls (fe_group E) (fl_group S) (key_of req) = Some (c, ws)"
proof -
  obtain ws' where r: "sf_calls (fe_group E) (fl_group S) (key_of req) = Some (c, ws')"
    using flights_invD(3) [OF inv c] p by auto
  note D = law_end [OF law r e]
  show some: "sf_calls (fe_group E) (fl_group S) (key_of req) = Some (c, ws)" using r D by simp
  have n: "length (fl_callers S') = length (fl_callers S)" by (simp add: S')
  have at: "fl_callers S' ! d = (if d = c \<or> d \<in> set ws then (caller_req S d, Handed v) else fl_callers S ! d)"
    if "d < length (fl_callers S)" for d
    using nth_hand [OF that, of v "c # ws"] by (simp add: S')
  have calls: "sf_calls (fe_group E) (fl_group S') = (sf_calls (fe_group E) (fl_group S))(key_of req := None)"
    using D(2) by (simp add: S')
  have key: "key_of (caller_req S d) = key_of req" if "d = c \<or> d \<in> set ws" for d
    using that flights_invD(2) [OF inv some] p by auto
  show "flights_inv E S'"
  proof (rule flights_invI, goal_cases)
    case (1 k l ws')
    then have k: "k \<noteq> key_of req" "sf_calls (fe_group E) (fl_group S) k = Some (l, ws')" by (simp_all add: calls split: if_splits)
    note o = flights_invD(1) [OF inv k(2)]
    with k(1) key [of l] have "\<not> (l = c \<or> l \<in> set ws)" by blast
    with o show ?case by (simp add: n at)
  next
    case (2 k l ws' d)
    then have k: "k \<noteq> key_of req" "sf_calls (fe_group E) (fl_group S) k = Some (l, ws')" by (simp_all add: calls split: if_splits)
    note o = flights_invD(2) [OF inv k(2) 2(2)]
    with k(1) key [of d] have "\<not> (d = c \<or> d \<in> set ws)" by blast
    with o show ?case by (simp add: n at)
  next
    case (3 d)
    then have d: "\<not> (d = c \<or> d \<in> set ws)" "d < length (fl_callers S)" "in_function (caller_phase S d)"
      by (auto simp: n at split: if_splits)
    obtain ws' where w: "sf_calls (fe_group E) (fl_group S) (key_of (caller_req S d)) = Some (d, ws')"
      using flights_invD(3) [OF inv d(2,3)] by blast
    with some d(1) have "key_of (caller_req S d) \<noteq> key_of req" by auto
    with w d show ?case by (simp add: n at calls)
  next
    case (4 d)
    then have d: "\<not> (d = c \<or> d \<in> set ws)" "d < length (fl_callers S)" "caller_phase S d = Waiting"
      by (auto simp: n at split: if_splits)
    obtain l ws' where w: "sf_calls (fe_group E) (fl_group S) (key_of (caller_req S d)) = Some (l, ws')" "d \<in> set ws'"
      using flights_invD(4) [OF inv d(2,3)] by blast
    with some d(1) have "key_of (caller_req S d) \<noteq> key_of req" by auto
    with w d show ?case by (simp add: n at calls)
  next
    case (5 d)
    then have d: "d < length (fl_callers S)" by (simp add: n)
    show ?case
    proof (cases "d = c \<or> d \<in> set ws")
      case True
      then have "\<not> answered (caller_phase S d)" using flights_invD(2) [OF inv some] p by auto
      from flights_invD(5) [OF inv d this] show ?thesis using True d by (simp add: at)
    next
      case False
      then show ?thesis using 5 flights_invD(5) [OF inv d] d by (simp add: at)
    qed
  qed
qed

lemma inv_step:
  assumes law: "singleflight_law (fe_group E)" and inv: "flights_inv E S" and step: "flight_step E S es S'"
  shows "flights_inv E S'"
proof (cases rule: flight_step_cases [OF step])
  case (1 req)
  then show ?thesis using inv_enter [OF law inv] by blast
next
  case (2 c req r w v w')
  then show ?thesis using inv_update [OF inv 2(3), of req "Called v" S'] by simp
next
  case (3 c req v ws g)
  then show ?thesis using inv_end(1) [OF law inv 3(3,4)] by (simp add: key_of_eq)
next
  case (4 c req v a s)
  then show ?thesis using inv_update [OF inv 4(3), of req "Answered a" S'] by simp
qed

lemma inv_run:
  assumes "singleflight_law (fe_group E)" and "flight_run E S tr S'" and "flights_inv E S"
  shows "flights_inv E S'"
  using assms(2,3) by (induction rule: flight_run.induct) (auto intro: inv_step [OF assms(1)])

section \<open>One upstream call at a time\<close>

lemma in_function_same_key:
  assumes "flights_inv E S" and "c < length (fl_callers S)" and "d < length (fl_callers S)"
    and "in_function (caller_phase S c)" and "in_function (caller_phase S d)"
    and "key_of (caller_req S c) = key_of (caller_req S d)"
  shows "c = d"
proof -
  obtain ws where "sf_calls (fe_group E) (fl_group S) (key_of (caller_req S c)) = Some (c, ws)"
    using flights_invD(3) [OF assms(1,2,4)] by (elim exE)
  moreover obtain ws' where "sf_calls (fe_group E) (fl_group S) (key_of (caller_req S d)) = Some (d, ws')"
    using flights_invD(3) [OF assms(1,3,5)] by (elim exE)
  ultimately have "Some (c, ws) = Some (d, ws')" unfolding assms(6) by (rule trans [OF sym])
  then show ?thesis by simp
qed

text \<open>Every call that has not ended belongs to a caller that is still inside its function.\<close>

definition open_calls :: "event list \<Rightarrow> ('g, 'w, 's) flights \<Rightarrow> bool" where
  "open_calls tr S \<longleftrightarrow>
     (\<forall>a l q r b. tr = a @ Calls l q r # b \<longrightarrow> Ends l \<notin> set b \<longrightarrow>
        l < length (fl_callers S) \<and> caller_req S l = q \<and> (\<exists>v. caller_phase S l = Called v))"

lemma open_callsD:
  assumes "open_calls (a @ Calls l q r # b) S" and "Ends l \<notin> set b"
  shows "l < length (fl_callers S) \<and> caller_req S l = q \<and> (\<exists>v. caller_phase S l = Called v)"
  using assms(1) [unfolded open_calls_def, rule_format, OF refl assms(2)] .

definition exclusive :: "event list \<Rightarrow> bool" where
  "exclusive tr \<longleftrightarrow>
     (\<forall>a l q r b l' q' r' d. tr = a @ Calls l q r # b @ Calls l' q' r' # d \<longrightarrow> key_of q = key_of q' \<longrightarrow> Ends l \<in> set b)"

lemma snoc_split: "tr @ [e] = a @ x # b \<longleftrightarrow> (b = [] \<and> tr = a \<and> e = x) \<or> (\<exists>b'. b = b' @ [e] \<and> tr = a @ x # b')"
proof (cases b rule: rev_cases)
  case (snoc b' y)
  have "tr @ [e] = a @ x # b \<longleftrightarrow> tr @ [e] = (a @ x # b') @ [y]" using snoc by simp
  then show ?thesis unfolding append1_eq_conv using snoc by auto
qed auto

lemma exclusive_snoc:
  assumes "exclusive tr"
    and "\<And>a l q r b l' q' r'. e = Calls l' q' r' \<Longrightarrow> tr = a @ Calls l q r # b \<Longrightarrow> key_of q = key_of q' \<Longrightarrow> Ends l \<in> set b"
  shows "exclusive (tr @ [e])"
  unfolding exclusive_def
proof (intro allI impI)
  fix a l q r b l' q' r' d
  assume "tr @ [e] = a @ Calls l q r # b @ Calls l' q' r' # d" and k: "key_of q = key_of q'"
  then have "tr @ [e] = (a @ Calls l q r # b) @ Calls l' q' r' # d" by simp
  then consider "tr = a @ Calls l q r # b" "e = Calls l' q' r'" | d' where "tr = a @ Calls l q r # b @ Calls l' q' r' # d'"
    unfolding snoc_split by auto
  then show "Ends l \<in> set b" using assms k unfolding exclusive_def by cases blast+
qed

text \<open>Other events keep the open calls open, those of the caller that ends excepted.\<close>

lemma open_calls_snoc:
  assumes "open_calls tr S" and "\<And>l q r. e \<noteq> Calls l q r" and "length (fl_callers S) \<le> length (fl_callers S')"
    and "\<And>l v. l < length (fl_callers S) \<Longrightarrow> e \<noteq> Ends l \<Longrightarrow> caller_phase S l = Called v \<Longrightarrow> fl_callers S' ! l = fl_callers S ! l"
  shows "open_calls (tr @ [e]) S'"
  unfolding open_calls_def
proof (intro allI impI)
  fix a l q r b
  assume t: "tr @ [e] = a @ Calls l q r # b" and n: "Ends l \<notin> set b"
  with assms(2) obtain b' where b: "b = b' @ [e]" "tr = a @ Calls l q r # b'" unfolding snoc_split by blast
  with assms(1) n obtain v where "l < length (fl_callers S)" "caller_req S l = q" "caller_phase S l = Called v"
    using open_callsD [of a l q r b' S] by auto
  moreover have "e \<noteq> Ends l" using n b by auto
  ultimately show "l < length (fl_callers S') \<and> caller_req S' l = q \<and> (\<exists>v. caller_phase S' l = Called v)"
    using assms(3,4) by auto
qed

lemma exclusive_other: "exclusive tr \<Longrightarrow> (\<And>l q r. e \<noteq> Calls l q r) \<Longrightarrow> exclusive (tr @ [e])"
  by (rule exclusive_snoc) auto

lemma open_calls_enter:
  assumes law: "singleflight_law (fe_group E)" and op: "open_calls tr S" and ex: "exclusive tr" and e: "enter E req S = (es, S')"
  shows "open_calls (tr @ es) S' \<and> exclusive (tr @ es)"
proof -
  let ?e = "Arrives (length (fl_callers S)) req"
  have S': "length (fl_callers S) \<le> length (fl_callers S')" "\<And>l. l < length (fl_callers S) \<Longrightarrow> fl_callers S' ! l = fl_callers S ! l"
    by (cases rule: enter_cases [OF law e]; simp add: nth_append)+
  have one: "open_calls (tr @ [?e]) S'" "exclusive (tr @ [?e])"
    using open_calls_snoc [OF op, of ?e S'] exclusive_other [OF ex, of ?e] S' by simp_all
  show ?thesis
  proof (cases rule: enter_cases [OF law e])
    case (1 err)
    let ?a = "Answers (length (fl_callers S)) (Inl (Errorf ''validate redeem request'' err))"
    have "open_calls ((tr @ [?e]) @ [?a]) S'" by (rule open_calls_snoc [OF one(1)]) simp_all
    moreover have "exclusive ((tr @ [?e]) @ [?a])" by (rule exclusive_other [OF one(2)]) simp
    ultimately show ?thesis using 1(2) by simp
  qed (use one in simp_all)
qed

lemma open_calls_call:
  assumes inv: "flights_inv E S" and op: "open_calls tr S" and ex: "exclusive tr"
    and c: "c < length (fl_callers S)" "fl_callers S ! c = (req, Executing)"
    and S': "fl_callers S' = (fl_callers S)[c := (req, Called v)]"
  shows "open_calls (tr @ [Calls c req r]) S' \<and> exclusive (tr @ [Calls c req r])"
proof
  show "exclusive (tr @ [Calls c req r])"
  proof (rule exclusive_snoc [OF ex])
    fix a l q r' b l' q' r''
    assume e: "Calls c req r = Calls l' q' r''" and t: "tr = a @ Calls l q r' # b" and k: "key_of q = key_of q'"
    show "Ends l \<in> set b"
    proof (rule ccontr)
      assume "Ends l \<notin> set b"
      with op t obtain v where l: "l < length (fl_callers S)" "caller_req S l = q" "caller_phase S l = Called v"
        using open_callsD [of a l q r' b S] by blast
      then have "l = c" using in_function_same_key [OF inv l(1) c(1)] c(2) k e by simp
      with l c(2) show False by simp
    qed
  qed
  show "open_calls (tr @ [Calls c req r]) S'"
    unfolding open_calls_def
  proof (intro allI impI)
    fix a l q r' b
    assume t: "tr @ [Calls c req r] = a @ Calls l q r' # b" and n: "Ends l \<notin> set b"
    from t consider "l = c" "q = req" | b' where "b = b' @ [Calls c req r]" "tr = a @ Calls l q r' # b'"
      unfolding snoc_split by blast
    then show "l < length (fl_callers S') \<and> caller_req S' l = q \<and> (\<exists>v. caller_phase S' l = Called v)"
    proof cases
      case (2 b')
      with op n obtain u where "l < length (fl_callers S)" "caller_req S l = q" "caller_phase S l = Called u"
        using open_callsD [of a l q r' b' S] by auto
      then show ?thesis using S' c(2) by (cases "l = c") auto
    qed (use c S' in simp)
  qed
qed

text \<open>The return of a call hands its results to its caller and the waiting ones.\<close>

lemma end_callers:
  assumes law: "singleflight_law (fe_group E)" and inv: "flights_inv E S" and c: "c < length (fl_callers S)"
    and p: "fl_callers S ! c = (req, Called v)"
    and e: "sf_end (fe_group E) (twCoalesceKey (Phone req) (Gift req)) (fl_group S) = (ws, g)"
  shows "d \<in> set ws \<Longrightarrow> caller_phase S d = Waiting \<and> key_of (caller_req S d) = key_of req"
    and "d < length (fl_callers S) \<Longrightarrow> hand v (c # ws) (fl_callers S) ! d =
      (if d = c \<or> d \<in> set ws then (caller_req S d, Handed v) else fl_callers S ! d)"
proof -
  have some: "sf_calls (fe_group E) (fl_group S) (key_of req) = Some (c, ws)"
    using inv_end(2) [OF law inv c p _ refl] e by (simp add: key_of_eq)
  show "d \<in> set ws \<Longrightarrow> caller_phase S d = Waiting \<and> key_of (caller_req S d) = key_of req"
    using flights_invD(2) [OF inv some] by blast
  show "d < length (fl_callers S) \<Longrightarrow> hand v (c # ws) (fl_callers S) ! d =
      (if d = c \<or> d \<in> set ws then (caller_req S d, Handed v) else fl_callers S ! d)"
    using nth_hand [of d "fl_callers S" v "c # ws"] by simp
qed

lemma open_calls_step:
  assumes law: "singleflight_law (fe_group E)" and inv: "flights_inv E S" and op: "open_calls tr S" and ex: "exclusive tr"
    and step: "flight_step E S es S'"
  shows "open_calls (tr @ es) S' \<and> exclusive (tr @ es)"
proof (cases rule: flight_step_cases [OF step])
  case (1 req)
  show ?thesis by (rule open_calls_enter [OF law op ex 1])
next
  case (2 c req r w v w')
  show ?thesis unfolding 2(1) by (rule open_calls_call [OF inv op ex 2(3,4), of _ v]) (simp add: 2(2))
next
  case (3 c req v ws g)
  note at = end_callers [OF law inv 3(3-5)]
  have "fl_callers S' ! l = fl_callers S ! l" if "l < length (fl_callers S)" "l \<noteq> c" "caller_phase S l = Called u" for l u
    using that at(1) [of l] at(2) [of l] 3(2) by auto
  then show ?thesis
    using open_calls_snoc [OF op, of "Ends c" S'] exclusive_other [OF ex, of "Ends c"] 3(1,2) by auto
next
  case (4 c req v a s)
  have "fl_callers S' ! l = fl_callers S ! l" if "l < length (fl_callers S)" "caller_phase S l = Called u" for l u
    using that 4(2,4) by (cases "l = c") auto
  then show ?thesis
    using open_calls_snoc [OF op, of "Answers c a" S'] exclusive_other [OF ex, of "Answers c a"] 4(1,2) by auto
qed

lemma open_calls_run:
  assumes law: "singleflight_law (fe_group E)" and "flight_run E S tr S'" and "S = NewCoalescedTwProvider E w s"
  shows "flights_inv E S' \<and> open_calls tr S' \<and> exclusive tr"
  using assms(2,3)
proof (induction rule: flight_run.induct)
  case (fr_refl S)
  then show ?case using inv_start [OF law] by (simp add: open_calls_def exclusive_def)
next
  case (fr_step S tr S' es S'')
  then show ?case using inv_step [OF law] open_calls_step [OF law] by blast
qed

section \<open>Fresh answers\<close>

text \<open>
  The caller's result is that of a call which returned after the caller arrived; the caller's own, or one
  for the same key.
\<close>

definition served :: "event list \<Rightarrow> nat \<Rightarrow> TwRedeemRequest \<Rightarrow> TwRedeemResult result \<Rightarrow> bool" where
  "served tr c req r \<longleftrightarrow>
     (\<exists>l q before between after. tr = before @ Arrives c req # between @ Ends l # after \<and>
        Calls l q r \<in> set (before @ between) \<and> key_of q = key_of req)"

lemma served_append: "served tr c req r \<Longrightarrow> served (tr @ es) c req r"
  unfolding served_def by (metis append.assoc append_Cons)

definition answer_of :: "TwRedeemResult result \<Rightarrow> TwRedeemResult result" where
  "answer_of r = (case r of Inl e \<Rightarrow> Inl (Errorf ''redeem gift'' e) | Inr res \<Rightarrow> Inr res)"

fun phase_trace :: "(string \<Rightarrow> bool) \<Rightarrow> event list \<Rightarrow> nat \<Rightarrow> TwRedeemRequest \<times> phase \<Rightarrow> bool" where
  "phase_trace v tr c (req, Called x) = (Calls c req (flight_result x) \<in> set tr)"
| "phase_trace v tr c (req, Handed x) = served tr c req (flight_result x)"
| "phase_trace v tr c (req, Answered a) =
     (case ValidateTwRedeem v req of
        Some err \<Rightarrow> a = Inl (Errorf ''validate redeem request'' err)
      | None \<Rightarrow> (\<exists>r. served tr c req r \<and> a = answer_of r))"
| "phase_trace v tr c (req, _) = True"

lemma phase_trace_append: "phase_trace v tr c p \<Longrightarrow> phase_trace v (tr @ es) c p"
  by (induction v tr c p rule: phase_trace.induct) (auto intro: served_append split: option.splits)

definition trace_inv :: "('g, 'w, 's) flight_env \<Rightarrow> event list \<Rightarrow> ('g, 'w, 's) flights \<Rightarrow> bool" where
  "trace_inv E tr S \<longleftrightarrow>
     (\<forall>c < length (fl_callers S). Arrives c (caller_req S c) \<in> set tr \<and> phase_trace (fe_ipv6 E) tr c (fl_callers S ! c)) \<and>
     (\<forall>c q r. Calls c q r \<in> set tr \<longrightarrow> ValidateTwRedeem (fe_ipv6 E) q = None)"

lemma trace_invD:
  assumes "trace_inv E tr S"
  shows "c < length (fl_callers S) \<Longrightarrow> Arrives c (caller_req S c) \<in> set tr"
    and "c < length (fl_callers S) \<Longrightarrow> phase_trace (fe_ipv6 E) tr c (fl_callers S ! c)"
    and "Calls d q r \<in> set tr \<Longrightarrow> ValidateTwRedeem (fe_ipv6 E) q = None"
  using assms unfolding trace_inv_def by blast+

lemma flight_func_result: "flight_func inner req w = (v, w') \<Longrightarrow> inner req w = (flight_result v, w')"
  by (auto simp: flight_func_def flight_result_def split: prod.splits sum.splits)

lemma flight_answer_eq: "flight_answer st v s = (a, s') \<Longrightarrow> a = answer_of v"
  by (auto simp: flight_answer_def answer_of_def split: sum.splits)

lemma trace_inv_snoc:
  assumes "trace_inv E tr S" and "length (fl_callers S') = length (fl_callers S)"
    and "\<And>c. c < length (fl_callers S) \<Longrightarrow> caller_req S' c = caller_req S c \<and>
      (fl_callers S' ! c = fl_callers S ! c \<or> phase_trace (fe_ipv6 E) (tr @ [e]) c (fl_callers S' ! c))"
    and "\<And>c q r. e = Calls c q r \<Longrightarrow> ValidateTwRedeem (fe_ipv6 E) q = None"
  shows "trace_inv E (tr @ [e]) S'"
proof -
  have "phase_trace (fe_ipv6 E) (tr @ [e]) c (fl_callers S' ! c)" if "c < length (fl_callers S)" for c
    using trace_invD(2) [OF assms(1) that] assms(3) [OF that] phase_trace_append [of "fe_ipv6 E" tr c "fl_callers S ! c" "[e]"]
    by auto
  moreover have "Arrives c (caller_req S' c) \<in> set (tr @ [e])" if "c < length (fl_callers S)" for c
    using trace_invD(1) [OF assms(1) that] assms(3) [OF that] by auto
  moreover have "ValidateTwRedeem (fe_ipv6 E) q = None" if "Calls c q r \<in> set (tr @ [e])" for c q r
    using trace_invD(3) [OF assms(1), of c q r] assms(4) [of c q r] that by auto
  ultimately show ?thesis using assms(2) unfolding trace_inv_def by simp
qed

lemma trace_inv_step:
  assumes law: "singleflight_law (fe_group E)" and inv: "flights_inv E S" and tr: "trace_inv E tr S"
    and step: "flight_step E S es S'"
  shows "trace_inv E (tr @ es) S'"
proof (cases rule: flight_step_cases [OF step])
  case (1 req)
  obtain p where S': "fl_callers S' = fl_callers S @ [(req, p)]" "Arrives (length (fl_callers S)) req \<in> set es"
    "\<And>c q r. Calls c q r \<notin> set es" "phase_trace (fe_ipv6 E) (tr @ es) (length (fl_callers S)) (req, p)"
    by (cases rule: enter_cases [OF law 1]) auto
  show ?thesis
    unfolding trace_inv_def
  proof (intro conjI allI impI)
    fix c assume "c < length (fl_callers S')"
    then consider "c < length (fl_callers S)" | "c = length (fl_callers S)" by (auto simp: S' less_Suc_eq)
    then show "Arrives c (caller_req S' c) \<in> set (tr @ es)" "phase_trace (fe_ipv6 E) (tr @ es) c (fl_callers S' ! c)"
      using tr S' phase_trace_append [of "fe_ipv6 E" tr c "fl_callers S ! c" es]
      by (cases; auto simp: trace_inv_def nth_append)+
  next
    fix c q r assume "Calls c q r \<in> set (tr @ es)"
    then show "ValidateTwRedeem (fe_ipv6 E) q = None" using trace_invD(3) [OF tr, of c q r] S'(3) [of c q r] by auto
  qed
next
  case (2 c req r w v w')
  have "flight_result v = r" using 2(5) flight_func_result [OF 2(6)] by simp
  moreover have "ValidateTwRedeem (fe_ipv6 E) req = None" using flights_invD(5) [OF inv 2(3)] 2(4) by simp
  ultimately show ?thesis
    unfolding 2(1) by (intro trace_inv_snoc [OF tr]) (use 2 in \<open>auto simp: nth_list_update\<close>)
next
  case (3 c req v ws g)
  note at = end_callers [OF law inv 3(3-5)]
  have n: "length (fl_callers S') = length (fl_callers S)" by (simp add: 3(2))
  have called: "Calls c req (flight_result v) \<in> set tr" using tr 3(3,4) unfolding trace_inv_def by auto
  have "served (tr @ [Ends c]) d (caller_req S d) (flight_result v)"
    if d: "d < length (fl_callers S)" "d = c \<or> d \<in> set ws" for d
  proof -
    have key: "key_of (caller_req S d) = key_of req" using d(2) at(1) [of d] 3(4) by auto
    have "Arrives d (caller_req S d) \<in> set tr" using tr d(1) by (simp add: trace_inv_def)
    then obtain a b where s: "tr = a @ Arrives d (caller_req S d) # b" by (meson split_list)
    have "Calls c req (flight_result v) \<in> set (a @ b)" using called unfolding s by simp
    then show ?thesis
      unfolding served_def using s key
      by (intro exI [of _ c] exI [of _ req] exI [of _ a] exI [of _ b] exI [of _ "[]"]) simp
  qed
  then show ?thesis
    unfolding 3(1) by (intro trace_inv_snoc [OF tr n]) (auto simp: at(2) 3(2))
next
  case (4 c req v a s)
  have "served tr c req (flight_result v)" using tr 4(3,4) unfolding trace_inv_def by auto
  moreover have "ValidateTwRedeem (fe_ipv6 E) req = None" using flights_invD(5) [OF inv 4(3)] 4(4) by simp
  moreover have "a = answer_of (flight_result v)" by (rule flight_answer_eq [OF 4(5)])
  ultimately show ?thesis
    unfolding 4(1) by (intro trace_inv_snoc [OF tr]) (use 4 in \<open>auto simp: nth_list_update intro: served_append\<close>)
qed

lemma trace_inv_run:
  assumes law: "singleflight_law (fe_group E)" and "flight_run E S tr S'" and "S = NewCoalescedTwProvider E w s"
  shows "flights_inv E S' \<and> trace_inv E tr S'"
  using assms(2,3)
proof (induction rule: flight_run.induct)
  case (fr_refl S)
  then show ?case using inv_start [OF law] by (simp add: trace_inv_def NewCoalescedTwProvider_def)
next
  case (fr_step S tr S' es S'')
  then show ?case using inv_step [OF law] trace_inv_step [OF law] by blast
qed

text \<open>A call is made by a caller, for what that caller asked.\<close>

definition calls_known :: "event list \<Rightarrow> ('g, 'w, 's) flights \<Rightarrow> bool" where
  "calls_known tr S \<longleftrightarrow> (\<forall>c q r. Calls c q r \<in> set tr \<longrightarrow> c < length (fl_callers S) \<and> caller_req S c = q)"

lemma caller_kept:
  assumes law: "singleflight_law (fe_group E)" and inv: "flights_inv E S" and step: "flight_step E S es S'" and "c < length (fl_callers S)"
  shows "c < length (fl_callers S') \<and> caller_req S' c = caller_req S c"
proof (cases rule: flight_step_cases [OF step])
  case (1 req)
  show ?thesis by (cases rule: enter_cases [OF law 1]) (use assms(4) in \<open>simp_all add: nth_append\<close>)
next
  case (3 d req v ws g)
  then show ?thesis using end_callers(2) [OF law inv 3(3-5) assms(4)] assms(4) by simp
qed (use assms(4) in \<open>auto simp: nth_list_update\<close>)

lemma calls_known_step:
  assumes law: "singleflight_law (fe_group E)" and inv: "flights_inv E S" and "calls_known tr S" and step: "flight_step E S es S'"
  shows "calls_known (tr @ es) S'"
proof -
  have old: "c < length (fl_callers S') \<and> caller_req S' c = q" if "Calls c q r \<in> set tr" for c q r
    using that assms(3) caller_kept [OF law inv step, of c] unfolding calls_known_def by blast
  have "c < length (fl_callers S') \<and> caller_req S' c = q" if "Calls c q r \<in> set es" for c q r
  proof (cases rule: flight_step_cases [OF step])
    case (1 req)
    show ?thesis by (cases rule: enter_cases [OF law 1]) (use that in simp_all)
  qed (use that in auto)
  with old show ?thesis unfolding calls_known_def by auto
qed

lemma calls_known_run:
  assumes law: "singleflight_law (fe_group E)" and "flight_run E S tr S'" and "S = NewCoalescedTwProvider E w s"
  shows "flights_inv E S' \<and> calls_known tr S'"
  using assms(2,3)
proof (induction rule: flight_run.induct)
  case (fr_refl S)
  then show ?case using inv_start [OF law] by (simp add: calls_known_def)
next
  case (fr_step S tr S' es S'')
  then show ?case using inv_step [OF law] calls_known_step [OF law] by blast
qed

text \<open>
  C18: Coalescing merges exactly the redemptions of one voucher for one phone. At any moment of any interleaving, a caller
  with an invalid request is refused without entering the group; one with a valid request waits if a caller with the
  same phone and gift is inside its call, and otherwise starts its own call at once, whatever other calls
  are under way. All upstream calls so far were made by callers for what they asked, and two calls for the same phone and
  gift never overlap: the earlier had returned before the later began. (SHA-256 is assumed not to
  map the texts of two different requests met so far to one digest.)
\<close>

theorem coalesced_exactly:
  assumes "singleflight_law (fe_group E)" and "flight_run E (NewCoalescedTwProvider E w s) tr S" and "enter E req S = (es, S')"
    and "\<And>d. d < length (fl_callers S) \<Longrightarrow> Sum256 (key_text (fst (fl_callers S ! d))) = Sum256 (key_text req) \<Longrightarrow>
      key_text (fst (fl_callers S ! d)) = key_text req"
  shows "fl_callers S' = fl_callers S @ [(req,
      case ValidateTwRedeem (fe_ipv6 E) req of
        Some err \<Rightarrow> Answered (Inl (Errorf ''validate redeem request'' err))
      | None \<Rightarrow> if \<exists>d < length (fl_callers S). in_function (snd (fl_callers S ! d)) \<and> fst (fl_callers S ! d) = req then Waiting else Executing)] \<and>
    (ValidateTwRedeem (fe_ipv6 E) req \<noteq> None \<longrightarrow> fl_group S' = fl_group S) \<and>
    (\<forall>c q r. Calls c q r \<in> set tr \<longrightarrow> c < length (fl_callers S) \<and> fst (fl_callers S ! c) = q \<and> ValidateTwRedeem (fe_ipv6 E) q = None) \<and>
    (\<forall>a c q r b d r' z. tr = a @ Calls c q r # b @ Calls d q r' # z \<longrightarrow> Ends c \<in> set b)"
proof -
  have inv: "flights_inv E S" and calls: "calls_known tr S" using calls_known_run [OF assms(1,2)] by simp_all
  have leader: "(sf_calls (fe_group E) (fl_group S) (key_of req) \<noteq> None) =
      (\<exists>d < length (fl_callers S). in_function (caller_phase S d) \<and> caller_req S d = req)"
    if v: "ValidateTwRedeem (fe_ipv6 E) req = None"
  proof
    assume "sf_calls (fe_group E) (fl_group S) (key_of req) \<noteq> None"
    then obtain l ws where l: "l < length (fl_callers S)" "key_of (caller_req S l) = key_of req" "in_function (caller_phase S l)"
      using flights_invD(1) [OF inv] by fastforce
    have "\<not> answered (caller_phase S l)" using l(3) by (cases "caller_phase S l") simp_all
    then have "ValidateTwRedeem (fe_ipv6 E) (caller_req S l) = None" by (rule flights_invD(5) [OF inv l(1)])
    moreover have "key_text (caller_req S l) = key_text req" using assms(4) [OF l(1)] l(2) key_of_eq_iff by blast
    ultimately have "caller_req S l = req" using key_text_inj v by blast
    then show "\<exists>d < length (fl_callers S). in_function (caller_phase S d) \<and> caller_req S d = req" using l by blast
  next
    assume "\<exists>d < length (fl_callers S). in_function (caller_phase S d) \<and> caller_req S d = req"
    then show "sf_calls (fe_group E) (fl_group S) (key_of req) \<noteq> None" using flights_invD(3) [OF inv] by fastforce
  qed
  have "fl_callers S' = fl_callers S @ [(req,
      case ValidateTwRedeem (fe_ipv6 E) req of
        Some err \<Rightarrow> Answered (Inl (Errorf ''validate redeem request'' err))
      | None \<Rightarrow> if \<exists>d < length (fl_callers S). in_function (caller_phase S d) \<and> caller_req S d = req then Waiting else Executing)] \<and>
    (ValidateTwRedeem (fe_ipv6 E) req \<noteq> None \<longrightarrow> fl_group S' = fl_group S)"
    by (cases rule: enter_cases [OF assms(1,3)]) (use leader in auto)
  moreover have "ValidateTwRedeem (fe_ipv6 E) q = None" if "Calls c q r \<in> set tr" for c q r
    using trace_inv_run [OF assms(1,2)] trace_invD(3) that by blast
  moreover have "exclusive tr" using open_calls_run [OF assms(1,2)] by simp
  ultimately show ?thesis using calls unfolding calls_known_def exclusive_def by blast
qed

lemma answers_fresh:
  assumes "singleflight_law (fe_group E)" and "flight_run E (NewCoalescedTwProvider E w s) tr S"
    and "c < length (fl_callers S)" and "fl_callers S ! c = (req, Answered a)" and "ValidateTwRedeem (fe_ipv6 E) req = None"
    and "\<And>l q r. Calls l q r \<in> set tr \<Longrightarrow> Sum256 (key_text q) = Sum256 (key_text req) \<Longrightarrow> key_text q = key_text req"
  shows "\<exists>l r before between after. tr = before @ Arrives c req # between @ Ends l # after \<and>
    Calls l req r \<in> set (before @ between) \<and>
    a = (case r of Inl e \<Rightarrow> Inl (Errorf ''redeem gift'' e) | Inr res \<Rightarrow> Inr res)"
proof -
  have t: "trace_inv E tr S" using trace_inv_run [OF assms(1,2)] by simp
  obtain r where r: "served tr c req r" "a = answer_of r"
    using trace_invD(2) [OF t assms(3)] assms(4,5) by auto
  then obtain l q before between after where d: "tr = before @ Arrives c req # between @ Ends l # after"
    "Calls l q r \<in> set (before @ between)" "key_of q = key_of req"
    unfolding served_def by blast
  have mem: "Calls l q r \<in> set tr" using d(1,2) by auto
  then have "ValidateTwRedeem (fe_ipv6 E) q = None" by (rule trace_invD(3) [OF t])
  moreover have "key_text q = key_text req" using assms(6) [OF mem] d(3) key_of_eq_iff by blast
  ultimately have "q = req" using key_text_inj assms(5) by blast
  then show ?thesis using d r(2) unfolding answer_of_def by blast
qed

text \<open>
  C19: No redemption is answered from the past. Every caller with a valid request is answered with the outcome of
  an upstream call for exactly its own request that returned after the caller had arrived (its own call, or
  one it shared), provided SHA-256 does not map the texts of two different requests of the run to one
  digest. So a voucher consumed earlier is never reported as redeemed to a later caller.
\<close>

theorem coalesced_answers_fresh:
  assumes "singleflight_law (fe_group E)" and "flight_run E (NewCoalescedTwProvider E w s) tr S"
    and "c < length (fl_callers S)" and "fl_callers S ! c = (req, Answered a)" and "ValidateTwRedeem (fe_ipv6 E) req = None"
    and "\<And>l q r. Calls l q r \<in> set tr \<Longrightarrow> Sum256 (key_text q) = Sum256 (key_text req) \<Longrightarrow> key_text q = key_text req"
  shows "\<exists>l r before between after. tr = before @ Arrives c req # between @ Ends l # after \<and>
    Calls l req r \<in> set (before @ between) \<and>
    a = (case r of Inl e \<Rightarrow> Inl (Errorf ''redeem gift'' e) | Inr res \<Rightarrow> Inr res)"
  using assms by (rule answers_fresh)

section \<open>Every caller is answered\<close>

fun phase_weight :: "phase \<Rightarrow> nat" where
  "phase_weight Executing = 3"
| "phase_weight (Called v) = 2"
| "phase_weight Waiting = 2"
| "phase_weight (Handed v) = 1"
| "phase_weight (Answered a) = 0"

lemma phase_weight_le: "phase_weight p \<le> 3"
  by (cases p) simp_all

definition remaining :: "('g, 'w, 's) flights \<Rightarrow> nat" where
  "remaining S = (\<Sum>c < length (fl_callers S). phase_weight (caller_phase S c))"

definition no_arrivals :: "event list \<Rightarrow> bool" where
  "no_arrivals es \<longleftrightarrow> list_all (\<lambda>e. case e of Arrives c req \<Rightarrow> False | _ \<Rightarrow> True) es"

lemma no_arrivals_simps [simp]:
  "no_arrivals []" "no_arrivals (xs @ ys) \<longleftrightarrow> no_arrivals xs \<and> no_arrivals ys"
  "\<not> no_arrivals (Arrives c req # es)" "no_arrivals [Calls c req r]" "no_arrivals [Ends c]" "no_arrivals [Answers c a]"
  by (simp_all add: no_arrivals_def)

lemma remaining_less:
  assumes "length (fl_callers S') = length (fl_callers S)" and "c < length (fl_callers S)"
    and "\<And>d. d < length (fl_callers S) \<Longrightarrow> phase_weight (caller_phase S' d) \<le> phase_weight (caller_phase S d)"
    and "phase_weight (caller_phase S' c) < phase_weight (caller_phase S c)"
  shows "remaining S' < remaining S"
  unfolding remaining_def assms(1) by (rule sum_strict_mono_ex1) (use assms(2-4) in auto)

lemma step_progress:
  assumes law: "singleflight_law (fe_group E)" and inv: "flights_inv E S" and step: "flight_step E S es S'" and "no_arrivals es"
  shows "length es = 1 \<and> remaining S' < remaining S"
proof (cases rule: flight_step_cases [OF step])
  case (1 req)
  have "\<not> no_arrivals es" by (cases rule: enter_cases [OF law 1]) simp_all
  with assms(4) show ?thesis by simp
next
  case (2 c req r w v w')
  then have "remaining S' < remaining S" by (intro remaining_less [of S' S c]) (auto simp: nth_list_update)
  then show ?thesis using 2(1) by simp
next
  case (3 c req v ws g)
  note at = end_callers [OF law inv 3(3-5)]
  have "phase_weight (caller_phase S' d) \<le> phase_weight (caller_phase S d)" if "d < length (fl_callers S)" for d
    using at(1) [of d] at(2) [OF that] 3(2,4) by auto
  moreover have "phase_weight (caller_phase S' c) < phase_weight (caller_phase S c)"
    using at(2) [OF 3(3)] 3(2,4) by simp
  ultimately have "remaining S' < remaining S"
    using 3(3) by (intro remaining_less [of S' S c]) (simp_all add: 3(2))
  then show ?thesis using 3(1) by simp
next
  case (4 c req v a s)
  then have "remaining S' < remaining S" by (intro remaining_less [of S' S c]) (auto simp: nth_list_update)
  then show ?thesis using 4(1) by simp
qed

lemma run_progress:
  assumes "singleflight_law (fe_group E)" and "flight_run E S es S'" and "flights_inv E S" and "no_arrivals es"
  shows "length es + remaining S' \<le> remaining S"
  using assms(2-)
proof (induction rule: flight_run.induct)
  case (fr_step S tr S' es S'')
  then show ?case
    using step_progress [OF assms(1), of S' es S''] inv_run [OF assms(1) fr_step.hyps(1)] by auto
qed simp

text \<open>A caller that is not answered can move, or waits for one that can.\<close>

lemma not_stuck:
  assumes inv: "flights_inv E S" and c: "c < length (fl_callers S)" and "\<not> answered (caller_phase S c)"
  shows "\<exists>es S'. flight_step E S es S' \<and> no_arrivals es"
proof -
  have moves: "\<exists>es S'. flight_step E S es S' \<and> no_arrivals es"
    if d: "d < length (fl_callers S)" and p: "in_function (caller_phase S d) \<or> (\<exists>v. caller_phase S d = Handed v)" for d
  proof -
    obtain req p' where at: "fl_callers S ! d = (req, p')" by fastforce
    consider "p' = Executing" | v where "p' = Called v" | v where "p' = Handed v" using p at by (cases p') auto
    then show ?thesis
    proof cases
      case 1
      obtain r w where "fe_inner E req (fl_world S) = (r, w)" by fastforce
      moreover obtain v w' where "flight_func (fe_inner E) req (fl_world S) = (v, w')" by fastforce
      ultimately show ?thesis using fs_call [OF d, of req E r w v w'] at 1 no_arrivals_simps(4) by blast
    next
      case (2 v)
      obtain ws g where "sf_end (fe_group E) (twCoalesceKey (Phone req) (Gift req)) (fl_group S) = (ws, g)" by fastforce
      then show ?thesis using fs_end [OF d, of req v E ws g] at 2 no_arrivals_simps(5) by blast
    next
      case (3 v)
      obtain a s where "flight_answer (fe_stats E) (flight_result v) (fl_stats S) = (a, s)" by fastforce
      then show ?thesis using fs_answer [OF d, of req v E a s] at 3 no_arrivals_simps(6) by blast
    qed
  qed
  show ?thesis
  proof (cases "caller_phase S c = Waiting")
    case True
    then obtain l ws where "sf_calls (fe_group E) (fl_group S) (key_of (caller_req S c)) = Some (l, ws)"
      using flights_invD(4) [OF inv c] by blast
    then show ?thesis using moves [of l] flights_invD(1) [OF inv] by blast
  next
    case False
    then show ?thesis using moves [OF c] assms(3) by (cases "caller_phase S c") auto
  qed
qed

lemma run_bound:
  assumes "singleflight_law (fe_group E)" and "flights_inv E S" and "flight_run E S es S'" and "no_arrivals es"
  shows "length es \<le> 3 * length (fl_callers S)"
proof -
  have "length es \<le> remaining S" using run_progress [OF assms(1,3,2,4)] by simp
  also have "remaining S \<le> (\<Sum>c < length (fl_callers S). 3)"
    unfolding remaining_def by (rule sum_mono) (rule phase_weight_le)
  finally show ?thesis by simp
qed

lemma run_answers_all:
  assumes "flights_inv E S" and "\<forall>es' S''. flight_step E S es' S'' \<longrightarrow> \<not> no_arrivals es'" and "c < length (fl_callers S)"
  shows "\<exists>a. caller_phase S c = Answered a"
proof (rule ccontr)
  assume "\<not> ?thesis"
  then have "\<not> answered (caller_phase S c)" by (cases "caller_phase S c") auto
  then show False using not_stuck [OF assms(1,3)] assms(2) by blast
qed

section \<open>Effects\<close>

text \<open>The upstream calls of a run, replayed one after the other.\<close>

fun upstream_run :: "'w twProvider \<Rightarrow> event list \<Rightarrow> 'w \<Rightarrow> 'w option" where
  "upstream_run inner [] w = Some w"
| "upstream_run inner (Calls c req r # es) w =
     (case inner req w of (r', w') \<Rightarrow> if r = r' then upstream_run inner es w' else None)"
| "upstream_run inner (e # es) w = upstream_run inner es w"

fun answers :: "event list \<Rightarrow> TwRedeemResult result list" where
  "answers [] = []"
| "answers (Answers c a # es) = a # answers es"
| "answers (e # es) = answers es"

lemma upstream_run_append: "upstream_run inner (xs @ ys) w = Option.bind (upstream_run inner xs w) (upstream_run inner ys)"
  by (induction inner xs w rule: upstream_run.induct) (simp_all split: prod.splits)

lemma answers_append [simp]: "answers (xs @ ys) = answers xs @ answers ys"
  by (induction xs rule: answers.induct) simp_all

definition record_answer :: "'s stats_repo option \<Rightarrow> TwRedeemResult result \<Rightarrow> 's \<Rightarrow> 's" where
  "record_answer st a s = (case a of Inl e \<Rightarrow> recordTwError st s | Inr res \<Rightarrow> record_tw st res s)"

lemma effects_step:
  assumes law: "singleflight_law (fe_group E)" and step: "flight_step E S es S'"
  shows "upstream_run (fe_inner E) es (fl_world S) = Some (fl_world S') \<and>
    fl_stats S' = fold (record_answer (fe_stats E)) (answers es) (fl_stats S)"
proof (cases rule: flight_step_cases [OF step])
  case (1 req)
  show ?thesis by (cases rule: enter_cases [OF law 1]) (simp_all add: record_answer_def)
next
  case (2 c req r w v w')
  then show ?thesis using flight_func_result [OF 2(6)] by simp
next
  case (4 c req v a s)
  then show ?thesis by (auto simp: flight_answer_def record_answer_def split: sum.splits)
qed simp

lemma effects_run:
  assumes law: "singleflight_law (fe_group E)" and "flight_run E S tr S'"
  shows "upstream_run (fe_inner E) tr (fl_world S) = Some (fl_world S') \<and>
    fl_stats S' = fold (record_answer (fe_stats E)) (answers tr) (fl_stats S)"
  using assms(2)
proof (induction rule: flight_run.induct)
  case (fr_step S tr S' es S'')
  then show ?case using effects_step [OF law fr_step.hyps(2)] by (simp add: upstream_run_append)
qed simp

text \<open>The answers given so far, by caller, are those of the trace, each once.\<close>

definition given :: "TwRedeemRequest \<times> phase \<Rightarrow> TwRedeemResult result list" where
  "given p = (case snd p of Answered a \<Rightarrow> [a] | _ \<Rightarrow> [])"

lemma mset_concat_update:
  "c < length xs \<Longrightarrow> f (xs ! c) = [] \<Longrightarrow> mset (concat (map f (xs[c := y]))) = mset (concat (map f xs)) + mset (f y)"
proof (induction xs arbitrary: c)
  case (Cons x xs)
  then show ?case by (cases c) auto
qed simp

lemma given_hand:
  "\<forall>c \<in> set ws. c < length cs \<and> given (cs ! c) = [] \<Longrightarrow> mset (concat (map given (hand v ws cs))) = mset (concat (map given cs))"
proof (induction ws arbitrary: cs)
  case (Cons c ws)
  let ?cs = "cs[c := (fst (cs ! c), Handed v)]"
  have "given (?cs ! d) = []" if "d \<in> set ws" for d
    using Cons.prems that by (cases "d = c") (auto simp: given_def)
  then have "mset (concat (map given (hand v ws ?cs))) = mset (concat (map given ?cs))"
    using Cons by simp
  also have "\<dots> = mset (concat (map given cs))"
    using mset_concat_update [of c cs given "(fst (cs ! c), Handed v)"] Cons.prems by (simp add: given_def)
  finally show ?case by (simp add: hand.simps)
qed (simp add: hand.simps)

lemma given_step:
  assumes law: "singleflight_law (fe_group E)" and inv: "flights_inv E S" and step: "flight_step E S es S'"
  shows "mset (concat (map given (fl_callers S'))) = mset (concat (map given (fl_callers S))) + mset (answers es)"
proof (cases rule: flight_step_cases [OF step])
  case (1 req)
  show ?thesis by (cases rule: enter_cases [OF law 1]) (simp_all add: given_def)
next
  case (2 c req r w v w')
  then show ?thesis using mset_concat_update [of c "fl_callers S" given "(req, Called v)"] by (simp add: given_def)
next
  case (3 c req v ws g)
  have "\<forall>d \<in> set (c # ws). d < length (fl_callers S) \<and> given (fl_callers S ! d) = []"
  proof -
    have "sf_calls (fe_group E) (fl_group S) (key_of req) = Some (c, ws)"
      using inv_end(2) [OF law inv 3(3,4) _ refl] 3(5) by (simp add: key_of_eq)
    then have "d < length (fl_callers S)" if "d \<in> set ws" for d using flights_invD(2) [OF inv] that by blast
    then show ?thesis using end_callers(1) [OF law inv 3(3-5)] 3(3,4) by (auto simp: given_def)
  qed
  from given_hand [OF this, of v] show ?thesis by (simp add: 3(1,2))
next
  case (4 c req v a s)
  then show ?thesis using mset_concat_update [of c "fl_callers S" given "(req, Answered a)"] by (simp add: given_def)
qed

lemma given_run:
  assumes law: "singleflight_law (fe_group E)" and "flight_run E S tr S'" and "S = NewCoalescedTwProvider E w s"
  shows "flights_inv E S' \<and> mset (concat (map given (fl_callers S'))) = mset (answers tr)"
  using assms(2,3)
proof (induction rule: flight_run.induct)
  case (fr_refl S)
  then show ?case using inv_start [OF law] by (simp add: NewCoalescedTwProvider_def)
next
  case (fr_step S tr S' es S'')
  then show ?case using inv_step [OF law, of S' es S''] given_step [OF law, of S' es S''] by auto
qed

definition redeemed :: "TwRedeemResult result list \<Rightarrow> TwRedeemResult list" where
  "redeemed as = concat (map (\<lambda>a. case a of Inl e \<Rightarrow> [] | Inr res \<Rightarrow> [res]) as)"

definition failed :: "TwRedeemResult result list \<Rightarrow> nat" where
  "failed as = length (filter (\<lambda>a. case a of Inl e \<Rightarrow> True | Inr res \<Rightarrow> False) as)"

lemma RecordTw_errors: "snd (RecordTw c r (s\<lparr>twErrors := k\<rparr>)) = (snd (RecordTw c r s))\<lparr>twErrors := k\<rparr>"
  by (simp add: RecordTw_def Let_def)

lemma record_all_snoc: "record_all (xs @ [x]) s = record_one x (record_all xs s)"
  by (simp add: record_all_def)

lemma record_answers_memory:
  assumes "is_int64 (twErrors s)"
  shows "fold (record_answer (Some memory_stats)) as s =
    (record_all (map (\<lambda>res. (voucher_cents res, Ref res)) (redeemed as)) s)\<lparr>twErrors := wrap64 (twErrors s + int (failed as))\<rparr>"
proof (induction as rule: rev_induct)
  case Nil
  then show ?case using assms by (simp add: redeemed_def failed_def)
next
  case (snoc a as)
  show ?case
  proof (cases a)
    case (Inl e)
    then show ?thesis using snoc
      by (simp add: record_answer_def redeemed_def failed_def recordTwError_memory_eq errored_def ac_simps)
  next
    case (Inr res)
    then show ?thesis using snoc
      by (simp add: record_answer_def redeemed_def failed_def record_tw_memory_eq record_all_snoc
          RecordTw_errors record_one_def)
  qed
qed

text \<open>
  C21: The effects of a run are those of its calls and answers alone: the outside world is where the upstream
  calls of the run lead, one after the other, each with the outcome reported; and the statistics count every
  failed answer once, and every successful one once per reference, however many callers shared it.
\<close>

theorem coalesced_effects_exact:
  assumes "singleflight_law (fe_group E)" and "fe_stats E = Some memory_stats"
    and "flight_run E (NewCoalescedTwProvider E w NewStatsStore) tr S"
  shows "upstream_run (fe_inner E) tr w = Some (fl_world S) \<and>
    twErrors (fl_stats S) = wrap64 (int (failed (answers tr))) \<and>
    twCount (fl_stats S) = wrap64 (int (length (filter (\<lambda>res. Ref res = []) (redeemed (answers tr)))) +
      int (card {Ref res |res. res \<in> set (redeemed (answers tr)) \<and> Ref res \<noteq> []}))"
proof -
  let ?xs = "map (\<lambda>res. (voucher_cents res, Ref res)) (redeemed (answers tr))"
  have run: "upstream_run (fe_inner E) tr w = Some (fl_world S)"
    "fl_stats S = fold (record_answer (Some memory_stats)) (answers tr) NewStatsStore"
    using effects_run [OF assms(1,3)] assms(2) by (simp_all add: NewCoalescedTwProvider_def)
  have ints: "is_int64 (twErrors NewStatsStore)" "is_int64 (twCount NewStatsStore)"
    by (simp_all add: NewStatsStore_def is_int64_def)
  have st: "fl_stats S = (record_all ?xs NewStatsStore)\<lparr>twErrors := wrap64 (int (failed (answers tr)))\<rparr>"
    using run(2) record_answers_memory [OF ints(1), of "answers tr"] by (simp add: NewStatsStore_def)
  have "new_refs ?xs NewStatsStore = {Ref res |res. res \<in> set (redeemed (answers tr)) \<and> Ref res \<noteq> []}"
    by (force simp: new_refs_def NewStatsStore_def)
  moreover have "length (anonymous ?xs) = length (filter (\<lambda>res. Ref res = []) (redeemed (answers tr)))"
    by (simp add: anonymous_def filter_map comp_def)
  ultimately have "twCount (record_all ?xs NewStatsStore) = wrap64 (int (length (filter (\<lambda>res. Ref res = []) (redeemed (answers tr)))) +
      int (card {Ref res |res. res \<in> set (redeemed (answers tr)) \<and> Ref res \<noteq> []}))"
    using record_all_count [OF ints(2), of ?xs] by (simp add: NewStatsStore_def)
  then show ?thesis using run(1) st by simp
qed

text \<open>
  C20: Every caller gets the right answer, and soon. From any reachable state, with no further arrivals, the
  callers take at most three steps each, whatever the order; and when no step is left every caller has its
  answer: an invalid request its validation error, a valid one the outcome of an upstream call of the run for
  exactly its own request (a failure wrapped once); and the statistics have recorded exactly these answers, each once, in
  some order. (SHA-256 is assumed not to map the texts of two different requests of the run to one digest.)
\<close>

theorem coalesced_callers_served:
  assumes "singleflight_law (fe_group E)" and "flight_run E (NewCoalescedTwProvider E w s) tr S"
    and "flight_run E S es S'" and "no_arrivals es"
    and "\<And>l q r c. Calls l q r \<in> set (tr @ es) \<Longrightarrow> c < length (fl_callers S') \<Longrightarrow>
      Sum256 (key_text q) = Sum256 (key_text (fst (fl_callers S' ! c))) \<Longrightarrow> key_text q = key_text (fst (fl_callers S' ! c))"
  shows "length es \<le> 3 * length (fl_callers S) \<and>
    ((\<forall>es' S''. flight_step E S' es' S'' \<longrightarrow> \<not> no_arrivals es') \<longrightarrow>
       (\<exists>as. map snd (fl_callers S') = map Answered as \<and>
         (\<forall>c < length as. case ValidateTwRedeem (fe_ipv6 E) (fst (fl_callers S' ! c)) of
            Some err \<Rightarrow> as ! c = Inl (Errorf ''validate redeem request'' err)
          | None \<Rightarrow> \<exists>l r. Calls l (fst (fl_callers S' ! c)) r \<in> set (tr @ es) \<and>
              as ! c = (case r of Inl e \<Rightarrow> Inl (Errorf ''redeem gift'' e) | Inr res \<Rightarrow> Inr res)) \<and>
         (\<exists>bs. mset bs = mset as \<and> fl_stats S' = fold (record_answer (fe_stats E)) bs s)))"
proof -
  have run: "flight_run E (NewCoalescedTwProvider E w s) (tr @ es) S'" by (rule flight_run_trans [OF assms(3,2)])
  have inv: "flights_inv E S" "flights_inv E S'"
    using inv_run [OF assms(1,2)] inv_run [OF assms(1,3)] inv_start [OF assms(1)] by blast+
  note given = given_run [OF assms(1) run refl, THEN conjunct2]
  have answer: "\<exists>as. map snd (fl_callers S') = map Answered as \<and>
         (\<forall>c < length as. case ValidateTwRedeem (fe_ipv6 E) (caller_req S' c) of
            Some err \<Rightarrow> as ! c = Inl (Errorf ''validate redeem request'' err)
          | None \<Rightarrow> \<exists>l r. Calls l (caller_req S' c) r \<in> set (tr @ es) \<and>
              as ! c = (case r of Inl e \<Rightarrow> Inl (Errorf ''redeem gift'' e) | Inr res \<Rightarrow> Inr res)) \<and>
         (\<exists>bs. mset bs = mset as \<and> fl_stats S' = fold (record_answer (fe_stats E)) bs s)"
    if maximal: "\<forall>es' S''. flight_step E S' es' S'' \<longrightarrow> \<not> no_arrivals es'"
  proof -
    define as where "as = concat (map given (fl_callers S'))"
    have one: "\<exists>a. p = (fst p, Answered a)" if p: "p \<in> set (fl_callers S')" for p
    proof -
      from p obtain c where c: "c < length (fl_callers S')" "fl_callers S' ! c = p" by (auto simp: in_set_conv_nth)
      then show ?thesis using run_answers_all [OF inv(2) maximal c(1)] by (metis prod.collapse)
    qed
    have as: "map snd (fl_callers S') = map Answered as"
    proof -
      have "\<forall>p \<in> set ps. \<exists>a. p = (fst p, Answered a) \<Longrightarrow> map snd ps = map Answered (concat (map given ps))" for ps
        by (induction ps) (auto simp: given_def)
      then show ?thesis using one unfolding as_def by blast
    qed
    have len: "length as = length (fl_callers S')" using as by (metis length_map)
    have "case ValidateTwRedeem (fe_ipv6 E) (caller_req S' c) of
            Some err \<Rightarrow> as ! c = Inl (Errorf ''validate redeem request'' err)
          | None \<Rightarrow> \<exists>l r. Calls l (caller_req S' c) r \<in> set (tr @ es) \<and>
              as ! c = (case r of Inl e \<Rightarrow> Inl (Errorf ''redeem gift'' e) | Inr res \<Rightarrow> Inr res)" if c: "c < length as" for c
    proof -
      have at: "fl_callers S' ! c = (caller_req S' c, Answered (as ! c))"
        using as c len by (metis nth_map prod.collapse)
      have t: "phase_trace (fe_ipv6 E) (tr @ es) c (caller_req S' c, Answered (as ! c))"
        using trace_inv_run [OF assms(1) run refl] trace_invD(2) c len at by metis
      show ?thesis
      proof (cases "ValidateTwRedeem (fe_ipv6 E) (caller_req S' c)")
        case None
        have "c < length (fl_callers S')" using c len by simp
        from answers_fresh [OF assms(1) run this at None] assms(5) c len
        obtain l r before between after where tr: "tr @ es = before @ Arrives c (caller_req S' c) # between @ Ends l # after"
          "Calls l (caller_req S' c) r \<in> set (before @ between)"
          "as ! c = (case r of Inl e \<Rightarrow> Inl (Errorf ''redeem gift'' e) | Inr res \<Rightarrow> Inr res)"
          by metis
        have "Calls l (caller_req S' c) r \<in> set (tr @ es)" unfolding tr(1) using tr(2) by auto
        then show ?thesis using tr(3) None by auto
      qed (use t in simp)
    qed
    moreover have "\<exists>bs. mset bs = mset as \<and> fl_stats S' = fold (record_answer (fe_stats E)) bs s"
      using effects_run [OF assms(1) run] given by (intro exI [of _ "answers (tr @ es)"]) (simp add: NewCoalescedTwProvider_def as_def)
    ultimately show ?thesis using as by blast
  qed
  then show ?thesis using run_bound [OF assms(1) inv(1) assms(3,4)] by blast
qed

section \<open>One flight\<close>

lemma fs_call':
  assumes "c < length (fl_callers S)" and "fl_callers S ! c = (req, Executing)"
    and "flight_func (fe_inner E) req (fl_world S) = (v, w')"
  shows "flight_step E S [Calls c req (flight_result v)] (S\<lparr>fl_callers := (fl_callers S)[c := (req, Called v)], fl_world := w'\<rparr>)"
  using fs_call [OF assms(1,2) flight_func_result [OF assms(3)] assms(3)] .

text \<open>The duplicates of a flight join the call of its leader.\<close>

lemma followers_enter:
  assumes law: "singleflight_law (fe_group E)"
    and "\<forall>q \<in> set qs. ValidateTwRedeem (fe_ipv6 E) q = None \<and> key_of q = k"
    and "sf_calls (fe_group E) (fl_group S) k = Some (l, ws)"
  shows "\<exists>es g. flight_run E S es (S\<lparr>fl_callers := fl_callers S @ map (\<lambda>q. (q, Waiting)) qs, fl_group := g\<rparr>) \<and>
    sf_calls (fe_group E) g k = Some (l, ws @ [length (fl_callers S)..<length (fl_callers S) + length qs])"
  using assms(2,3)
proof (induction qs arbitrary: S ws)
  case Nil
  then show ?case using flight_run.fr_refl [of E S] by (intro exI [of _ "[]"] exI [of _ "fl_group S"]) simp
next
  case (Cons q qs)
  obtain es S' where e: "enter E q S = (es, S')" by fastforce
  obtain g where g: "S' = S\<lparr>fl_callers := fl_callers S @ [(q, Waiting)], fl_group := g\<rparr>"
    "sf_calls (fe_group E) g k = Some (l, ws @ [length (fl_callers S)])"
    using Cons.prems by (cases rule: enter_cases [OF law e]) auto
  obtain es' g' where r: "flight_run E S' es' (S'\<lparr>fl_callers := fl_callers S' @ map (\<lambda>q. (q, Waiting)) qs, fl_group := g'\<rparr>)"
    "sf_calls (fe_group E) g' k = Some (l, (ws @ [length (fl_callers S)]) @ [length (fl_callers S')..<length (fl_callers S') + length qs])"
    using Cons.IH [of S' "ws @ [length (fl_callers S)]"] Cons.prems(1) g by auto
  have "flight_run E S (es @ es') (S\<lparr>fl_callers := fl_callers S @ map (\<lambda>q. (q, Waiting)) (q # qs), fl_group := g'\<rparr>)"
    using flight_run_trans [OF r(1) flight_run_one [OF fs_enter [OF e]]] g(1) by simp
  moreover have "sf_calls (fe_group E) g' k = Some (l, ws @ [length (fl_callers S)..<length (fl_callers S) + length (q # qs)])"
    using r(2) g(1) by (simp add: upt_rec)
  ultimately show ?case by blast
qed

text \<open>The callers of a flight resume in their order.\<close>

lemma callers_resume:
  assumes "\<forall>q \<in> set qs. ValidateTwRedeem (fe_ipv6 E) q = None"
    and "resume (fe_ipv6 E) (fe_stats E) (map (\<lambda>q. (q, flight_result v)) qs) (w, s) = (as, w', s')"
    and "fl_callers S = cs @ map (\<lambda>q. (q, Handed v)) qs" and "fl_stats S = s"
  shows "w' = w \<and> (\<exists>es. flight_run E S es (S\<lparr>fl_callers := cs @ map2 (\<lambda>q a. (q, Answered a)) qs as, fl_stats := s'\<rparr>))"
  using assms
proof (induction qs arbitrary: S cs as s)
  case Nil
  then show ?case using flight_run.fr_refl [of E S] by auto
next
  case (Cons q qs)
  obtain a s1 where a: "flight_answer (fe_stats E) (flight_result v) s = (a, s1)" by fastforce
  have svc: "TwService_Redeem (fe_ipv6 E) (\<lambda>_ w. (flight_result v, w)) (fe_stats E) q (w, s) = (a, w, s1)"
    using a Cons.prems(1) by (auto simp: TwService_Redeem_def flight_answer_def split: sum.splits)
  obtain as' where as: "as = a # as'" and r: "resume (fe_ipv6 E) (fe_stats E) (map (\<lambda>q. (q, flight_result v)) qs) (w, s1) = (as', w', s')"
    using Cons.prems(2) svc by (auto split: prod.splits)
  let ?S = "S\<lparr>fl_callers := (fl_callers S)[length cs := (q, Answered a)], fl_stats := s1\<rparr>"
  have step: "flight_step E S [Answers (length cs) a] ?S"
    by (rule fs_answer [where v = v]) (use Cons.prems(3,4) a in \<open>simp_all add: nth_append\<close>)
  have eq: "fl_callers ?S = (cs @ [(q, Answered a)]) @ map (\<lambda>q. (q, Handed v)) qs"
    using Cons.prems(3) by (simp add: list_update_append)
  have "w' = w \<and> (\<exists>es. flight_run E ?S es (?S\<lparr>fl_callers := (cs @ [(q, Answered a)]) @ map2 (\<lambda>q a. (q, Answered a)) qs as', fl_stats := s'\<rparr>))"
    by (rule Cons.IH [OF _ r eq]) (use Cons.prems(1) in simp_all)
  then show ?case using flight_run_trans [OF _ flight_run_one [OF step]] as by fastforce
qed

lemma hand_flight:
  assumes "map fst X = callers f" and "set (length cs # ws) = {length cs..<length cs + length (callers f)}"
  shows "hand v (length cs # ws) (cs @ X) = cs @ map (\<lambda>q. (q, Handed v)) (callers f)"
proof (rule nth_equalityI)
  have len: "length X = length (callers f)" using arg_cong [OF assms(1), of length] by simp
  then show "length (hand v (length cs # ws) (cs @ X)) = length (cs @ map (\<lambda>q. (q, Handed v)) (callers f))" by simp
  fix i assume "i < length (hand v (length cs # ws) (cs @ X))"
  then have i: "i < length (cs @ X)" by simp
  note at = nth_hand [OF i, of v "length cs # ws", unfolded assms(2)]
  show "hand v (length cs # ws) (cs @ X) ! i = (cs @ map (\<lambda>q. (q, Handed v)) (callers f)) ! i"
  proof (cases "i < length cs")
    case True
    with at show ?thesis by (simp add: nth_append)
  next
    case False
    then have j: "i - length cs < length X" using i by simp
    then have "fst (X ! (i - length cs)) = callers f ! (i - length cs)" using assms(1) by (metis nth_map)
    moreover have "i < length cs + length (callers f)" using j False len by linarith
    ultimately show ?thesis using at False j len by (simp add: nth_append)
  qed
qed

lemma flight_realised:
  assumes "singleflight_law (fe_group E)" and "group_law f"
    and "\<forall>q \<in> set (callers f). ValidateTwRedeem (fe_ipv6 E) q = None"
    and "sf_calls (fe_group E) (fl_group S) (key_of (leader f)) = None"
  shows "\<exists>es S' as. flight_run E S es S' \<and>
    flight_Redeem (fe_ipv6 E) (fe_inner E) (fe_stats E) f (fl_world S, fl_stats S) = (as, fl_world S', fl_stats S') \<and>
    fl_callers S' = fl_callers S @ map2 (\<lambda>q a. (q, Answered a)) (callers f) as"
proof -
  let ?cs = "fl_callers S" and ?n = "length (fl_callers S)" and ?l = "leader f" and ?k = "key_of (leader f)"
  note law = assms(1)
  have valid: "ValidateTwRedeem (fe_ipv6 E) ?l = None" using assms(3) by (simp add: callers_def)
  have fol: "\<forall>q \<in> set (followers f). ValidateTwRedeem (fe_ipv6 E) q = None \<and> key_of q = ?k"
    using assms(2,3) by (simp add: callers_def group_law_def)
  obtain es1 S1 where e1: "enter E ?l S = (es1, S1)" by fastforce
  obtain g1 where S1: "S1 = S\<lparr>fl_callers := ?cs @ [(?l, Executing)], fl_group := g1\<rparr>"
    "sf_calls (fe_group E) (fl_group S1) ?k = Some (?n, [])"
    using valid assms(4) by (cases rule: enter_cases [OF law e1]) auto
  obtain es2 g2 where r2: "flight_run E S1 es2
      (S1\<lparr>fl_callers := fl_callers S1 @ map (\<lambda>q. (q, Waiting)) (followers f), fl_group := g2\<rparr>)"
    and g2: "sf_calls (fe_group E) g2 ?k = Some (?n, [] @ [length (fl_callers S1)..<length (fl_callers S1) + length (followers f)])"
    using followers_enter [OF law fol S1(2)] by blast
  define S2 where "S2 = S\<lparr>fl_callers := ?cs @ (?l, Executing) # map (\<lambda>q. (q, Waiting)) (followers f), fl_group := g2\<rparr>"
  have r2': "flight_run E S (es1 @ es2) S2"
    using flight_run_trans [OF r2 flight_run_one [OF fs_enter [OF e1]]] by (simp add: S2_def S1(1))
  obtain v w' where f: "flight_func (fe_inner E) ?l (fl_world S) = (v, w')" by fastforce
  define S3 where "S3 = S2\<lparr>fl_callers := (fl_callers S2)[?n := (?l, Called v)], fl_world := w'\<rparr>"
  have s3: "flight_step E S2 [Calls ?n ?l (flight_result v)] S3"
    unfolding S3_def by (rule fs_call') (simp_all add: S2_def f)
  obtain ws g3 where e: "sf_end (fe_group E) ?k g2 = (ws, g3)" by fastforce
  have ws: "ws = [Suc ?n..<Suc ?n + length (followers f)]"
    using law_end(1) [OF law g2 e] by (simp add: S1(1))
  define S4 where "S4 = S3\<lparr>fl_callers := hand v (?n # ws) (fl_callers S3), fl_group := g3\<rparr>"
  have s4: "flight_step E S3 [Ends ?n] S4"
    unfolding S4_def
  proof (rule fs_end)
    show "sf_end (fe_group E) (twCoalesceKey (Phone ?l) (Gift ?l)) (fl_group S3) = (ws, g3)"
      using e by (simp add: key_of_eq S3_def S2_def)
  qed (simp_all add: S3_def S2_def)
  have "fl_callers S3 = ?cs @ ((?l, Called v) # map (\<lambda>q. (q, Waiting)) (followers f))" by (simp add: S3_def S2_def)
  moreover have "map fst ((?l, Called v) # map (\<lambda>q. (q, Waiting)) (followers f)) = callers f"
    by (simp add: callers_def comp_def)
  moreover have "set (?n # ws) = {?n..<?n + length (callers f)}" unfolding ws callers_def by auto
  ultimately have S4: "fl_callers S4 = ?cs @ map (\<lambda>q. (q, Handed v)) (callers f)"
    by (simp add: S4_def hand_flight del: list.map list.set)
  obtain as w2 s2 where r: "resume (fe_ipv6 E) (fe_stats E) (map (\<lambda>q. (q, flight_result v)) (callers f)) (w', fl_stats S) = (as, w2, s2)"
    by (metis prod.exhaust)
  have "fl_stats S4 = fl_stats S" by (simp add: S4_def S3_def S2_def)
  from callers_resume [OF assms(3) r S4 this]
  obtain es5 where r5: "w2 = w'" "flight_run E S4 es5 (S4\<lparr>fl_callers := ?cs @ map2 (\<lambda>q a. (q, Answered a)) (callers f) as, fl_stats := s2\<rparr>)"
    by blast
  have "flight_Redeem (fe_ipv6 E) (fe_inner E) (fe_stats E) f (fl_world S, fl_stats S) = (as, w2, s2)"
    using r flight_func_result [OF f] by (simp add: flight_Redeem_def Coalesced_Redeem_eq zip_replicate2)
  moreover have "flight_run E S ((((es1 @ es2) @ [Calls ?n ?l (flight_result v)]) @ [Ends ?n]) @ es5)
      (S4\<lparr>fl_callers := ?cs @ map2 (\<lambda>q a. (q, Answered a)) (callers f) as, fl_stats := s2\<rparr>)"
    using flight_run_trans [OF r5(2)] flight_run.fr_step [OF flight_run.fr_step [OF r2' s3] s4] by blast
  moreover have "fl_world S4 = w'" by (simp add: S4_def S3_def S2_def)
  ultimately show ?thesis using r5(1) by fastforce
qed

text \<open>
  The flights of the sequential model are runs of the concurrent one. When no call for its key is under way, a
  leader and any number of duplicates that arrive behind it can run to completion, and then the answers, the
  world outside and the statistics are those \<open>flight_Redeem\<close> computes for the flight; a request alone is
  the case without duplicates.
\<close>

theorem flight_Redeem_realised:
  assumes "singleflight_law (fe_group E)" and "group_law f"
    and "\<forall>q \<in> set (callers f). ValidateTwRedeem (fe_ipv6 E) q = None"
    and "sf_calls (fe_group E) (fl_group S) (key_of (leader f)) = None"
  shows "\<exists>es S' as. flight_run E S es S' \<and>
    flight_Redeem (fe_ipv6 E) (fe_inner E) (fe_stats E) f (fl_world S, fl_stats S) = (as, fl_world S', fl_stats S') \<and>
    fl_callers S' = fl_callers S @ map2 (\<lambda>q a. (q, Answered a)) (callers f) as"
  using flight_realised [OF assms] .

section \<open>An environment\<close>

text \<open>A group that keeps its calls in a map, as the library documents it.\<close>

definition map_group :: "(string \<Rightarrow> (nat \<times> nat list) option) singleflight" where
  "map_group = \<lparr>sf_zero = Map.empty,
     sf_Do = \<lambda>c k g. (g k = None, g(k \<mapsto> (case g k of None \<Rightarrow> (c, []) | Some (l, ws) \<Rightarrow> (l, ws @ [c])))),
     sf_end = \<lambda>k g. (case g k of None \<Rightarrow> ([], g) | Some (l, ws) \<Rightarrow> (ws, g(k := None))),
     sf_calls = \<lambda>g. g\<rparr>"

lemma map_group_law: "singleflight_law map_group"
  by (simp add: singleflight_law_def map_group_def)

definition sample_env :: "(string \<Rightarrow> (nat \<times> nat list) option, http_request list, StatsStore) flight_env" where
  "sample_env = \<lparr>fe_ipv6 = \<lambda>_. False, fe_inner = Client_Redeem (NewClient [] 0) sample_net,
     fe_stats = Some memory_stats, fe_group = map_group\<rparr>"

lemma sample_env_simps [simp]:
  "fe_ipv6 sample_env = (\<lambda>_. False)" "fe_inner sample_env = Client_Redeem (NewClient [] 0) sample_net"
  "fe_stats sample_env = Some memory_stats" "fe_group sample_env = map_group" "singleflight_law map_group"
  by (simp_all add: sample_env_def map_group_law)

text \<open>A caller that meets nobody.\<close>

lemma solo_run:
  assumes law: "singleflight_law (fe_group E)" and "ValidateTwRedeem (fe_ipv6 E) q = None"
    and "sf_calls (fe_group E) (fl_group S) (key_of q) = None" and call: "fe_inner E q (fl_world S) = (Inr res, w')"
  shows "\<exists>S1 S2. flight_run E S [Arrives (length (fl_callers S)) q] S1 \<and> length (fl_callers S1) = Suc (length (fl_callers S)) \<and>
    flight_run E S1 [Calls (length (fl_callers S)) q (Inr res), Ends (length (fl_callers S)), Answers (length (fl_callers S)) (Inr res)] S2 \<and>
    fl_callers S2 = fl_callers S @ [(q, Answered (Inr res))] \<and> fl_world S2 = w' \<and>
    sf_calls (fe_group E) (fl_group S2) (key_of q) = None"
proof -
  let ?n = "length (fl_callers S)" and ?v = "Inr (TwResult res)"
  obtain es1 S1 where e1: "enter E q S = (es1, S1)" by fastforce
  obtain g1 where S1: "es1 = [Arrives ?n q]" "S1 = S\<lparr>fl_callers := fl_callers S @ [(q, Executing)], fl_group := g1\<rparr>"
    "sf_calls (fe_group E) (fl_group S1) (key_of q) = Some (?n, [])"
    using assms(2,3) by (cases rule: enter_cases [OF law e1]) auto
  have f: "flight_func (fe_inner E) q (fl_world S1) = (?v, w')" using call by (simp add: flight_func_def S1(2))
  define S2 where "S2 = S1\<lparr>fl_callers := (fl_callers S1)[?n := (q, Called ?v)], fl_world := w'\<rparr>"
  have s2: "flight_step E S1 [Calls ?n q (flight_result ?v)] S2"
    unfolding S2_def by (rule fs_call') (use f in \<open>simp_all add: S1(2)\<close>)
  obtain ws g3 where e: "sf_end (fe_group E) (key_of q) (fl_group S1) = (ws, g3)" by fastforce
  note D = law_end [OF law S1(3) e]
  define S3 where "S3 = S2\<lparr>fl_callers := hand ?v (?n # ws) (fl_callers S2), fl_group := g3\<rparr>"
  have s3: "flight_step E S2 [Ends ?n] S3"
    unfolding S3_def
  proof (rule fs_end)
    show "sf_end (fe_group E) (twCoalesceKey (Phone q) (Gift q)) (fl_group S2) = (ws, g3)"
      using e by (simp add: key_of_eq S2_def)
  qed (simp_all add: S2_def S1(2))
  have c3: "fl_callers S3 = fl_callers S @ [(q, Handed ?v)]"
    by (simp add: S3_def S2_def S1(2) D(1) hand.simps)
  obtain s where a: "flight_answer (fe_stats E) (flight_result ?v) (fl_stats S3) = (Inr res, s)"
    by (simp add: flight_answer_def flight_result_def)
  define S4 where "S4 = S3\<lparr>fl_callers := (fl_callers S3)[?n := (q, Answered (Inr res))], fl_stats := s\<rparr>"
  have s4: "flight_step E S3 [Answers ?n (Inr res)] S4"
    unfolding S4_def by (rule fs_answer [OF _ _ a]) (simp_all add: c3)
  have "flight_run E S1 (([Calls ?n q (flight_result ?v)] @ [Ends ?n]) @ [Answers ?n (Inr res)]) S4"
    by (rule flight_run.fr_step [OF flight_run.fr_step [OF flight_run_one [OF s2] s3] s4])
  moreover have "sf_calls (fe_group E) (fl_group S4) (key_of q) = None" using D(2) by (simp add: S4_def S3_def)
  moreover have "fl_callers S4 = fl_callers S @ [(q, Answered (Inr res))]" by (simp add: S4_def c3)
  moreover have "fl_world S4 = w'" by (simp add: S4_def S3_def S2_def)
  ultimately show ?thesis
    using flight_run_one [OF fs_enter [OF e1]] S1(1,2)
    by (intro exI [of _ S1] exI [of _ S4]) (simp add: flight_result_def)
qed

abbreviation sample_result :: TwRedeemResult where
  "sample_result \<equiv> \<lparr>Data = ''SUCCESS'', Amount = ''10.00'', Ref = ''v1''\<rparr>"

lemma sample_solo:
  "\<exists>S1 S2. flight_run sample_env (NewCoalescedTwProvider sample_env [] NewStatsStore) [Arrives 0 sample_redeem] S1 \<and>
    length (fl_callers S1) = 1 \<and>
    flight_run sample_env S1 [Calls 0 sample_redeem (Inr sample_result), Ends 0, Answers 0 (Inr sample_result)] S2 \<and>
    fl_callers S2 = [(sample_redeem, Answered (Inr sample_result))] \<and>
    sf_calls map_group (fl_group S2) (key_of sample_redeem) = None"
proof -
  let ?S = "NewCoalescedTwProvider sample_env [] NewStatsStore"
  obtain r where c: "fe_inner sample_env sample_redeem (fl_world ?S) = (Inr sample_result, [r])"
    using sample_call [of "NewClient [] 0" "[]"] by (auto simp: NewCoalescedTwProvider_def)
  have v: "ValidateTwRedeem (fe_ipv6 sample_env) sample_redeem = None" using sample_redeem_valid by simp
  have n: "sf_calls (fe_group sample_env) (fl_group ?S) (key_of sample_redeem) = None"
    using law_zero [OF map_group_law] by (simp add: NewCoalescedTwProvider_def)
  have l: "singleflight_law (fe_group sample_env)" by simp
  show ?thesis using solo_run [OF l v n c] by (simp add: NewCoalescedTwProvider_def) blast
qed

theorem coalesced_exactly_witness:
  "\<exists>S1 S2. flight_run sample_env (NewCoalescedTwProvider sample_env [] NewStatsStore) [Arrives 0 sample_redeem] S1 \<and>
     enter sample_env sample_redeem S1 = ([Arrives 1 sample_redeem], S2) \<and>
     fl_callers S2 = [(sample_redeem, Executing), (sample_redeem, Waiting)]"
proof -
  let ?S = "NewCoalescedTwProvider sample_env [] NewStatsStore" and ?q = sample_redeem
  have l: "singleflight_law (fe_group sample_env)" by simp
  have v: "ValidateTwRedeem (fe_ipv6 sample_env) ?q = None" using sample_redeem_valid by simp
  have zero: "fl_callers ?S = []" by (simp add: NewCoalescedTwProvider_def)
  obtain es1 S1 where e1: "enter sample_env ?q ?S = (es1, S1)" by fastforce
  have one: "fl_callers S1 = [(?q, Executing)]"
    using coalesced_exactly [OF l fr_refl e1, THEN conjunct1] zero v by simp
  have "es1 = [Arrives 0 ?q]" using v zero by (cases rule: enter_cases [OF l e1]) auto
  then have run: "flight_run sample_env ?S [Arrives 0 ?q] S1" using flight_run_one [OF fs_enter [OF e1]] by simp
  obtain es2 S2 where e2: "enter sample_env ?q S1 = (es2, S2)" by fastforce
  have two: "fl_callers S2 = [(?q, Executing), (?q, Waiting)]"
    using coalesced_exactly [OF l run e2, THEN conjunct1] one v by simp
  have "es2 = [Arrives 1 ?q]" using v one by (cases rule: enter_cases [OF l e2]) auto
  then show ?thesis using run e2 two by blast
qed

theorem coalesced_answers_fresh_witness:
  "\<exists>tr S. flight_run sample_env (NewCoalescedTwProvider sample_env [] NewStatsStore) tr S \<and>
     (\<exists>l r before between after. tr = before @ Arrives 0 sample_redeem # between @ Ends l # after \<and>
        Calls l sample_redeem r \<in> set (before @ between) \<and> r = Inr sample_result)"
proof -
  let ?S = "NewCoalescedTwProvider sample_env [] NewStatsStore" and ?q = sample_redeem
  obtain S1 S2 where s: "flight_run sample_env ?S [Arrives 0 ?q] S1"
    "flight_run sample_env S1 [Calls 0 ?q (Inr sample_result), Ends 0, Answers 0 (Inr sample_result)] S2"
    "fl_callers S2 = [(?q, Answered (Inr sample_result))]"
    using sample_solo by blast
  have l: "singleflight_law (fe_group sample_env)" by simp
  have run: "flight_run sample_env ?S [Arrives 0 ?q, Calls 0 ?q (Inr sample_result), Ends 0, Answers 0 (Inr sample_result)] S2"
    using flight_run_trans [OF s(2,1)] by simp
  obtain l r before between after where d: "[Arrives 0 ?q, Calls 0 ?q (Inr sample_result), Ends 0, Answers 0 (Inr sample_result)] =
      before @ Arrives 0 ?q # between @ Ends l # after" "Calls l ?q r \<in> set (before @ between)"
      "Inr sample_result = (case r of Inl e \<Rightarrow> Inl (Errorf ''redeem gift'' e) | Inr res \<Rightarrow> Inr res)"
    using coalesced_answers_fresh [OF l run, of 0 ?q "Inr sample_result"] s(3) sample_redeem_valid by auto
  have "r = Inr sample_result" using d(3) by (cases r) simp_all
  then show ?thesis using run d(1,2) by blast
qed

theorem coalesced_callers_served_witness:
  "\<exists>S as. flight_run sample_env (NewCoalescedTwProvider sample_env [] NewStatsStore)
       [Arrives 0 sample_redeem, Calls 0 sample_redeem (Inr sample_result), Ends 0, Answers 0 (Inr sample_result)] S \<and>
     map snd (fl_callers S) = map Answered as \<and> length as = 1 \<and>
     (\<exists>bs. mset bs = mset as \<and> fl_stats S = fold (record_answer (Some memory_stats)) bs NewStatsStore)"
proof -
  let ?q = sample_redeem
  obtain S1 S2 where s: "flight_run sample_env (NewCoalescedTwProvider sample_env [] NewStatsStore) [Arrives 0 ?q] S1"
    "flight_run sample_env S1 [Calls 0 ?q (Inr sample_result), Ends 0, Answers 0 (Inr sample_result)] S2"
    "fl_callers S2 = [(?q, Answered (Inr sample_result))]"
    using sample_solo by blast
  have l: "singleflight_law (fe_group sample_env)" by simp
  have n: "no_arrivals [Calls 0 ?q (Inr sample_result), Ends 0, Answers 0 (Inr sample_result)]" by (simp add: no_arrivals_def)
  have maximal: "\<forall>es S. flight_step sample_env S2 es S \<longrightarrow> \<not> no_arrivals es"
  proof (intro allI impI)
    fix es S
    assume step: "flight_step sample_env S2 es S"
    show "\<not> no_arrivals es"
    proof (cases rule: flight_step_cases [OF step])
      case (1 req)
      show ?thesis by (cases rule: enter_cases [OF l 1]) (simp_all add: no_arrivals_def)
    qed (use s(3) in simp_all)
  qed
  have unique: "key_text q = key_text (fst (fl_callers S2 ! c))"
    if "Calls l q r \<in> set ([Arrives 0 ?q] @ [Calls 0 ?q (Inr sample_result), Ends 0, Answers 0 (Inr sample_result)])"
      "c < length (fl_callers S2)" "Sum256 (key_text q) = Sum256 (key_text (fst (fl_callers S2 ! c)))" for l q r c
    using that(1,2) s(3) by simp
  have "\<exists>as. map snd (fl_callers S2) = map Answered as \<and>
      (\<exists>bs. mset bs = mset as \<and> fl_stats S2 = fold (record_answer (fe_stats sample_env)) bs NewStatsStore)"
    by (rule coalesced_callers_served [OF l s(1,2) n, THEN conjunct2, THEN mp, THEN exE])
      (rule unique, assumption+, rule maximal, blast)
  then obtain as where "map snd (fl_callers S2) = map Answered as"
    "\<exists>bs. mset bs = mset as \<and> fl_stats S2 = fold (record_answer (fe_stats sample_env)) bs NewStatsStore"
    by blast
  moreover from this(1) have "length as = 1" using s(3) by (metis length_Cons length_map list.size(3) One_nat_def)
  ultimately show ?thesis using flight_run_trans [OF s(2,1)] by (intro exI [of _ S2] exI [of _ as]) simp
qed

theorem coalesced_effects_exact_witness:
  "\<exists>S. flight_run sample_env (NewCoalescedTwProvider sample_env [] NewStatsStore)
     [Arrives 0 sample_redeem, Calls 0 sample_redeem (Inr sample_result), Ends 0, Answers 0 (Inr sample_result)] S \<and>
     twCount (fl_stats S) = 1 \<and> twErrors (fl_stats S) = 0"
proof -
  let ?S = "NewCoalescedTwProvider sample_env [] NewStatsStore" and ?q = sample_redeem
  obtain S1 S2 where s: "flight_run sample_env ?S [Arrives 0 ?q] S1"
    "flight_run sample_env S1 [Calls 0 ?q (Inr sample_result), Ends 0, Answers 0 (Inr sample_result)] S2"
    using sample_solo by blast
  have l: "singleflight_law (fe_group sample_env)" and st: "fe_stats sample_env = Some memory_stats" by simp_all
  have run: "flight_run sample_env ?S [Arrives 0 ?q, Calls 0 ?q (Inr sample_result), Ends 0, Answers 0 (Inr sample_result)] S2"
    using flight_run_trans [OF s(2,1)] by simp
  have "{Ref res |res. res \<in> set [sample_result] \<and> Ref res \<noteq> []} = {''v1''}" by auto
  then show ?thesis
    using run coalesced_effects_exact [OF l st run] by (auto simp: redeemed_def failed_def is_int64_def)
qed

lemma length_resume: "length (fst (resume v st xs ws)) = length xs"
proof (induction xs arbitrary: ws)
  case (Cons x xs)
  obtain q r where x: "x = (q, r)" by fastforce
  obtain a ws1 where a: "TwService_Redeem v (\<lambda>_ w. (r, w)) st q ws = (a, ws1)" by (metis prod.exhaust)
  obtain as ws2 where b: "resume v st xs ws1 = (as, ws2)" by (metis prod.exhaust)
  then show ?case using a x Cons.IH [of ws1] by simp
qed simp

theorem flight_Redeem_realised_witness:
  "\<exists>es S as. flight_run sample_env (NewCoalescedTwProvider sample_env [] NewStatsStore) es S \<and>
     length as = 3 \<and> fl_callers S = map2 (\<lambda>q a. (q, Answered a)) [sample_redeem, sample_redeem, sample_redeem] as"
proof -
  have l: "singleflight_law (fe_group sample_env)" by simp
  have g: "group_law sample_flight" "\<forall>q \<in> set (callers sample_flight). ValidateTwRedeem (fe_ipv6 sample_env) q = None"
    using sample_redeem_valid by (simp_all add: group_law_def callers_def sample_flight_def)
  have n: "sf_calls (fe_group sample_env) (fl_group (NewCoalescedTwProvider sample_env [] NewStatsStore)) (key_of (leader sample_flight)) = None"
    using law_zero [OF map_group_law] by (simp add: NewCoalescedTwProvider_def)
  have "length (fst (flight_Redeem v i st sample_flight ws)) = 3" for v :: "string \<Rightarrow> bool"
    and i and st :: "StatsStore stats_repo option" and ws :: "http_request list \<times> StatsStore"
    unfolding flight_Redeem_def Coalesced_Redeem_eq prod.case length_resume by (simp add: callers_def sample_flight_def)
  note three = this
  obtain es S as where r: "flight_run sample_env (NewCoalescedTwProvider sample_env [] NewStatsStore) es S"
    "flight_Redeem (fe_ipv6 sample_env) (fe_inner sample_env) (fe_stats sample_env) sample_flight
       (fl_world (NewCoalescedTwProvider sample_env [] NewStatsStore), fl_stats (NewCoalescedTwProvider sample_env [] NewStatsStore)) =
       (as, fl_world S, fl_stats S)"
    "fl_callers S = fl_callers (NewCoalescedTwProvider sample_env [] NewStatsStore) @
       map2 (\<lambda>q a. (q, Answered a)) (callers sample_flight) as"
    using flight_Redeem_realised [OF l g n] by blast
  have "length as = 3" using r(2) three by (metis fst_conv)
  moreover have "fl_callers S = map2 (\<lambda>q a. (q, Answered a)) [sample_redeem, sample_redeem, sample_redeem] as"
    using r(3) by (simp add: NewCoalescedTwProvider_def callers_def sample_flight_def)
  ultimately show ?thesis using r(1) by blast
qed

end
