(* ===== verification/Quota.thy ===== *)
theory Quota
  imports Server
begin

text \<open>
  What the rate limits guarantee end to end: the limiters of \<^verbatim>\<open>internal/ratelimit\<close> behind the middleware of
  \<^verbatim>\<open>internal/middleware/ratelimit.go\<close> in the chains of \<^verbatim>\<open>internal/server/router.go\<close>, over runs of whole requests, one
  after the other, with usage recorders in between. The bounds come from the contract \<open>window_limiter\<close>, and hold for
  in-memory limiters that never have to evict a live bucket (\<open>run_ok\<close>).
\<close>

section \<open>Runs as sequences of actions\<close>

text \<open>
  A request without a key in its context, as the network delivers it, or the usage recorder at a position. An action
  serves a request whole, from the first middleware to the last; requests that overlap inside their handlers are the subject of
  \<open>Interleaving\<close>.
\<close>

datatype 'e sys_action = Request "'e moment" route request | Record time nat

fun sys_act ::
  "('k, 't, 'u, 'l, 'e) deps \<Rightarrow> Config \<Rightarrow> 'e sys_action \<Rightarrow> ('k, 't, 'u, 'l) world \<Rightarrow> ('k, 't, 'u, 'l) world" where
  "sys_act d cfg (Request m rt r) st = fst (snd (serve d cfg m rt (r\<lparr>ctx_api_key := None\<rparr>) st new_writer))"
| "sys_act d cfg (Record now n) st =
     (if n < length (w_pending st)
      then st\<lparr>w_keys := touchAsync (dep_keys d) now (w_pending st ! n) (w_keys st),
              w_pending := take n (w_pending st) @ drop (Suc n) (w_pending st)\<rparr>
      else st)"

text \<open>Sequences of actions are the runs of the system.\<close>

lemma sys_act_run: "\<exists>n is. n \<le> 1 \<and> run d cfg n st is (sys_act d cfg a st)"
proof (cases a)
  case (Request m rt r)
  let ?r = "r\<lparr>ctx_api_key := None\<rparr>"
  obtain f st' w' where s: "serve d cfg m rt ?r st new_writer = (f, st', w')" by (metis prod.exhaust)
  have "Server.step d cfg st (key_uses d cfg m rt ?r st) st'" by (rule step_serve [OF s]) simp
  from run_step [OF run_refl this] show ?thesis using Request s by (intro exI [of _ 1]) auto
next
  case (Record now n)
  show ?thesis
  proof (cases "n < length (w_pending st)")
    case True
    have "w_pending st = take n (w_pending st) @ w_pending st ! n # drop (Suc n) (w_pending st)"
      using True by (rule id_take_nth_drop)
    from step_touch [OF this, of d cfg now] have "Server.step d cfg st [] (sys_act d cfg a st)" using Record True by simp
    from run_step [OF run_refl this] show ?thesis by (intro exI [of _ 1]) auto
  next
    case False
    then show ?thesis using run_refl [of d cfg st] Record by (intro exI [of _ 0]) auto
  qed
qed

section \<open>Limiters in a chain\<close>

text \<open>
  A limiter inside a larger system: \<open>call_of\<close> tells which call an action makes on it, \<open>hit\<close> which actions got past it
  under the bucket \<open>k\<close>. If the system uses the limiter for nothing else, the hits are bounded by its rank_grants.
\<close>

primrec limiter_calls :: "('a \<Rightarrow> 'st \<Rightarrow> 'c option) \<Rightarrow> ('a \<Rightarrow> 'st \<Rightarrow> 'st) \<Rightarrow> 'a list \<Rightarrow> 'st \<Rightarrow> 'c list" where
  "limiter_calls call_of exec [] st = []"
| "limiter_calls call_of exec (a # as) st =
     (case call_of a st of None \<Rightarrow> [] | Some c \<Rightarrow> [c]) @ limiter_calls call_of exec as (exec a st)"

primrec hits :: "('a \<Rightarrow> 'st \<Rightarrow> bool) \<Rightarrow> ('a \<Rightarrow> 'st \<Rightarrow> 'st) \<Rightarrow> 'a list \<Rightarrow> 'st \<Rightarrow> nat" where
  "hits hit exec [] st = 0"
| "hits hit exec (a # as) st = (if hit a st then 1 else 0) + hits hit exec as (exec a st)"

lemma limiter_calls_length: "length (limiter_calls call_of exec as st) \<le> length as"
  by (induction as arbitrary: st) (auto simp: le_SucI split: option.splits)

lemma limiter_calls_inv:
  assumes "J as st" and "\<And>a as st. J (a # as) st \<Longrightarrow> J as (exec a st)"
    and "\<And>a as st c. J (a # as) st \<Longrightarrow> call_of a st = Some c \<Longrightarrow> P c"
  shows "\<forall>c \<in> set (limiter_calls call_of exec as st). P c"
  using assms(1)
proof (induction as arbitrary: st)
  case (Cons a as)
  then show ?case using assms(2,3) by (fastforce split: option.splits)
qed simp

lemma limiter_calls_all:
  assumes "\<And>a st c. a \<in> set as \<Longrightarrow> call_of a st = Some c \<Longrightarrow> P c"
  shows "\<forall>c \<in> set (limiter_calls call_of exec as st). P c"
  by (rule limiter_calls_inv [of "\<lambda>bs _. set bs \<subseteq> set as"]) (use assms in auto)

lemma limiter_calls_sorted:
  assumes "sorted (map time_of as)" and "\<And>a st c. a \<in> set as \<Longrightarrow> call_of a st = Some c \<Longrightarrow> at_of c = time_of a"
  shows "sorted (map at_of (limiter_calls call_of exec as st))"
  using assms
proof (induction as arbitrary: st)
  case (Cons a as)
  have tail: "\<forall>c \<in> set (limiter_calls call_of exec as (exec a st)). \<exists>a' \<in> set as. at_of c = time_of a'"
    using Cons.prems(2) by (intro limiter_calls_all) auto
  have IH: "sorted (map at_of (limiter_calls call_of exec as (exec a st)))" using Cons by simp
  show ?case
  proof (cases "call_of a st")
    case (Some c)
    then have "at_of c = time_of a" using Cons.prems(2) by simp
    then show ?thesis using Some IH tail Cons.prems(1) by fastforce
  qed (use IH in simp)
qed simp

lemma hits_granted:
  assumes "\<And>a st. L (exec a st) = (case call_of a st of None \<Rightarrow> L st | Some c \<Rightarrow> snd (act c (L st)))"
    and "\<And>a st. hit a st \<Longrightarrow> \<exists>c. call_of a st = Some c \<and> named c = k \<and> fst (fst (act c (L st)))"
  shows "int (hits hit exec as st) \<le> granted act named k (limiter_calls call_of exec as st) (L st)"
proof (induction as arbitrary: st)
  case (Cons a as)
  have IH: "int (hits hit exec as (exec a st)) \<le>
      granted act named k (limiter_calls call_of exec as (exec a st)) (L (exec a st))" by (rule Cons.IH)
  show ?case
  proof (cases "call_of a st")
    case None
    then have "\<not> hit a st" using assms(2) by fastforce
    then show ?thesis using IH None assms(1) [of a st] by simp
  next
    case (Some c)
    then show ?thesis using IH assms(1) [of a st] assms(2) [of a st] by auto
  qed
qed simp

section \<open>The limiters of the server\<close>

definition lims :: "('k, 't, 'u, 'l) world \<Rightarrow> 'l \<times> 'l \<times> 'l" where
  "lims st = (w_ip st, w_member st, w_partner st)"

definition keeps_lims :: "('k, 't, 'u, 'l) world handler \<Rightarrow> bool" where
  "keeps_lims h \<longleftrightarrow> (\<forall>r st w. lims (fst (snd (h r st w))) = lims st)"

lemma keeps_lims_tw:
  assumes "h \<in> {RedeemGet (tw_service d cfg), RedeemPost dec (tw_service d cfg)}"
  shows "keeps_lims h"
proof -
  have svc: "lims st' = lims st" if "tw_service d cfg req st = (res, st')" for req st res st'
    using that by (auto simp: tw_service_def Let_def lims_def split: prod.splits)
  show ?thesis
    unfolding keeps_lims_def
  proof (intro allI)
    fix r :: request and st :: "('a, 'b, 'c, 'd) world" and w
    obtain x y w1 where dj: "decodeJSON dec r w = ((x, y), w1)" by (metis prod.exhaust)
    show "lims (fst (snd (h r st w))) = lims st"
      using assms svc
      by (auto simp: RedeemGet_def RedeemPost_def dj fail_with_def split: sum.splits prod.splits option.splits)
  qed
qed

lemma keeps_lims_lift: "keeps_lims (on_keys h)" "keeps_lims (on_stats g)"
  by (simp_all add: keeps_lims_def on_keys_def on_stats_def lims_def split: prod.splits)

lemma keeps_lims_scope: "keeps_lims next \<Longrightarrow> keeps_lims (RequireScope sc next)"
  unfolding keeps_lims_def by (auto simp: RequireScope_def split: option.splits)

text \<open>
  The call a request makes on a rank limiter: a request admitted with a key that is not an admin's asks the
  limiter of its rank about the key's bucket.
\<close>

definition rank_bucket :: "Config \<Rightarrow> ApiKey \<Rightarrow> (bool \<times> string) option" where
  "rank_bucket cfg k =
     (if RateLimitEnabled cfg \<and> Rank k \<noteq> ''admin'' then Some (Rank k = ''partner'', ''key:'' @ FormatInt (ID k)) else None)"

definition lims_after :: "('k, 't, 'u, 'l, 'e) deps \<Rightarrow> 'e \<Rightarrow> (bool \<times> string) option \<Rightarrow> 'l \<times> 'l \<times> 'l \<Rightarrow> 'l \<times> 'l \<times> 'l" where
  "lims_after d e q ls =
     (case q of
        None \<Rightarrow> ls
      | Some (partner, b) \<Rightarrow> (case ls of (i, m, p) \<Rightarrow>
          if partner then (i, m, snd (dep_allow d e b p)) else (i, snd (dep_allow d e b m), p)))"

definition rank_grants :: "('k, 't, 'u, 'l, 'e) deps \<Rightarrow> 'e \<Rightarrow> (bool \<times> string) option \<Rightarrow> 'l \<times> 'l \<times> 'l \<Rightarrow> bool" where
  "rank_grants d e q ls \<longleftrightarrow>
     (case q of
        None \<Rightarrow> True
      | Some (partner, b) \<Rightarrow> (case ls of (i, m, p) \<Rightarrow> fst (fst (dep_allow d e b (if partner then p else m)))))"

lemma key_limited_lims:
  assumes "keeps_lims next" and "ctx_api_key r = Some k" and "key_limited d cfg m next r st w = (f, st', w')"
  shows "lims st' = lims_after d (m_key m) (rank_bucket cfg k) (lims st) \<and>
    (same_data st st' \<or> rank_grants d (m_key m) (rank_bucket cfg k) (lims st))"
proof (cases "RateLimitEnabled cfg \<and> Rank k \<noteq> ''admin''")
  case False
  then have "next r st w = (f, st', w')"
    using assms(2,3) by (cases "RateLimitEnabled cfg") (auto simp: key_limited_def RateLimit_def Let_def)
  then have "lims st' = lims st" using assms(1) unfolding keeps_lims_def by (metis fst_conv snd_conv)
  then show ?thesis using False by (auto simp: rank_bucket_def lims_after_def rank_grants_def)
next
  case True
  let ?b = "''key:'' @ FormatInt (ID k)"
  define al where "al = (if Rank k = ''partner'' then allow_partner d (m_key m) else allow_member d (m_key m))"
  obtain ok x st1 where a: "al ?b st = ((ok, x), st1)" by (metis prod.exhaust)
  have out: "(f, st', w') = (if \<not> ok then (Returned, st1, writeRateLimitError x w) else next r st1 w)"
    using assms(2,3) True a unfolding key_limited_def RateLimit_def al_def by (simp add: Let_def split: if_splits)
  have l1: "lims st1 = lims_after d (m_key m) (rank_bucket cfg k) (lims st)" "same_data st st1"
    "ok = rank_grants d (m_key m) (rank_bucket cfg k) (lims st)"
    using a True
    by (auto simp: al_def allow_partner_def allow_member_def rank_bucket_def lims_after_def rank_grants_def lims_def same_data_def
        split: if_splits prod.splits)
  show ?thesis
  proof (cases ok)
    case True
    then have "next r st1 w = (f, st', w')" using out by simp
    then have "lims st' = lims st1" using assms(1) unfolding keeps_lims_def by (metis fst_conv snd_conv)
    then show ?thesis using l1 True by simp
  qed (use out l1 in simp)
qed

text \<open>The key a request is admitted with.\<close>

definition admitted_key :: "('k, 't, 'u, 'l, 'e) deps \<Rightarrow> 'e moment \<Rightarrow> ('k, 't, 'u, 'l) world \<Rightarrow> request \<Rightarrow> ApiKey option" where
  "admitted_key d m st r =
     (case repo_GetByHash (dep_keys d) (Hash (Header_Get r ''X-Api-Key'')) (w_keys st) of
        Inl e \<Rightarrow> None
      | Inr k \<Rightarrow> if admits d m st r k then Some k else None)"

lemma admitted_key_iff: "admitted_key d m st r = Some k \<longleftrightarrow> admits d m st r k"
  by (auto simp: admitted_key_def admits_def split: sum.splits)

lemma admitted_key_same:
  assumes "same_data st st'"
  shows "admitted_key d m st' r = admitted_key d m st r"
proof -
  have "admits d m st' r k = admits d m st r k" for k using assms by (simp add: admits_def same_data_def)
  then show ?thesis using admitted_key_iff [of d m st' r] admitted_key_iff [of d m st r] by (metis option.exhaust)
qed

definition key_query :: "('k, 't, 'u, 'l, 'e) deps \<Rightarrow> Config \<Rightarrow> 'e moment \<Rightarrow> ('k, 't, 'u, 'l) world \<Rightarrow> request \<Rightarrow> (bool \<times> string) option" where
  "key_query d cfg m st r = Option.bind (admitted_key d m st r) (rank_bucket cfg)"

lemma authenticated_lims:
  assumes "keeps_lims next" and "authenticated d m (key_limited d cfg m next) r st w = (f, st', w')"
  shows "lims st' = lims_after d (m_key m) (key_query d cfg m st r) (lims st) \<and>
    (same_data st st' \<or> (admitted_key d m st r \<noteq> None \<and> rank_grants d (m_key m) (key_query d cfg m st r) (lims st)))"
proof (cases "\<exists>k. admits d m st r k")
  case False
  then have "st' = st" using assms(2) by (cases rule: authenticated_cases [of w d m "key_limited d cfg m next" r st]) auto
  moreover have "admitted_key d m st r = None" using False admitted_key_iff by (metis not_None_eq)
  ultimately show ?thesis by (simp add: key_query_def lims_after_def)
next
  case True
  then obtain k where k: "admits d m st r k" by blast
  let ?st = "st\<lparr>w_pending := w_pending st @ [ID k]\<rparr>"
  have "authenticated d m (key_limited d cfg m next) r st w = key_limited d cfg m next (r\<lparr>ctx_api_key := Some k\<rparr>) ?st w"
    using k by (auto simp: admits_def authenticated_def Auth_def Let_def split: option.splits)
  then have "key_limited d cfg m next (r\<lparr>ctx_api_key := Some k\<rparr>) ?st w = (f, st', w')" using assms(2) by (rule trans [OF sym])
  from key_limited_lims [OF assms(1) _ this]
  have "lims st' = lims_after d (m_key m) (rank_bucket cfg k) (lims ?st) \<and>
    (same_data ?st st' \<or> rank_grants d (m_key m) (rank_bucket cfg k) (lims ?st))" by simp
  moreover have "key_query d cfg m st r = rank_bucket cfg k" "admitted_key d m st r = Some k"
    using k by (simp_all add: key_query_def flip: admitted_key_iff)
  moreover have "lims ?st = lims st" "same_data ?st st' = same_data st st'" by (simp_all add: lims_def same_data_def)
  ultimately show ?thesis by simp
qed

text \<open>The call a request makes on the address limiter, and on a rank limiter if that one lets it through.\<close>

definition ip_query :: "('k, 't, 'u, 'l, 'e) deps \<Rightarrow> Config \<Rightarrow> route \<Rightarrow> request \<Rightarrow> string option" where
  "ip_query d cfg rt r =
     (if RateLimitIPEnabled cfg \<and> fst (cors d cfg r new_writer) \<and> behind_limit rt
      then Some (''ip:'' @ clientIP r (TrustProxyHeaders cfg)) else None)"

definition ip_after :: "('k, 't, 'u, 'l, 'e) deps \<Rightarrow> 'e \<Rightarrow> string option \<Rightarrow> 'l \<Rightarrow> 'l" where
  "ip_after d e q l = (case q of None \<Rightarrow> l | Some b \<Rightarrow> snd (dep_allow d e b l))"

definition ip_grants :: "('k, 't, 'u, 'l, 'e) deps \<Rightarrow> 'e \<Rightarrow> string option \<Rightarrow> 'l \<Rightarrow> bool" where
  "ip_grants d e q l = (case q of None \<Rightarrow> True | Some b \<Rightarrow> fst (fst (dep_allow d e b l)))"

definition rank_query ::
  "('k, 't, 'u, 'l, 'e) deps \<Rightarrow> Config \<Rightarrow> 'e moment \<Rightarrow> route \<Rightarrow> request \<Rightarrow> ('k, 't, 'u, 'l) world \<Rightarrow> (bool \<times> string) option" where
  "rank_query d cfg m rt r st =
     (if fst (cors d cfg r new_writer) \<and> authenticated_route rt \<and> ip_grants d (m_ip m) (ip_query d cfg rt r) (w_ip st)
      then key_query d cfg m st r else None)"

lemma ip_limited_lims:
  assumes "ip_limited d cfg m next r st w = (f, st', w')"
    and q: "q = (if RateLimitIPEnabled cfg then Some (''ip:'' @ clientIP r (TrustProxyHeaders cfg)) else None)"
  shows "if ip_grants d (m_ip m) q (w_ip st)
    then next r (st\<lparr>w_ip := ip_after d (m_ip m) q (w_ip st)\<rparr>) w = (f, st', w')
    else st' = st\<lparr>w_ip := ip_after d (m_ip m) q (w_ip st)\<rparr>"
proof (cases "RateLimitIPEnabled cfg")
  case True
  obtain ok x l where a: "dep_allow d (m_ip m) (''ip:'' @ clientIP r (TrustProxyHeaders cfg)) (w_ip st) = ((ok, x), l)"
    by (metis prod.exhaust)
  then show ?thesis
    using assms True by (auto simp: ip_limited_def RateLimitIP_def allow_ip_def ip_after_def ip_grants_def split: if_splits)
next
  case False
  then show ?thesis using assms by (simp add: ip_limited_def ip_after_def ip_grants_def)
qed

lemma keeps_lims_lost:
  assumes "h \<in> {no_route na, RequireScope sc (no_route na)}"
  shows "keeps_lims h"
  using lost_frame(1) [OF assms] by (simp add: keeps_lims_def)

lemma route_lims:
  assumes rt: "behind_limit rt" and h: "route_handler d cfg m rt r st w = (f, st', w')"
    and q: "q = (if RateLimitIPEnabled cfg then Some (''ip:'' @ clientIP r (TrustProxyHeaders cfg)) else None)"
    and g: "g = ip_grants d (m_ip m) q (w_ip st)" and kq: "kq = (if authenticated_route rt \<and> g then key_query d cfg m st r else None)"
  shows "lims st' = lims_after d (m_key m) kq (ip_after d (m_ip m) q (w_ip st), w_member st, w_partner st) \<and>
    (same_data st st' \<or> g \<and> rank_grants d (m_key m) kq (w_ip st, w_member st, w_partner st))"
proof -
  let ?st = "st\<lparr>w_ip := ip_after d (m_ip m) q (w_ip st)\<rparr>"
  have lims: "lims ?st = (ip_after d (m_ip m) q (w_ip st), w_member st, w_partner st)" by (simp add: lims_def)
  have same: "same_data st ?st" "key_query d cfg m ?st r = key_query d cfg m st r" 
    using admitted_key_same [of st ?st d m r] by (simp_all add: key_query_def)
  have ip: "rank_grants d e x (i, mm, p) = rank_grants d e x (i', mm, p)" for e x i i' mm p
    by (simp add: rank_grants_def split: option.splits)
  have grd: ?thesis if "route_handler d cfg m rt = guarded d cfg m next" "keeps_lims next" "authenticated_route rt" for "next"
  proof -
    have "guarded d cfg m next r st w = (f, st', w')" using h that(1) by simp
    note i = ip_limited_lims [OF this [unfolded guarded_def] q]
    show ?thesis
    proof (cases g)
      case True
      then have "authenticated d m (key_limited d cfg m next) r ?st w = (f, st', w')" using i g by simp
      from authenticated_lims [OF that(2) this] show ?thesis
        using True same that(3) ip [of "m_key m" "key_query d cfg m st r" "ip_after d (m_ip m) q (w_ip st)" _ _ "w_ip st"]
        unfolding kq lims by (elim conjE disjE; simp add: same_data_def)
    next
      case False
      then have "st' = ?st" using i g by simp
      then show ?thesis using False same(1) lims by (simp add: kq lims_after_def)
    qed
  qed
  have unauthenticated: ?thesis
    if "route_handler d cfg m rt = ip_limited d cfg m next" "keeps_lims next" "\<not> authenticated_route rt" for "next"
  proof -
    have "ip_limited d cfg m next r st w = (f, st', w')" using h that(1) by simp
    note i = ip_limited_lims [OF this q]
    show ?thesis
    proof (cases g)
      case True
      then have "next r ?st w = (f, st', w')" using i g by simp
      then have "lims st' = lims ?st" using that(2) unfolding keeps_lims_def by (metis fst_conv snd_conv)
      then show ?thesis using True that(3) lims by (simp add: kq lims_after_def rank_grants_def)
    next
      case False
      then have "st' = ?st" using i g by simp
      then show ?thesis using False same(1) lims by (simp add: kq lims_after_def)
    qed
  qed
  show ?thesis
  proof (cases rule: route_cases [of rt d cfg m])
    case (tw h)
    then show ?thesis using grd [OF tw(2) keeps_lims_tw [OF tw(3)]] by (auto simp: authenticated_route_def)
  next
    case (keys h)
    show ?thesis using grd [OF keys(2) keeps_lims_scope [OF keeps_lims_lift(1)] route_group_key_handlers [OF keys(1)]] .
  next
    case stats
    have "\<not> authenticated_route rt" using stats(1) by (simp add: authenticated_route_def)
    then show ?thesis using unauthenticated [OF stats(2) keeps_lims_lift(2)] by blast
  next
    case (lost na h)
    have "authenticated_route rt" using lost(1) by (auto simp: authenticated_route_def)
    then show ?thesis using grd [OF lost(2) keeps_lims_lost [OF lost(3)]] by blast
  next
    case (lost_stats na)
    have "\<not> authenticated_route rt" using lost_stats(1) by (simp add: authenticated_route_def)
    then show ?thesis using unauthenticated [OF lost_stats(2) keeps_lims_lost [OF insertI1]] by blast
  qed (use rt in \<open>simp add: behind_limit_def\<close>)
qed

lemma serve_state:
  assumes "serve d cfg m rt r st w = (f, st', w')"
  obtains (preflight) l where "\<not> fst (cors d cfg r w)" "st' = st\<lparr>w_log := l\<rparr>"
  | (routed) f1 w1 st1 w2 l where "fst (cors d cfg r w)" "route_handler d cfg m rt r st w1 = (f1, st1, w2)" "st' = st1\<lparr>w_log := l\<rparr>"
proof (cases "cors d cfg r w")
  case (Pair go w1)
  show ?thesis
  proof (cases go)
    case False
    with Pair that(1) assms show ?thesis by (auto simp: serve_def Logging_def Recover_def CORS_def logger_def)
  next
    case True
    let ?w = "snd (snd (SecurityHeaders (\<lambda>r st w. (Returned, st, w)) r st w1))"
    obtain f1 st1 w2 where h: "route_handler d cfg m rt r st ?w = (f1, st1, w2)" by (metis prod.exhaust)
    then have "SecurityHeaders (Timeout d (WriteTimeout cfg) (route_handler d cfg m rt)) r st w1 = (f1, st1, dep_timeout d (WriteTimeout cfg) w2)"
      by (simp add: SecurityHeaders_def Timeout_def Let_def)
    then have "\<exists>l. st' = st1\<lparr>w_log := l\<rparr>"
      using assms Pair True by (cases f1) (auto simp: serve_def Logging_def Recover_def CORS_def logger_def)
    then show ?thesis using that(2) [OF _ h] Pair True by auto
  qed
qed

lemma serve_lims:
  assumes "serve d cfg m rt r st new_writer = (f, st', w')"
  shows "lims st' = lims_after d (m_key m) (rank_query d cfg m rt r st)
      (ip_after d (m_ip m) (ip_query d cfg rt r) (w_ip st), w_member st, w_partner st) \<and>
    (same_data st st' \<or> ip_grants d (m_ip m) (ip_query d cfg rt r) (w_ip st) \<and>
       rank_grants d (m_key m) (rank_query d cfg m rt r st) (w_ip st, w_member st, w_partner st))"
  using assms
proof (cases rule: serve_state)
  case (preflight l)
  then show ?thesis by (simp add: ip_query_def rank_query_def lims_after_def ip_after_def lims_def)
next
  case (routed f1 w1 st1 w2 l)
  have st': "lims st' = lims st1" "same_data st st' = same_data st st1" using routed(3) by (simp_all add: lims_def)
  show ?thesis
  proof (cases "behind_limit rt")
    case False
    then obtain na where "rt = NoRoute None na" by (cases rt) (auto simp: behind_limit_def)
    then have "st1 = st" using routed(2) by (simp add: route_handler_def no_route_def)
    then show ?thesis using False st'
      by (auto simp: ip_query_def rank_query_def lims_after_def ip_after_def lims_def dest: authenticated_behind)
  next
    case True
    have q: "ip_query d cfg rt r = (if RateLimitIPEnabled cfg then Some (''ip:'' @ clientIP r (TrustProxyHeaders cfg)) else None)"
      using True routed(1) by (simp add: ip_query_def)
    have kq: "rank_query d cfg m rt r st = (if authenticated_route rt \<and> ip_grants d (m_ip m) (ip_query d cfg rt r) (w_ip st)
        then key_query d cfg m st r else None)"
      using True routed(1) by (simp add: rank_query_def)
    show ?thesis using route_lims [OF True routed(2) q refl kq] unfolding st' by blast
  qed
qed

section \<open>The bounds\<close>

text \<open>The clock of the process does not go back; the runtime enumerates the bucket maps in some order.\<close>

type_synonym clocked_action = "(range_order \<times> time \<times> time) sys_action"

fun clocked :: "time \<Rightarrow> clocked_action list \<Rightarrow> bool" where
  "clocked t [] = True"
| "clocked t (Request m rt r # as) =
     (case (m_ip m, m_key m) of ((rng1, now1, un1), (rng2, now2, un2)) \<Rightarrow>
        t \<le> now1 \<and> now1 \<le> now2 \<and> enumerates rng1 \<and> enumerates rng2 \<and> clocked now2 as)"
| "clocked t (Record now n # as) = (t \<le> now \<and> clocked now as)"

fun act_time :: "clocked_action \<Rightarrow> time" where
  "act_time (Request m rt r) = fst (snd (m_key m))"
| "act_time (Record now n) = now"

fun ip_time :: "clocked_action \<Rightarrow> time" where
  "ip_time (Request m rt r) = fst (snd (m_ip m))"
| "ip_time (Record now n) = now"

lemma clocked_sorted: "clocked t as \<Longrightarrow> sorted (t # map act_time as) \<and> sorted (t # map ip_time as)"
proof (induction t as rule: clocked.induct)
  case (2 t m rt r as)
  then show ?case by (cases "m_ip m"; cases "m_key m") fastforce
qed auto

lemma clocked_order:
  "clocked t as \<Longrightarrow> Request m rt r \<in> set as \<Longrightarrow> enumerates (fst (m_ip m)) \<and> enumerates (fst (m_key m)) \<and> ip_time (Request m rt r) \<le> act_time (Request m rt r)"
  by (induction t as rule: clocked.induct) (auto split: prod.splits)

lemma Header_Get_ctx [simp]: "Header_Get (r\<lparr>ctx_api_key := x\<rparr>) k = Header_Get r k"
  by (simp add: Header_Get_def)

lemma admits_ctx [simp]: "admits d m st (r\<lparr>ctx_api_key := x\<rparr>) k = admits d m st r k"
  unfolding admits_def Header_Get_ctx ..

lemma admitted_key_ctx [simp]: "admitted_key d m st (r\<lparr>ctx_api_key := x\<rparr>) = admitted_key d m st r"
  unfolding admitted_key_def Header_Get_ctx admits_ctx ..

lemma clientIP_ctx [simp]: "clientIP (r\<lparr>ctx_api_key := x\<rparr>) tp = clientIP r tp"
proof -
  have "Header (r\<lparr>ctx_api_key := x\<rparr>) = Header r" "RemoteAddr (r\<lparr>ctx_api_key := x\<rparr>) = RemoteAddr r" by simp_all
  then show ?thesis unfolding clientIP_def Header_Get_def by (simp only:)
qed

text \<open>The hits: requests from an address, or admitted with a key of a rank, that have an effect on keys, statistics or upstream.\<close>

fun acts_from :: "('k, 't, 'u, 'l, 'e) deps \<Rightarrow> Config \<Rightarrow> string \<Rightarrow> 'e sys_action \<Rightarrow> ('k, 't, 'u, 'l) world \<Rightarrow> bool" where
  "acts_from d cfg addr (Request m rt r) st =
     (clientIP r (TrustProxyHeaders cfg) = addr \<and> \<not> same_data st (sys_act d cfg (Request m rt r) st))"
| "acts_from d cfg addr (Record now n) st = False"

fun acts_with :: "('k, 't, 'u, 'l, 'e) deps \<Rightarrow> Config \<Rightarrow> bool \<Rightarrow> int \<Rightarrow> 'e sys_action \<Rightarrow> ('k, 't, 'u, 'l) world \<Rightarrow> bool" where
  "acts_with d cfg partner i (Request m rt r) st =
     (\<not> same_data st (sys_act d cfg (Request m rt r) st) \<and>
      (case admitted_key d m st r of
         Some k \<Rightarrow> ID k = i \<and> Rank k \<noteq> ''admin'' \<and> (Rank k = ''partner'') = partner
       | None \<Rightarrow> False))"
| "acts_with d cfg partner i (Record now n) st = False"

fun ip_call :: "('k, 't, 'u, MemoryLimiter, range_order \<times> time \<times> time) deps \<Rightarrow> Config \<Rightarrow> clocked_action \<Rightarrow> ('k, 't, 'u, MemoryLimiter) world \<Rightarrow> call option" where
  "ip_call d cfg (Request m rt r) st = map_option (mem_call (m_ip m)) (ip_query d cfg rt (r\<lparr>ctx_api_key := None\<rparr>))"
| "ip_call d cfg (Record now n) st = None"

fun rank_call :: "('k, 't, 'u, MemoryLimiter, range_order \<times> time \<times> time) deps \<Rightarrow> Config \<Rightarrow> bool \<Rightarrow> clocked_action \<Rightarrow>
    ('k, 't, 'u, MemoryLimiter) world \<Rightarrow> call option" where
  "rank_call d cfg partner (Request m rt r) st =
     (case rank_query d cfg m rt (r\<lparr>ctx_api_key := None\<rparr>) st of
        None \<Rightarrow> None
      | Some (p, b) \<Rightarrow> if p = partner then Some (mem_call (m_key m) b) else None)"
| "rank_call d cfg partner (Record now n) st = None"

lemma request_lims:
  assumes "st' = sys_act d cfg (Request m rt r) st"
  shows "lims st' = lims_after d (m_key m) (rank_query d cfg m rt (r\<lparr>ctx_api_key := None\<rparr>) st)
      (ip_after d (m_ip m) (ip_query d cfg rt (r\<lparr>ctx_api_key := None\<rparr>)) (w_ip st), w_member st, w_partner st)"
    and "\<not> same_data st st' \<Longrightarrow> ip_grants d (m_ip m) (ip_query d cfg rt (r\<lparr>ctx_api_key := None\<rparr>)) (w_ip st) \<and>
       rank_grants d (m_key m) (rank_query d cfg m rt (r\<lparr>ctx_api_key := None\<rparr>) st) (w_ip st, w_member st, w_partner st)"
proof -
  obtain f st1 w' where s: "serve d cfg m rt (r\<lparr>ctx_api_key := None\<rparr>) st new_writer = (f, st1, w')" by (metis prod.exhaust)
  then have "st' = st1" using assms by simp
  with serve_lims [OF s] show
    "lims st' = lims_after d (m_key m) (rank_query d cfg m rt (r\<lparr>ctx_api_key := None\<rparr>) st)
      (ip_after d (m_ip m) (ip_query d cfg rt (r\<lparr>ctx_api_key := None\<rparr>)) (w_ip st), w_member st, w_partner st)"
    "\<not> same_data st st' \<Longrightarrow> ip_grants d (m_ip m) (ip_query d cfg rt (r\<lparr>ctx_api_key := None\<rparr>)) (w_ip st) \<and>
       rank_grants d (m_key m) (rank_query d cfg m rt (r\<lparr>ctx_api_key := None\<rparr>) st) (w_ip st, w_member st, w_partner st)"
    by blast+
qed

lemma unauthenticated_idle:
  assumes "\<not> authenticated_route rt" and "route_handler d cfg m rt r st w = (f, st', w')"
  shows "same_data st st'"
proof (cases rule: route_cases [of rt d cfg m])
  case stats
  have stat: "same_data s1 (fst (snd (on_stats (StatsHandler_Stats (dep_stats d)) r s1 w)))" for r s1 w
    by (simp add: same_data_def on_stats_def split: prod.splits) (metis fst_conv snd_conv stats_frame(1))
  have h: "ip_limited d cfg m (on_stats (StatsHandler_Stats (dep_stats d))) r st w = (f, st', w')" using assms(2) stats(2) by simp
  show ?thesis
  proof (cases rule: ip_limited_cases [of st d cfg m "on_stats (StatsHandler_Stats (dep_stats d))" r w])
    case (passed s1)
    have "on_stats (StatsHandler_Stats (dep_stats d)) r s1 w = (f, st', w')" using passed(3) h by (rule trans [OF sym])
    then have "same_data s1 st'" using stat [of s1 r w] by simp
    with passed(1) show ?thesis by (rule same_data_trans)
  qed (use h in simp)
next
  case (lost_stats na)
  then show ?thesis using assms(2) lost_ip_limited(1) [of st d cfg m na r w] by simp
next
  case (keys h)
  then show ?thesis using assms(1) route_group_key_handlers by blast
qed (use assms in \<open>auto simp: authenticated_route_def no_route_def\<close>)

lemma idle_request:
  assumes "\<not> fst (cors d cfg (r\<lparr>ctx_api_key := None\<rparr>) new_writer) \<or> \<not> authenticated_route rt"
  shows "same_data st (sys_act d cfg (Request m rt r) st)"
proof -
  obtain f st1 w' where s: "serve d cfg m rt (r\<lparr>ctx_api_key := None\<rparr>) st new_writer = (f, st1, w')" by (metis prod.exhaust)
  then have "same_data st st1"
  proof (cases rule: serve_state)
    case (routed f1 w1 st2 w2 l)
    then show ?thesis using unauthenticated_idle [OF _ routed(2)] assms by simp
  qed simp
  then show ?thesis using s by simp
qed

lemma w_ip_after: "fst (lims_after d e q (i, m, p)) = i"
  by (auto simp: lims_after_def split: option.splits)

lemma ip_limiter_runs:
  assumes "dep_allow d = allow_at"
  shows "w_ip (sys_act d cfg a st) = (case ip_call d cfg a st of None \<Rightarrow> w_ip st | Some c \<Rightarrow> snd (do_call c (w_ip st)))"
proof (cases a)
  case (Request m rt r)
  have "w_ip (sys_act d cfg a st) = fst (lims (sys_act d cfg a st))" by (simp add: lims_def)
  then show ?thesis
    using request_lims(1) [OF refl, of d cfg m rt r st] Request assms
    by (simp add: w_ip_after ip_after_def split: option.splits)
qed simp

lemma ip_hit:
  assumes "dep_allow d = allow_at" and "RateLimitIPEnabled cfg" and "acts_from d cfg addr a st"
  shows "\<exists>c. ip_call d cfg a st = Some c \<and> bucket c = ''ip:'' @ addr \<and> fst (fst (do_call c (w_ip st)))"
proof (cases a)
  case (Request m rt r)
  let ?r = "r\<lparr>ctx_api_key := None\<rparr>"
  have eff: "clientIP r (TrustProxyHeaders cfg) = addr" "\<not> same_data st (sys_act d cfg (Request m rt r) st)"
    using assms(3) Request by simp_all
  then have "fst (cors d cfg ?r new_writer)" "behind_limit rt" using idle_request authenticated_behind by blast+
  then have q: "ip_query d cfg rt ?r = Some (''ip:'' @ addr)" using assms(2) eff(1) by (simp add: ip_query_def)
  have "ip_grants d (m_ip m) (ip_query d cfg rt ?r) (w_ip st)" using request_lims(2) [OF refl eff(2)] by blast
  then show ?thesis using Request q assms(1) by (simp add: ip_grants_def)
qed (use assms(3) in simp)

lemma run_ok_less: "run_ok K n l \<Longrightarrow> m \<le> n \<Longrightarrow> run_ok K m l"
  by (fastforce simp: run_ok_def headroom_def)

lemma limited_hits:
  fixes L :: "'st \<Rightarrow> MemoryLimiter"
  assumes "\<And>a st. L (exec a st) = (case call_of a st of None \<Rightarrow> L st | Some c \<Rightarrow> snd (do_call c (L st)))"
    and "\<And>a st. hit a st \<Longrightarrow> \<exists>c. call_of a st = Some c \<and> bucket c = k \<and> fst (fst (do_call c (L st)))"
    and times: "\<And>a s c. a \<in> set as \<Longrightarrow> call_of a s = Some c \<Longrightarrow>
      call_at c = tm a \<and> enumerates (order c) \<and> t \<le> tm a \<and> tm a < t + window (L st)"
    and "sorted (map tm as)" and K: "\<forall>c \<in> set (limiter_calls call_of exec as st). bucket c \<in> K"
    and "finite K" and "[] \<notin> K" and ok: "run_ok K (length as) (L st)" and "0 < window (L st)" and "0 \<le> lim_max (L st)"
  shows "int (hits hit exec as st) \<le> 2 * lim_max (L st)"
proof -
  let ?cs = "limiter_calls call_of exec as st"
  have "int (hits hit exec as st) \<le> granted do_call bucket k ?cs (L st)"
    by (rule hits_granted [where L = L]) (use assms(1,2) in auto)
  also have "\<dots> \<le> 2 * lim_max (L st)"
  proof (rule memory_sliding_bound [where K = K and t = t])
    show "run_ok K (length ?cs) (L st)" using ok limiter_calls_length by (rule run_ok_less)
    have "sorted (map call_at ?cs)"
      by (rule limiter_calls_sorted [of tm]) (use assms(4) times in auto)
    moreover have "\<forall>c \<in> set ?cs. t \<le> call_at c" by (rule limiter_calls_all) (use times in fastforce)
    ultimately show "sorted (t # map call_at ?cs)" by simp
    have "\<forall>c \<in> set ?cs. enumerates (order c) \<and> call_at c < t + window (L st)"
      by (rule limiter_calls_all) (use times in fastforce)
    then show "\<forall>c \<in> set ?cs. bucket c \<in> K \<and> enumerates (order c) \<and> call_at c < t + window (L st)" using K by blast
  qed (use assms in simp_all)
  finally show ?thesis .
qed

definition rank_limiter :: "bool \<Rightarrow> ('k, 't, 'u, 'l) world \<Rightarrow> 'l" where
  "rank_limiter partner st = (if partner then w_partner st else w_member st)"

lemma rank_limiter_lims: "rank_limiter partner st = (case lims st of (i, m, p) \<Rightarrow> if partner then p else m)"
  by (simp add: rank_limiter_def lims_def)

lemma rank_limiter_runs:
  assumes "dep_allow d = allow_at"
  shows "rank_limiter partner (sys_act d cfg a st) =
    (case rank_call d cfg partner a st of None \<Rightarrow> rank_limiter partner st | Some c \<Rightarrow> snd (do_call c (rank_limiter partner st)))"
proof (cases a)
  case (Request m rt r)
  show ?thesis
    unfolding rank_limiter_lims using request_lims(1) [OF refl, of d cfg m rt r st] Request assms
    by (auto simp: lims_after_def lims_def split: option.splits)
next
  case (Record now n)
  then show ?thesis by (simp add: rank_limiter_def)
qed

lemma rank_hit:
  assumes "dep_allow d = allow_at" and "RateLimitEnabled cfg" and "acts_with d cfg partner i a st"
  shows "\<exists>c. rank_call d cfg partner a st = Some c \<and> bucket c = ''key:'' @ FormatInt i \<and>
    fst (fst (do_call c (rank_limiter partner st)))"
proof (cases a)
  case (Request m rt r)
  let ?r = "r\<lparr>ctx_api_key := None\<rparr>"
  have eff: "\<not> same_data st (sys_act d cfg (Request m rt r) st)" using assms(3) Request by simp
  obtain k where k: "admitted_key d m st r = Some k" "ID k = i" "Rank k \<noteq> ''admin''" "(Rank k = ''partner'') = partner"
    using assms(3) Request by (auto split: option.splits)
  have "admitted_key d m st ?r = Some k" using k(1) by simp
  then have kq: "key_query d cfg m st ?r = Some (partner, ''key:'' @ FormatInt i)"
    using k(2-) assms(2) by (simp add: key_query_def rank_bucket_def)
  have go: "fst (cors d cfg ?r new_writer)" "authenticated_route rt" using idle_request eff by blast+
  have g: "ip_grants d (m_ip m) (ip_query d cfg rt ?r) (w_ip st)"
    "rank_grants d (m_key m) (rank_query d cfg m rt ?r st) (w_ip st, w_member st, w_partner st)"
    using request_lims(2) [OF refl eff] by blast+
  have "rank_query d cfg m rt ?r st = Some (partner, ''key:'' @ FormatInt i)"
    using go g(1) kq by (simp add: rank_query_def)
  then show ?thesis using Request g(2) assms(1) by (simp add: rank_grants_def rank_limiter_def)
qed (use assms(3) in simp)

text \<open>
  C22: The address limit holds for the whole server. For requests served whole, one after another in any order, with usage
  recorders run anywhere between them: in any interval of one window, at most twice the configured number of requests from one
  client address have any effect on keys, statistics or upstream, whatever routes and keys they use and whatever
  other clients do. The limiters are in memory, the clock does not go back, and \<open>run_ok\<close> asks that all buckets of
  the addresses seen fit the 10000 entries of the map: if there are more addresses, \<^verbatim>\<open>evictOldest\<close> may drop a live bucket,
  and its address starts again.
\<close>

theorem client_effects_bounded:
  assumes "dep_allow d = allow_at" and "RateLimitIPEnabled cfg"
    and "lim_max (w_ip st) = RateLimitIPMax cfg" and "window (w_ip st) = RateLimitIPWindow cfg"
    and "0 \<le> RateLimitIPMax cfg" and "0 < RateLimitIPWindow cfg"
    and "finite K" and "[] \<notin> K" and "run_ok K (length as) (w_ip st)"
    and "\<forall>m rt r. Request m rt r \<in> set as \<longrightarrow> ''ip:'' @ clientIP r (TrustProxyHeaders cfg) \<in> K"
    and "clocked t as" and "\<forall>a \<in> set as. act_time a < t + RateLimitIPWindow cfg"
  shows "int (hits (acts_from d cfg addr) (sys_act d cfg) as st) \<le> 2 * RateLimitIPMax cfg"
proof -
  note sorted = clocked_sorted [OF assms(11)]
  have times: "call_at c = ip_time a \<and> enumerates (order c) \<and> t \<le> ip_time a \<and> ip_time a < t + window (w_ip st)"
    if a: "a \<in> set as" "ip_call d cfg a s = Some c" for a s c
  proof (cases a)
    case (Request m rt r)
    then have "c = mem_call (m_ip m) (''ip:'' @ clientIP r (TrustProxyHeaders cfg))"
      using a(2) by (auto simp: ip_query_def split: if_splits)
    moreover have "enumerates (fst (m_ip m))" "ip_time a \<le> act_time a"
      using clocked_order [OF assms(11)] a(1) Request by auto
    moreover have "t \<le> ip_time a" using sorted a(1) by auto
    ultimately show ?thesis using assms(4,12) a(1) Request by fastforce
  qed (use a(2) in simp)
  have K: "\<forall>c \<in> set (limiter_calls (ip_call d cfg) (sys_act d cfg) as st). bucket c \<in> K"
  proof (rule limiter_calls_all)
    show "bucket c \<in> K" if "a \<in> set as" "ip_call d cfg a s = Some c" for a s c
    proof (cases a)
      case (Request m rt r)
      then have "bucket c = ''ip:'' @ clientIP r (TrustProxyHeaders cfg)"
        using that(2) by (auto simp: ip_query_def split: if_splits)
      then show ?thesis using assms(10) that(1) Request by metis
    qed (use that(2) in simp)
  qed
  have "int (hits (acts_from d cfg addr) (sys_act d cfg) as st) \<le> 2 * lim_max (w_ip st)"
    by (rule limited_hits [where L = w_ip and K = K, OF ip_limiter_runs ip_hit times _ K])
      (use assms sorted in auto)
  then show ?thesis using assms(3) by simp
qed

text \<open>The buckets of the keys with identities up to \<open>n\<close>.\<close>

definition key_buckets :: "nat \<Rightarrow> string set" where
  "key_buckets n = (\<lambda>i. ''key:'' @ FormatInt (int i)) ` {1..n}"

lemma key_buckets: "finite (key_buckets n)" "[] \<notin> key_buckets n" "0 < i \<Longrightarrow> i \<le> int n \<Longrightarrow> ''key:'' @ FormatInt i \<in> key_buckets n"
  by (auto simp: key_buckets_def intro!: image_eqI [of _ _ "nat i"])


section \<open>Three requests against a limit of one\<close>

definition limited_cfg :: Config where
  "limited_cfg = default_config\<lparr>RateLimitEnabled := True, RateLimitMemberMax := 1, RateLimitWindow := 60,
     RateLimitIPEnabled := True, RateLimitIPMax := 1, RateLimitIPWindow := 60\<rparr>"

definition limited_world :: "(KeyStore, StatsStore, http_request list, MemoryLimiter) world" where
  "limited_world = sample_world\<lparr>w_member := NewMemory 1 60, w_ip := NewMemory 1 60\<rparr>"

definition three_requests :: "clocked_action list" where
  "three_requests = [Request sample_moment TwGet sample_auth, Record 5 0, Request sample_moment TwGet sample_auth,
     Request sample_moment TwGet sample_auth]"

lemma three_requests_ok:
  "clocked 5 three_requests" "length three_requests = 4"
  "\<forall>a \<in> set three_requests. act_time a < 5 + 60"
  by (simp_all add: three_requests_def sample_moment_def enumerates_def)

lemma NewMemory_run_ok: "int n \<le> MaxInt64 \<Longrightarrow> card K \<le> 10000 \<Longrightarrow> run_ok K n (NewMemory mx win)"
  by (simp add: run_ok_def headroom_def limiter_inv_def NewMemory_def)

theorem client_effects_bounded_witness:
  "hits (acts_from sample_deps limited_cfg (clientIP sample_auth False)) (sys_act sample_deps limited_cfg) three_requests limited_world \<le> 2"
proof -
  let ?K = "{''ip:'' @ clientIP sample_auth (TrustProxyHeaders limited_cfg)}"
  have al: "dep_allow sample_deps = allow_at" by (simp add: sample_deps_def)
  have ok: "run_ok ?K (length three_requests) (w_ip limited_world)"
    by (simp add: limited_world_def NewMemory_run_ok three_requests_ok)
  have "int (hits (acts_from sample_deps limited_cfg (clientIP sample_auth False)) (sys_act sample_deps limited_cfg)
      three_requests limited_world) \<le> 2 * RateLimitIPMax limited_cfg"
    by (rule client_effects_bounded [OF al _ _ _ _ _ _ _ ok _ three_requests_ok(1)])
      (use three_requests_ok(3) in \<open>auto simp: limited_cfg_def limited_world_def NewMemory_def three_requests_def\<close>)
  then show ?thesis by (simp add: limited_cfg_def)
qed


end
