(* ===== verification/Json_Text.thy ===== *)
theory Json_Text
  imports Net_Url
begin

text \<open>
  JSON text as Go's \<^verbatim>\<open>encoding/json\<close> reads and writes it: UTF-8, string literals with their escapes, and a parser
  with the library's nesting limit. A document is a tree whose strings are still the bytes between the
  quotes, as the library hands them to the value they are stored in; \<open>unquote\<close> reads them, \<open>quote\<close>
  writes them with the HTML-safe escapes of \<^verbatim>\<open>json.Marshal\<close>.
\<close>

section \<open>UTF-8\<close>

abbreviation byte :: "char \<Rightarrow> nat" where
  "byte c \<equiv> of_char c"

definition is_cont :: "char \<Rightarrow> bool" where
  "is_cont c \<longleftrightarrow> 0x80 \<le> byte c \<and> byte c \<le> 0xBF"

text \<open>\<^verbatim>\<open>utf8.DecodeRune\<close>: the size of the encoding a string starts with, \<open>None\<close> where it gives \<^verbatim>\<open>RuneError\<close> of size 1.\<close>

definition second_ok :: "nat \<Rightarrow> char \<Rightarrow> bool" where
  "second_ok a c \<longleftrightarrow>
     (if a = 0xE0 then 0xA0 else if a = 0xF0 then 0x90 else 0x80) \<le> byte c \<and>
     byte c \<le> (if a = 0xED then 0x9F else if a = 0xF4 then 0x8F else 0xBF)"

definition rune_size :: "bytes \<Rightarrow> nat option" where
  "rune_size s =
     (case s of
        [] \<Rightarrow> None
      | c # r \<Rightarrow>
          (let a = byte c in
           if a < 0x80 then Some 1
           else if 0xC2 \<le> a \<and> a \<le> 0xDF then (case r of x # _ \<Rightarrow> if is_cont x then Some 2 else None | _ \<Rightarrow> None)
           else if 0xE0 \<le> a \<and> a \<le> 0xEF then
             (case r of x # y # _ \<Rightarrow> if second_ok a x \<and> is_cont y then Some 3 else None | _ \<Rightarrow> None)
           else if 0xF0 \<le> a \<and> a \<le> 0xF4 then
             (case r of x # y # z # _ \<Rightarrow> if second_ok a x \<and> is_cont y \<and> is_cont z then Some 4 else None | _ \<Rightarrow> None)
           else None))"

lemma rune_size_ascii [simp]: "byte c < 128 \<Longrightarrow> rune_size (c # r) = Some 1"
  by (simp add: rune_size_def)

lemma second_ok_high: "second_ok a x \<Longrightarrow> 128 \<le> byte x"
  by (auto simp: second_ok_def split: if_splits)

text \<open>A valid encoding is valid whatever follows it, and none of its bytes is ASCII unless it is a single one.\<close>

lemma rune_size_chunk:
  assumes "rune_size (c # r) = Some n"
  shows "rune_size (c # take (n - 1) r @ x) = Some n" "n - 1 \<le> length r" "0 < n"
    "\<not> byte c < 128 \<Longrightarrow> list_all (\<lambda>d. 128 \<le> byte d) (c # take (n - 1) r)"
  using assms by (auto simp: rune_size_def Let_def is_cont_def second_ok_high numeral_eq_Suc [symmetric] split: if_splits list.splits)

definition error_rune :: bytes where
  "error_rune = [CHR 0xEF, CHR 0xBF, CHR 0xBD]"

text \<open>\<^verbatim>\<open>strings.ToValidUTF8\<close> with the replacement character, byte by byte: what a string is after a trip through JSON.\<close>

fun to_valid :: "bytes \<Rightarrow> bytes" where
  "to_valid [] = []"
| "to_valid (c # cs) =
     (case rune_size (c # cs) of
        None \<Rightarrow> error_rune @ to_valid cs
      | Some n \<Rightarrow> c # take (n - 1) cs @ to_valid (drop (n - 1) cs))"

fun valid_utf8 :: "bytes \<Rightarrow> bool" where
  "valid_utf8 [] = True"
| "valid_utf8 (c # cs) =
     (case rune_size (c # cs) of
        None \<Rightarrow> False
      | Some n \<Rightarrow> valid_utf8 (drop (n - 1) cs))"

lemma to_valid_id: "valid_utf8 s \<Longrightarrow> to_valid s = s"
  by (induction s rule: valid_utf8.induct) (auto split: option.splits)

lemma valid_utf8_ascii: "list_all (\<lambda>c. byte c < 128) s \<Longrightarrow> valid_utf8 s"
  by (induction s) simp_all

definition EncodeRune :: "nat \<Rightarrow> bytes" where
  "EncodeRune r =
     (if r < 0x80 then [char_of r]
      else if r < 0x800 then [char_of (0xC0 + r div 64), char_of (0x80 + r mod 64)]
      else if r < 0x10000 then
        [char_of (0xE0 + r div 4096), char_of (0x80 + r div 64 mod 64), char_of (0x80 + r mod 64)]
      else
        [char_of (0xF0 + r div 262144), char_of (0x80 + r div 4096 mod 64), char_of (0x80 + r div 64 mod 64),
         char_of (0x80 + r mod 64)])"

section \<open>String literals\<close>

definition hex4 :: "bytes \<Rightarrow> nat option" where
  "hex4 s =
     (case s of
        a # b # c # d # _ \<Rightarrow>
          (case (unhex a, unhex b, unhex c, unhex d) of
             (Some i, Some j, Some k, Some l) \<Rightarrow> Some (4096 * i + 256 * j + 16 * k + l)
           | _ \<Rightarrow> None)
      | _ \<Rightarrow> None)"

text \<open>What follows \<^verbatim>\<open>\u\<close>: the rune, and the bytes it takes; two escapes for a surrogate pair.\<close>

definition u_escape :: "bytes \<Rightarrow> (nat \<times> nat) option" where
  "u_escape s =
     (case hex4 s of
        None \<Rightarrow> None
      | Some r \<Rightarrow>
          if r < 0xD800 \<or> 0xE000 \<le> r then Some (r, 4)
          else
            (case drop 4 s of
               b # u # s' \<Rightarrow>
                 (case hex4 s' of
                    Some r' \<Rightarrow>
                      if b = CHR 0x5C \<and> u = CHR ''u'' \<and> r < 0xDC00 \<and> 0xDC00 \<le> r' \<and> r' < 0xE000
                      then Some (0x10000 + (r - 0xD800) * 1024 + (r' - 0xDC00), 10) else Some (0xFFFD, 4)
                  | None \<Rightarrow> Some (0xFFFD, 4))
             | _ \<Rightarrow> Some (0xFFFD, 4)))"

definition short_escapes :: "(char \<times> char) list" where
  "short_escapes =
     [(CHR ''b'', CHR 0x08), (CHR ''f'', CHR 0x0C), (CHR ''n'', CHR 0x0A), (CHR ''r'', CHR 0x0D), (CHR ''t'', CHR 0x09),
      (CHR 0x5C, CHR 0x5C), (CHR ''/'', CHR ''/''), (CHR 0x22, CHR 0x22)]"

text \<open>\<^verbatim>\<open>unquote\<close> of a literal the scanner has accepted; the branches it has excluded give the empty string.\<close>

fun unquote :: "bytes \<Rightarrow> bytes" where
  "unquote [] = []"
| "unquote (c # cs) =
     (if c = CHR 0x5C then
        (case cs of
           [] \<Rightarrow> []
         | e # r \<Rightarrow>
             if e = CHR ''u'' then
               (case u_escape r of
                  None \<Rightarrow> []
                | Some (rr, n) \<Rightarrow> EncodeRune rr @ unquote (drop n r))
             else (case map_of short_escapes e of None \<Rightarrow> [] | Some d \<Rightarrow> d # unquote r))
      else
        (case rune_size (c # cs) of
           None \<Rightarrow> error_rune @ unquote cs
         | Some n \<Rightarrow> c # take (n - 1) cs @ unquote (drop (n - 1) cs)))"

definition hex_lower :: "nat \<Rightarrow> char" where
  "hex_lower n = (if n < 10 then char_of (48 + n) else char_of (87 + n))"

text \<open>The ASCII bytes that \<^verbatim>\<open>json.Marshal\<close> writes as they are (\<^verbatim>\<open>htmlSafeSet\<close>), and its escapes for the others.\<close>

definition html_safe :: "char \<Rightarrow> bool" where
  "html_safe c \<longleftrightarrow> 0x20 \<le> byte c \<and> c \<notin> set [CHR 0x22, CHR 0x5C, CHR ''<'', CHR ''>'', CHR ''&'']"

definition quote_ascii :: "char \<Rightarrow> bytes" where
  "quote_ascii c =
     (if html_safe c then [c]
      else if c = CHR 0x5C \<or> c = CHR 0x22 then [CHR 0x5C, c]
      else if c = CHR 0x08 then [CHR 0x5C, CHR ''b'']
      else if c = CHR 0x0C then [CHR 0x5C, CHR ''f'']
      else if c = CHR 0x0A then [CHR 0x5C, CHR ''n'']
      else if c = CHR 0x0D then [CHR 0x5C, CHR ''r'']
      else if c = CHR 0x09 then [CHR 0x5C, CHR ''t'']
      else [CHR 0x5C, CHR ''u'', CHR ''0'', CHR ''0'', hex_lower (byte c div 16), hex_lower (byte c mod 16)])"

definition quote_wide :: "bytes \<Rightarrow> bytes" where
  "quote_wide chunk =
     (if chunk = [CHR 0xE2, CHR 0x80, CHR 0xA8] then CHR 0x5C # ''u2028''
      else if chunk = [CHR 0xE2, CHR 0x80, CHR 0xA9] then CHR 0x5C # ''u2029''
      else chunk)"

fun quote :: "bytes \<Rightarrow> bytes" where
  "quote [] = []"
| "quote (c # cs) =
     (if byte c < 128 then quote_ascii c @ quote cs
      else
        (case rune_size (c # cs) of
           None \<Rightarrow> CHR 0x5C # ''ufffd'' @ quote cs
         | Some n \<Rightarrow> quote_wide (c # take (n - 1) cs) @ quote (drop (n - 1) cs)))"

text \<open>The escapes of a byte read back as that byte, whatever follows.\<close>

lemma unhex_zero: "unhex (CHR ''0'') = Some 0"
  by (simp add: unhex_def)

lemma unhex_hex_lower [simp]: "n < 16 \<Longrightarrow> unhex (hex_lower n) = Some n"
  by (simp add: unhex_def hex_lower_def Let_def)

lemma hex4_hex [simp]: "n < 16 \<Longrightarrow> m < 16 \<Longrightarrow> hex4 (CHR ''0'' # CHR ''0'' # hex_lower n # hex_lower m # x) = Some (16 * n + m)"
  by (simp add: hex4_def unhex_zero)

lemma unquote_ascii: "byte c < 128 \<Longrightarrow> unquote (quote_ascii c @ x) = c # unquote x"
proof -
  assume c: "byte c < 128"
  have div: "byte c div 16 < 16" "byte c mod 16 < 16" using c by simp_all
  have "u_escape (CHR ''0'' # CHR ''0'' # hex_lower (byte c div 16) # hex_lower (byte c mod 16) # x) = Some (byte c, 4)"
    using div c by (simp add: u_escape_def)
  moreover have "EncodeRune (byte c) = [c]" using c by (simp add: EncodeRune_def)
  ultimately show ?thesis using c by (simp add: quote_ascii_def html_safe_def short_escapes_def)
qed

lemma unquote_chunk:
  assumes "rune_size (c # cs) = Some n" and "\<not> byte c < 128"
  shows "unquote (c # take (n - 1) cs @ x) = c # take (n - 1) cs @ unquote x"
proof -
  have "c \<noteq> CHR 0x5C" using assms(2) by auto
  moreover have "rune_size (c # take (n - 1) cs @ x) = Some n" and "n - 1 \<le> length cs"
    using rune_size_chunk [OF assms(1)] by blast+
  ultimately show ?thesis by simp
qed

lemma unquote_wide:
  assumes "rune_size (c # cs) = Some n" and "\<not> byte c < 128"
  shows "unquote (quote_wide (c # take (n - 1) cs) @ x) = c # take (n - 1) cs @ unquote x"
proof -
  have "unquote (CHR 0x5C # CHR ''u'' # CHR ''2'' # CHR ''0'' # CHR ''2'' # CHR ''8'' # x) = [CHR 0xE2, CHR 0x80, CHR 0xA8] @ unquote x"
    "unquote (CHR 0x5C # CHR ''u'' # CHR ''2'' # CHR ''0'' # CHR ''2'' # CHR ''9'' # x) = [CHR 0xE2, CHR 0x80, CHR 0xA9] @ unquote x"
    by (simp_all add: u_escape_def hex4_def unhex_def EncodeRune_def char_of_def bit_iff_odd)
  then show ?thesis using unquote_chunk [OF assms] by (auto simp: quote_wide_def)
qed

lemma unquote_error: "unquote (CHR 0x5C # ''ufffd'' @ x) = error_rune @ unquote x"
  by (simp add: u_escape_def hex4_def unhex_def EncodeRune_def error_rune_def char_of_def bit_iff_odd)

lemma unquote_quote: "unquote (quote s) = to_valid s"
proof (induction s rule: quote.induct)
  case (2 c cs)
  show ?case
  proof (cases "byte c < 128")
    case True
    then show ?thesis using 2(1) by (simp add: unquote_ascii)
  next
    case False
    then show ?thesis
    proof (cases "rune_size (c # cs)")
      case None
      then show ?thesis using 2(2) [OF False] False unquote_error [of "quote cs"] by simp
    next
      case (Some n)
      then show ?thesis using 2(3) [OF False Some] False unquote_wide [OF Some False] by simp
    qed
  qed
qed simp

section \<open>The scanner\<close>

text \<open>A parsed value with the bytes after it, a syntax error, or an end of input before the value is complete.\<close>

datatype 'a parsed = Parsed 'a bytes | Bad | Short

fun map_parsed :: "('a \<Rightarrow> 'b) \<Rightarrow> 'a parsed \<Rightarrow> 'b parsed" where
  "map_parsed f (Parsed v r) = Parsed (f v) r"
| "map_parsed f Bad = Bad"
| "map_parsed f Short = Short"

definition is_space :: "char \<Rightarrow> bool" where
  "is_space c \<longleftrightarrow> c = CHR '' '' \<or> c = CHR 0x09 \<or> c = CHR 0x0D \<or> c = CHR 0x0A"

abbreviation skip_space :: "bytes \<Rightarrow> bytes" where
  "skip_space \<equiv> dropWhile is_space"

text \<open>The rest of a string literal: its bytes up to the closing quote.\<close>

fun scan_string :: "bytes \<Rightarrow> bytes parsed" where
  "scan_string [] = Short"
| "scan_string (c # cs) =
     (if c = CHR 0x22 then Parsed [] cs
      else if c = CHR 0x5C then
        (case cs of
           [] \<Rightarrow> Short
         | e # r \<Rightarrow>
             if e = CHR ''u'' then
               (if \<not> list_all (\<lambda>d. unhex d \<noteq> None) (take 4 r) then Bad
                else if length r < 4 then Short
                else map_parsed (\<lambda>t. c # e # take 4 r @ t) (scan_string (drop 4 r)))
             else if map_of short_escapes e = None then Bad
             else map_parsed (\<lambda>t. c # e # t) (scan_string r))
      else if byte c < 0x20 then Bad
      else map_parsed (\<lambda>t. c # t) (scan_string cs))"

lemma map_parsed_eq_Parsed: "map_parsed f p = Parsed v r \<longleftrightarrow> (\<exists>u. p = Parsed u r \<and> v = f u)"
  by (cases p) auto

lemma scan_string_split: "scan_string s = Parsed t r \<Longrightarrow> s = t @ CHR 0x22 # r"
proof (induction s arbitrary: t r rule: scan_string.induct)
  case (2 c cs)
  have take4: "take 4 x @ drop 4 x = x" for x :: bytes by simp
  show ?case
  proof (cases "c = CHR 0x5C")
    case True
    with 2 show ?thesis
      by (auto simp: map_parsed_eq_Parsed split: if_splits list.splits) (metis append.assoc append_Cons append_take_drop_id)
  qed (use 2 in \<open>auto simp: map_parsed_eq_Parsed split: if_splits\<close>)
qed simp

lemma scan_string_shorter: "scan_string s = Parsed t r \<Longrightarrow> length r < length s"
  by (drule scan_string_split) simp

text \<open>The scanner reads a quoted string as one literal, whatever the string.\<close>

lemma scan_ascii: "byte c < 128 \<Longrightarrow> scan_string (quote_ascii c @ x) = map_parsed (\<lambda>t. quote_ascii c @ t) (scan_string x)"
proof -
  assume c: "byte c < 128"
  have "byte c div 16 < 16" "byte c mod 16 < 16" using c by simp_all
  then show ?thesis using unhex_zero
    by (cases "scan_string x") (simp_all add: quote_ascii_def html_safe_def short_escapes_def)
qed

lemma scan_high: "list_all (\<lambda>d. 128 \<le> byte d) h \<Longrightarrow> scan_string (h @ x) = map_parsed (\<lambda>t. h @ t) (scan_string x)"
proof (induction h)
  case Nil
  then show ?case by (cases "scan_string x") simp_all
next
  case (Cons c h)
  then have "c \<noteq> CHR 0x22" "c \<noteq> CHR 0x5C" by auto
  with Cons show ?case by (cases "scan_string x") simp_all
qed

lemma scan_wide:
  assumes "list_all (\<lambda>d. 128 \<le> byte d) h"
  shows "scan_string (quote_wide h @ x) = map_parsed (\<lambda>t. quote_wide h @ t) (scan_string x)"
  using scan_high [OF assms] by (cases "scan_string x") (simp_all add: quote_wide_def unhex_def)

lemma scan_quote: "scan_string (quote s @ CHR 0x22 # x) = Parsed (quote s) x"
proof (induction s rule: quote.induct)
  case (2 c cs)
  show ?case
  proof (cases "byte c < 128")
    case True
    then show ?thesis using 2(1) by (simp add: scan_ascii)
  next
    case False
    then show ?thesis
    proof (cases "rune_size (c # cs)")
      case None
      then show ?thesis using 2(2) [OF False] False by (simp add: unhex_def)
    next
      case (Some n)
      then show ?thesis
        using 2(3) [OF False Some] False scan_wide [OF rune_size_chunk(4) [OF Some False]] by simp
    qed
  qed
qed simp

text \<open>Numbers: an integer part without leading zeros, an optional fraction, an optional exponent.\<close>

definition scan_digits :: "bytes \<Rightarrow> bytes parsed" where
  "scan_digits s =
     (case s of
        [] \<Rightarrow> Short
      | c # _ \<Rightarrow> if is_digit c then Parsed (takeWhile is_digit s) (dropWhile is_digit s) else Bad)"

definition scan_int :: "bytes \<Rightarrow> bytes parsed" where
  "scan_int s = (case s of c # r \<Rightarrow> if c = CHR ''0'' then Parsed [c] r else scan_digits s | [] \<Rightarrow> Short)"

definition scan_sign :: "char set \<Rightarrow> bytes \<Rightarrow> bytes \<times> bytes" where
  "scan_sign signs s = (case s of c # r \<Rightarrow> if c \<in> signs then ([c], r) else ([], s) | [] \<Rightarrow> ([], []))"

definition scan_frac :: "bytes \<Rightarrow> bytes parsed" where
  "scan_frac s =
     (case s of
        c # r \<Rightarrow> if c = CHR ''.'' then map_parsed (\<lambda>t. c # t) (scan_digits r) else Parsed [] s
      | [] \<Rightarrow> Parsed [] [])"

definition scan_exp :: "bytes \<Rightarrow> bytes parsed" where
  "scan_exp s =
     (case s of
        c # r \<Rightarrow>
          if c = CHR ''e'' \<or> c = CHR ''E''
          then (case scan_sign {CHR ''+'', CHR ''-''} r of (sg, r) \<Rightarrow> map_parsed (\<lambda>t. c # sg @ t) (scan_digits r))
          else Parsed [] s
      | [] \<Rightarrow> Parsed [] [])"

definition scan_number :: "bytes \<Rightarrow> bytes parsed" where
  "scan_number s =
     (case scan_sign {CHR ''-''} s of (sg, s) \<Rightarrow>
        (case scan_int s of
           Parsed i s \<Rightarrow>
             (case scan_frac s of
                Parsed f s \<Rightarrow> map_parsed (\<lambda>e. sg @ i @ f @ e) (scan_exp s)
              | Bad \<Rightarrow> Bad | Short \<Rightarrow> Short)
         | Bad \<Rightarrow> Bad | Short \<Rightarrow> Short))"

lemma scan_number_shorter: "scan_number s = Parsed t r \<Longrightarrow> length r < length s"
proof -
  have digits: "length r < length s" if "scan_digits s = Parsed t r" for s t r
  proof (cases s)
    case (Cons c cs)
    then have "is_digit c" "r = dropWhile is_digit cs" using that by (auto simp: scan_digits_def split: if_splits)
    then show ?thesis using length_dropWhile_le [of is_digit cs] Cons by simp
  qed (use that in \<open>simp add: scan_digits_def\<close>)
  have sign: "length r \<le> length s" if "scan_sign g s = (t, r)" for g s t r
    using that by (auto simp: scan_sign_def split: list.splits if_splits)
  have int: "length r < length s" if "scan_int s = Parsed t r" for s t r
    using that digits [of s t r] by (auto simp: scan_int_def split: list.splits if_splits)
  have frac: "length r \<le> length s" if "scan_frac s = Parsed t r" for s t r
    using that by (auto simp: scan_frac_def map_parsed_eq_Parsed split: list.splits if_splits dest!: digits)
  have exp: "length r \<le> length s" if "scan_exp s = Parsed t r" for s t r
    using that by (fastforce simp: scan_exp_def map_parsed_eq_Parsed split: list.splits if_splits prod.splits dest!: digits sign)
  assume "scan_number s = Parsed t r"
  then obtain sg s1 i s2 f s3 e where "scan_sign {CHR ''-''} s = (sg, s1)" "scan_int s1 = Parsed i s2" "scan_frac s2 = Parsed f s3"
    "scan_exp s3 = Parsed e r"
    by (auto simp: scan_number_def map_parsed_eq_Parsed split: prod.splits parsed.splits)
  then show ?thesis using sign int frac exp by (meson le_less_trans less_le_trans)
qed

fun scan_word :: "bytes \<Rightarrow> bytes \<Rightarrow> unit parsed" where
  "scan_word [] s = Parsed () s"
| "scan_word (w # ws) [] = Short"
| "scan_word (w # ws) (c # cs) = (if c = w then scan_word ws cs else Bad)"

lemma scan_word_append [simp]: "scan_word w (w @ s) = Parsed () s"
  by (induction w) simp_all

lemma scan_word_shorter: "scan_word w s = Parsed u r \<Longrightarrow> length r \<le> length s"
  by (induction w s rule: scan_word.induct) (auto split: if_splits)

lemma skip_space_shorter: "skip_space s = c # r \<Longrightarrow> length r < length s"
  using length_dropWhile_le [of is_space s] by simp

section \<open>Documents\<close>

datatype json =
    JNull
  | JBool bool
  | JNum bytes
  | JStr bytes \<comment> \<open>the bytes between the quotes\<close>
  | JArr "json list"
  | JObj "(bytes \<times> json) list"

text \<open>
  The parser. The first argument is how many more levels may be opened. The tests of lengths make the
  recursion terminate; they never fail (\<open>parse_shorter\<close>).
\<close>

function parse_value :: "nat \<Rightarrow> bytes \<Rightarrow> json parsed"
  and parse_elems :: "nat \<Rightarrow> bytes \<Rightarrow> json list parsed"
  and parse_members :: "nat \<Rightarrow> bytes \<Rightarrow> (bytes \<times> json) list parsed" where
  "parse_value n s =
     (case skip_space s of
        [] \<Rightarrow> Short
      | c # r \<Rightarrow>
          if c = CHR ''{'' then
            (if n = 0 then Bad
             else case skip_space r of
                [] \<Rightarrow> Short
              | d # r' \<Rightarrow> if d = CHR ''}'' then Parsed (JObj []) r' else map_parsed JObj (parse_members (n - 1) r))
          else if c = CHR ''['' then
            (if n = 0 then Bad
             else case skip_space r of
                [] \<Rightarrow> Short
              | d # r' \<Rightarrow> if d = CHR '']'' then Parsed (JArr []) r' else map_parsed JArr (parse_elems (n - 1) r))
          else if c = CHR 0x22 then map_parsed JStr (scan_string r)
          else if c = CHR ''n'' then map_parsed (\<lambda>_. JNull) (scan_word ''ull'' r)
          else if c = CHR ''t'' then map_parsed (\<lambda>_. JBool True) (scan_word ''rue'' r)
          else if c = CHR ''f'' then map_parsed (\<lambda>_. JBool False) (scan_word ''alse'' r)
          else map_parsed JNum (scan_number (c # r)))"
| "parse_elems n s =
     (case parse_value n s of
        Parsed v r \<Rightarrow>
          (if length r < length s then
             (case skip_space r of
                [] \<Rightarrow> Short
              | c # r' \<Rightarrow>
                  if c = CHR '','' then map_parsed (\<lambda>vs. v # vs) (parse_elems n r')
                  else if c = CHR '']'' then Parsed [v] r'
                  else Bad)
           else Bad)
      | Bad \<Rightarrow> Bad
      | Short \<Rightarrow> Short)"
| "parse_members n s =
     (case skip_space s of
        [] \<Rightarrow> Short
      | q # s1 \<Rightarrow>
          if q \<noteq> CHR 0x22 then Bad
          else case scan_string s1 of
             Parsed k s2 \<Rightarrow>
               (case skip_space s2 of
                  [] \<Rightarrow> Short
                | c # s3 \<Rightarrow>
                    if c \<noteq> CHR '':'' then Bad
                    else if \<not> length s3 < length s then Bad
                    else case parse_value n s3 of
                       Parsed v r \<Rightarrow>
                         (if length r < length s then
                            (case skip_space r of
                               [] \<Rightarrow> Short
                             | d # r' \<Rightarrow>
                                 if d = CHR '','' then map_parsed (\<lambda>ms. (k, v) # ms) (parse_members n r')
                                 else if d = CHR ''}'' then Parsed [(k, v)] r'
                                 else Bad)
                          else Bad)
                     | Bad \<Rightarrow> Bad
                     | Short \<Rightarrow> Short)
           | Bad \<Rightarrow> Bad
           | Short \<Rightarrow> Short)"
  by pat_completeness auto

termination
proof (relation "measure (\<lambda>x. case x of Inl (n, s) \<Rightarrow> 2 * length s | Inr (Inl (n, s)) \<Rightarrow> 2 * length s + 1
    | Inr (Inr (n, s)) \<Rightarrow> 2 * length s + 1)", goal_cases)
  case 1
  show ?case by simp
qed (auto dest!: skip_space_shorter)

declare parse_value.simps [simp del] parse_elems.simps [simp del] parse_members.simps [simp del]

lemma parse_shorter:
  "parse_value n s = Parsed v r \<Longrightarrow> length r < length s"
  "parse_elems n s = Parsed vs r \<Longrightarrow> length r < length s"
  "parse_members n s = Parsed ms r \<Longrightarrow> length r < length s"
proof (induction n s and n s and n s arbitrary: v r and vs r and ms r
    rule: parse_value_parse_elems_parse_members.induct)
  case (1 n s)
  obtain c t where c: "skip_space s = c # t" using 1(3) by (auto simp: parse_value.simps split: list.splits)
  have t: "length t < length s" by (rule skip_space_shorter [OF c])
  have open_container: "length r < length s"
    if "skip_space t = d # t'" "length r \<le> length t'" for d t'
    using skip_space_shorter [OF that(1)] that(2) t by simp
  note p = 1(3) [unfolded parse_value.simps [of n s] c list.case]
  consider "c = CHR ''{''" | "c = CHR ''[''" "c \<noteq> CHR ''{''"
    | "length r \<le> length t \<or> (\<exists>u. scan_number (c # t) = Parsed u r)"
  proof -
    have "length r \<le> length t \<or> (\<exists>u. scan_number (c # t) = Parsed u r)" if "c \<noteq> CHR ''{''" "c \<noteq> CHR ''[''"
      using p that by (auto simp: map_parsed_eq_Parsed split: if_splits dest: scan_string_shorter scan_word_shorter)
    then show thesis using that by blast
  qed
  then show ?case
  proof cases
    case 1
    with p obtain d t' where d: "n \<noteq> 0" "skip_space t = d # t'" by (auto split: if_splits list.splits)
    show ?thesis
    proof (cases "d = CHR ''}''")
      case False
      then obtain ms where "parse_members (n - 1) t = Parsed ms r" using p 1 d by (auto simp: map_parsed_eq_Parsed)
      then show ?thesis using "1.IH"(1) [OF c 1 d False] t by simp
    qed (use p 1 d open_container [OF d(2)] in simp)
  next
    case 2
    with p obtain d t' where d: "n \<noteq> 0" "skip_space t = d # t'" by (auto split: if_splits list.splits)
    show ?thesis
    proof (cases "d = CHR '']''")
      case False
      then obtain vs where "parse_elems (n - 1) t = Parsed vs r" using p 2 d by (auto simp: map_parsed_eq_Parsed)
      then show ?thesis using "1.IH"(2) [OF c 2(2,1) d False] t by simp
    qed (use p 2 d open_container [OF d(2)] in simp)
  next
    case 3
    then have "length r < length (c # t)" using scan_number_shorter by fastforce
    then show ?thesis using t by simp
  qed
next
  case (2 n s)
  from 2(3) obtain v q where v: "parse_value n s = Parsed v q" "length q < length s"
    by (auto simp: parse_elems.simps [of n s] split: parsed.splits if_splits)
  with 2(3) obtain c t where c: "skip_space q = c # t"
    by (auto simp: parse_elems.simps [of n s] split: list.splits)
  note p = 2(3) [unfolded parse_elems.simps [of n s] v(1) parsed.case if_P [OF v(2)] c list.case]
  have t: "length t < length s" using skip_space_shorter [OF c] v(2) by simp
  show ?case
  proof (cases "c = CHR '',''")
    case True
    then obtain ws where "parse_elems n t = Parsed ws r" using p by (auto simp: map_parsed_eq_Parsed)
    then show ?thesis using "2.IH"(2) [OF v c True] t by simp
  qed (use p t in \<open>simp split: if_splits\<close>)
next
  case (3 n s)
  from 3(3) obtain q s1 where s1: "skip_space s = q # s1" "\<not> q \<noteq> CHR 0x22"
    by (auto simp: parse_members.simps [of n s] split: list.splits if_splits)
  note p1 = 3(3) [unfolded parse_members.simps [of n s] s1(1) list.case if_not_P [OF s1(2)]]
  from p1 obtain k s2 where s2: "scan_string s1 = Parsed k s2" by (auto split: parsed.splits)
  note p2 = p1 [unfolded s2 parsed.case]
  from p2 obtain c s3 where s3: "skip_space s2 = c # s3" "\<not> c \<noteq> CHR '':''" "\<not> \<not> length s3 < length s"
    by (auto split: list.splits if_splits)
  note p3 = p2 [unfolded s3(1) list.case if_not_P [OF s3(2)] if_not_P [OF s3(3)]]
  from p3 obtain v s4 where s4: "parse_value n s3 = Parsed v s4" "length s4 < length s" by (auto split: parsed.splits if_splits)
  note p4 = p3 [unfolded s4(1) parsed.case if_P [OF s4(2)]]
  from p4 obtain d t where d: "skip_space s4 = d # t" by (auto split: list.splits)
  note p5 = p4 [unfolded d list.case]
  have t: "length t < length s" using skip_space_shorter [OF d] s4(2) by simp
  show ?case
  proof (cases "d = CHR '',''")
    case True
    then obtain ns where "parse_members n t = Parsed ns r" using p5 by (auto simp: map_parsed_eq_Parsed)
    then show ?thesis using "3.IH"(2) [OF s1 s2 s3 s4 d True] t by simp
  qed (use p5 t in \<open>simp split: if_splits\<close>)
qed

section \<open>Rendering\<close>

text \<open>The compact form \<^verbatim>\<open>json.Marshal\<close> writes.\<close>

fun commas :: "bytes list \<Rightarrow> bytes" where
  "commas [] = []"
| "commas [x] = x"
| "commas (x # xs) = x @ CHR '','' # commas xs"

fun render :: "json \<Rightarrow> bytes" where
  "render JNull = ''null''"
| "render (JBool b) = (if b then ''true'' else ''false'')"
| "render (JNum t) = t"
| "render (JStr t) = CHR 0x22 # t @ [CHR 0x22]"
| "render (JArr vs) = CHR ''['' # commas (map render vs) @ '']''"
| "render (JObj ms) = CHR ''{'' # commas (map (\<lambda>(k, v). CHR 0x22 # k @ CHR 0x22 # CHR '':'' # render v) ms) @ ''}''"

text \<open>Documents that can be rendered: their literals are literals, and they open at most \<open>n\<close> levels.\<close>

definition literal_ok :: "bytes \<Rightarrow> bool" where
  "literal_ok t \<longleftrightarrow> scan_string (t @ [CHR 0x22]) = Parsed t []"

definition number_ok :: "bytes \<Rightarrow> bool" where
  "number_ok t \<longleftrightarrow> scan_number t = Parsed t []"

fun fits :: "nat \<Rightarrow> json \<Rightarrow> bool" where
  "fits n (JNum t) = number_ok t"
| "fits n (JStr t) = literal_ok t"
| "fits n (JArr vs) = (0 < n \<and> list_all (fits (n - 1)) vs)"
| "fits n (JObj ms) = (0 < n \<and> list_all (\<lambda>(k, v). literal_ok k \<and> fits (n - 1) v) ms)"
| "fits n j = True"

lemma scan_string_append: "scan_string s = Parsed t r \<Longrightarrow> scan_string (s @ x) = Parsed t (r @ x)"
proof (induction s arbitrary: t r rule: scan_string.induct)
  case (2 c cs)
  show ?case
  proof (cases "c = CHR 0x5C \<and> (\<exists>r. cs = CHR ''u'' # r)")
    case True
    then obtain q where q: "c = CHR 0x5C" "cs = CHR ''u'' # q" by blast
    then have q4: "list_all (\<lambda>d. unhex d \<noteq> None) (take 4 q)" "\<not> length q < 4"
      and m: "map_parsed (\<lambda>t. c # CHR ''u'' # take 4 q @ t) (scan_string (drop 4 q)) = Parsed t r"
      using 2(4) by (auto split: if_splits)
    then obtain u where u: "scan_string (drop 4 q) = Parsed u r" "t = c # CHR ''u'' # take 4 q @ u"
      by (auto simp: map_parsed_eq_Parsed)
    have "scan_string (drop 4 q @ x) = Parsed u (r @ x)"
      using 2(1) [of "CHR ''u''" q u r] q q4 u(1) by simp
    then show ?thesis using q q4 u(2) by simp
  next
    case False
    then show ?thesis using 2 by (fastforce simp: map_parsed_eq_Parsed split: if_splits list.splits)
  qed
qed simp

lemma literal_append: "literal_ok t \<Longrightarrow> scan_string (t @ CHR 0x22 # x) = Parsed t x"
  unfolding literal_ok_def by (drule scan_string_append [of _ _ _ x]) simp

lemma literal_quote [simp]: "literal_ok (quote s)"
  by (simp add: literal_ok_def scan_quote)

text \<open>What can follow a number without becoming part of it.\<close>

definition number_end :: "bytes \<Rightarrow> bool" where
  "number_end x \<longleftrightarrow> (\<forall>c r. x = c # r \<longrightarrow> \<not> is_digit c \<and> c \<notin> {CHR ''.'', CHR ''e'', CHR ''E''})"

lemma number_end_simps [simp]:
  "number_end []" "number_end (CHR '','' # x)" "number_end (CHR '']'' # x)" "number_end (CHR ''}'' # x)"
  by (simp_all add: number_end_def is_digit_def)

lemma digits_end: "number_end x \<Longrightarrow> takeWhile is_digit x = [] \<and> dropWhile is_digit x = x"
  by (cases x) (auto simp: number_end_def)

lemma scan_digits_append: "scan_digits s = Parsed t r \<Longrightarrow> number_end x \<Longrightarrow> scan_digits (s @ x) = Parsed t (r @ x)"
  using digits_end [of x]
  by (auto simp: scan_digits_def takeWhile_append dropWhile_append split: list.splits if_splits)
    (metis takeWhile_eq_all_conv)

lemma scan_number_append:
  assumes "scan_number s = Parsed t r" and "number_end x"
  shows "scan_number (s @ x) = Parsed t (r @ x)"
proof -
  obtain sg s1 i s2 f s3 e where p: "scan_sign {CHR ''-''} s = (sg, s1)" "scan_int s1 = Parsed i s2" "scan_frac s2 = Parsed f s3"
    "scan_exp s3 = Parsed e r" "t = sg @ i @ f @ e"
    using assms(1) by (auto simp: scan_number_def map_parsed_eq_Parsed split: prod.splits parsed.splits)
  have s1: "s1 \<noteq> []" using p(2) by (auto simp: scan_int_def)
  have "scan_sign {CHR ''-''} (s @ x) = (sg, s1 @ x)"
    using p(1) s1 by (auto simp: scan_sign_def split: list.splits if_splits)
  moreover have "scan_int (s1 @ x) = Parsed i (s2 @ x)"
    using p(2) scan_digits_append [of s1 i s2 x] assms(2) by (cases s1) (auto simp: scan_int_def split: if_splits)
  moreover have "scan_frac (s2 @ x) = Parsed f (s3 @ x)"
  proof (cases s2)
    case Nil
    then show ?thesis using p(3) assms(2) by (cases x) (auto simp: scan_frac_def number_end_def)
  next
    case (Cons c q)
    then show ?thesis using p(3) scan_digits_append [OF _ assms(2)] by (auto simp: scan_frac_def map_parsed_eq_Parsed split: if_splits)
  qed
  moreover have "scan_exp (s3 @ x) = Parsed e (r @ x)"
  proof (cases s3)
    case Nil
    then show ?thesis using p(4) assms(2) by (cases x) (auto simp: scan_exp_def number_end_def)
  next
    case (Cons c q)
    show ?thesis
    proof (cases "c = CHR ''e'' \<or> c = CHR ''E''")
      case True
      obtain g q' where g: "scan_sign {CHR ''+'', CHR ''-''} q = (g, q')" by fastforce
      then obtain d where d: "scan_digits q' = Parsed d r" "e = c # g @ d"
        using p(4) Cons True by (auto simp: scan_exp_def map_parsed_eq_Parsed)
      have "q' \<noteq> []" using d(1) by (auto simp: scan_digits_def)
      then have "scan_sign {CHR ''+'', CHR ''-''} (q @ x) = (g, q' @ x)"
        using g by (auto simp: scan_sign_def split: list.splits if_splits)
      then show ?thesis using Cons True d scan_digits_append [OF d(1) assms(2)] by (simp add: scan_exp_def)
    qed (use p(4) Cons in \<open>auto simp: scan_exp_def\<close>)
  qed
  ultimately show ?thesis using p(5) by (simp add: scan_number_def)
qed

section \<open>Round trip\<close>

lemma no_space [simp]:
  "\<not> is_space (CHR ''{'')" "\<not> is_space (CHR ''['')" "\<not> is_space (CHR '']'')" "\<not> is_space (CHR ''}'')" "\<not> is_space (CHR 0x22)"
  "\<not> is_space (CHR '':'')" "\<not> is_space (CHR '','')" "\<not> is_space (CHR ''n'')" "\<not> is_space (CHR ''t'')" "\<not> is_space (CHR ''f'')"
  by (simp_all add: is_space_def)

text \<open>A rendered value starts with a byte that is neither a space nor a closing bracket.\<close>

definition value_start :: "bytes \<Rightarrow> bool" where
  "value_start s \<longleftrightarrow> (\<exists>c r. s = c # r \<and> \<not> is_space c \<and> c \<noteq> CHR '']'' \<and> c \<noteq> CHR ''}'')"

lemma number_start:
  assumes "number_ok t"
  obtains c r where "t = c # r" "is_digit c \<or> c = CHR ''-''"
proof (cases t)
  case Nil
  then show ?thesis using assms by (simp add: number_ok_def scan_number_def scan_sign_def scan_int_def)
next
  case (Cons c r)
  then have "is_digit c \<or> c = CHR ''-''" using assms
    by (auto simp: number_ok_def scan_number_def scan_sign_def scan_int_def scan_digits_def is_digit_def split: if_splits)
  with Cons show ?thesis by (rule that)
qed

lemma render_start: "fits n j \<Longrightarrow> value_start (render j @ x)"
proof (cases j)
  case (JNum t)
  assume "fits n j"
  with JNum obtain c r where "t = c # r" "is_digit c \<or> c = CHR ''-''" by (auto elim: number_start)
  then show ?thesis using JNum by (auto simp: value_start_def is_space_def is_digit_def)
qed (simp_all add: value_start_def)

text \<open>
  The parser step by step on what \<open>render\<close> writes: an element before a comma and before the bracket, a member
  before a comma and before the brace.
\<close>

lemma parse_elems_step:
  assumes "\<And>x. number_end x \<Longrightarrow> parse_value n (render v @ x) = Parsed v x"
  shows "parse_elems n (render v @ CHR '']'' # x) = Parsed [v] x"
    and "parse_elems n (render v @ CHR '','' # x) = map_parsed (\<lambda>vs. v # vs) (parse_elems n x)"
  using assms [of "CHR '']'' # x"] assms [of "CHR '','' # x"]
    parse_shorter(1) [of n "render v @ CHR '']'' # x" v "CHR '']'' # x"] parse_shorter(1) [of n "render v @ CHR '','' # x" v "CHR '','' # x"]
  by (simp_all add: parse_elems.simps [of n "render v @ _"])

lemma parse_members_step:
  assumes "\<And>x. number_end x \<Longrightarrow> parse_value n (render v @ x) = Parsed v x" and "literal_ok k"
  shows "parse_members n (CHR 0x22 # k @ CHR 0x22 # CHR '':'' # render v @ CHR ''}'' # x) = Parsed [(k, v)] x"
    and "parse_members n (CHR 0x22 # k @ CHR 0x22 # CHR '':'' # render v @ CHR '','' # x) =
      map_parsed (\<lambda>ms. (k, v) # ms) (parse_members n x)"
  using assms(1) [of "CHR ''}'' # x"] assms(1) [of "CHR '','' # x"] literal_append [OF assms(2)]
    parse_shorter(1) [of n "render v @ CHR ''}'' # x" v "CHR ''}'' # x"] parse_shorter(1) [of n "render v @ CHR '','' # x" v "CHR '','' # x"]
  by (simp_all add: parse_members.simps [of n "CHR 0x22 # _"])

lemma parse_elems_render:
  assumes "\<And>v x. v \<in> set vs \<Longrightarrow> number_end x \<Longrightarrow> parse_value n (render v @ x) = Parsed v x" and "vs \<noteq> []"
  shows "parse_elems n (commas (map render vs) @ CHR '']'' # x) = Parsed vs x"
  using assms
proof (induction vs)
  case (Cons v vs)
  note step = parse_elems_step [of n v, OF Cons.prems(1) [of v]]
  show ?case
  proof (cases vs)
    case Nil
    then show ?thesis using step(1) [of x] by simp
  next
    case (Cons w ws)
    then show ?thesis using step(2) Cons.IH Cons.prems(1) by simp
  qed
qed simp

lemma parse_members_render:
  assumes "\<And>k v x. (k, v) \<in> set ms \<Longrightarrow> number_end x \<Longrightarrow> parse_value n (render v @ x) = Parsed v x"
    and "\<And>k v. (k, v) \<in> set ms \<Longrightarrow> literal_ok k" and "ms \<noteq> []"
  shows "parse_members n (commas (map (\<lambda>(k, v). CHR 0x22 # k @ CHR 0x22 # CHR '':'' # render v) ms) @ CHR ''}'' # x) = Parsed ms x"
  using assms
proof (induction ms)
  case (Cons m ms)
  obtain k v where m: "m = (k, v)" by fastforce
  have "(k, v) \<in> set (m # ms)" using m by simp
  note step = parse_members_step [of n v k, OF Cons.prems(1) [OF this] Cons.prems(2) [OF this]]
  show ?case
  proof (cases ms)
    case Nil
    then show ?thesis using step(1) [of x] m by simp
  next
    case (Cons p ps)
    have "parse_members n (commas (map (\<lambda>(k, v). CHR 0x22 # k @ CHR 0x22 # CHR '':'' # render v) ms) @ CHR ''}'' # x) = Parsed ms x"
      using Cons.IH Cons.prems(1,2) Cons by (metis list.distinct(1) list.set_intros(2))
    then show ?thesis using step(2) m Cons by simp
  qed
qed simp

lemma start_commas: "xs \<noteq> [] \<Longrightarrow> value_start (hd xs) \<Longrightarrow> value_start (commas xs @ x)"
  by (cases xs rule: commas.cases) (auto simp: value_start_def)

lemma value_startE: "value_start s \<Longrightarrow> (\<And>c r. skip_space s = c # r \<Longrightarrow> c \<noteq> CHR '']'' \<Longrightarrow> c \<noteq> CHR ''}'' \<Longrightarrow> P) \<Longrightarrow> P"
  by (auto simp: value_start_def)

lemma parse_render: "fits n j \<Longrightarrow> number_end x \<Longrightarrow> parse_value n (render j @ x) = Parsed j x"
proof (induction n j arbitrary: x rule: fits.induct)
  case (1 n t)
  then obtain c r where t: "t = c # r" "is_digit c \<or> c = CHR ''-''" by (auto elim: number_start)
  then have c: "\<not> is_space c" "c \<notin> {CHR ''{'', CHR ''['', CHR 0x22, CHR ''n'', CHR ''t'', CHR ''f''}"
    by (auto simp: is_space_def is_digit_def)
  have "scan_number (t @ x) = Parsed t x"
    using scan_number_append [of t t "[]" x] 1 by (simp add: number_ok_def)
  then show ?case using t c by (simp add: parse_value.simps)
next
  case (2 n t)
  then show ?case by (simp add: parse_value.simps literal_append)
next
  case (3 n vs)
  show ?case
  proof (cases "vs = []")
    case False
    have "value_start (commas (map render vs) @ CHR '']'' # x)"
      using False 3(2) render_start [of "n - 1" "hd vs" "[]"] by (intro start_commas) (auto simp: hd_map list_all_iff)
    moreover have "parse_elems (n - 1) (commas (map render vs) @ CHR '']'' # x) = Parsed vs x"
      using 3 False by (intro parse_elems_render) (auto simp: list_all_iff)
    ultimately show ?thesis using 3(2) by (auto simp: parse_value.simps elim!: value_startE)
  qed (use 3 in \<open>simp add: parse_value.simps\<close>)
next
  case (4 n ms)
  show ?case
  proof (cases "ms = []")
    case False
    then have "value_start (commas (map (\<lambda>(k, v). CHR 0x22 # k @ CHR 0x22 # CHR '':'' # render v) ms) @ CHR ''}'' # x)"
      by (intro start_commas) (auto simp: hd_map value_start_def split: prod.splits)
    moreover have "parse_members (n - 1) (commas (map (\<lambda>(k, v). CHR 0x22 # k @ CHR 0x22 # CHR '':'' # render v) ms) @ CHR ''}'' # x) =
        Parsed ms x"
      using 4 False by (intro parse_members_render) (auto simp: list_all_iff)
    ultimately show ?thesis using 4(2) by (auto simp: parse_value.simps elim!: value_startE)
  qed (use 4 in \<open>simp add: parse_value.simps\<close>)
qed (simp_all add: parse_value.simps scan_word_append [of "''ull''", simplified] scan_word_append [of "''rue''", simplified]
    scan_word_append [of "''alse''", simplified])

section \<open>Whole documents\<close>

abbreviation maxNestingDepth :: nat where
  "maxNestingDepth \<equiv> 10000"

text \<open>\<^verbatim>\<open>checkValid\<close>: one value with nothing but space around it.\<close>

definition parse_document :: "bytes \<Rightarrow> json option" where
  "parse_document s =
     (case parse_value maxNestingDepth s of Parsed j r \<Rightarrow> if skip_space r = [] then Some j else None | _ \<Rightarrow> None)"

lemma parse_document_render: "fits maxNestingDepth j \<Longrightarrow> parse_document (render j) = Some j"
  using parse_render [of maxNestingDepth j "[]"] by (simp add: parse_document_def)

end
