(* ===== verification/Json.thy ===== *)
theory Json
  imports Http Json_Text
begin

text \<open>
  The JSON of the program: what \<^verbatim>\<open>json.NewDecoder\<close>, \<^verbatim>\<open>json.Unmarshal\<close> and \<^verbatim>\<open>json.Marshal\<close> make of its structs.
  It gives instances of the decoders the handlers take as arguments and of the codec of the TrueMoney client,
  so that the handlers run on the bytes of a body, and it proves what reaches the services and the upstream.
\<close>

section \<open>Structs\<close>

text \<open>
  Field names match exactly or up to case (\<^verbatim>\<open>foldName\<close>). Of the letters outside ASCII only the long s and the
  Kelvin sign fold into ASCII, the alphabet of the program's field names.
\<close>

definition upper :: "char \<Rightarrow> char" where
  "upper c = (if 97 \<le> byte c \<and> byte c \<le> 122 then char_of (byte c - 32) else c)"

fun fold_name :: "bytes \<Rightarrow> bytes" where
  "fold_name [] = []"
| "fold_name (c # cs) =
     (if take 2 (c # cs) = [CHR 0xC5, CHR 0xBF] then CHR ''S'' # fold_name (drop 1 cs)
      else if take 3 (c # cs) = [CHR 0xE2, CHR 0x84, CHR 0xAA] then CHR ''K'' # fold_name (drop 2 cs)
      else upper c # fold_name cs)"

text \<open>A struct type: its fields under their folded names, each with the way a value is stored in it.\<close>

type_synonym 'a fields = "(string \<times> (json \<Rightarrow> 'a \<Rightarrow> 'a option)) list"

text \<open>
  The members of an object are stored one after the other, a later one over an earlier one. Unknown
  members are an error after \<^verbatim>\<open>DisallowUnknownFields\<close> and skipped without it. The library goes on after a
  type error and reports it at the end; no caller looks at the value then.
\<close>

fun decode_members :: "bool \<Rightarrow> 'a fields \<Rightarrow> (bytes \<times> json) list \<Rightarrow> 'a \<Rightarrow> 'a option" where
  "decode_members strict fs [] a = Some a"
| "decode_members strict fs ((k, v) # ms) a =
     (case map_of fs (fold_name (unquote k)) of
        None \<Rightarrow> if strict then None else decode_members strict fs ms a
      | Some f \<Rightarrow> (case f v a of None \<Rightarrow> None | Some a \<Rightarrow> decode_members strict fs ms a))"

definition decode_struct :: "bool \<Rightarrow> 'a fields \<Rightarrow> json \<Rightarrow> 'a \<Rightarrow> 'a option" where
  "decode_struct strict fs j a =
     (case j of JNull \<Rightarrow> Some a | JObj ms \<Rightarrow> decode_members strict fs ms a | _ \<Rightarrow> None)"

lemma decode_object: "decode_struct strict fs (JObj ms) a = decode_members strict fs ms a"
  by (simp add: decode_struct_def)

definition decode_string :: "json \<Rightarrow> string \<Rightarrow> string option" where
  "decode_string j old = (case j of JNull \<Rightarrow> Some old | JStr raw \<Rightarrow> Some (unquote raw) | _ \<Rightarrow> None)"

section \<open>Streams\<close>

text \<open>
  \<^verbatim>\<open>Decoder.readValue\<close>. Only the end of the stream before anything but space is \<^verbatim>\<open>io.EOF\<close>. A value without a
  closing bracket is complete once the next byte or the end of the stream is seen, so that a failing
  read takes its place. Which error the library gives is otherwise not distinguished.
\<close>

definition bracketed :: "json \<Rightarrow> bool" where
  "bracketed j \<longleftrightarrow> (case j of JArr _ \<Rightarrow> True | JObj _ \<Rightarrow> True | _ \<Rightarrow> False)"

definition read_value :: "stream \<Rightarrow> (json \<times> stream) result" where
  "read_value st =
     (case st of (bs, e) \<Rightarrow>
        if skip_space bs = [] then Inl (case e of None \<Rightarrow> Sentinel EOF | Some err \<Rightarrow> err)
        else
          (case parse_value maxNestingDepth bs of
             Bad \<Rightarrow> Inl (OtherError (Msg ''invalid JSON''))
           | Short \<Rightarrow> Inl (case e of None \<Rightarrow> OtherError (Msg ''unexpected EOF'') | Some err \<Rightarrow> err)
           | Parsed j rest \<Rightarrow>
               if rest = [] \<and> \<not> bracketed j
               then (case e of None \<Rightarrow> Inr (j, (rest, e)) | Some err \<Rightarrow> Inl err)
               else Inr (j, (rest, e))))"

definition decode_with :: "(json \<Rightarrow> 'a option) \<Rightarrow> stream \<Rightarrow> ('a \<times> stream) result" where
  "decode_with dec st =
     (case read_value st of
        Inl err \<Rightarrow> Inl err
      | Inr (j, st) \<Rightarrow> (case dec j of None \<Rightarrow> Inl (OtherError (Msg ''cannot unmarshal'')) | Some v \<Rightarrow> Inr (v, st)))"

text \<open>A decoder with \<^verbatim>\<open>DisallowUnknownFields\<close>; the second call has \<^verbatim>\<open>struct{}\<close> as its target.\<close>

definition struct_decoder :: "(json \<Rightarrow> 'a option) \<Rightarrow> 'a decoder" where
  "struct_decoder dec =
     \<lparr>Decode = decode_with dec,
      Decode_empty = \<lambda>st. map_sum id fst (decode_with (\<lambda>j. decode_struct True [] j ()) st)\<rparr>"

section \<open>The bodies of the API\<close>

definition tw_fields :: "TwRedeemRequest fields" where
  "tw_fields =
     [(''PHONE'', \<lambda>j a. map_option (\<lambda>s. a\<lparr>Phone := s\<rparr>) (decode_string j (Phone a))),
      (''GIFT'', \<lambda>j a. map_option (\<lambda>s. a\<lparr>Gift := s\<rparr>) (decode_string j (Gift a)))]"

definition tw_decoder :: "TwRedeemRequest decoder" where
  "tw_decoder = struct_decoder (\<lambda>j. decode_struct True tw_fields j \<lparr>Phone = [], Gift = []\<rparr>)"

text \<open>
  \<^verbatim>\<open>Time.UnmarshalJSON\<close> reads the bytes between the quotes, escapes included, as a strict RFC 3339 time
  (\<open>parseRFC3339\<close>, in nanoseconds since 1970), and if that fails with the layout of RFC 3339
  (\<open>parse_layout\<close>), which also takes an hour of one digit, a comma before the fraction and offsets of 24
  hours or 60 minutes.
\<close>

definition in_range :: "bytes \<Rightarrow> nat \<Rightarrow> nat \<Rightarrow> nat option" where
  "in_range s lo hi = (if list_all is_digit s \<and> lo \<le> dec_value s \<and> dec_value s \<le> hi then Some (dec_value s) else None)"

definition leap :: "nat \<Rightarrow> bool" where
  "leap y \<longleftrightarrow> y mod 4 = 0 \<and> (y mod 100 \<noteq> 0 \<or> y mod 400 = 0)"

definition month_days :: "nat \<Rightarrow> nat list" where
  "month_days y = [31, if leap y then 29 else 28, 31, 30, 31, 30, 31, 31, 30, 31, 30, 31]"

definition days_before :: "nat \<Rightarrow> nat \<Rightarrow> nat" where
  "days_before y m = 365 * y + (y + 3) div 4 - (y + 99) div 100 + (y + 399) div 400 + sum_list (take (m - 1) (month_days y))"

definition zone_offset :: "bytes \<Rightarrow> int option" where
  "zone_offset z =
     (if z = ''Z'' then Some 0
      else if length z = 6 \<and> (z ! 0 = CHR ''-'' \<or> z ! 0 = CHR ''+'') \<and> z ! 3 = CHR '':'' then
        (case (in_range (take 2 (drop 1 z)) 0 23, in_range (drop 4 z) 0 59) of
           (Some h, Some m) \<Rightarrow> Some ((if z ! 0 = CHR ''-'' then - 1 else 1) * int (3600 * h + 60 * m))
         | _ \<Rightarrow> None)
      else None)"

definition fraction :: "bytes \<Rightarrow> nat \<times> bytes" where
  "fraction s =
     (case s of
        p # d # r \<Rightarrow>
          if p = CHR ''.'' \<and> is_digit d
          then (dec_value (take 9 (takeWhile is_digit (d # r) @ replicate 9 (CHR ''0''))), dropWhile is_digit (d # r))
          else (0, s)
      | _ \<Rightarrow> (0, s))"

definition parseRFC3339 :: "bytes \<Rightarrow> time option" where
  "parseRFC3339 s =
     (if length s < 19 then None
      else if \<not> (s ! 4 = CHR ''-'' \<and> s ! 7 = CHR ''-'' \<and> s ! 10 = CHR ''T'' \<and> s ! 13 = CHR '':'' \<and> s ! 16 = CHR '':'') then None
      else
        (case (in_range (take 4 s) 0 9999, in_range (take 2 (drop 5 s)) 1 12) of
           (Some year, Some month) \<Rightarrow>
             (case (in_range (take 2 (drop 8 s)) 1 (month_days year ! (month - 1)), in_range (take 2 (drop 11 s)) 0 23,
                    in_range (take 2 (drop 14 s)) 0 59, in_range (take 2 (drop 17 s)) 0 59, fraction (drop 19 s)) of
                (Some day, Some hour, Some mi, Some sec, nsec, z) \<Rightarrow>
                  map_option (\<lambda>off. ((int (days_before year month + day - 1) - 719528) * 86400 +
                      int (3600 * hour + 60 * mi + sec) - off) * 1000000000 + int nsec) (zone_offset z)
              | _ \<Rightarrow> None)
         | _ \<Rightarrow> None))"

definition getnum :: "bool \<Rightarrow> bytes \<Rightarrow> (nat \<times> bytes) option" where
  "getnum fixed s =
     (case s of
        [] \<Rightarrow> None
      | c # r \<Rightarrow>
          if \<not> is_digit c then None
          else if r \<noteq> [] \<and> is_digit (hd r) then Some (dec_value [c, hd r], tl r)
          else if fixed then None
          else Some (dec_value [c], r))"

definition number_in :: "nat \<Rightarrow> nat \<Rightarrow> (nat \<times> bytes) option \<Rightarrow> (nat \<times> bytes) option" where
  "number_in lo hi n = Option.bind n (\<lambda>(x, s). if lo \<le> x \<and> x \<le> hi then Some (x, s) else None)"

definition skip_byte :: "char \<Rightarrow> bytes \<Rightarrow> bytes option" where
  "skip_byte c s = (if s \<noteq> [] \<and> hd s = c then Some (tl s) else None)"

definition layout_fraction :: "bytes \<Rightarrow> nat \<times> bytes" where
  "layout_fraction s =
     (case s of
        p # d # r \<Rightarrow> if p = CHR '','' \<and> is_digit d then fraction (CHR ''.'' # d # r) else fraction s
      | _ \<Rightarrow> (0, s))"

definition layout_offset :: "bytes \<Rightarrow> int option" where
  "layout_offset z =
     (if z = ''Z'' then Some 0
      else if length z = 6 \<and> (z ! 0 = CHR ''-'' \<or> z ! 0 = CHR ''+'') \<and> z ! 3 = CHR '':'' then
        (case (in_range (take 2 (drop 1 z)) 0 24, in_range (drop 4 z) 0 60) of
           (Some h, Some m) \<Rightarrow> Some ((if z ! 0 = CHR ''-'' then - 1 else 1) * int (3600 * h + 60 * m))
         | _ \<Rightarrow> None)
      else None)"

definition parse_layout :: "bytes \<Rightarrow> time option" where
  "parse_layout s =
     (if length s < 4 then None
      else
        Option.bind (in_range (take 4 s) 0 9999) (\<lambda>year.
        Option.bind (skip_byte (CHR ''-'') (drop 4 s)) (\<lambda>s.
        Option.bind (number_in 1 12 (getnum True s)) (\<lambda>(month, s).
        Option.bind (skip_byte (CHR ''-'') s) (\<lambda>s.
        Option.bind (number_in 1 (month_days year ! (month - 1)) (getnum True s)) (\<lambda>(day, s).
        Option.bind (skip_byte (CHR ''T'') s) (\<lambda>s.
        Option.bind (number_in 0 23 (getnum False s)) (\<lambda>(hour, s).
        Option.bind (skip_byte (CHR '':'') s) (\<lambda>s.
        Option.bind (number_in 0 59 (getnum True s)) (\<lambda>(mi, s).
        Option.bind (skip_byte (CHR '':'') s) (\<lambda>s.
        Option.bind (number_in 0 59 (getnum True s)) (\<lambda>(sec, s).
          (case layout_fraction s of
             (nsec, z) \<Rightarrow>
               map_option (\<lambda>off. ((int (days_before year month + day - 1) - 719528) * 86400 +
                   int (3600 * hour + 60 * mi + sec) - off) * 1000000000 + int nsec) (layout_offset z))))))))))))))"

definition UnmarshalTime :: "bytes \<Rightarrow> time option" where
  "UnmarshalTime s = (case parseRFC3339 s of Some t \<Rightarrow> Some t | None \<Rightarrow> parse_layout s)"

lemma UnmarshalTime_strict [simp]: "parseRFC3339 s = Some t \<Longrightarrow> UnmarshalTime s = Some t"
  by (simp add: UnmarshalTime_def)

text \<open>What is not RFC 3339 and still taken: an hour of one digit, 24 hours east of UTC.\<close>

lemma UnmarshalTime_loose:
  "parseRFC3339 ''1970-01-02T3:05:00+24:00'' = None"
  "UnmarshalTime ''1970-01-02T3:05:00+24:00'' = Some ((3 * 3600 + 5 * 60) * 1000000000)"
  by (simp_all add: UnmarshalTime_def parse_layout_def parseRFC3339_def in_range_def is_digit_def dec_value_def digit_val_def
      month_days_def days_before_def leap_def fraction_def layout_fraction_def layout_offset_def getnum_def number_in_def
      skip_byte_def)

text \<open>
  A slice field. The library stores into the backing array of the slice that is there, and \<^verbatim>\<open>null\<close> leaves a
  string as it is; with duplicate members it can therefore show strings of an earlier one. The second
  component of the state is the backing array.
\<close>

fun fill :: "string list \<Rightarrow> json list \<Rightarrow> string list option" where
  "fill arr [] = Some []"
| "fill arr (j # js) =
     (case decode_string j (case arr of [] \<Rightarrow> [] | b # _ \<Rightarrow> b) of
        None \<Rightarrow> None
      | Some s \<Rightarrow> map_option (\<lambda>ss. s # ss) (fill (tl arr) js))"

definition decode_scopes :: "json \<Rightarrow> CreateApiKeyInput \<times> string list \<Rightarrow> (CreateApiKeyInput \<times> string list) option" where
  "decode_scopes j a =
     (case a of (inp, arr) \<Rightarrow>
        (case j of
           JNull \<Rightarrow> Some (inp\<lparr>In_Scopes := []\<rparr>, [])
         | JArr js \<Rightarrow>
             if js = [] then Some (inp\<lparr>In_Scopes := []\<rparr>, [])
             else map_option (\<lambda>ss. (inp\<lparr>In_Scopes := ss\<rparr>, ss @ drop (length ss) arr)) (fill arr js)
         | _ \<Rightarrow> None))"

definition decode_expiry :: "json \<Rightarrow> CreateApiKeyInput \<times> string list \<Rightarrow> (CreateApiKeyInput \<times> string list) option" where
  "decode_expiry j a =
     (case a of (inp, arr) \<Rightarrow>
        (case j of
           JNull \<Rightarrow> Some (inp\<lparr>In_ExpiresAt := None\<rparr>, arr)
         | JStr raw \<Rightarrow> map_option (\<lambda>t. (inp\<lparr>In_ExpiresAt := Some t\<rparr>, arr)) (UnmarshalTime raw)
         | _ \<Rightarrow> None))"

definition key_fields :: "(CreateApiKeyInput \<times> string list) fields" where
  "key_fields =
     [(''NAME'', \<lambda>j a. map_option (\<lambda>s. ((fst a)\<lparr>In_Name := s\<rparr>, snd a)) (decode_string j (In_Name (fst a)))),
      (''RANK'', \<lambda>j a. map_option (\<lambda>s. ((fst a)\<lparr>In_Rank := s\<rparr>, snd a)) (decode_string j (In_Rank (fst a)))),
      (''SCOPES'', decode_scopes),
      (''EXPIRES_AT'', decode_expiry)]"

definition key_decoder :: "CreateApiKeyInput decoder" where
  "key_decoder = struct_decoder (\<lambda>j. map_option fst (decode_struct True key_fields j
     (\<lparr>In_Name = [], In_Rank = [], In_Scopes = [], In_ExpiresAt = None\<rparr>, [])))"

section \<open>The codec of the TrueMoney client\<close>

definition tm_Marshal :: "tmRequest \<Rightarrow> bytes" where
  "tm_Marshal r = render (JObj [(''mobile'', JStr (quote (Mobile r))), (''voucher_hash'', JStr (quote (VoucherHash r)))])"

definition status_fields :: "tmStatus fields" where
  "status_fields =
     [(''CODE'', \<lambda>j a. map_option (\<lambda>s. a\<lparr>Code := s\<rparr>) (decode_string j (Code a))),
      (''MESSAGE'', \<lambda>j a. map_option (\<lambda>s. a\<lparr>StatusMessage := s\<rparr>) (decode_string j (StatusMessage a)))]"

definition voucher_fields :: "tmVoucher fields" where
  "voucher_fields =
     [(''VOUCHER_ID'', \<lambda>j a. map_option (\<lambda>s. a\<lparr>VoucherID := s\<rparr>) (decode_string j (VoucherID a))),
      (''AMOUNT_BAHT'', \<lambda>j a. map_option (\<lambda>s. a\<lparr>AmountBaht := s\<rparr>) (decode_string j (AmountBaht a))),
      (''FULL_NAME'', \<lambda>j a. map_option (\<lambda>s. a\<lparr>FullName := s\<rparr>) (decode_string j (FullName a)))]"

definition profile_fields :: "string fields" where
  "profile_fields = [(''MOBILE_NUMBER'', decode_string)]"

definition data_fields :: "tmData fields" where
  "data_fields =
     [(''VOUCHER'', \<lambda>j a. map_option (\<lambda>v. a\<lparr>Voucher := v\<rparr>) (decode_struct False voucher_fields j (Voucher a))),
      (''REDEEMER_PROFILE'', \<lambda>j a. map_option (\<lambda>m. a\<lparr>MobileNumber := m\<rparr>) (decode_struct False profile_fields j (MobileNumber a)))]"

definition response_fields :: "tmResponse fields" where
  "response_fields =
     [(''STATUS'', \<lambda>j a. map_option (\<lambda>s. a\<lparr>Status := s\<rparr>) (decode_struct False status_fields j (Status a))),
      (''DATA'', \<lambda>j a. map_option (\<lambda>d. a\<lparr>Response_Data := d\<rparr>) (decode_struct False data_fields j (Response_Data a)))]"

definition empty_response :: tmResponse where
  "empty_response = \<lparr>Status = \<lparr>Code = [], StatusMessage = []\<rparr>,
     Response_Data = \<lparr>Voucher = \<lparr>VoucherID = [], AmountBaht = [], FullName = []\<rparr>, MobileNumber = []\<rparr>\<rparr>"

definition tm_Unmarshal :: "bytes \<Rightarrow> tmResponse result" where
  "tm_Unmarshal bs =
     (case parse_document bs of
        None \<Rightarrow> Inl (OtherError (Msg ''invalid JSON''))
      | Some j \<Rightarrow>
          (case decode_struct False response_fields j empty_response of
             None \<Rightarrow> Inl (OtherError (Msg ''cannot unmarshal''))
           | Some p \<Rightarrow> Inr p))"

text \<open>The client's environment with this codec; the network and the URL check of the library remain arguments.\<close>

definition go_upstream ::
  "(string \<Rightarrow> go_error option) \<Rightarrow> (string \<Rightarrow> bool) \<Rightarrow> (duration \<Rightarrow> http_request \<Rightarrow> 'w \<Rightarrow> http_response result \<times> 'w) \<Rightarrow> 'w upstream" where
  "go_upstream check is_ipv6 net =
     \<lparr>json_Marshal = \<lambda>r. Inr (tm_Marshal r), json_Unmarshal = tm_Unmarshal, check_url = check, ipv6_literal = is_ipv6, http_Do = net\<rparr>"

section \<open>Decoding what was written\<close>

lemma decode_string_quote: "valid_utf8 s \<Longrightarrow> decode_string (JStr (quote s)) old = Some s"
  by (simp add: decode_string_def unquote_quote to_valid_id)

lemma parse_skips: "list_all is_space ws \<Longrightarrow> parse_value n (ws @ s) = parse_value n s"
proof -
  assume "list_all is_space ws"
  then have "skip_space (ws @ s) = skip_space s" by (simp add: list_all_iff)
  then show ?thesis by (simp add: parse_value.simps)
qed

text \<open>A body that is one object in the compact form, with space around it: the decoder reads the object and then the end.\<close>

lemma read_object:
  assumes "fits maxNestingDepth (JObj ms)" and "list_all is_space ws" and "list_all is_space ws'"
  shows "read_value (ws @ render (JObj ms) @ ws', None) = Inr (JObj ms, (ws', None))"
proof -
  have "parse_value maxNestingDepth (ws @ render (JObj ms) @ ws') = Parsed (JObj ms) ws'"
  proof -
    have "number_end ws'" using assms(3) by (cases ws') (auto simp: number_end_def is_space_def is_digit_def)
    then show ?thesis using parse_skips [OF assms(2)] parse_render [OF assms(1)] by simp
  qed
  moreover have "skip_space (ws @ render (JObj ms) @ ws') \<noteq> []" by (auto simp: dropWhile_eq_Nil_conv)
  ultimately show ?thesis by (simp add: read_value_def bracketed_def)
qed

lemma read_end: "list_all is_space ws \<Longrightarrow> read_value (ws, None) = Inl (Sentinel EOF)"
  by (simp add: read_value_def list_all_iff dropWhile_eq_Nil_conv)

lemma decodeJSON_object:
  assumes "fits maxNestingDepth (JObj ms)" and "list_all is_space ws" and "list_all is_space ws'"
    and "Req_Body r = (ws @ render (JObj ms) @ ws', None)" and "length (fst (Req_Body r)) \<le> maxBodySize"
    and "dec (JObj ms) = Some v"
  shows "decodeJSON (struct_decoder dec) r w = ((None, Some v), w)"
proof -
  have "MaxBytesReader maxBodySize (Req_Body r) = (ws @ render (JObj ms) @ ws', None)"
    using assms(4,5) by (simp add: MaxBytesReader_def)
  then show ?thesis
    using read_object [OF assms(1-3)] read_end [OF assms(3)] assms(6)
    by (simp add: decodeJSON_def struct_decoder_def decode_with_def)
qed

text \<open>The other direction: what a body must look like for a handler to go on with it.\<close>

lemma read_value_parsed:
  assumes "read_value (bs, e) = Inr (j, st)"
  obtains rest where "parse_value maxNestingDepth bs = Parsed j rest" "st = (rest, e)"
  using assms by (auto simp: read_value_def split: if_splits parsed.splits option.splits)

lemma read_value_EOF:
  assumes "read_value (bs, e) = Inl err" and "errors_Is err EOF" and "\<And>x. e = Some x \<Longrightarrow> \<not> errors_Is x EOF"
  shows "skip_space bs = [] \<and> e = None"
  using assms by (auto simp: read_value_def split: if_splits parsed.splits option.splits)

lemma decode_empty_struct: "decode_struct True [] j () \<noteq> None \<longleftrightarrow> j = JNull \<or> j = JObj []"
proof (cases j)
  case (JObj ms)
  then show ?thesis by (cases ms) (auto simp: decode_struct_def)
qed (auto simp: decode_struct_def)

text \<open>An end of the stream is \<open>None\<close>, not an error of reading.\<close>

definition stream_ok :: "stream \<Rightarrow> bool" where
  "stream_ok st \<longleftrightarrow> (\<forall>x. snd st = Some x \<longrightarrow> \<not> errors_Is x EOF)"

lemma decodeJSON_goes_on:
  assumes "decodeJSON (struct_decoder dec) r w = ((None, Some v), w')" and "stream_ok (Req_Body r)"
  obtains j rest where "parse_value maxNestingDepth (take maxBodySize (fst (Req_Body r))) = Parsed j rest" "dec j = Some v"
    "w' = w \<and> snd (Req_Body r) = None \<and> length (fst (Req_Body r)) \<le> maxBodySize \<and> skip_space rest = [] \<or>
     w' = response_Error 400 ''invalid request body'' w \<and>
     (\<exists>x rest'. parse_value maxNestingDepth rest = Parsed x rest' \<and> (x = JNull \<or> x = JObj []))"
proof -
  obtain bs e where s: "MaxBytesReader maxBodySize (Req_Body r) = (bs, e)" by fastforce
  then have bs: "bs = take maxBodySize (fst (Req_Body r))"
    and e: "e = None \<Longrightarrow> snd (Req_Body r) = None \<and> length (fst (Req_Body r)) \<le> maxBodySize"
    and ne: "\<And>x. e = Some x \<Longrightarrow> \<not> errors_Is x EOF"
    using assms(2) by (auto simp: MaxBytesReader_def stream_ok_def split: if_splits)
  from assms(1) s obtain st where d: "decode_with dec (bs, e) = Inr (v, st)"
    by (auto simp: decodeJSON_def struct_decoder_def split: sum.splits if_splits)
  then obtain j where "read_value (bs, e) = Inr (j, st)" and v: "dec j = Some v"
    by (auto simp: decode_with_def split: sum.splits option.splits)
  then obtain rest where p: "parse_value maxNestingDepth bs = Parsed j rest" and st: "st = (rest, e)"
    by (auto elim: read_value_parsed)
  let ?second = "decode_with (\<lambda>j. decode_struct True [] j ()) (rest, e)"
  show thesis
  proof (cases ?second)
    case (Inr u)
    then obtain x st' where "read_value (rest, e) = Inr (x, st')" "decode_struct True [] x () \<noteq> None"
      by (auto simp: decode_with_def split: sum.splits option.splits)
    then show thesis
      using that [OF p [unfolded bs] v] assms(1) s d st Inr decode_empty_struct [of x]
      by (auto simp: decodeJSON_def struct_decoder_def elim!: read_value_parsed)
  next
    case (Inl err)
    then have err: "errors_Is err EOF" "w' = w"
      using assms(1) s d st by (auto simp: decodeJSON_def struct_decoder_def split: if_splits)
    then have "read_value (rest, e) = Inl err"
      using Inl by (auto simp: decode_with_def split: sum.splits option.splits)
    then show thesis using that [OF p [unfolded bs] v] read_value_EOF [OF _ err(1) ne] err(2) e by blast
  qed
qed

section \<open>Redemption bodies\<close>

definition tw_document :: "TwRedeemRequest \<Rightarrow> json" where
  "tw_document req = JObj [(''phone'', JStr (quote (Phone req))), (''gift'', JStr (quote (Gift req)))]"

lemma names_ok [simp]:
  "literal_ok ''phone''" "literal_ok ''gift''" "literal_ok ''name''" "literal_ok ''rank''" "literal_ok ''scopes''" "literal_ok ''mobile''"
  "literal_ok ''voucher_hash''" "literal_ok ''expires_at''" "literal_ok ''status''" "literal_ok ''code''" "literal_ok ''SUCCESS''"
  "literal_ok ''data''" "literal_ok ''voucher''" "literal_ok ''voucher_id''" "literal_ok ''amount_baht''"
  by (simp_all add: literal_ok_def)

lemma upper_simps [simp]:
  "upper (CHR ''a'') = CHR ''A''" "upper (CHR ''b'') = CHR ''B''" "upper (CHR ''c'') = CHR ''C''" "upper (CHR ''d'') = CHR ''D''"
  "upper (CHR ''e'') = CHR ''E''" "upper (CHR ''f'') = CHR ''F''" "upper (CHR ''g'') = CHR ''G''" "upper (CHR ''h'') = CHR ''H''"
  "upper (CHR ''i'') = CHR ''I''" "upper (CHR ''l'') = CHR ''L''" "upper (CHR ''m'') = CHR ''M''" "upper (CHR ''n'') = CHR ''N''"
  "upper (CHR ''o'') = CHR ''O''" "upper (CHR ''p'') = CHR ''P''" "upper (CHR ''r'') = CHR ''R''" "upper (CHR ''s'') = CHR ''S''"
  "upper (CHR ''t'') = CHR ''T''" "upper (CHR ''u'') = CHR ''U''" "upper (CHR ''v'') = CHR ''V''" "upper (CHR ''x'') = CHR ''X''"
  "upper (CHR ''k'') = CHR ''K''" "upper (CHR ''_'') = CHR ''_''"
  by (simp_all add: upper_def char_of_def bit_iff_odd)

lemma decode_tw_document:
  assumes "valid_utf8 (Phone req)" and "valid_utf8 (Gift req)"
  shows "decode_struct True tw_fields (tw_document req) a = Some req"
  using assms by (simp add: tw_document_def decode_struct_def tw_fields_def decode_string_quote)

text \<open>
  C24: The two redemption routes are one operation. Take a phone number and a gift in UTF-8 that have no percent
  sign, or one of \<^verbatim>\<open>/\<close>, \<^verbatim>\<open>;\<close>, \<^verbatim>\<open>,\<close> somewhere (as every gift link has). Then the POST route with the JSON object
  of the two, whatever space surrounds it, and the GET route with the two escaped in its path do the same in every
  state and on every writer: the same call of the service, the same reply. The path is parsed as the standard
  library does and matched as the router is documented to do. For the other texts, a percent sign without any of
  the three characters, the two differ (\<open>gift_unescaped_twice\<close>).
\<close>

theorem RedeemPost_equals_RedeemGet:
  assumes "valid_utf8 (Phone req)" and "valid_utf8 (Gift req)" and "list_all is_space ws" and "list_all is_space ws'"
    and "Req_Body post = (ws @ render (tw_document req) @ ws', None)" and "length (fst (Req_Body post)) \<le> maxBodySize"
    and "setPath (redeem_path (Phone req) (Gift req)) = Some url" and "matched_segments url get"
    and "kept_escaped (Phone req @ Gift req) \<or> CHR ''%'' \<notin> set (Phone req @ Gift req)"
  shows "RedeemPost tw_decoder svc post st w = RedeemGet svc get st w"
proof -
  obtain ms where ms: "tw_document req = JObj ms" by (simp add: tw_document_def)
  have "fits maxNestingDepth (tw_document req)" by (simp add: tw_document_def)
  then have "decodeJSON tw_decoder post w = ((None, Some req), w)"
    unfolding tw_decoder_def
    by (intro decodeJSON_object [OF _ assms(3,4) assms(5) [unfolded ms] assms(6)])
      (simp_all only: ms [symmetric] decode_tw_document [OF assms(1,2)])
  moreover note pathParam_redeem_path [OF assms(7-9)]
  moreover have "\<lparr>Phone = Phone req, Gift = Gift req\<rparr> = req" by simp
  ultimately show ?thesis by (simp only: RedeemPost_def RedeemGet_def prod.case option.case sum.case)
qed

text \<open>Members that decode into a redemption request.\<close>

lemma tw_members:
  assumes "decode_members True tw_fields ms a = Some b"
  shows "\<forall>(k, v) \<in> set ms. fold_name (unquote k) \<in> {''PHONE'', ''GIFT''} \<and> (v = JNull \<or> (\<exists>raw. v = JStr raw))"
  using assms
proof (induction ms arbitrary: a)
  case (Cons m ms)
  obtain k v where m: "m = (k, v)" by fastforce
  have "decode_string v s = Some x \<Longrightarrow> v = JNull \<or> (\<exists>raw. v = JStr raw)" for s x
    by (cases v) (simp_all add: decode_string_def)
  then show ?case using Cons unfolding m
    by (auto simp: tw_fields_def split: if_splits option.splits)
qed simp

text \<open>
  C25: Strict decoding. If the POST route changes the state or replies with anything but 400, the body (cut at the limit) starts with
  a JSON object whose members are all named phone or gift, up to case, and hold strings or null (or it is
  null), the service ran on the request decoded from it, and the body ends there with nothing but space, within the limit;
  except that a following \<^verbatim>\<open>null\<close> or empty object is answered with 400 and does not stop the redemption.
\<close>

theorem RedeemPost_strict:
  assumes "RedeemPost tw_decoder svc r st new_writer = (f, st', w')" and "stream_ok (Req_Body r)"
    and "st' \<noteq> st \<or> status_of w' \<noteq> Some 400"
  shows "\<exists>j rest req. parse_value maxNestingDepth (take maxBodySize (fst (Req_Body r))) = Parsed j rest \<and>
    (j = JNull \<or> (\<exists>ms. j = JObj ms \<and> (\<forall>(k, v) \<in> set ms. fold_name (unquote k) \<in> {''PHONE'', ''GIFT''} \<and>
       (v = JNull \<or> (\<exists>raw. v = JStr raw))))) \<and>
    decode_struct True tw_fields j \<lparr>Phone = [], Gift = []\<rparr> = Some req \<and> st' = snd (svc req st) \<and>
    (snd (Req_Body r) = None \<and> length (fst (Req_Body r)) \<le> maxBodySize \<and> skip_space rest = [] \<or>
     status_of w' = Some 400 \<and> (\<exists>x rest'. parse_value maxNestingDepth rest = Parsed x rest' \<and> (x = JNull \<or> x = JObj [])))"
proof -
  obtain err v w1 where d: "decodeJSON tw_decoder r new_writer = ((err, v), w1)" by (metis prod.exhaust)
  have bad: "status_of w1 = Some 400" if "err \<noteq> None \<or> v = None"
    using d that by (auto simp: decodeJSON_def status_of_def split: sum.splits if_splits)
  have "err = None \<and> v \<noteq> None"
  proof (rule ccontr)
    assume "\<not> ?thesis"
    then have b: "err \<noteq> None \<or> v = None" by simp
    then have "RedeemPost tw_decoder svc r st new_writer = (Returned, st, w1)"
      using d by (auto simp: RedeemPost_def split: option.splits)
    then show False using assms(1,3) bad [OF b] by simp
  qed
  then obtain req where d: "decodeJSON tw_decoder r new_writer = ((None, Some req), w1)" using d by auto
  obtain j rest where j: "parse_value maxNestingDepth (take maxBodySize (fst (Req_Body r))) = Parsed j rest"
    "decode_struct True tw_fields j \<lparr>Phone = [], Gift = []\<rparr> = Some req"
    and tail: "w1 = new_writer \<and> snd (Req_Body r) = None \<and> length (fst (Req_Body r)) \<le> maxBodySize \<and> skip_space rest = [] \<or>
      w1 = response_Error 400 ''invalid request body'' new_writer \<and>
      (\<exists>x rest'. parse_value maxNestingDepth rest = Parsed x rest' \<and> (x = JNull \<or> x = JObj []))"
    by (rule decodeJSON_goes_on [OF d [unfolded tw_decoder_def] assms(2)])
  have "st' = snd (svc req st)"
    using assms(1) d by (auto simp: RedeemPost_def fail_with_def split: prod.splits sum.splits if_splits)
  moreover have "status_of w' = Some 400" if "w1 = response_Error 400 ''invalid request body'' new_writer"
    using assms(1) d that by (auto simp: RedeemPost_def fail_with_def status_of_def split: prod.splits sum.splits if_splits)
  moreover have "j = JNull \<or> (\<exists>ms. j = JObj ms \<and> (\<forall>(k, v) \<in> set ms. fold_name (unquote k) \<in> {''PHONE'', ''GIFT''} \<and>
       (v = JNull \<or> (\<exists>raw. v = JStr raw))))"
    using j(2) tw_members by (cases j) (auto simp: decode_struct_def)
  ultimately show ?thesis using j tail by (intro exI [of _ j] exI [of _ rest] exI [of _ req]) blast
qed

section \<open>Key bodies\<close>

text \<open>The body for an input; the expiry is given as text.\<close>

definition key_document :: "CreateApiKeyInput \<Rightarrow> bytes option \<Rightarrow> json" where
  "key_document inp t =
     JObj ([(''name'', JStr (quote (In_Name inp))), (''rank'', JStr (quote (In_Rank inp))),
            (''scopes'', JArr (map (\<lambda>s. JStr (quote s)) (In_Scopes inp)))] @
           (case t of None \<Rightarrow> [] | Some s \<Rightarrow> [(''expires_at'', JStr s)]))"

lemma fill_quoted: "list_all valid_utf8 ss \<Longrightarrow> fill arr (map (\<lambda>s. JStr (quote s)) ss) = Some ss"
  by (induction ss arbitrary: arr) (simp_all add: decode_string_quote)

lemma decode_key_document:
  assumes "valid_utf8 (In_Name inp)" and "valid_utf8 (In_Rank inp)" and "list_all valid_utf8 (In_Scopes inp)"
    and "In_ExpiresAt inp = (case t of None \<Rightarrow> None | Some s \<Rightarrow> UnmarshalTime s)" and "t \<noteq> None \<longrightarrow> In_ExpiresAt inp \<noteq> None"
  shows "map_option fst (decode_struct True key_fields (key_document inp t)
     (\<lparr>In_Name = [], In_Rank = [], In_Scopes = [], In_ExpiresAt = None\<rparr>, [])) = Some inp"
  using assms fill_quoted [OF assms(3), of "[]"]
  by (cases inp; cases t; cases "In_Scopes inp")
    (auto simp: key_document_def decode_struct_def key_fields_def decode_string_quote decode_scopes_def decode_expiry_def)

text \<open>
  C28: The creation route creates what its body says. For any input in UTF-8 (its expiry, if any, written as a
  time that \<^verbatim>\<open>Time.UnmarshalJSON\<close> reads, RFC 3339 or close to it), the handler on the JSON object of the input does what \<^verbatim>\<open>CreateKey\<close> does on the input, and replies
  with its outcome.
\<close>

theorem KeyHandler_Create_body:
  assumes "valid_utf8 (In_Name inp)" and "valid_utf8 (In_Rank inp)" and "list_all valid_utf8 (In_Scopes inp)"
    and "In_ExpiresAt inp = (case t of None \<Rightarrow> None | Some s \<Rightarrow> UnmarshalTime s)"
    and "\<And>s. t = Some s \<Longrightarrow> literal_ok s \<and> UnmarshalTime s \<noteq> None"
    and "list_all is_space ws" and "list_all is_space ws'"
    and "Req_Body r = (ws @ render (key_document inp t) @ ws', None)" and "length (fst (Req_Body r)) \<le> maxBodySize"
  shows "KeyHandler_Create key_decoder repo rd r st w =
    (case CreateKey repo rd inp st of
       (Inl err, st) \<Rightarrow> fail_with err st w
     | (Inr view, st) \<Rightarrow> (Returned, st, response_JSON 201 (KeyView view) w))"
proof -
  obtain ms where ms: "key_document inp t = JObj ms" by (simp add: key_document_def)
  have fits: "fits maxNestingDepth (key_document inp t)"
    using assms(5) by (cases t) (simp_all add: key_document_def list_all_iff)
  have "t \<noteq> None \<longrightarrow> In_ExpiresAt inp \<noteq> None" using assms(4,5) by (auto split: option.splits)
  from decode_key_document [OF assms(1-4) this]
  have "decodeJSON key_decoder r w = ((None, Some inp), w)"
    using fits unfolding key_decoder_def
    by (intro decodeJSON_object [OF _ assms(6,7) assms(8) [unfolded ms] assms(9)]) (simp_all only: ms [symmetric])
  then show ?thesis by (simp only: KeyHandler_Create_def prod.case option.case)
qed

section \<open>The exchange with TrueMoney\<close>

lemma body_exact:
  assumes "ValidateTwRedeem is_ipv6 req = None" and "redeem_request c (go_upstream check is_ipv6 net) req = Inr r"
  shows "\<exists>hash a b. extractVoucherHash is_ipv6 (Gift req) = Inr hash \<and>
    parse_document (req_body r) = Some (JObj [(''mobile'', JStr a), (''voucher_hash'', JStr b)]) \<and>
    unquote a = Phone req \<and> unquote b = to_valid hash \<and> (valid_utf8 hash \<longrightarrow> unquote b = hash)"
proof -
  let ?net = "go_upstream check is_ipv6 net"
  obtain hash where h: "extractVoucherHash (ipv6_literal ?net) (Gift req) = Inr hash"
    "json_Marshal ?net \<lparr>Mobile = Phone req, VoucherHash = hash\<rparr> = Inr (req_body r)"
    by (rule redeem_request_shape [OF assms(2)])
  have "list_all is_digit (Phone req)"
    using assms(1) by (auto simp: ValidateTwRedeem_def FieldErrors_Add_def ValidateThaiPhone_def phoneRe_iff Let_def split: option.splits if_splits)
  then have "list_all (\<lambda>c. byte c < 128) (Phone req)" by (auto simp: list_all_iff is_digit_def)
  then have "unquote (quote (Phone req)) = Phone req" by (simp add: unquote_quote to_valid_id valid_utf8_ascii)
  moreover have "parse_document (req_body r) =
      Some (JObj [(''mobile'', JStr (quote (Phone req))), (''voucher_hash'', JStr (quote hash))])"
  proof -
    have "req_body r = render (JObj [(''mobile'', JStr (quote (Phone req))), (''voucher_hash'', JStr (quote hash))])"
      using h(2) by (simp add: go_upstream_def tm_Marshal_def)
    then show ?thesis by (simp only:) (intro parse_document_render, simp)
  qed
  ultimately show ?thesis using h(1) by (auto simp: go_upstream_def unquote_quote to_valid_id)
qed

text \<open>
  C26: What the upstream is asked is what was requested. For a validated request the body posted is a JSON document
  with exactly the two members mobile and voucher_hash, which decode to the phone number and to the voucher hash (bytes that are not
  UTF-8 replaced): no phone number or gift can add a member or change the other.
\<close>

theorem redeem_body_exact:
  assumes "ValidateTwRedeem is_ipv6 req = None" and "redeem_request c (go_upstream check is_ipv6 net) req = Inr r"
  shows "\<exists>hash a b. extractVoucherHash is_ipv6 (Gift req) = Inr hash \<and>
    parse_document (req_body r) = Some (JObj [(''mobile'', JStr a), (''voucher_hash'', JStr b)]) \<and>
    unquote a = Phone req \<and> unquote b = to_valid hash \<and> (valid_utf8 hash \<longrightarrow> unquote b = hash)"
  by (rule body_exact [OF assms])

text \<open>The members of an object that go by a field's name, up to case, and members that a string field takes.\<close>

definition members_of :: "string \<Rightarrow> (bytes \<times> json) list \<Rightarrow> json list" where
  "members_of n ms = map snd (filter (\<lambda>(k, v). fold_name (unquote k) = n) ms)"

definition text_or_null :: "json \<Rightarrow> bool" where
  "text_or_null j \<longleftrightarrow> (case j of JNull \<Rightarrow> True | JStr raw \<Rightarrow> True | _ \<Rightarrow> False)"

definition texts :: "string \<Rightarrow> (bytes \<times> json) list \<Rightarrow> bool" where
  "texts n ms \<longleftrightarrow> list_all text_or_null (members_of n ms)"

text \<open>The strings a string field takes one after the other.\<close>

fun last_text :: "json list \<Rightarrow> string \<Rightarrow> string option" where
  "last_text [] s = Some s"
| "last_text (j # js) s = Option.bind (decode_string j s) (last_text js)"

lemma members_of_simps [simp]:
  "members_of n [] = []"
  "members_of n ((k, v) # ms) = (if fold_name (unquote k) = n then v # members_of n ms else members_of n ms)"
  by (simp_all add: members_of_def)

lemma last_text_total: "list_all text_or_null js \<Longrightarrow> last_text js s \<noteq> None"
  by (induction js arbitrary: s) (auto simp: text_or_null_def decode_string_def split: json.splits)

lemma last_text_single: "last_text [JStr raw] s = Some (unquote raw)"
  by (simp add: decode_string_def)

lemma text_or_null_decodes: "text_or_null v \<Longrightarrow> \<exists>s. decode_string v x = Some s"
  by (auto simp: text_or_null_def decode_string_def split: json.splits)

text \<open>One member after the other: of a known field, or skipped.\<close>

lemma decode_member:
  "map_of fs (fold_name (unquote k)) = Some g \<Longrightarrow> g v a = Some b \<Longrightarrow> decode_members False fs ((k, v) # ms) a = decode_members False fs ms b"
  "map_of fs (fold_name (unquote k)) = None \<Longrightarrow> decode_members False fs ((k, v) # ms) a = decode_members False fs ms a"
  by simp_all

lemma decode_profile_members:
  "texts ''MOBILE_NUMBER'' ms \<Longrightarrow> \<exists>b. decode_members False profile_fields ms a = Some b"
proof (induction ms arbitrary: a)
  case (Cons m ms)
  obtain k v where m: "m = (k, v)" by fastforce
  show ?case
  proof (cases "fold_name (unquote k) = ''MOBILE_NUMBER''")
    case True
    then obtain s where "decode_string v a = Some s" using Cons.prems text_or_null_decodes by (auto simp: m texts_def)
    then show ?thesis
      using Cons True decode_member(1) [of profile_fields k decode_string v a s ms] by (simp add: m texts_def profile_fields_def)
  next
    case False
    then show ?thesis using Cons decode_member(2) [of profile_fields k v ms a] by (simp add: m texts_def profile_fields_def)
  qed
qed simp

lemma decode_status_members:
  assumes "last_text (members_of ''CODE'' ms) (Code a) = Some c" and "texts ''MESSAGE'' ms"
  shows "\<exists>b. decode_members False status_fields ms a = Some b \<and> Code b = c"
  using assms
proof (induction ms arbitrary: a)
  case (Cons m ms)
  obtain k v where m: "m = (k, v)" by fastforce
  let ?n = "fold_name (unquote k)"
  consider "?n = ''CODE''" | "?n = ''MESSAGE''" | "?n \<noteq> ''CODE''" "?n \<noteq> ''MESSAGE''" by blast
  then show ?case
  proof cases
    case 1
    then obtain s where s: "decode_string v (Code a) = Some s" "last_text (members_of ''CODE'' ms) s = Some c"
      using Cons.prems(1) by (auto simp: m bind_eq_Some_conv)
    have "texts ''MESSAGE'' ms" using Cons.prems(2) 1 by (simp add: m texts_def)
    with Cons.IH [of "a\<lparr>Code := s\<rparr>"] s(2) show ?thesis
      using 1 s(1) by (simp add: m status_fields_def)
  next
    case 2
    then obtain s where s: "decode_string v (StatusMessage a) = Some s" "texts ''MESSAGE'' ms"
      using Cons.prems(2) text_or_null_decodes by (auto simp: m texts_def)
    with Cons.IH [of "a\<lparr>StatusMessage := s\<rparr>"] show ?thesis
      using 2 Cons.prems(1) by (simp add: m status_fields_def)
  next
    case 3
    then show ?thesis using Cons by (simp add: m texts_def status_fields_def)
  qed
qed simp

lemma decode_voucher_members:
  assumes "last_text (members_of ''VOUCHER_ID'' ms) (VoucherID a) = Some i"
    and "last_text (members_of ''AMOUNT_BAHT'' ms) (AmountBaht a) = Some x" and "texts ''FULL_NAME'' ms"
  shows "\<exists>b. decode_members False voucher_fields ms a = Some b \<and> VoucherID b = i \<and> AmountBaht b = x"
  using assms
proof (induction ms arbitrary: a)
  case (Cons m ms)
  obtain k v where m: "m = (k, v)" by fastforce
  let ?n = "fold_name (unquote k)"
  consider "?n = ''VOUCHER_ID''" | "?n = ''AMOUNT_BAHT''" | "?n = ''FULL_NAME''"
    | "?n \<noteq> ''VOUCHER_ID''" "?n \<noteq> ''AMOUNT_BAHT''" "?n \<noteq> ''FULL_NAME''" by blast
  then show ?case
  proof cases
    case 1
    then obtain s where s: "decode_string v (VoucherID a) = Some s" "last_text (members_of ''VOUCHER_ID'' ms) s = Some i"
      using Cons.prems(1) by (auto simp: m bind_eq_Some_conv)
    have "texts ''FULL_NAME'' ms" using Cons.prems(3) 1 by (simp add: m texts_def)
    with Cons.IH [of "a\<lparr>VoucherID := s\<rparr>"] s(2) show ?thesis
      using 1 s(1) Cons.prems(2) by (simp add: m voucher_fields_def)
  next
    case 2
    then obtain s where s: "decode_string v (AmountBaht a) = Some s" "last_text (members_of ''AMOUNT_BAHT'' ms) s = Some x"
      using Cons.prems(2) by (auto simp: m bind_eq_Some_conv)
    have "texts ''FULL_NAME'' ms" using Cons.prems(3) 2 by (simp add: m texts_def)
    with Cons.IH [of "a\<lparr>AmountBaht := s\<rparr>"] s(2) show ?thesis
      using 2 s(1) Cons.prems(1) by (simp add: m voucher_fields_def)
  next
    case 3
    then obtain s where s: "decode_string v (FullName a) = Some s" "texts ''FULL_NAME'' ms"
      using Cons.prems(3) text_or_null_decodes by (auto simp: m texts_def)
    with Cons.IH [of "a\<lparr>FullName := s\<rparr>"] show ?thesis
      using 3 Cons.prems(1,2) by (simp add: m voucher_fields_def)
  next
    case 4
    then show ?thesis using Cons by (simp add: m texts_def voucher_fields_def)
  qed
qed simp

text \<open>
  A member of a name that occurs once: seen already, with what it had to establish, or still to come, and then it
  decodes over whatever is there.
\<close>

definition once :: "string \<Rightarrow> (json \<Rightarrow> 'b \<Rightarrow> 'b option) \<Rightarrow> ('b \<Rightarrow> bool) \<Rightarrow> (bytes \<times> json) list \<Rightarrow> 'b \<Rightarrow> bool" where
  "once n dec P ms x \<longleftrightarrow>
     members_of n ms = [] \<and> P x \<or> (\<exists>j. members_of n ms = [j] \<and> (\<forall>x. \<exists>b. dec j x = Some b \<and> P b))"

lemma once_other: "fold_name (unquote k) \<noteq> n \<Longrightarrow> once n dec P ((k, v) # ms) x = once n dec P ms x"
  by (simp add: once_def)

lemma once_here:
  assumes "once n dec P ((k, v) # ms) x" and "fold_name (unquote k) = n"
  obtains b where "dec v x = Some b" "once n dec P ms b"
proof -
  have "members_of n ms = [] \<and> (\<forall>x. \<exists>b. dec v x = Some b \<and> P b)" using assms by (auto simp: once_def)
  then show thesis using that by (auto simp: once_def)
qed

lemma decode_data_members:
  assumes "once ''VOUCHER'' (decode_struct False voucher_fields) P ms (Voucher a)"
    and "\<forall>v \<in> set (members_of ''REDEEMER_PROFILE'' ms). v = JNull \<or> (\<exists>pr. v = JObj pr \<and> texts ''MOBILE_NUMBER'' pr)"
  shows "\<exists>b. decode_members False data_fields ms a = Some b \<and> P (Voucher b)"
  using assms
proof (induction ms arbitrary: a)
  case Nil
  then show ?case by (simp add: once_def)
next
  case (Cons m ms)
  obtain k v where m: "m = (k, v)" by fastforce
  let ?n = "fold_name (unquote k)"
  consider "?n = ''VOUCHER''" | "?n = ''REDEEMER_PROFILE''" | "?n \<noteq> ''VOUCHER''" "?n \<noteq> ''REDEEMER_PROFILE''" by blast
  then show ?case
  proof cases
    case 1
    obtain b where b: "decode_struct False voucher_fields v (Voucher a) = Some b"
      "once ''VOUCHER'' (decode_struct False voucher_fields) P ms b"
      by (rule once_here [OF Cons.prems(1) [unfolded m] 1])
    with Cons.IH [of "a\<lparr>Voucher := b\<rparr>"] show ?thesis using 1 Cons.prems(2) by (simp add: m data_fields_def)
  next
    case 2
    have "\<exists>x. decode_struct False profile_fields v (MobileNumber a) = Some x"
      using Cons.prems(2) 2 decode_profile_members by (auto simp: m decode_struct_def)
    then obtain x where "decode_struct False profile_fields v (MobileNumber a) = Some x" by blast
    with Cons.IH [of "a\<lparr>MobileNumber := x\<rparr>"] show ?thesis
      using 2 Cons.prems by (simp add: m data_fields_def once_other)
  next
    case 3
    then show ?thesis using Cons by (simp add: m data_fields_def once_other)
  qed
qed

lemma decode_response_members:
  assumes "once ''STATUS'' (decode_struct False status_fields) P ms (Status a)"
    and "once ''DATA'' (decode_struct False data_fields) Q ms (Response_Data a)"
  shows "\<exists>b. decode_members False response_fields ms a = Some b \<and> P (Status b) \<and> Q (Response_Data b)"
  using assms
proof (induction ms arbitrary: a)
  case Nil
  then show ?case by (simp add: once_def)
next
  case (Cons m ms)
  obtain k v where m: "m = (k, v)" by fastforce
  let ?n = "fold_name (unquote k)"
  consider "?n = ''STATUS''" | "?n = ''DATA''" | "?n \<noteq> ''STATUS''" "?n \<noteq> ''DATA''" by blast
  then show ?case
  proof cases
    case 1
    obtain b where b: "decode_struct False status_fields v (Status a) = Some b"
      "once ''STATUS'' (decode_struct False status_fields) P ms b"
      by (rule once_here [OF Cons.prems(1) [unfolded m] 1])
    with Cons.IH [of "a\<lparr>Status := b\<rparr>"] show ?thesis using 1 Cons.prems(2) by (simp add: m response_fields_def once_other)
  next
    case 2
    obtain b where b: "decode_struct False data_fields v (Response_Data a) = Some b"
      "once ''DATA'' (decode_struct False data_fields) Q ms b"
      by (rule once_here [OF Cons.prems(2) [unfolded m] 2])
    with Cons.IH [of "a\<lparr>Response_Data := b\<rparr>"] show ?thesis using 2 Cons.prems(1) by (simp add: m response_fields_def once_other)
  next
    case 3
    then show ?thesis using Cons by (simp add: m response_fields_def once_other)
  qed
qed

lemma success_response:
  assumes body: "resp_body resp = (bs, None)" "length bs \<le> 2 ^ 20" and doc: "parse_document bs = Some (JObj doc)"
    and st: "members_of ''STATUS'' doc = [JObj st]" "members_of ''CODE'' st = [JStr code]" "unquote code = ''SUCCESS''" "texts ''MESSAGE'' st"
    and da: "members_of ''DATA'' doc = [JObj da]" "members_of ''VOUCHER'' da = [JObj vo]"
    and vo: "members_of ''VOUCHER_ID'' vo = [JStr vid]" "members_of ''AMOUNT_BAHT'' vo = [JStr amount]" "texts ''FULL_NAME'' vo"
    and pr: "\<forall>v \<in> set (members_of ''REDEEMER_PROFILE'' da). v = JNull \<or> (\<exists>pr. v = JObj pr \<and> texts ''MOBILE_NUMBER'' pr)"
  shows "redeem_response (go_upstream check is_ipv6 net) (Inr resp) = Inr \<lparr>Data = bs, Amount = unquote amount, Ref = unquote vid\<rparr>"
proof -
  let ?P = "\<lambda>b. VoucherID b = unquote vid \<and> AmountBaht b = unquote amount"
  have "\<exists>b. decode_struct False voucher_fields (JObj vo) x = Some b \<and> ?P b" for x
    unfolding decode_object by (rule decode_voucher_members) (simp_all add: vo decode_string_def)
  then have "once ''VOUCHER'' (decode_struct False voucher_fields) ?P da x" for x using da(2) by (simp add: once_def)
  then have "\<exists>b. decode_struct False data_fields (JObj da) x = Some b \<and> ?P (Voucher b)" for x
    unfolding decode_object by (rule decode_data_members [OF _ pr])
  then have data: "once ''DATA'' (decode_struct False data_fields) (\<lambda>b. ?P (Voucher b)) doc x" for x using da(1) by (simp add: once_def)
  have "\<exists>b. decode_struct False status_fields (JObj st) x = Some b \<and> Code b = ''SUCCESS''" for x
    unfolding decode_object by (rule decode_status_members) (simp_all add: st decode_string_def del: unquote.simps)
  then have "once ''STATUS'' (decode_struct False status_fields) (\<lambda>b. Code b = ''SUCCESS'') doc x" for x
    using st(1) by (simp add: once_def)
  from decode_response_members [OF this data]
  obtain p where p: "decode_struct False response_fields (JObj doc) empty_response = Some p" "Code (Status p) = ''SUCCESS''"
    "?P (Voucher (Response_Data p))"
    unfolding decode_object by blast
  then have "tm_Unmarshal bs = Inr p" by (simp add: tm_Unmarshal_def doc)
  moreover have "ReadAll_Limit (2 ^ 20) (resp_body resp) = Inr bs" using body by (simp add: ReadAll_Limit_def)
  ultimately show ?thesis using p(2,3) by (simp add: redeem_response_def go_upstream_def)
qed

text \<open>
  C27: A redemption that TrueMoney reports as successful is understood. Take any answer of at most 1 MiB that is a JSON
  document, in whatever layout and order of members and with whatever further members, in which (names up to
  case) the status has the one code \<^verbatim>\<open>SUCCESS\<close>, the data has one voucher with one identity and one amount,
  all strings, and the other fields the program reads hold, where present, what their types take. Then the
  client returns the answer's own bytes with the identity and amount of the voucher in them.
\<close>

theorem success_understood:
  assumes "resp_body resp = (bs, None)" and "length bs \<le> 2 ^ 20" and "parse_document bs = Some (JObj doc)"
    and "members_of ''STATUS'' doc = [JObj st]" and "members_of ''CODE'' st = [JStr code]" and "unquote code = ''SUCCESS''"
    and "texts ''MESSAGE'' st"
    and "members_of ''DATA'' doc = [JObj da]" and "members_of ''VOUCHER'' da = [JObj vo]"
    and "members_of ''VOUCHER_ID'' vo = [JStr vid]" and "members_of ''AMOUNT_BAHT'' vo = [JStr amount]" and "texts ''FULL_NAME'' vo"
    and "\<forall>v \<in> set (members_of ''REDEEMER_PROFILE'' da). v = JNull \<or> (\<exists>pr. v = JObj pr \<and> texts ''MOBILE_NUMBER'' pr)"
  shows "redeem_response (go_upstream check is_ipv6 net) (Inr resp) = Inr \<lparr>Data = bs, Amount = unquote amount, Ref = unquote vid\<rparr>"
  using assms by (rule success_response)

section \<open>Requests\<close>

definition post_of :: "bytes \<Rightarrow> request" where
  "post_of body = sample_get\<lparr>Method := ''POST'', URL_Path := ''/tw'', URLParams := [], Req_Body := (body, None)\<rparr>"

lemma post_of_body [simp]: "Req_Body (post_of body) = (body, None)"
  by (simp add: post_of_def)

lemma sample_redeem_ascii [simp]: "valid_utf8 (Phone sample_redeem)" "valid_utf8 (Gift sample_redeem)"
  by (rule valid_utf8_ascii, simp add: sample_redeem_def)+

lemma quote_alnum [simp]: "list_all (\<lambda>c. html_safe c \<and> byte c < 128) s \<Longrightarrow> quote s = s"
  by (induction s) (simp_all add: quote_ascii_def)

lemma tw_document_sample: "length (render (tw_document sample_redeem)) \<le> 900"
  by (simp add: tw_document_def sample_redeem_def quote_ascii_def html_safe_def)

theorem RedeemPost_equals_RedeemGet_witness:
  "RedeemPost tw_decoder (\<lambda>req n. (Inl (Sentinel ErrNotFound), n + length (Gift req)))
     (post_of ('' '' @ render (tw_document sample_redeem) @ [])) (0 :: nat) new_writer =
   RedeemGet (\<lambda>req n. (Inl (Sentinel ErrNotFound), n + length (Gift req))) sample_get 0 new_writer"
proof (rule RedeemPost_equals_RedeemGet [where req = sample_redeem and ws = "'' ''" and ws' = "[]"])
  show "length (fst (Req_Body (post_of ('' '' @ render (tw_document sample_redeem) @ [])))) \<le> maxBodySize"
    using tw_document_sample by (simp add: maxBodySize_def)
  show "setPath (redeem_path (Phone sample_redeem) (Gift sample_redeem)) = Some (''/tw/'' @ Phone sample_redeem @ ''/'' @ Gift sample_redeem, [])"
    "matched_segments (''/tw/'' @ Phone sample_redeem @ ''/'' @ Gift sample_redeem, []) sample_get"
    "kept_escaped (Phone sample_redeem @ Gift sample_redeem) \<or> CHR ''%'' \<notin> set (Phone sample_redeem @ Gift sample_redeem)"
    by code_simp+
qed (simp_all add: is_space_def)

theorem RedeemPost_strict_witness:
  "\<exists>rest req. parse_value maxNestingDepth (take maxBodySize (render (tw_document sample_redeem))) = Parsed (tw_document sample_redeem) rest \<and>
     decode_struct True tw_fields (tw_document sample_redeem) \<lparr>Phone = [], Gift = []\<rparr> = Some req"
proof -
  let ?r = "post_of ([] @ render (tw_document sample_redeem) @ [])"
  obtain ms where ms: "tw_document sample_redeem = JObj ms" by (simp add: tw_document_def)
  have len: "length (fst (Req_Body ?r)) \<le> maxBodySize" using tw_document_sample by (simp add: maxBodySize_def)
  have fit: "fits maxNestingDepth (tw_document sample_redeem)" by (simp add: tw_document_def)
  have "decodeJSON tw_decoder ?r new_writer = ((None, Some sample_redeem), new_writer)"
    unfolding tw_decoder_def
    using decodeJSON_object [of ms "[]" "[]" ?r _ sample_redeem new_writer] fit len decode_tw_document [of sample_redeem]
    by (simp add: ms)
  then obtain w where w: "RedeemPost tw_decoder (\<lambda>req n. (Inl (Sentinel ErrNotFound), Suc n)) ?r (0 :: nat) new_writer = (Returned, 1, w)"
    by (simp add: RedeemPost_def fail_with_def)
  have ok: "stream_ok (Req_Body ?r)" by (simp add: stream_ok_def)
  have p: "parse_value maxNestingDepth (take maxBodySize (render (tw_document sample_redeem))) = Parsed (tw_document sample_redeem) []"
    using len parse_render [OF fit, of "[]"] by simp
  from RedeemPost_strict [OF w ok] p show ?thesis by auto
qed

text \<open>A key for a redeemer that expires with the year 2030.\<close>

definition expiring_input :: CreateApiKeyInput where
  "expiring_input = \<lparr>In_Name = ''shop'', In_Rank = ''partner'', In_Scopes = [''tw''],
     In_ExpiresAt = Some 1924991999000000000\<rparr>"

lemma expiry_text: "parseRFC3339 ''2030-12-31T23:59:59Z'' = Some 1924991999000000000"
  by (simp add: parseRFC3339_def in_range_def is_digit_def dec_value_def digit_val_def month_days_def days_before_def leap_def
      fraction_def zone_offset_def)

theorem KeyHandler_Create_body_witness:
  "KeyHandler_Create key_decoder memory_repo sample_readings
     (post_of ([] @ render (key_document expiring_input (Some ''2030-12-31T23:59:59Z'')) @ [])) NewKeyStore new_writer =
   (case CreateKey memory_repo sample_readings expiring_input NewKeyStore of
      (Inl err, st) \<Rightarrow> fail_with err st new_writer
    | (Inr view, st) \<Rightarrow> (Returned, st, response_JSON 201 (KeyView view) new_writer))"
proof (rule KeyHandler_Create_body [where t = "Some ''2030-12-31T23:59:59Z''" and ws = "[]" and ws' = "[]"])
  show "valid_utf8 (In_Name expiring_input)" "valid_utf8 (In_Rank expiring_input)" "list_all valid_utf8 (In_Scopes expiring_input)"
    by (simp_all add: expiring_input_def valid_utf8_ascii)
  show "In_ExpiresAt expiring_input = (case Some ''2030-12-31T23:59:59Z'' of None \<Rightarrow> None | Some s \<Rightarrow> UnmarshalTime s)"
    by (simp add: expiring_input_def UnmarshalTime_strict [OF expiry_text] del: list.simps)
  show "literal_ok s \<and> UnmarshalTime s \<noteq> None" if "Some ''2030-12-31T23:59:59Z'' = Some s" for s
  proof -
    have "literal_ok ''2030-12-31T23:59:59Z''" by (simp add: literal_ok_def)
    then show ?thesis using that UnmarshalTime_strict [OF expiry_text] by (metis option.distinct(1) option.inject)
  qed
  show "length (fst (Req_Body (post_of ([] @ render (key_document expiring_input (Some ''2030-12-31T23:59:59Z'')) @ [])))) \<le> maxBodySize"
    by (simp add: key_document_def expiring_input_def quote_ascii_def html_safe_def maxBodySize_def)
qed simp_all

theorem redeem_body_exact_witness:
  "\<exists>r a b. redeem_request (NewClient ''https://gift.truemoney.com'' 0) (go_upstream (\<lambda>_. None) (\<lambda>_. False) (http_Do sample_net)) sample_redeem = Inr r \<and>
     parse_document (req_body r) = Some (JObj [(''mobile'', JStr a), (''voucher_hash'', JStr b)]) \<and> unquote a = ''0812345678''"
proof -
  let ?net = "go_upstream (\<lambda>_. None) (\<lambda>_. False) (http_Do sample_net)"
  have "list_all is_alnum (Gift sample_redeem)" by code_simp
  from extract_code [OF this]
  obtain r where r: "redeem_request (NewClient ''https://gift.truemoney.com'' 0) ?net sample_redeem = Inr r"
    by (simp add: redeem_request_def go_upstream_def Let_def)
  from redeem_body_exact [OF sample_redeem_valid r] r show ?thesis by (auto simp: sample_redeem_def)
qed

text \<open>
  A link may name a voucher hash that is not UTF-8: the query \<^verbatim>\<open>v=%FF\<close> passes validation, and the body asks the
  upstream for U+FFFD instead.
\<close>

lemma replaced_hash:
  "ValidateGift (\<lambda>_. False) ''https://truemoney.com/?v=%FF'' = None \<and>
   (\<exists>r a b. redeem_request (NewClient ''https://gift.truemoney.com'' 0) (go_upstream (\<lambda>_. None) (\<lambda>_. False) (http_Do sample_net))
       \<lparr>Phone = ''0812345678'', Gift = ''https://truemoney.com/?v=%FF''\<rparr> = Inr r \<and>
     parse_document (req_body r) = Some (JObj [(''mobile'', JStr a), (''voucher_hash'', JStr b)]) \<and>
     unquote b = [CHR 0xEF, CHR 0xBF, CHR 0xBD])"
proof -
  let ?net = "go_upstream (\<lambda>_. None) (\<lambda>_. False) (http_Do sample_net)" and ?gift = "''https://truemoney.com/?v=%FF''"
  let ?req = "\<lparr>Phone = ''0812345678'', Gift = ?gift\<rparr>"
  have hash: "extractVoucherHash (\<lambda>_. False) ?gift = Inr [CHR 0xFF]" by code_simp
  have valid: "ValidateGift (\<lambda>_. False) ?gift = None" by code_simp
  have "ValidateThaiPhone ''0812345678'' = None" by code_simp
  then have redeem: "ValidateTwRedeem (\<lambda>_. False) ?req = None" using valid by (simp add: ValidateTwRedeem_def FieldErrors_Add_def)
  obtain r where r: "redeem_request (NewClient ''https://gift.truemoney.com'' 0) ?net ?req = Inr r"
    using hash by (simp add: redeem_request_def go_upstream_def Let_def)
  obtain a b where "parse_document (req_body r) = Some (JObj [(''mobile'', JStr a), (''voucher_hash'', JStr b)])"
    "unquote b = to_valid [CHR 0xFF]"
    using body_exact [OF redeem r] hash by force
  moreover have "to_valid [CHR 0xFF] = [CHR 0xEF, CHR 0xBF, CHR 0xBD]" by code_simp
  ultimately show ?thesis using valid r by (intro conjI exI [of _ r] exI [of _ a] exI [of _ b]) simp_all
qed

text \<open>An answer as TrueMoney gives it, with all the fields the program reads and a member it does not know.\<close>

definition sample_status :: "(bytes \<times> json) list" where
  "sample_status = [(''message'', JStr ''SUCCESS''), (''code'', JStr ''SUCCESS'')]"

definition sample_voucher :: "(bytes \<times> json) list" where
  "sample_voucher =
     [(''voucher_id'', JStr ''V123''), (''amount_baht'', JStr ''100.00''), (''full_name'', JStr ''Test User''), (''type'', JNull)]"

definition sample_data :: "(bytes \<times> json) list" where
  "sample_data = [(''voucher'', JObj sample_voucher), (''redeemer_profile'', JObj [(''mobile_number'', JStr ''0812345678'')])]"

definition sample_success :: json where
  "sample_success = JObj [(''status'', JObj sample_status), (''data'', JObj sample_data)]"

lemma sample_success_parses:
  "parse_document (render sample_success) = Some (JObj [(''status'', JObj sample_status), (''data'', JObj sample_data)])"
proof -
  have "literal_ok ''message''" "literal_ok ''V123''" "literal_ok ''100.00''" "literal_ok ''full_name''" "literal_ok ''Test User''"
    "literal_ok ''type''" "literal_ok ''redeemer_profile''" "literal_ok ''mobile_number''" "literal_ok ''0812345678''"
    by (simp_all add: literal_ok_def)
  then have "fits maxNestingDepth sample_success"
    by (simp add: sample_success_def sample_status_def sample_data_def sample_voucher_def)
  then have "parse_document (render sample_success) = Some sample_success" by (rule parse_document_render)
  then show ?thesis by (simp only: sample_success_def)
qed

lemma sample_success_members:
  "members_of ''STATUS'' [(''status'', JObj sample_status), (''data'', JObj sample_data)] = [JObj sample_status]"
  "members_of ''CODE'' sample_status = [JStr ''SUCCESS'']" "unquote ''SUCCESS'' = ''SUCCESS''" "texts ''MESSAGE'' sample_status"
  "members_of ''DATA'' [(''status'', JObj sample_status), (''data'', JObj sample_data)] = [JObj sample_data]"
  "members_of ''VOUCHER'' sample_data = [JObj sample_voucher]" "members_of ''VOUCHER_ID'' sample_voucher = [JStr ''V123'']"
  "members_of ''AMOUNT_BAHT'' sample_voucher = [JStr ''100.00'']" "texts ''FULL_NAME'' sample_voucher"
  "\<forall>v \<in> set (members_of ''REDEEMER_PROFILE'' sample_data). v = JNull \<or> (\<exists>pr. v = JObj pr \<and> texts ''MOBILE_NUMBER'' pr)"
  by (simp_all add: texts_def text_or_null_def sample_status_def sample_data_def sample_voucher_def)

lemma sample_success_length: "length (render sample_success) \<le> 2 ^ 20"
  by (simp add: sample_success_def sample_status_def sample_data_def sample_voucher_def)

lemma sample_texts_plain: "unquote ''100.00'' = ''100.00''" "unquote ''V123'' = ''V123''"
  by simp_all

lemma sample_success_understood:
  "redeem_response (go_upstream check is_ipv6 net) (Inr \<lparr>resp_status = 200, resp_body = (render sample_success, None)\<rparr>) =
     Inr \<lparr>Data = render sample_success, Amount = ''100.00'', Ref = ''V123''\<rparr>"
proof -
  have "resp_body \<lparr>resp_status = 200, resp_body = (render sample_success, None)\<rparr> = (render sample_success, None)" by simp
  from success_response [OF this sample_success_length sample_success_parses sample_success_members]
  show ?thesis unfolding sample_texts_plain .
qed

theorem success_understood_witness:
  "redeem_response (go_upstream (\<lambda>_. None) (\<lambda>_. False) (http_Do sample_net))
     (Inr \<lparr>resp_status = 200, resp_body = (render sample_success, None)\<rparr>) =
   Inr \<lparr>Data = render sample_success, Amount = ''100.00'', Ref = ''V123''\<rparr>"
proof -
  have "resp_body \<lparr>resp_status = 200, resp_body = (render sample_success, None)\<rparr> = (render sample_success, None)" by simp
  from success_understood [OF this sample_success_length sample_success_parses sample_success_members]
  show ?thesis unfolding sample_texts_plain .
qed

text \<open>
  The defect of \<^verbatim>\<open>decodeJSON\<close> on real bytes: a valid creation body followed by \<^verbatim>\<open>{}\<close> is answered with 400,
  and the key is created.
\<close>

lemma decode_empty_object: "Decode_empty (struct_decoder dec) (''{}'', None) = Inr ()"
proof -
  have "parse_value maxNestingDepth ''{}'' = Parsed (JObj []) []"
    using parse_render [of maxNestingDepth "JObj []" "[]"] by simp
  then have "read_value (''{}'', None) = Inr (JObj [], ([], None))" by (simp add: read_value_def bracketed_def)
  then show ?thesis by (simp add: struct_decoder_def decode_with_def decode_struct_def)
qed

lemma trailing_object_creates_key:
  "\<exists>s' w' k. KeyHandler_Create key_decoder memory_repo sample_readings
       (post_of (render (key_document expiring_input (Some ''2030-12-31T23:59:59Z'')) @ ''{}'')) NewKeyStore new_writer =
     (Returned, s', w') \<and> status_of w' = Some 400 \<and> k \<in> ran (map_of (keys s'))"
proof -
  let ?doc = "key_document expiring_input (Some ''2030-12-31T23:59:59Z'')"
  let ?body = "render ?doc @ ''{}''"
  have lit: "literal_ok ''2030-12-31T23:59:59Z''" by (simp add: literal_ok_def)
  have utf8: "valid_utf8 (In_Name expiring_input)" "valid_utf8 (In_Rank expiring_input)" "list_all valid_utf8 (In_Scopes expiring_input)"
    by (simp_all add: expiring_input_def valid_utf8_ascii)
  have expires: "In_ExpiresAt expiring_input = (case Some ''2030-12-31T23:59:59Z'' of None \<Rightarrow> None | Some s \<Rightarrow> UnmarshalTime s)"
    "Some ''2030-12-31T23:59:59Z'' \<noteq> None \<longrightarrow> In_ExpiresAt expiring_input \<noteq> None"
    by (simp_all add: expiring_input_def UnmarshalTime_strict [OF expiry_text] del: list.simps)
  have fit: "fits maxNestingDepth ?doc" using lit by (simp add: key_document_def list_all_iff)
  obtain ms where ms: "?doc = JObj ms" by (simp add: key_document_def)
  have "parse_value maxNestingDepth ?body = Parsed ?doc ''{}''"
    by (rule parse_render [OF fit]) (simp add: number_end_def is_digit_def)
  then have "read_value (?body, None) = Inr (?doc, (''{}'', None))"
    by (simp add: read_value_def bracketed_def ms)
  moreover have "length ?body \<le> maxBodySize"
    by (simp add: key_document_def expiring_input_def quote_ascii_def html_safe_def maxBodySize_def)
  ultimately have dec: "Decode key_decoder (MaxBytesReader maxBodySize (Req_Body (post_of ?body))) = Inr (expiring_input, (''{}'', None))"
    using decode_key_document [OF utf8 expires] by (auto simp: key_decoder_def struct_decoder_def decode_with_def MaxBytesReader_def)
  have empty: "Decode_empty key_decoder (''{}'', None) = Inr ()"
    unfolding key_decoder_def by (rule decode_empty_object)
  have valid: "valid_input (checked_at sample_readings) expiring_input"
    by (simp add: valid_input_def expiring_input_def sample_readings_def)
  have e: "entropy sample_readings = Inr (replicate 32 (CHR ''r''))" by (simp add: sample_readings_def)
  have "map_of (keys NewKeyStore) h = None" "nextID NewKeyStore < MaxInt64" for h by (simp_all add: NewKeyStore_def)
  from mks.CreateKey_succeeds [OF keystore_inv_New this(2) TrueI valid e this(1)]
  obtain v s' where cr: "CreateKey memory_repo sample_readings expiring_input NewKeyStore = (Inr v, s')" by blast
  from mks.CreateKey_then_get [OF keystore_inv_New _ cr]
  obtain k where "map_of (keys s') (Hash (View_Key v)) = Some k"
    by (auto simp: NewKeyStore_def KeyStore_GetByHash_def split: option.splits)
  then have "k \<in> ran (map_of (keys s'))" by (rule ranI)
  then show ?thesis using trailing_value_still_creates [OF dec empty cr] by blast
qed

end
