(* ===== verification/Rollout.thy ===== *)
theory Rollout
  imports Migrate
begin

text \<open>
  Several instances that start at once on one database: \<^verbatim>\<open>Migrate\<close> of \<^verbatim>\<open>internal/repository/postgres/migrate.go\<close> taken
  apart into its calls of the database, between which the calls of other instances fall. The advisory lock
  belongs to the connection of the pool that took it, and every call of the pool may use another one; a
  lock ends with its connection. A statement or a transaction is one step.
\<close>

section \<open>One instance\<close>

text \<open>Where an instance is; the arguments of the loop are the names still to come.\<close>

datatype replica =
    Starting
  | Creating
  | Checking "string list"
  | Applying string "stmt list" "string list"
  | Leaving "unit result" \<comment> \<open>about to run the deferred unlock and to return\<close>
  | Exited "unit result"

fun inside :: "replica \<Rightarrow> bool" where
  "inside Creating = True"
| "inside (Checking names) = True"
| "inside (Applying name sql names) = True"
| "inside _ = False"

text \<open>The code between lock and unlock, one call of the database at a time.\<close>

fun advance :: "('d, 'x) migrator \<Rightarrow> embedFS \<Rightarrow> replica \<Rightarrow> 'd \<Rightarrow> replica \<times> 'd" where
  "advance m fs Creating d =
     (case create_versions m d of
        (Inl err, d) \<Rightarrow> (Leaving (Inl (Errorf ''create schema_migrations'' err)), d)
      | (Inr u, d) \<Rightarrow>
          (case ReadDir fs ''migrations'' of
             Inl err \<Rightarrow> (Leaving (Inl (Errorf ''read embedded migrations'' err)), d)
           | Inr names \<Rightarrow> (Checking (sort names), d)))"
| "advance m fs (Checking []) d = (Leaving (Inr ()), d)"
| "advance m fs (Checking (name # names)) d =
     (case isApplied m name d of
        Inl err \<Rightarrow> (Leaving (Inl err), d)
      | Inr applied \<Rightarrow>
          if applied then (Checking names, d)
          else
            (case ReadFile fs (''migrations/'' @ name) of
               Inl err \<Rightarrow> (Leaving (Inl (Errorf (''read migration '' @ name) err)), d)
             | Inr sql \<Rightarrow> (Applying name sql names, d)))"
| "advance m fs (Applying name sql names) d =
     (case apply_migration m name sql d of
        (Inl err, d) \<Rightarrow> (Leaving (Inl (Errorf (''apply migration '' @ name) err)), d)
      | (Inr u, d) \<Rightarrow> (Checking names, d))"
| "advance m fs p d = (p, d)"

section \<open>Many instances\<close>

record 'd rollout =
  ro_db :: 'd
  ro_lock :: "(nat \<times> nat) option" \<comment> \<open>the instance and the connection of its pool that hold the lock\<close>
  ro_inst :: "replica list"

datatype rollout_event =
    Locks nat nat
  | Refused nat
  | Works nat
  | Unlocks nat nat
  | Closes nat nat \<comment> \<open>the connection that holds the lock ends\<close>

text \<open>
  A lock that is held keeps other connections waiting; a call that fails on the way gives up, and its connection,
  with what it holds, is closed. An unlock on a connection that does not hold the lock changes nothing,
  and the code does not look at its answer.
\<close>

inductive rollout_step ::
  "('d, 'x) migrator \<Rightarrow> embedFS \<Rightarrow> 'd rollout \<Rightarrow> rollout_event \<Rightarrow> 'd rollout \<Rightarrow> bool" for m fs where
  ro_locks: "i < length (ro_inst R) \<Longrightarrow> ro_inst R ! i = Starting \<Longrightarrow> ro_lock R = None \<Longrightarrow>
     advisory_lock m migrationLockKey (ro_db R) = (Inr u, d) \<Longrightarrow>
     rollout_step m fs R (Locks i c) (R\<lparr>ro_db := d, ro_lock := Some (i, c), ro_inst := (ro_inst R)[i := Creating]\<rparr>)"
| ro_refused: "i < length (ro_inst R) \<Longrightarrow> ro_inst R ! i = Starting \<Longrightarrow>
     advisory_lock m migrationLockKey (ro_db R) = (Inl err, d) \<Longrightarrow>
     rollout_step m fs R (Refused i)
       (R\<lparr>ro_db := d, ro_inst := (ro_inst R)[i := Exited (Inl (Errorf ''acquire migration lock'' err))]\<rparr>)"
| ro_works: "i < length (ro_inst R) \<Longrightarrow> inside (ro_inst R ! i) \<Longrightarrow> advance m fs (ro_inst R ! i) (ro_db R) = (p, d) \<Longrightarrow>
     rollout_step m fs R (Works i) (R\<lparr>ro_db := d, ro_inst := (ro_inst R)[i := p]\<rparr>)"
| ro_unlocks: "i < length (ro_inst R) \<Longrightarrow> ro_inst R ! i = Leaving r \<Longrightarrow>
     advisory_unlock m migrationLockKey (ro_db R) = (x, d) \<Longrightarrow>
     l = (if ro_lock R = Some (i, c) then None else ro_lock R) \<or> x \<noteq> Inr () \<and> l = ro_lock R \<Longrightarrow>
     rollout_step m fs R (Unlocks i c) (R\<lparr>ro_db := d, ro_lock := l, ro_inst := (ro_inst R)[i := Exited r]\<rparr>)"
| ro_closes: "ro_lock R = Some (i, c) \<Longrightarrow> rollout_step m fs R (Closes i c) (R\<lparr>ro_lock := None\<rparr>)"

inductive_cases rollout_stepE: "rollout_step m fs R e R'"

text \<open>Runs whose events satisfy a condition.\<close>

inductive rollout_run ::
  "('d, 'x) migrator \<Rightarrow> embedFS \<Rightarrow> ('d rollout \<Rightarrow> rollout_event \<Rightarrow> bool) \<Rightarrow> 'd rollout \<Rightarrow> rollout_event list \<Rightarrow> 'd rollout \<Rightarrow> bool"
  for m fs K where
  rr_refl: "rollout_run m fs K R [] R"
| rr_step: "rollout_run m fs K R es R' \<Longrightarrow> rollout_step m fs R' e R'' \<Longrightarrow> K R' e \<Longrightarrow> rollout_run m fs K R (es @ [e]) R''"

definition launch :: "nat \<Rightarrow> 'd \<Rightarrow> 'd rollout" where
  "launch n d = \<lparr>ro_db = d, ro_lock = None, ro_inst = replicate n Starting\<rparr>"

abbreviation any_event :: "'d rollout \<Rightarrow> rollout_event \<Rightarrow> bool" where
  "any_event R e \<equiv> True"

section \<open>One instance alone is \<^verbatim>\<open>Migrate\<close>\<close>

text \<open>The calls of an instance, one after the other with nothing in between.\<close>

inductive alone :: "('d, 'x) migrator \<Rightarrow> embedFS \<Rightarrow> replica \<times> 'd \<Rightarrow> replica \<times> 'd \<Rightarrow> bool" for m fs where
  alone_refl: "alone m fs x x"
| alone_step: "inside (fst x) \<Longrightarrow> alone m fs (advance m fs (fst x) (snd x)) y \<Longrightarrow> alone m fs x y"

lemma alone_loop: "migrate_loop m fs names d = (r, d') \<Longrightarrow> alone m fs (Checking names, d) (Leaving r, d')"
proof (induction names arbitrary: d)
  case Nil
  then show ?case using alone_step [of "(Checking [], d)" m fs "(Leaving (Inr ()), d)"] by (simp add: alone_refl)
next
  case (Cons name names)
  show ?case
  proof (rule alone_step)
    show "alone m fs (advance m fs (fst (Checking (name # names), d)) (snd (Checking (name # names), d))) (Leaving r, d')"
    proof (cases "isApplied m name d = Inr False \<and> (\<exists>sql. ReadFile fs (''migrations/'' @ name) = Inr sql)")
      case True
      then obtain sql where sql: "isApplied m name d = Inr False" "ReadFile fs (''migrations/'' @ name) = Inr sql" by blast
      have "alone m fs (Applying name sql names, d) (Leaving r, d')"
      proof (rule alone_step)
        show "alone m fs (advance m fs (fst (Applying name sql names, d)) (snd (Applying name sql names, d))) (Leaving r, d')"
          using Cons sql by (auto simp: alone_refl split: prod.splits sum.splits)
      qed simp
      then show ?thesis using sql by simp
    next
      case False
      then show ?thesis using Cons by (auto simp: alone_refl split: sum.splits if_splits)
    qed
  qed simp
qed

lemma alone_locked: "migrate_locked m fs d = (r, d') \<Longrightarrow> alone m fs (Creating, d) (Leaving r, d')"
  by (rule alone_step) (auto simp: migrate_locked_def alone_refl split: prod.splits sum.splits intro: alone_loop)

lemma alone_run:
  assumes "alone m fs x y" and "i < length (ro_inst R)" and "x = (ro_inst R ! i, ro_db R)" and "rollout_run m fs K R0 es0 R"
    and "\<And>R. K R (Works i)"
  shows "\<exists>es. rollout_run m fs K R0 es (R\<lparr>ro_db := snd y, ro_inst := (ro_inst R)[i := fst y]\<rparr>)"
  using assms
proof (induction arbitrary: R es0 rule: alone.induct)
  case (alone_refl x)
  then have "R\<lparr>ro_db := snd x, ro_inst := (ro_inst R)[i := fst x]\<rparr> = R" by simp
  then show ?case using alone_refl(3) by metis
next
  case (alone_step x y)
  obtain p d where pd: "advance m fs (fst x) (snd x) = (p, d)" by fastforce
  let ?R = "R\<lparr>ro_db := d, ro_inst := (ro_inst R)[i := p]\<rparr>"
  have "rollout_step m fs R (Works i) ?R"
    using alone_step.prems(1,2) alone_step.hyps(1) pd by (intro ro_works) simp_all
  then have "rollout_run m fs K R0 (es0 @ [Works i]) ?R" using alone_step.prems(3,4) by (blast intro: rr_step)
  from alone_step.IH [OF _ _ this alone_step.prems(4)] alone_step.prems(1) pd show ?case by simp
qed

lemma runs_to_leaving:
  assumes "i < length (ro_inst R)" and "ro_inst R ! i = Starting" and "ro_lock R = None"
    and "advisory_lock m migrationLockKey (ro_db R) = (Inr u, d1)" and "migrate_locked m fs d1 = (r, d2)"
  shows "\<exists>es. rollout_run m fs any_event R es (R\<lparr>ro_db := d2, ro_lock := Some (i, 0), ro_inst := (ro_inst R)[i := Leaving r]\<rparr>)"
proof -
  let ?R1 = "R\<lparr>ro_db := d1, ro_lock := Some (i, 0), ro_inst := (ro_inst R)[i := Creating]\<rparr>"
  have "rollout_step m fs R (Locks i 0) ?R1" using ro_locks [OF assms(1-4)] .
  then have run: "rollout_run m fs any_event R ([] @ [Locks i 0]) ?R1" by (rule rr_step [OF rr_refl]) simp
  have "\<exists>es. rollout_run m fs any_event R es (?R1\<lparr>ro_db := snd (Leaving r, d2), ro_inst := (ro_inst ?R1)[i := fst (Leaving r, d2)]\<rparr>)"
    by (rule alone_run [OF alone_locked [OF assms(5)] _ _ run]) (use assms(1) in simp_all)
  then show ?thesis by (cases R) simp
qed

text \<open>
  The sequential model is a run of this one. An instance that finds the lock free can run to its end without
  the others, and then its result and the database are those of \<^verbatim>\<open>Migrate\<close>, and the lock is free again; so all
  sequences of runs are among the runs here.
\<close>

theorem Migrate_realised:
  assumes "i < length (ro_inst R)" and "ro_inst R ! i = Starting" and "ro_lock R = None" and "Migrate m fs (ro_db R) = (r, d')"
  shows "\<exists>es. rollout_run m fs any_event R es (R\<lparr>ro_db := d', ro_inst := (ro_inst R)[i := Exited r]\<rparr>)"
proof -
  obtain a d1 where lk: "advisory_lock m migrationLockKey (ro_db R) = (a, d1)" by fastforce
  show ?thesis
  proof (cases a)
    case (Inl err)
    then have "rollout_step m fs R (Refused i) (R\<lparr>ro_db := d', ro_inst := (ro_inst R)[i := Exited r]\<rparr>)"
      using ro_refused [OF assms(1,2)] lk assms(4) by (auto simp: Migrate_def)
    then have "rollout_run m fs any_event R ([] @ [Refused i]) (R\<lparr>ro_db := d', ro_inst := (ro_inst R)[i := Exited r]\<rparr>)"
      by (rule rr_step [OF rr_refl]) simp
    then show ?thesis ..
  next
    case (Inr u)
    obtain d2 where d2: "migrate_locked m fs d1 = (r, d2)" and d': "d' = snd (advisory_unlock m migrationLockKey d2)"
      using assms(4) lk Inr by (auto simp: Migrate_def split: prod.splits)
    let ?R = "R\<lparr>ro_db := d2, ro_lock := Some (i, 0), ro_inst := (ro_inst R)[i := Leaving r]\<rparr>"
    obtain es where es: "rollout_run m fs any_event R es ?R" using runs_to_leaving [OF assms(1-3) lk [unfolded Inr] d2] by (elim exE)
    obtain x where "advisory_unlock m migrationLockKey d2 = (x, d')" using d' by (metis prod.collapse)
    then have x: "advisory_unlock m migrationLockKey (ro_db ?R) = (x, d')" by simp
    have "rollout_step m fs ?R (Unlocks i 0) (?R\<lparr>ro_db := d', ro_lock := None, ro_inst := (ro_inst ?R)[i := Exited r]\<rparr>)"
      by (rule ro_unlocks [OF _ _ x]) (use assms(1) in simp_all)
    moreover have "?R\<lparr>ro_db := d', ro_lock := None, ro_inst := (ro_inst ?R)[i := Exited r]\<rparr> =
        R\<lparr>ro_db := d', ro_inst := (ro_inst R)[i := Exited r]\<rparr>"
      using assms(3) by simp
    ultimately have "rollout_step m fs ?R (Unlocks i 0) (R\<lparr>ro_db := d', ro_inst := (ro_inst R)[i := Exited r]\<rparr>)" by (simp only:)
    then have "rollout_run m fs any_event R (es @ [Unlocks i 0]) (R\<lparr>ro_db := d', ro_inst := (ro_inst R)[i := Exited r]\<rparr>)"
      by (rule rr_step [OF es]) simp
    then show ?thesis ..
  qed
qed

section \<open>Without relying on the lock\<close>

definition applied :: "schema \<Rightarrow> string set" where
  "applied S = set (case versions S of None \<Rightarrow> [] | Some vs \<Rightarrow> vs)"

text \<open>What an instance knows of the schema: the names behind it are applied.\<close>

definition has_applied :: "string list \<Rightarrow> string list \<Rightarrow> schema \<Rightarrow> bool" where
  "has_applied names ns S \<longleftrightarrow> versions S \<noteq> None \<and> (\<exists>ps. names = ps @ ns \<and> set ps \<subseteq> applied S)"

fun replica_ok :: "embedFS \<Rightarrow> string list \<Rightarrow> replica \<Rightarrow> schema \<Rightarrow> bool" where
  "replica_ok fs names (Checking ns) S = has_applied names ns S"
| "replica_ok fs names (Applying n sql ns) S = (has_applied names (n # ns) S \<and> ReadFile fs (''migrations/'' @ n) = Inr sql)"
| "replica_ok fs names (Leaving r) S = (r = Inr () \<longrightarrow> has_applied names [] S)"
| "replica_ok fs names (Exited r) S = (r = Inr () \<longrightarrow> has_applied names [] S)"
| "replica_ok fs names _ S = True"

definition on_track :: "embedFS \<Rightarrow> string list \<Rightarrow> schema \<Rightarrow> schema \<Rightarrow> bool" where
  "on_track fs names S0 S \<longleftrightarrow> (\<exists>n. installs fs (take n (pending names S0)) (ensure_versions S0) = Inr (ensure_versions S))"

definition grows :: "schema \<Rightarrow> schema \<Rightarrow> bool" where
  "grows S S' \<longleftrightarrow> (versions S \<noteq> None \<longrightarrow> versions S' \<noteq> None) \<and> applied S \<subseteq> applied S'"

lemma grows_refl [simp]: "grows S S" "grows S (ensure_versions S)"
  by (auto simp: grows_def ensure_versions_def applied_def split: option.splits)

lemma has_applied_grows: "grows S S' \<Longrightarrow> has_applied names ns S \<Longrightarrow> has_applied names ns S'"
  by (auto simp: grows_def has_applied_def)

lemma replica_ok_grows: "grows S S' \<Longrightarrow> replica_ok fs names p S \<Longrightarrow> replica_ok fs names p S'"
  by (cases p) (auto intro: has_applied_grows)

lemma has_applied_next: "has_applied names (n # ns) S \<Longrightarrow> n \<in> applied S \<Longrightarrow> has_applied names ns S"
  by (auto simp: has_applied_def intro: exI [of _ "_ @ [n]"])

text \<open>The name an instance is at, when it is not applied, is the next pending one.\<close>

lemma next_pending:
  assumes "has_applied names (n # ns) S" and "n \<notin> applied S"
  shows "pending names S = n # pending ns S"
  using assms by (auto simp: has_applied_def pending_def applied_def subset_iff split: option.splits)

lemma on_track_pending:
  assumes "installs fs (take k (pending names S0)) (ensure_versions S0) = Inr (ensure_versions S)" and "distinct names"
  shows "pending names S = drop k (pending names S0)"
  using pending_installed [of fs k names "ensure_versions S0" "ensure_versions S"] assms by simp

lemma install_next:
  assumes "on_track fs names S0 S" and "distinct names" and "has_applied names (n # ns) S" and "install_one fs n S = Inr S'"
  shows "on_track fs names S0 S'" "grows S S'" "n \<in> applied S'"
proof -
  obtain vs where vs: "versions S = Some vs" using assms(3) by (auto simp: has_applied_def)
  have v': "versions S' = Some (vs @ [n])" "n \<notin> set vs" using install_one_versions [OF assms(4) vs] .
  then show "grows S S'" "n \<in> applied S'" using vs by (auto simp: grows_def applied_def)
  obtain k where k: "installs fs (take k (pending names S0)) (ensure_versions S0) = Inr (ensure_versions S)"
    using assms(1) by (auto simp: on_track_def)
  have "drop k (pending names S0) = n # pending ns S"
    using on_track_pending [OF k assms(2)] next_pending [OF assms(3)] v' vs by (simp add: applied_def)
  then have "take (Suc k) (pending names S0) = take k (pending names S0) @ [n]"
    by (metis append_Cons append_eq_conv_conj append_take_drop_id hd_drop_conv_nth list.sel(1) not_less drop_eq_Nil list.distinct(1) take_Suc_conv_app_nth)
  then have "installs fs (take (Suc k) (pending names S0)) (ensure_versions S0) = Inr (ensure_versions S')"
    using k assms(4) vs v' by (simp add: installs_append ensure_id)
  then show "on_track fs names S0 S'" unfolding on_track_def by blast
qed

lemma advance_track:
  assumes law: "migrator_law m" and dir: "ReadDir fs ''migrations'' = Inr names" "distinct names"
    and inside: "inside p" and adv: "advance m fs p d = (p', d')"
    and ok: "replica_ok fs (sort names) p (schema_of m d)" "on_track fs (sort names) S0 (schema_of m d)"
  shows "on_track fs (sort names) S0 (schema_of m d')" "replica_ok fs (sort names) p' (schema_of m d')"
    "grows (schema_of m d) (schema_of m d')"
proof -
  have "on_track fs (sort names) S0 (schema_of m d') \<and> replica_ok fs (sort names) p' (schema_of m d') \<and>
    grows (schema_of m d) (schema_of m d')"
  proof (cases p)
    case Creating
    obtain a d1 where cr: "create_versions m d = (a, d1)" by fastforce
    then have d1: "d1 = d'" using adv Creating dir(1) by (auto split: sum.splits)
    note eff = law_create(1) [OF law cr]
    have "on_track fs (sort names) S0 (schema_of m d')" using ok(2) eff d1 by (auto simp: on_track_def)
    moreover have "grows (schema_of m d) (schema_of m d')" using eff d1 by auto
    moreover have "replica_ok fs (sort names) p' (schema_of m d')"
      using adv Creating cr eff d1 dir(1) by (auto simp: has_applied_def split: sum.splits)
    ultimately show ?thesis by blast
  next
    case (Checking ns)
    show ?thesis
    proof (cases ns)
      case Nil
      then show ?thesis using Checking adv ok by auto
    next
      case (Cons n ns')
      then have "d' = d" using adv Checking by (auto split: sum.splits if_splits)
      moreover have "replica_ok fs (sort names) p' (schema_of m d)"
      proof (cases "select_version m n d")
        case (Inr b)
        then obtain vs where "versions (schema_of m d) = Some vs" "b = (n \<in> set vs)" using law_lock(4) [OF law] by blast
        then show ?thesis using adv Checking Cons Inr ok(1) has_applied_next [of "sort names" n ns' "schema_of m d"]
          by (auto simp: isApplied_def applied_def split: if_splits sum.splits)
      qed (use adv Checking Cons in \<open>auto simp: isApplied_def\<close>)
      ultimately show ?thesis using ok(2) by simp
    qed
  next
    case (Applying n sql ns)
    obtain a d1 where ap: "apply_migration m n sql d = (a, d1)" by fastforce
    then have d1: "d1 = d'" using adv Applying by (auto split: sum.splits)
    have fl: "ReadFile fs (''migrations/'' @ n) = Inr sql" and h: "has_applied (sort names) (n # ns) (schema_of m d)"
      using ok(1) Applying by simp_all
    from apply_effect(1) [OF law fl ap] show ?thesis
    proof
      assume "schema_of m d1 = schema_of m d \<and> (\<exists>e. a = Inl e)"
      then show ?thesis using adv Applying ap d1 ok(2) by auto
    next
      assume one: "install_one fs n (schema_of m d) = Inr (schema_of m d1)"
      note next_ = install_next [OF ok(2) _ h one]
      have "has_applied (sort names) (n # ns) (schema_of m d1)" using has_applied_grows [OF next_(2) h] dir(2) by simp
      then have "has_applied (sort names) ns (schema_of m d1)" using has_applied_next next_(3) dir(2) by simp
      then show ?thesis using next_ dir(2) adv Applying ap d1 by (auto split: sum.splits)
    qed
  qed (use inside in simp_all)
  then show "on_track fs (sort names) S0 (schema_of m d')" "replica_ok fs (sort names) p' (schema_of m d')"
    "grows (schema_of m d) (schema_of m d')" by blast+
qed

definition rollout_inv :: "('d, 'x) migrator \<Rightarrow> embedFS \<Rightarrow> string list \<Rightarrow> schema \<Rightarrow> 'd rollout \<Rightarrow> bool" where
  "rollout_inv m fs names S0 R \<longleftrightarrow> on_track fs names S0 (schema_of m (ro_db R)) \<and>
     (\<forall>i < length (ro_inst R). replica_ok fs names (ro_inst R ! i) (schema_of m (ro_db R)))"

lemma rollout_invI:
  assumes "rollout_inv m fs names S0 R" and "on_track fs names S0 (schema_of m d)" and "grows (schema_of m (ro_db R)) (schema_of m d)"
    and "replica_ok fs names p (schema_of m d)"
  shows "rollout_inv m fs names S0 (R\<lparr>ro_db := d, ro_inst := (ro_inst R)[i := p]\<rparr>)"
    and "rollout_inv m fs names S0 (R\<lparr>ro_db := d, ro_lock := l, ro_inst := (ro_inst R)[i := p]\<rparr>)"
proof -
  have "replica_ok fs names ((ro_inst R)[i := p] ! j) (schema_of m d)" if "j < length (ro_inst R)" for j
    using that assms(1,4) replica_ok_grows [OF assms(3)] by (cases "j = i") (auto simp: rollout_inv_def)
  then show "rollout_inv m fs names S0 (R\<lparr>ro_db := d, ro_inst := (ro_inst R)[i := p]\<rparr>)"
    "rollout_inv m fs names S0 (R\<lparr>ro_db := d, ro_lock := l, ro_inst := (ro_inst R)[i := p]\<rparr>)"
    using assms(2) by (simp_all add: rollout_inv_def)
qed

lemma rollout_inv_step:
  assumes law: "migrator_law m" and dir: "ReadDir fs ''migrations'' = Inr names" "distinct names"
    and inv: "rollout_inv m fs (sort names) S0 R" and st: "rollout_step m fs R e R'"
  shows "rollout_inv m fs (sort names) S0 R'"
proof -
  have track: "on_track fs (sort names) S0 (schema_of m (ro_db R))" using inv by (simp add: rollout_inv_def)
  have ok: "replica_ok fs (sort names) (ro_inst R ! i) (schema_of m (ro_db R))" if "i < length (ro_inst R)" for i
    using inv that by (simp add: rollout_inv_def)
  from st show ?thesis
  proof (cases rule: rollout_step.cases)
    case (ro_locks i u d c)
    then have "schema_of m d = schema_of m (ro_db R)" using law_lock(1) [OF law] by blast
    then show ?thesis unfolding ro_locks(2) using track by (intro rollout_invI(2) [OF inv]) simp_all
  next
    case (ro_refused i err d)
    then have "schema_of m d = schema_of m (ro_db R)" using law_lock(1) [OF law] by blast
    then show ?thesis unfolding ro_refused(2) using track by (intro rollout_invI(1) [OF inv]) simp_all
  next
    case (ro_works i p d)
    note adv = advance_track [OF law dir ro_works(4,5) ok [OF ro_works(3)] track]
    show ?thesis unfolding ro_works(2) by (rule rollout_invI(1) [OF inv adv(1,3,2)])
  next
    case (ro_unlocks i r x d l c)
    then have "schema_of m d = schema_of m (ro_db R)" using law_lock(2) [OF law, of migrationLockKey "ro_db R"] by simp
    then show ?thesis unfolding ro_unlocks(2) using track ok [OF ro_unlocks(3)] ro_unlocks(4)
      by (intro rollout_invI(2) [OF inv]) simp_all
  next
    case (ro_closes i c)
    then show ?thesis using inv by (simp add: rollout_inv_def)
  qed
qed

lemma rollout_inv_launch: "rollout_inv m fs names (schema_of m d) (launch k d)"
  by (auto simp: rollout_inv_def launch_def on_track_def intro: exI [of _ 0])

lemma rollout_inv_run:
  assumes "rollout_run m fs K R es R'" and "migrator_law m" and "ReadDir fs ''migrations'' = Inr names" and "distinct names"
    and "rollout_inv m fs (sort names) S0 R"
  shows "rollout_inv m fs (sort names) S0 R'"
  using assms(1,5) by (induction rule: rollout_run.induct) (auto intro: rollout_inv_step [OF assms(2-4)])

text \<open>
  C11: Migrations are installed once however many instances start. For any number of instances on one database, any
  interleaving of their calls and any failures, and even if the lock does not exclude them (it is lost
  with its connection while they run), the schema is at every moment the result of installing a prefix of the pending
  migrations, each once and in file-name order; and once any instance has succeeded, all of them are installed.
\<close>

theorem rollout_exactly_once:
  assumes "migrator_law m" and "ReadDir fs ''migrations'' = Inr names" and "distinct names"
    and "pending (sort names) (schema_of m d) = todo" and "rollout_run m fs any_event (launch k d) es R"
  shows "\<exists>n \<le> length todo. installs fs (take n todo) (ensure_versions (schema_of m d)) = Inr (ensure_versions (schema_of m (ro_db R))) \<and>
    (Exited (Inr ()) \<in> set (ro_inst R) \<longrightarrow> n = length todo \<and> versions (schema_of m (ro_db R)) \<noteq> None)"
proof -
  let ?S = "schema_of m (ro_db R)"
  have inv: "rollout_inv m fs (sort names) (schema_of m d) R"
    by (rule rollout_inv_run [OF assms(5,1-3) rollout_inv_launch])
  then obtain n where n: "installs fs (take n todo) (ensure_versions (schema_of m d)) = Inr (ensure_versions ?S)"
    using assms(4) by (auto simp: rollout_inv_def on_track_def)
  have "length todo \<le> n \<and> versions ?S \<noteq> None" if "Exited (Inr ()) \<in> set (ro_inst R)"
  proof -
    from that obtain i where "i < length (ro_inst R)" "ro_inst R ! i = Exited (Inr ())" by (auto simp: in_set_conv_nth)
    then have h: "has_applied (sort names) [] ?S" using inv by (auto simp: rollout_inv_def dest: spec [of _ i])
    then have "pending (sort names) ?S = []"
      by (auto simp: has_applied_def pending_def applied_def filter_empty_conv subset_iff)
    moreover have "pending (sort names) ?S = drop n todo"
      using on_track_pending [of fs n "sort names" "schema_of m d" ?S] n assms(3,4) by simp
    ultimately show ?thesis using h by (simp add: has_applied_def)
  qed
  then show ?thesis using n by (intro exI [of _ "min n (length todo)"]) (auto simp: min_def)
qed

section \<open>With the lock\<close>

fun leaving :: "replica \<Rightarrow> bool" where
  "leaving (Leaving r) = True"
| "leaving _ = False"

abbreviation busy :: "replica \<Rightarrow> bool" where
  "busy p \<equiv> inside p \<or> leaving p"

text \<open>The pool gives lock and unlock the same connection, and keeps it open in between.\<close>

definition one_connection :: "'d rollout \<Rightarrow> rollout_event \<Rightarrow> bool" where
  "one_connection R e \<longleftrightarrow>
     (case e of
        Closes i c \<Rightarrow> \<not> busy (ro_inst R ! i)
      | Unlocks i c \<Rightarrow> ro_lock R = Some (i, c)
      | _ \<Rightarrow> True)"

text \<open>No instance has failed, and the holder of the lock is the only one at work.\<close>

fun healthy :: "replica \<Rightarrow> schema \<Rightarrow> bool" where
  "healthy (Applying n sql ns) S = (n \<notin> applied S)"
| "healthy (Leaving r) S = (r = Inr ())"
| "healthy (Exited r) S = (r = Inr ())"
| "healthy _ S = True"

definition locked_inv :: "('d, 'x) migrator \<Rightarrow> 'd rollout \<Rightarrow> bool" where
  "locked_inv m R \<longleftrightarrow> db_up m (ro_db R) \<and>
     (\<forall>i < length (ro_inst R). healthy (ro_inst R ! i) (schema_of m (ro_db R)) \<and>
        (busy (ro_inst R ! i) \<longleftrightarrow> (\<exists>c. ro_lock R = Some (i, c)))) \<and>
     (\<forall>i c. ro_lock R = Some (i, c) \<longrightarrow> i < length (ro_inst R))"

lemma healthy_idle: "\<not> busy p \<Longrightarrow> healthy p S = healthy p S'"
  by (cases p) simp_all

lemma advance_up:
  assumes law: "migrator_law m" and dir: "ReadDir fs ''migrations'' = Inr names" "distinct names"
    and goal: "installs fs (pending (sort names) S0) (ensure_versions S0) = Inr S"
    and inside: "inside p" and adv: "advance m fs p d = (p', d')"
    and ok: "replica_ok fs (sort names) p (schema_of m d)" "on_track fs (sort names) S0 (schema_of m d)"
    and up: "db_up m d" "healthy p (schema_of m d)"
  shows "db_up m d'" "healthy p' (schema_of m d')" "busy p'"
proof -
  have installs: "\<exists>S'. install_one fs n (schema_of m d) = Inr S'"
    if "has_applied (sort names) (n # ns) (schema_of m d)" "n \<notin> applied (schema_of m d)" for n ns
  proof -
    obtain k where k: "installs fs (take k (pending (sort names) S0)) (ensure_versions S0) = Inr (ensure_versions (schema_of m d))"
      using ok(2) by (auto simp: on_track_def)
    have "installs fs (drop k (pending (sort names) S0)) (ensure_versions (schema_of m d)) = Inr S"
      using goal k installs_append [of fs "take k (pending (sort names) S0)" "drop k (pending (sort names) S0)"] by simp
    moreover have "drop k (pending (sort names) S0) = n # pending ns (schema_of m d)"
      using on_track_pending [OF k] next_pending [OF that] dir(2) by simp
    moreover have "versions (schema_of m d) \<noteq> None" using that(1) by (simp add: has_applied_def)
    ultimately show ?thesis by (auto simp: ensure_id split: sum.splits)
  qed
  have "db_up m d' \<and> healthy p' (schema_of m d') \<and> busy p'"
  proof (cases p)
    case Creating
    obtain a d1 where cr: "create_versions m d = (a, d1)" by fastforce
    then show ?thesis using adv Creating dir(1) law_create [OF law cr] up(1) by auto
  next
    case (Checking ns)
    show ?thesis
    proof (cases ns)
      case (Cons n ns')
      then have h: "has_applied (sort names) (n # ns') (schema_of m d)" using ok(1) Checking by simp
      then obtain b where sel: "select_version m n d = Inr b"
        using law_lock(5) [OF law, of n d] up(1) by (cases "select_version m n d") (auto simp: has_applied_def)
      then have b: "b = (n \<in> applied (schema_of m d))" using law_lock(4) [OF law] by (fastforce simp: applied_def)
      show ?thesis
      proof (cases b)
        case False
        then obtain S' where "install_one fs n (schema_of m d) = Inr S'" using installs [OF h] b by blast
        then obtain sql where "ReadFile fs (''migrations/'' @ n) = Inr sql" by (auto simp: install_one_def split: sum.splits)
        then show ?thesis using adv Checking Cons sel False b up(1) by (auto simp: isApplied_def)
      qed (use adv Checking Cons sel up(1) in \<open>auto simp: isApplied_def\<close>)
    qed (use adv Checking up(1) in auto)
  next
    case (Applying n sql ns)
    have fl: "ReadFile fs (''migrations/'' @ n) = Inr sql" using ok(1) Applying by simp
    obtain S' where one: "install_one fs n (schema_of m d) = Inr S'" using installs ok(1) up(2) Applying by auto
    obtain a d1 where ap: "apply_migration m n sql d = (a, d1)" by fastforce
    then show ?thesis using adv Applying apply_effect(2,3) [OF law fl ap] up(1) one by auto
  qed (use inside in simp_all)
  then show "db_up m d'" "healthy p' (schema_of m d')" "busy p'" by blast+
qed

lemma locked_invD:
  assumes "locked_inv m R"
  shows "db_up m (ro_db R)" "i < length (ro_inst R) \<Longrightarrow> healthy (ro_inst R ! i) (schema_of m (ro_db R))"
    "i < length (ro_inst R) \<Longrightarrow> busy (ro_inst R ! i) \<longleftrightarrow> (\<exists>c. ro_lock R = Some (i, c))"
    "ro_lock R = Some (i, c) \<Longrightarrow> i < length (ro_inst R)"
  using assms unfolding locked_inv_def by blast+

text \<open>The one step that changes the instance \<open>i\<close>, while no other is at work.\<close>

lemma locked_invI:
  assumes inv: "locked_inv m R" and i: "i < length (ro_inst R)" and idle: "\<And>j c. ro_lock R = Some (j, c) \<Longrightarrow> j = i"
    and up: "db_up m d" and ok: "healthy p (schema_of m d)" and l: "busy p \<longleftrightarrow> l \<noteq> None" "\<And>j c. l = Some (j, c) \<Longrightarrow> j = i"
  shows "locked_inv m (R\<lparr>ro_db := d, ro_lock := l, ro_inst := (ro_inst R)[i := p]\<rparr>)"
proof -
  have others: "healthy (ro_inst R ! j) (schema_of m d) \<and> \<not> busy (ro_inst R ! j)" if "j < length (ro_inst R)" "j \<noteq> i" for j
    using that locked_invD(2,3) [OF inv, of j] idle healthy_idle [of "ro_inst R ! j"] by blast
  have "healthy ((ro_inst R)[i := p] ! j) (schema_of m d) \<and> (busy ((ro_inst R)[i := p] ! j) \<longleftrightarrow> (\<exists>c. l = Some (j, c)))"
    if "j < length (ro_inst R)" for j
  proof (cases "j = i")
    case True
    then show ?thesis using ok l i by (cases l) auto
  qed (use others [OF that] l(2) in auto)
  then show ?thesis using up l(2) i by (auto simp: locked_inv_def)
qed

fun weight :: "nat \<Rightarrow> replica \<Rightarrow> nat" where
  "weight n Starting = 2 * n + 4"
| "weight n Creating = 2 * n + 3"
| "weight n (Checking ns) = 2 * length ns + 2"
| "weight n (Applying x sql ns) = 2 * length ns + 3"
| "weight n (Leaving r) = 1"
| "weight n (Exited r) = 0"

definition remaining_calls :: "nat \<Rightarrow> 'd rollout \<Rightarrow> nat" where
  "remaining_calls n R = (\<Sum>p \<leftarrow> ro_inst R. weight n p)"

lemma advance_weight:
  assumes "ReadDir fs ''migrations'' = Inr names" and "inside p" and "advance m fs p d = (p', d')"
  shows "weight (length names) p' < weight (length names) p"
proof (cases p)
  case (Checking ns)
  then show ?thesis using assms by (cases ns) (auto split: sum.splits if_splits)
qed (use assms in \<open>auto split: prod.splits sum.splits\<close>)

lemma remaining_update:
  assumes "i < length (ro_inst R)" and "weight n p < weight n (ro_inst R ! i)"
  shows "remaining_calls n (R\<lparr>ro_db := d, ro_lock := l, ro_inst := (ro_inst R)[i := p]\<rparr>) < remaining_calls n R"
proof -
  have "(\<Sum>p \<leftarrow> ro_inst R. weight n p) =
      (\<Sum>p \<leftarrow> take i (ro_inst R) @ ro_inst R ! i # drop (Suc i) (ro_inst R). weight n p)"
    using id_take_nth_drop [OF assms(1)] by simp
  then show ?thesis using assms by (simp add: remaining_calls_def upd_conv_take_nth_drop)
qed

lemma locked_step:
  assumes law: "migrator_law m" and dir: "ReadDir fs ''migrations'' = Inr names" "distinct names"
    and goal: "installs fs (pending (sort names) S0) (ensure_versions S0) = Inr S"
    and inv: "rollout_inv m fs (sort names) S0 R" "locked_inv m R"
    and st: "rollout_step m fs R e R'" "one_connection R e"
  shows "locked_inv m R' \<and> remaining_calls (length names) R' < remaining_calls (length names) R"
  using st(1)
proof (cases rule: rollout_step.cases)
  case (ro_locks i u d c)
  have "db_up m d" using law_lock(1) [OF law ro_locks(6)] locked_invD(1) [OF inv(2)] by blast
  then show ?thesis unfolding ro_locks(2) using ro_locks(3-5)
    by (intro conjI locked_invI [OF inv(2)] remaining_update) auto
next
  case (ro_refused i err d)
  then show ?thesis using law_lock(1) [OF law ro_refused(5)] locked_invD(1) [OF inv(2)] by simp
next
  case (ro_works i p d)
  have track: "on_track fs (sort names) S0 (schema_of m (ro_db R))" "replica_ok fs (sort names) (ro_inst R ! i) (schema_of m (ro_db R))"
    using inv(1) ro_works(3) by (simp_all add: rollout_inv_def)
  note adv = advance_up [OF law dir goal ro_works(4,5) track(2,1) locked_invD(1) [OF inv(2)] locked_invD(2) [OF inv(2) ro_works(3)]]
  obtain c where c: "ro_lock R = Some (i, c)" using locked_invD(3) [OF inv(2) ro_works(3)] ro_works(4) by blast
  have R': "R' = R\<lparr>ro_db := d, ro_lock := ro_lock R, ro_inst := (ro_inst R)[i := p]\<rparr>" using ro_works(2) by simp
  show ?thesis unfolding R'
    using ro_works(3) c adv advance_weight [OF dir(1) ro_works(4,5)]
    by (intro conjI locked_invI [OF inv(2)] remaining_update) auto
next
  case (ro_unlocks i r x d l c)
  have c: "ro_lock R = Some (i, c)" using st(2) ro_unlocks(1) by (simp add: one_connection_def)
  have "db_up m d" "x = Inr ()"
    using law_lock(3,6) [OF law locked_invD(1) [OF inv(2)], of migrationLockKey] ro_unlocks(5) by auto
  moreover have "r = Inr ()" using locked_invD(2) [OF inv(2) ro_unlocks(3)] ro_unlocks(4) by simp
  ultimately show ?thesis unfolding ro_unlocks(2) using ro_unlocks(3,4,6) c
    by (intro conjI locked_invI [OF inv(2)] remaining_update) auto
next
  case (ro_closes i c)
  have "i < length (ro_inst R)" "busy (ro_inst R ! i)"
    using locked_invD(4) [OF inv(2) ro_closes(3)] locked_invD(3) [OF inv(2)] ro_closes(3) by blast+
  then show ?thesis using st(2) ro_closes(1) by (simp add: one_connection_def)
qed

lemma locked_run:
  assumes "rollout_run m fs one_connection R es R'" and "migrator_law m" and "ReadDir fs ''migrations'' = Inr names" and "distinct names"
    and "installs fs (pending (sort names) S0) (ensure_versions S0) = Inr S"
    and "rollout_inv m fs (sort names) S0 R" and "locked_inv m R"
  shows "rollout_inv m fs (sort names) S0 R' \<and> locked_inv m R' \<and>
    length es + remaining_calls (length names) R' \<le> remaining_calls (length names) R \<and> length (ro_inst R') = length (ro_inst R)"
  using assms(1,6,7)
proof (induction rule: rollout_run.induct)
  case (rr_step R es R' e R'')
  then have inv: "rollout_inv m fs (sort names) S0 R'" "locked_inv m R'" by simp_all
  have "length (ro_inst R'') = length (ro_inst R')" using rr_step.hyps(2) by (cases rule: rollout_step.cases) simp_all
  then show ?case
    using rr_step rollout_inv_step [OF assms(2-4) inv(1) rr_step.hyps(2)] locked_step [OF assms(2-5) inv rr_step.hyps(2,3)] by simp
qed simp

lemma locked_not_stuck:
  assumes law: "migrator_law m" and inv: "locked_inv m R" and i: "i < length (ro_inst R)" "\<And>r. ro_inst R ! i \<noteq> Exited r"
  shows "\<exists>e R'. rollout_step m fs R e R' \<and> one_connection R e"
proof (cases "ro_lock R")
  case None
  then have "ro_inst R ! i = Starting" using locked_invD(3) [OF inv i(1)] i(2) by (cases "ro_inst R ! i") auto
  moreover obtain d where "advisory_lock m migrationLockKey (ro_db R) = (Inr (), d)"
    using law_lock(1) [OF law] locked_invD(1) [OF inv] by (metis prod.collapse)
  ultimately show ?thesis using ro_locks [OF i(1) _ None] by (fastforce simp: one_connection_def)
next
  case (Some h)
  then obtain j c where l: "ro_lock R = Some (j, c)" by (cases h) simp
  then have j: "j < length (ro_inst R)" "busy (ro_inst R ! j)" using locked_invD(3,4) [OF inv] by blast+
  show ?thesis
  proof (cases "inside (ro_inst R ! j)")
    case True
    obtain p d where "advance m fs (ro_inst R ! j) (ro_db R) = (p, d)" by fastforce
    from ro_works [OF j(1) True this] show ?thesis by (fastforce simp: one_connection_def)
  next
    case False
    then obtain r where r: "ro_inst R ! j = Leaving r" using j(2) by (cases "ro_inst R ! j") auto
    obtain x d where "advisory_unlock m migrationLockKey (ro_db R) = (x, d)" by fastforce
    from ro_unlocks [OF j(1) r this, of None c] l show ?thesis by (fastforce simp: one_connection_def)
  qed
qed

lemma locked_launch: "db_up m d \<Longrightarrow> locked_inv m (launch k d)" "remaining_calls n (launch k d) = k * (2 * n + 4)"
  by (simp_all add: locked_inv_def launch_def remaining_calls_def sum_list_replicate)

text \<open>
  C12: A rollout goes through. If the database answers, the migrations install, and the pool gives lock and unlock
  the same connection, then of \<open>k\<close> instances that start together none fails because of another; they need at
  most \<open>2 * n + 4\<close> steps each for \<open>n\<close> migrations, whatever the interleaving; and when no step is left all of
  them have succeeded and, if there are any, the schema is the fully migrated one.
\<close>

theorem rollout_completes:
  assumes "migrator_law m" and "ReadDir fs ''migrations'' = Inr names" and "distinct names" and "db_up m d"
    and "installs fs (pending (sort names) (schema_of m d)) (ensure_versions (schema_of m d)) = Inr S"
    and "rollout_run m fs one_connection (launch k d) es R"
  shows "length es \<le> k * (2 * length names + 4) \<and>
    (\<forall>i < k. \<forall>r. ro_inst R ! i = Exited r \<longrightarrow> r = Inr ()) \<and>
    ((\<forall>e R'. rollout_step m fs R e R' \<longrightarrow> \<not> one_connection R e) \<longrightarrow>
       (\<forall>i < k. ro_inst R ! i = Exited (Inr ())) \<and> (0 < k \<longrightarrow> schema_of m (ro_db R) = S))"
proof -
  note L = locked_run [OF assms(6,1,2,3,5) rollout_inv_launch locked_launch(1) [OF assms(4)]]
  have inv: "rollout_inv m fs (sort names) (schema_of m d) R" "locked_inv m R" and len: "length (ro_inst R) = k"
    using L by (auto simp: launch_def)
  have ok: "ro_inst R ! i = Exited r \<Longrightarrow> i < k \<Longrightarrow> r = Inr ()" for i r
    using locked_invD(2) [OF inv(2), of i] len by simp
  have done_: "(\<forall>i < k. ro_inst R ! i = Exited (Inr ())) \<and> (0 < k \<longrightarrow> schema_of m (ro_db R) = S)"
    if stuck: "\<forall>e R'. rollout_step m fs R e R' \<longrightarrow> \<not> one_connection R e"
  proof -
    have all: "ro_inst R ! i = Exited (Inr ())" if "i < k" for i
      using that ok [of i] locked_not_stuck [OF assms(1) inv(2), of i fs] stuck len by blast
    moreover have "schema_of m (ro_db R) = S" if "0 < k"
    proof -
      have "has_applied (sort names) [] (schema_of m (ro_db R))"
        using inv(1) all [OF that] that len by (auto simp: rollout_inv_def dest: spec [of _ 0])
      then have v: "versions (schema_of m (ro_db R)) \<noteq> None" "pending (sort names) (schema_of m (ro_db R)) = []"
        by (auto simp: has_applied_def pending_def applied_def filter_empty_conv subset_iff)
      obtain n where n: "installs fs (take n (pending (sort names) (schema_of m d))) (ensure_versions (schema_of m d)) =
          Inr (ensure_versions (schema_of m (ro_db R)))"
        using inv(1) by (auto simp: rollout_inv_def on_track_def)
      then have "drop n (pending (sort names) (schema_of m d)) = []" using on_track_pending [OF n] assms(3) v(2) by simp
      then show ?thesis using n assms(5) v(1) by (simp add: ensure_id)
    qed
    ultimately show ?thesis by blast
  qed
  have "length es \<le> k * (2 * length names + 4)" using L locked_launch(2) [of "length names" k d] by simp
  then show ?thesis using ok done_ by blast
qed

section \<open>Two instances on an empty database\<close>

definition empty_db :: "schema database" where
  "empty_db = \<lparr>db_tables = empty_schema, db_faults = []\<rparr>"

lemma empty_db_todo: "pending (sort migration_names) (schema_of sample_migrator empty_db) = migration_names"
  unfolding migrationsFS_dir(3) by (simp add: pending_def empty_schema_def empty_db_def)

lemma empty_db_goal:
  obtains S where "installs migrationsFS (pending (sort migration_names) (schema_of sample_migrator empty_db))
      (ensure_versions (schema_of sample_migrator empty_db)) = Inr S" "versions S = Some migration_names"
  using installs_empty unfolding empty_db_todo by (auto simp: empty_db_def)

lemma empty_db_migrates: obtains d' where "Migrate sample_migrator migrationsFS empty_db = (Inr (), d')"
proof -
  have "db_up sample_migrator empty_db" by (simp add: empty_db_def)
  with empty_db_goal Migrate_up [OF sample_migrator_law migrationsFS_dir(1,2)] that show thesis by metis
qed

theorem rollout_exactly_once_witness:
  "\<exists>es R. rollout_run sample_migrator migrationsFS any_event (launch 2 empty_db) es R \<and>
     ro_inst R = [Exited (Inr ()), Starting] \<and> versions (db_tables (ro_db R)) = Some migration_names"
proof -
  obtain d' where "Migrate sample_migrator migrationsFS empty_db = (Inr (), d')" by (rule empty_db_migrates)
  then obtain es where es: "rollout_run sample_migrator migrationsFS any_event (launch 2 empty_db) es
      ((launch 2 empty_db)\<lparr>ro_db := d', ro_inst := (ro_inst (launch 2 empty_db))[0 := Exited (Inr ())]\<rparr>)"
    using Migrate_realised [of 0 "launch 2 empty_db" sample_migrator migrationsFS "Inr ()" d'] by (auto simp: launch_def)
  obtain S where S: "installs migrationsFS migration_names (ensure_versions (schema_of sample_migrator empty_db)) = Inr S"
    "versions S = Some migration_names"
    using empty_db_goal unfolding empty_db_todo by blast
  from rollout_exactly_once [OF sample_migrator_law migrationsFS_dir(1,2) empty_db_todo es] S
  have "ensure_versions (db_tables d') = S \<and> versions (db_tables d') \<noteq> None" by (auto simp: launch_def numeral_2_eq_2)
  then show ?thesis using es S(2) ensure_id [of "db_tables d'"]
    by (intro exI [of _ es] exI) (auto simp: launch_def numeral_2_eq_2)
qed

lemma complete_run:
  assumes "migrator_law m" and "ReadDir fs ''migrations'' = Inr names" and "distinct names" and "db_up m d"
    and "installs fs (pending (sort names) (schema_of m d)) (ensure_versions (schema_of m d)) = Inr S"
  obtains es R where "rollout_run m fs one_connection (launch k d) es R"
    "\<forall>e R'. rollout_step m fs R e R' \<longrightarrow> \<not> one_connection R e"
proof -
  let ?P = "\<lambda>es. \<exists>R. rollout_run m fs one_connection (launch k d) es R"
  have bound: "\<forall>es. ?P es \<longrightarrow> length es < Suc (remaining_calls (length names) (launch k d))"
  proof (intro allI impI, elim exE)
    fix es R
    assume "rollout_run m fs one_connection (launch k d) es R"
    from locked_run [OF this assms(1-3,5) rollout_inv_launch locked_launch(1) [OF assms(4)]]
    show "length es < Suc (remaining_calls (length names) (launch k d))" by simp
  qed
  have "?P []" using rr_refl by blast
  from ex_has_greatest_nat [of ?P, OF this bound] obtain es where es: "?P es" "\<forall>es'. ?P es' \<longrightarrow> length es' \<le> length es" by blast
  then obtain R where R: "rollout_run m fs one_connection (launch k d) es R" by blast
  have "\<not> one_connection R e" if "rollout_step m fs R e R'" for e R'
    using es(2) rr_step [OF R that] by fastforce
  then show thesis using that R by blast
qed

theorem rollout_completes_witness:
  "\<exists>es R. rollout_run sample_migrator migrationsFS one_connection (launch 2 empty_db) es R \<and> length es \<le> 36 \<and>
     ro_inst R ! 0 = Exited (Inr ()) \<and> ro_inst R ! 1 = Exited (Inr ()) \<and> versions (db_tables (ro_db R)) = Some migration_names"
proof -
  obtain S where S: "installs migrationsFS (pending (sort migration_names) (schema_of sample_migrator empty_db))
      (ensure_versions (schema_of sample_migrator empty_db)) = Inr S" "versions S = Some migration_names"
    by (rule empty_db_goal)
  have up: "db_up sample_migrator empty_db" by (simp add: empty_db_def)
  obtain es R where run: "rollout_run sample_migrator migrationsFS one_connection (launch 2 empty_db) es R"
    "\<forall>e R'. rollout_step sample_migrator migrationsFS R e R' \<longrightarrow> \<not> one_connection R e"
    by (rule complete_run [OF sample_migrator_law migrationsFS_dir(1,2) up S(1)])
  have "length migration_names = 7" by (simp add: migration_names_def migration_files_def)
  then show ?thesis
    using rollout_completes [OF sample_migrator_law migrationsFS_dir(1,2) up S(1) run(1)] run S(2)
    by (intro exI [of _ es] exI [of _ R]) auto
qed

text \<open>
  The assumption about the connection is the code's, not the pool's. When the deferred unlock gets another
  connection than the lock did, it releases nothing: the first instance has migrated and serves, and the
  second waits for as long as the first keeps that connection.
\<close>

lemma lock_left_behind:
  "\<exists>es R. rollout_run sample_migrator migrationsFS any_event (launch 2 empty_db) es R \<and>
     ro_inst R = [Exited (Inr ()), Starting] \<and> (\<forall>e R'. rollout_step sample_migrator migrationsFS R e R' \<longrightarrow> e = Closes 0 0)"
proof -
  let ?m = sample_migrator and ?fs = migrationsFS and ?L = "launch 2 empty_db"
  have lk: "advisory_lock ?m migrationLockKey d = (Inr (), d)" "advisory_unlock ?m migrationLockKey d = (Inr (), d)" for d
    by (simp_all add: sample_migrator_def)
  obtain d' where "Migrate ?m ?fs empty_db = (Inr (), d')" by (rule empty_db_migrates)
  then have "migrate_locked ?m ?fs empty_db = (Inr (), d')" by (auto simp: Migrate_def lk split: prod.splits)
  then obtain es where es: "rollout_run ?m ?fs any_event ?L es
      (?L\<lparr>ro_db := d', ro_lock := Some (0, 0), ro_inst := (ro_inst ?L)[0 := Leaving (Inr ())]\<rparr>)"
    using runs_to_leaving [of 0 ?L ?m "()" empty_db ?fs "Inr ()" d'] by (auto simp: launch_def lk)
  let ?R = "\<lparr>ro_db = d', ro_lock = Some (0, 0), ro_inst = [Leaving (Inr ()), Starting]\<rparr>"
  let ?E = "\<lparr>ro_db = d', ro_lock = Some (0, 0), ro_inst = [Exited (Inr ()), Starting]\<rparr>"
  have "rollout_run ?m ?fs any_event ?L es ?R" using es by (simp add: launch_def numeral_2_eq_2)
  moreover have "rollout_step ?m ?fs ?R (Unlocks 0 1) ?E"
    using ro_unlocks [of 0 ?R "Inr ()" ?m "Inr ()" d' "Some (0, 0)" 1 ?fs] by (simp add: lk)
  ultimately have "rollout_run ?m ?fs any_event ?L (es @ [Unlocks 0 1]) ?E" by (rule rr_step) simp
  moreover have "e = Closes 0 0" if "rollout_step ?m ?fs ?E e R'" for e R'
    using that by (cases rule: rollout_step.cases) (auto simp: lk less_Suc_eq numeral_2_eq_2)
  ultimately show ?thesis by (intro exI [of _ "es @ [Unlocks 0 1]"] exI [of _ ?E]) auto
qed

end
