(* ===== verification/Resumption.thy ===== *)
theory Resumption
  imports Prelude
begin

text \<open>
  Threads of the server as resumptions: a thread is done with a result, or is about to make one atomic
  step on the shared state (a call that holds a lock, a statement, the start of a goroutine), after which it
  continues depending on what it saw. Whatever happens between two steps of a thread is up to the others.
  This theory has the sequencing of threads, their execution alone, and the rules by which what a
  thread guarantees is derived from its text.
\<close>

section \<open>Threads\<close>

datatype ('s, 'a) thread =
    Finished 'a
  | Act "'s \<Rightarrow> 's" "'s \<Rightarrow> ('s, 'a) thread" \<comment> \<open>the effect of the step, and what follows for the state it saw\<close>

text \<open>A call that returns a value, a call that returns nothing, and sequencing.\<close>

definition atomic :: "('s \<Rightarrow> 'a \<times> 's) \<Rightarrow> ('s, 'a) thread" where
  "atomic call = Act (\<lambda>s. snd (call s)) (\<lambda>s. Finished (fst (call s)))"

definition modify :: "('s \<Rightarrow> 's) \<Rightarrow> ('s, unit) thread" where
  "modify f = Act f (\<lambda>s. Finished ())"

primrec followed_by :: "('s, 'a) thread \<Rightarrow> ('a \<Rightarrow> ('s, 'b) thread) \<Rightarrow> ('s, 'b) thread" where
  "followed_by (Finished a) g = g a"
| "followed_by (Act u k) g = Act u (\<lambda>s. followed_by (k s) g)"

text \<open>A thread on a part of a larger state.\<close>

primrec on_part :: "('w \<Rightarrow> 's) \<Rightarrow> ('s \<Rightarrow> 'w \<Rightarrow> 'w) \<Rightarrow> ('s, 'a) thread \<Rightarrow> ('w, 'a) thread" where
  "on_part get put (Finished a) = Finished a"
| "on_part get put (Act u k) = Act (\<lambda>w. put (u (get w)) w) (\<lambda>w. on_part get put (k (get w)))"

text \<open>The execution without interference.\<close>

primrec run_alone :: "('s, 'a) thread \<Rightarrow> 's \<Rightarrow> 'a \<times> 's" where
  "run_alone (Finished a) s = (a, s)"
| "run_alone (Act u k) s = run_alone (k s) (u s)"

lemma followed_by_calls [simp]:
  "followed_by (atomic call) g = Act (\<lambda>s. snd (call s)) (\<lambda>s. g (fst (call s)))"
  "followed_by (modify f) h = Act f (\<lambda>s. h ())"
  by (simp_all add: atomic_def modify_def)

lemma followed_by_assoc: "followed_by (followed_by t g) h = followed_by t (\<lambda>a. followed_by (g a) h)"
  by (induction t) simp_all

lemma run_alone_calls [simp]: "run_alone (atomic call) s = call s" "run_alone (modify f) s = ((), f s)"
  by (simp_all add: atomic_def modify_def)

lemma run_alone_followed_by [simp]:
  "run_alone (followed_by t g) s = (case run_alone t s of (a, s) \<Rightarrow> run_alone (g a) s)"
  by (induction t arbitrary: s) simp_all

lemma run_alone_on_part:
  assumes "\<And>s w. get (put s w) = s" and "\<And>s s' w. put s (put s' w) = put s w" and "\<And>w. put (get w) w = w"
  shows "run_alone (on_part get put t) w = (case run_alone t (get w) of (a, s) \<Rightarrow> (a, put s w))"
proof (induction t arbitrary: w)
  case (Act u k)
  have "run_alone (on_part get put (k (get w))) (put (u (get w)) w) =
      (case run_alone (k (get w)) (u (get w)) of (a, s) \<Rightarrow> (a, put s (put (u (get w)) w)))"
    using Act.IH [of "k (get w)" "put (u (get w)) w"] by (simp add: assms(1))
  then show ?case by (simp add: assms(2) split: prod.splits)
qed (simp add: assms(3))

section \<open>How many steps\<close>

text \<open>A thread that finishes within a number of its own steps, whatever the others do in between.\<close>

primrec finishes_in :: "('s, 'a) thread \<Rightarrow> nat \<Rightarrow> bool" where
  "finishes_in (Finished a) n = True"
| "finishes_in (Act u k) n = (0 < n \<and> (\<forall>s. finishes_in (k s) (n - 1)))"

lemma finishes_in_mono: "finishes_in t m \<Longrightarrow> m \<le> n \<Longrightarrow> finishes_in t n"
proof (induction t arbitrary: m n)
  case (Act u k)
  have "finishes_in (k s) (n - 1)" for s
    using Act.IH [of "k s" "m - 1" "n - 1"] Act.prems by (simp add: diff_le_mono)
  then show ?case using Act.prems by simp
qed simp

lemma finishes_in_followed_by:
  assumes "finishes_in t m" and "\<And>a. finishes_in (g a) n"
  shows "finishes_in (followed_by t g) (m + n)"
  using assms(1)
proof (induction t arbitrary: m)
  case (Finished a)
  then show ?case using finishes_in_mono [OF assms(2), of "m + n" a] by simp
next
  case (Act u k)
  have "finishes_in (followed_by (k s) g) (m - 1 + n)" for s
    using Act.IH [of "k s" "m - 1"] Act.prems by simp
  then show ?case using Act.prems by simp
qed

lemma finishes_in_then:
  assumes "finishes_in t n" and "\<And>a. finishes_in (g a) 0"
  shows "finishes_in (followed_by t g) n"
  using finishes_in_followed_by [OF assms] by simp

lemma finishes_in_on_part: "finishes_in t n \<Longrightarrow> finishes_in (on_part get put t) n"
  by (induction t arbitrary: n) auto

section \<open>What every step does\<close>

text \<open>
  \<open>cleared A R P t ok\<close>: every step of the thread satisfies \<open>R\<close> and its result \<open>P\<close>, except that a thread that has made a
  step in a state where \<open>A\<close> held is cleared (\<open>ok\<close>) to do what it likes from then on.
\<close>

primrec cleared ::
  "('s \<Rightarrow> bool) \<Rightarrow> ('s \<Rightarrow> 's \<Rightarrow> bool) \<Rightarrow> ('a \<Rightarrow> bool) \<Rightarrow> ('s, 'a) thread \<Rightarrow> bool \<Rightarrow> bool" where
  "cleared A R P (Finished a) ok = (ok \<or> P a)"
| "cleared A R P (Act u k) ok = (\<forall>s. (ok \<or> R s (u s)) \<and> cleared A R P (k s) (ok \<or> A s))"

lemma cleared_True [simp]: "cleared A R P t True"
  by (induction t) simp_all

lemma cleared_any: "cleared A R P t False \<Longrightarrow> cleared A R P t ok"
  by (cases ok) simp_all

lemma cleared_followed_by:
  assumes "cleared A R Q t ok" and "\<And>a. Q a \<Longrightarrow> cleared A R P (g a) False"
  shows "cleared A R P (followed_by t g) ok"
  using assms(1)
proof (induction t arbitrary: ok)
  case (Finished a)
  then show ?case using assms(2) by (cases ok) simp_all
next
  case (Act u k)
  then show ?case by simp
qed

lemma cleared_on_part:
  assumes "cleared (\<lambda>_. False) R P t ok" and "\<And>w s. R (get w) s \<Longrightarrow> R' w (put s w)"
  shows "cleared A R' P (on_part get put t) ok"
  using assms(1)
proof (induction t arbitrary: ok)
  case (Act u k)
  have "cleared A R' P (on_part get put (k (get w))) (ok \<or> A w)" for w
    using Act.IH [of "k (get w)" ok] Act.prems by (cases "A w") simp_all
  moreover have "ok \<or> R' w (put (u (get w)) w)" for w using Act.prems assms(2) by auto
  ultimately show ?case by simp
qed simp

text \<open>The special case without a clearance: every step satisfies \<open>R\<close>, the result \<open>P\<close>.\<close>

abbreviation always :: "('s \<Rightarrow> 's \<Rightarrow> bool) \<Rightarrow> ('a \<Rightarrow> bool) \<Rightarrow> ('s, 'a) thread \<Rightarrow> bool" where
  "always R P t \<equiv> cleared (\<lambda>_. False) R P t False"

lemma always_cleared: "always R P t \<Longrightarrow> cleared A R P t ok"
proof (induction t arbitrary: ok)
  case (Act u k ok)
  have "cleared A R P (k s) (ok \<or> A s)" for s using Act.IH [of "k s"] Act.prems by simp
  then show ?case using Act.prems by simp
qed simp

lemma always_weaken:
  assumes "always R P t" and "\<And>s s'. R s s' \<Longrightarrow> R' s s'" and "\<And>a. P a \<Longrightarrow> P' a"
  shows "always R' P' t"
  using assms(1) by (induction t) (auto intro: assms(2,3))

section \<open>Rely and guarantee\<close>

text \<open>
  \<open>keeps Rely Guar t s\<close>: a thread that takes over at \<open>s\<close> guarantees \<open>Guar\<close> of each of its steps, provided that what the
  others do before each of them is within \<open>Rely\<close>.
\<close>

primrec keeps :: "('s \<Rightarrow> 's \<Rightarrow> bool) \<Rightarrow> ('s \<Rightarrow> 's \<Rightarrow> bool) \<Rightarrow> ('s, 'a) thread \<Rightarrow> 's \<Rightarrow> bool" where
  "keeps Rely Guar (Finished a) s = True"
| "keeps Rely Guar (Act u k) s = (\<forall>s'. Rely s s' \<longrightarrow> Guar s' (u s') \<and> keeps Rely Guar (k s') (u s'))"

lemma keeps_stable:
  assumes "keeps Rely Guar t s" and "Rely s s'" and "\<And>a b c. Rely a b \<Longrightarrow> Rely b c \<Longrightarrow> Rely a c"
  shows "keeps Rely Guar t s'"
  using assms by (cases t) auto

lemma keeps_always: "always Guar P t \<Longrightarrow> keeps Rely Guar t s"
  by (induction t arbitrary: s) auto

lemma keeps_followed_by:
  assumes "keeps Rely Guar t s" and "\<And>a s. keeps Rely Guar (g a) s"
  shows "keeps Rely Guar (followed_by t g) s"
  using assms(1) by (induction t arbitrary: s) (auto intro: assms(2))

end
