(* ===== verification/Threads.thy ===== *)
theory Threads
  imports Resumption Server
begin

text \<open>
  Requests as threads. \<open>Server\<close> serves a request in one step; here the same code is taken apart at every call
  that other requests can get in front of: a limiter, a lookup, the start of a recorder, each call
  of a store, the upstream, a log record. Everything between two calls works on the request and on values of its
  own (the stores hand out copies), and belongs to the step before it. Run without interference a
  thread does what the handler of \<open>Server\<close> does (\<open>serve_thread_alone\<close>).
\<close>

section \<open>Middleware\<close>

type_synonym 'st replying = "('st, flow \<times> ResponseWriter) thread"
type_synonym 'st t_handler = "request \<Rightarrow> ResponseWriter \<Rightarrow> 'st replying"

definition RateLimit_thread :: "'st allow \<Rightarrow> 'st allow \<Rightarrow> bool \<Rightarrow> 'st t_handler \<Rightarrow> 'st t_handler" where
  "RateLimit_thread member partner trustProxy next r w =
     (let limited = (\<lambda>allow bucket. followed_by (atomic (allow bucket))
            (\<lambda>(ok, retryAfter). if \<not> ok then Finished (Returned, writeRateLimitError retryAfter w) else next r w))
      in case APIKeyFromContext r of
           None \<Rightarrow> limited member (''ip:'' @ clientIP r trustProxy)
         | Some key \<Rightarrow>
             if Rank key = ''admin'' then next r w
             else limited (if Rank key = ''partner'' then partner else member) (''key:'' @ FormatInt (ID key)))"

definition RateLimitIP_thread :: "'st allow \<Rightarrow> bool \<Rightarrow> 'st t_handler \<Rightarrow> 'st t_handler" where
  "RateLimitIP_thread allow trustProxy next r w =
     followed_by (atomic (allow (''ip:'' @ clientIP r trustProxy)))
       (\<lambda>(ok, retryAfter). if \<not> ok then Finished (Returned, writeRateLimitError retryAfter w) else next r w)"

definition Auth_thread ::
  "('st \<Rightarrow> string \<Rightarrow> ApiKey result) \<Rightarrow> (int \<Rightarrow> 'st \<Rightarrow> 'st) \<Rightarrow> time \<Rightarrow> 'st t_handler \<Rightarrow> 'st t_handler" where
  "Auth_thread lookup spawn now next r w =
     (let key = Header_Get r ''X-Api-Key'' in
      if key = [] then
        Finished (Returned, response_Error 401 ''missing api key'' (Header_Set ''Www-Authenticate'' ''ApiKey'' w))
      else
        let hash = Hash key in
        followed_by (atomic (\<lambda>st. (lookup st hash, st)))
          (\<lambda>found. case found of
             Inl err \<Rightarrow> Finished (Returned, response_Error 401 ''invalid api key'' w)
           | Inr rec \<Rightarrow>
               if KeyHash rec \<noteq> hash then Finished (Returned, response_Error 401 ''invalid api key'' w)
               else if RevokedAt rec \<noteq> None \<or> (case ExpiresAt rec of None \<Rightarrow> False | Some t \<Rightarrow> \<not> now < t)
               then Finished (Returned, response_Error 403 ''api key revoked or expired'' w)
               else followed_by (modify (spawn (ID rec))) (\<lambda>_. next (r\<lparr>ctx_api_key := Some rec\<rparr>) w)))"

definition RequireScope_thread :: "string \<Rightarrow> 'st t_handler \<Rightarrow> 'st t_handler" where
  "RequireScope_thread scope next r w =
     (case APIKeyFromContext r of
        None \<Rightarrow> Finished (Returned, response_Error 401 ''missing api key'' w)
      | Some key \<Rightarrow>
          if \<not> hasScope (Scopes key) scope then Finished (Returned, response_Error 403 ''insufficient scope'' w)
          else next r w)"

definition SecurityHeaders_thread :: "'st t_handler \<Rightarrow> 'st t_handler" where
  "SecurityHeaders_thread next r w =
     (let w = Header_Set ''X-Content-Type-Options'' ''nosniff'' w;
          w = Header_Set ''X-Frame-Options'' ''DENY'' w;
          w = Header_Set ''Referrer-Policy'' ''no-referrer'' w;
          w = Header_Set ''Permissions-Policy'' ''camera=(), microphone=(), geolocation=()'' w;
          w = Header_Set ''Cache-Control'' ''no-store'' w
      in next r w)"

definition Recover_thread :: "(log_entry \<Rightarrow> 'st \<Rightarrow> 'st) \<Rightarrow> 'st t_handler \<Rightarrow> 'st t_handler" where
  "Recover_thread lg next r w =
     followed_by (next r w) (\<lambda>(f, w). case f of
        Panicked \<Rightarrow> followed_by (modify (lg (LogPanic (URL_Path r))))
                     (\<lambda>_. Finished (Returned, response_Error 500 ''internal server error'' w))
      | Returned \<Rightarrow> Finished (Returned, w))"

definition Logging_thread :: "(log_entry \<Rightarrow> 'st \<Rightarrow> 'st) \<Rightarrow> 'st t_handler \<Rightarrow> 'st t_handler" where
  "Logging_thread lg next r w =
     followed_by (next r w) (\<lambda>(f, w). case f of
        Panicked \<Rightarrow> Finished (Panicked, w)
      | Returned \<Rightarrow>
          followed_by (modify (lg (LogRequest (Method r) (redactPath (URL_Path r))
              (case status_of w of Some st \<Rightarrow> st | None \<Rightarrow> 0))))
            (\<lambda>_. Finished (Returned, w)))"

section \<open>Handlers and services\<close>

definition fail_reply :: "go_error \<Rightarrow> ResponseWriter \<Rightarrow> 'st replying" where
  "fail_reply err w = Finished (if err = RuntimePanic then (Panicked, w) else (Returned, writeServiceError err w))"

definition CreateKey_thread :: "'s key_repo \<Rightarrow> readings \<Rightarrow> CreateApiKeyInput \<Rightarrow> ('s, ApiKeyView result) thread" where
  "CreateKey_thread repo rd inp =
     (case check_input (checked_at rd) inp of
        Inl e \<Rightarrow> Finished (Inl e)
      | Inr rank \<Rightarrow>
          (case Generate (entropy rd) of
             Inl err \<Rightarrow> Finished (Inl (Errorf ''create api key'' err))
           | Inr plaintext \<Rightarrow>
               followed_by (atomic (repo_Create repo (stored_at rd)
                   (new_key (In_Name inp) rank (Hash plaintext) (In_Scopes inp) (In_ExpiresAt inp))))
                 (\<lambda>created. case created of
                    Inl err \<Rightarrow> Finished (Inl (Errorf ''create api key'' err))
                  | Inr key \<Rightarrow> Finished (Inr (viewFrom key plaintext)))))"

text \<open>A rotation reads the keys, stores the replacement and revokes the old key: three calls.\<close>

definition RotateKey_thread :: "'s key_repo \<Rightarrow> readings \<Rightarrow> int \<Rightarrow> ('s, ApiKeyView result) thread" where
  "RotateKey_thread repo rd i =
     followed_by (atomic (\<lambda>s. (repo_List repo s, s)))
       (\<lambda>listed. case listed of
          Inl err \<Rightarrow> Finished (Inl (Errorf ''rotate api key'' err))
        | Inr ks \<Rightarrow>
            (case find (\<lambda>key. ID key = i) ks of
               None \<Rightarrow> Finished (Inl (Errorf ''rotate api key'' (Sentinel ErrNotFound)))
             | Some current \<Rightarrow>
                 followed_by (CreateKey_thread repo rd
                     \<lparr>In_Name = Name current, In_Rank = Rank current,
                      In_Scopes = Scopes current, In_ExpiresAt = ExpiresAt current\<rparr>)
                   (\<lambda>created. case created of
                      Inl err \<Rightarrow> Finished (Inl (Errorf ''rotate api key'' err))
                    | Inr view \<Rightarrow>
                        followed_by (atomic (repo_Revoke repo (revoked_at rd) i))
                          (\<lambda>revoked. case revoked of
                             Inl err \<Rightarrow> Finished (Inl (Errorf ''rotate api key'' err))
                           | Inr u \<Rightarrow> Finished (Inr view)))))"

definition KeyHandler_Create_thread :: "CreateApiKeyInput decoder \<Rightarrow> 's key_repo \<Rightarrow> readings \<Rightarrow> 's t_handler" where
  "KeyHandler_Create_thread dec repo rd r w =
     (case decodeJSON dec r w of
        ((None, Some inp), w) \<Rightarrow>
          followed_by (CreateKey_thread repo rd inp)
            (\<lambda>res. case res of
               Inl err \<Rightarrow> fail_reply err w
             | Inr view \<Rightarrow> Finished (Returned, response_JSON 201 (KeyView view) w))
      | (_, w) \<Rightarrow> Finished (Returned, w))"

definition KeyHandler_List_thread :: "'s key_repo \<Rightarrow> 's t_handler" where
  "KeyHandler_List_thread repo r w =
     followed_by (atomic (\<lambda>s. (ListKeys repo s, s)))
       (\<lambda>res. case res of
          Inl err \<Rightarrow> fail_reply err w
        | Inr views \<Rightarrow> Finished (Returned, response_JSON 200 (KeyViews views) w))"

definition KeyHandler_Revoke_thread :: "'s key_repo \<Rightarrow> time \<Rightarrow> 's t_handler" where
  "KeyHandler_Revoke_thread repo now r w =
     (case idParam r of
        Inl err \<Rightarrow> Finished (Returned, response_Error 400 ''invalid id parameter'' w)
      | Inr i \<Rightarrow>
          followed_by (atomic (RevokeKey repo now i))
            (\<lambda>res. case res of
               Inl err \<Rightarrow> fail_reply err w
             | Inr u \<Rightarrow> Finished (Returned, WriteHeader 204 w)))"

definition KeyHandler_Rotate_thread :: "'s key_repo \<Rightarrow> readings \<Rightarrow> 's t_handler" where
  "KeyHandler_Rotate_thread repo rd r w =
     (case idParam r of
        Inl err \<Rightarrow> Finished (Returned, response_Error 400 ''invalid id parameter'' w)
      | Inr i \<Rightarrow>
          followed_by (RotateKey_thread repo rd i)
            (\<lambda>res. case res of
               Inl err \<Rightarrow> fail_reply err w
             | Inr view \<Rightarrow> Finished (Returned, response_JSON 200 (KeyView view) w)))"

definition StatsHandler_Stats_thread :: "'s stats_repo \<Rightarrow> 's t_handler" where
  "StatsHandler_Stats_thread store r w =
     followed_by (atomic (\<lambda>s. (stats_Totals store s, s)))
       (\<lambda>res. case res of
          Inl err \<Rightarrow> fail_reply err w
        | Inr stats \<Rightarrow> Finished (Returned, response_JSON 200 (StatsView stats) w))"

text \<open>
  The redemption service of the router. A caller whose voucher another request is redeeming already does not call
  the upstream: \<open>joined\<close> is then the result of that other call, about which nothing is assumed here (\<open>Flights\<close> has what is
  known of it); otherwise the caller leads a flight of its own.
\<close>

definition Coalesced_thread ::
  "('k, 't, 'u, 'l, 'e) deps \<Rightarrow> Config \<Rightarrow> TwRedeemResult result option \<Rightarrow> TwRedeemRequest \<Rightarrow>
     (('k, 't, 'u, 'l) world, TwRedeemResult result) thread" where
  "Coalesced_thread d cfg joined req =
     (case joined of
        Some res \<Rightarrow> Finished res
      | None \<Rightarrow> atomic (\<lambda>st.
          case Coalesced_Redeem (Client_Redeem (NewClient (TrueMoneyBaseURL cfg) (TrueMoneyTimeout cfg)) (dep_net d))
                 \<lparr>leader = req, followers = []\<rparr> (w_net st) of
            (rs, u) \<Rightarrow> (hd rs, st\<lparr>w_net := u\<rparr>)))"

definition TwService_thread ::
  "('k, 't, 'u, 'l, 'e) deps \<Rightarrow> Config \<Rightarrow> TwRedeemResult result option \<Rightarrow> TwRedeemRequest \<Rightarrow>
     (('k, 't, 'u, 'l) world, TwRedeemResult result) thread" where
  "TwService_thread d cfg joined req =
     (let recordError = modify (\<lambda>st. st\<lparr>w_stats := recordTwError (Some (dep_stats d)) (w_stats st)\<rparr>);
          record = (\<lambda>res. modify (\<lambda>st. st\<lparr>w_stats := record_tw (Some (dep_stats d)) res (w_stats st)\<rparr>))
      in case ValidateTwRedeem (ipv6_literal (dep_net d)) req of
           Some err \<Rightarrow> followed_by recordError (\<lambda>_. Finished (Inl (Errorf ''validate redeem request'' err)))
         | None \<Rightarrow>
             followed_by (Coalesced_thread d cfg joined req)
               (\<lambda>res. case res of
                  Inl err \<Rightarrow> followed_by recordError (\<lambda>_. Finished (Inl (Errorf ''redeem gift'' err)))
                | Inr res \<Rightarrow> followed_by (record res) (\<lambda>_. Finished (Inr res))))"

definition RedeemPost_thread ::
  "TwRedeemRequest decoder \<Rightarrow> (TwRedeemRequest \<Rightarrow> ('st, TwRedeemResult result) thread) \<Rightarrow> 'st t_handler" where
  "RedeemPost_thread dec svc r w =
     (case decodeJSON dec r w of
        ((None, Some req), w) \<Rightarrow>
          followed_by (svc req)
            (\<lambda>res. case res of
               Inl err \<Rightarrow> fail_reply err w
             | Inr res \<Rightarrow> Finished (Returned, response_JSON 200 (RawJSON (Data res)) w))
      | (_, w) \<Rightarrow> Finished (Returned, w))"

definition RedeemGet_thread :: "(TwRedeemRequest \<Rightarrow> ('st, TwRedeemResult result) thread) \<Rightarrow> 'st t_handler" where
  "RedeemGet_thread svc r w =
     (case pathParam r ''phone'' of
        Inl err \<Rightarrow> Finished (Returned, response_Error 400 ''invalid phone parameter'' w)
      | Inr phone \<Rightarrow>
          (case pathParam r ''gift'' of
             Inl err \<Rightarrow> Finished (Returned, response_Error 400 ''invalid gift parameter'' w)
           | Inr gift \<Rightarrow>
               followed_by (svc \<lparr>Phone = phone, Gift = gift\<rparr>)
                 (\<lambda>res. case res of
                    Inl err \<Rightarrow> fail_reply err w
                  | Inr res \<Rightarrow> Finished (Returned, response_JSON 200 (RawJSON (Data res)) w))))"

section \<open>The router\<close>

definition keys_thread :: "'k t_handler \<Rightarrow> ('k, 't, 'u, 'l) world t_handler" where
  "keys_thread h r w = on_part w_keys (\<lambda>k st. st\<lparr>w_keys := k\<rparr>) (h r w)"

definition stats_thread :: "'t t_handler \<Rightarrow> ('k, 't, 'u, 'l) world t_handler" where
  "stats_thread h r w = on_part w_stats (\<lambda>t st. st\<lparr>w_stats := t\<rparr>) (h r w)"

definition ip_limited_thread ::
  "('k, 't, 'u, 'l, 'e) deps \<Rightarrow> Config \<Rightarrow> 'e moment \<Rightarrow> ('k, 't, 'u, 'l) world t_handler \<Rightarrow> ('k, 't, 'u, 'l) world t_handler" where
  "ip_limited_thread d cfg m next =
     (if RateLimitIPEnabled cfg then RateLimitIP_thread (allow_ip d (m_ip m)) (TrustProxyHeaders cfg) next else next)"

definition key_limited_thread ::
  "('k, 't, 'u, 'l, 'e) deps \<Rightarrow> Config \<Rightarrow> 'e moment \<Rightarrow> ('k, 't, 'u, 'l) world t_handler \<Rightarrow> ('k, 't, 'u, 'l) world t_handler" where
  "key_limited_thread d cfg m next =
     (if RateLimitEnabled cfg
      then RateLimit_thread (allow_member d (m_key m)) (allow_partner d (m_key m)) (TrustProxyHeaders cfg) next else next)"

definition authenticated_thread ::
  "('k, 't, 'u, 'l, 'e) deps \<Rightarrow> 'e moment \<Rightarrow> ('k, 't, 'u, 'l) world t_handler \<Rightarrow> ('k, 't, 'u, 'l) world t_handler" where
  "authenticated_thread d m next =
     Auth_thread (\<lambda>st h. repo_GetByHash (dep_keys d) h (w_keys st)) (\<lambda>i st. st\<lparr>w_pending := w_pending st @ [i]\<rparr>) (m_auth m) next"

definition guarded_thread ::
  "('k, 't, 'u, 'l, 'e) deps \<Rightarrow> Config \<Rightarrow> 'e moment \<Rightarrow> ('k, 't, 'u, 'l) world t_handler \<Rightarrow> ('k, 't, 'u, 'l) world t_handler" where
  "guarded_thread d cfg m next = ip_limited_thread d cfg m (authenticated_thread d m (key_limited_thread d cfg m next))"

definition no_route_thread :: "bool \<Rightarrow> 'st t_handler" where
  "no_route_thread na r w = Finished (Returned, WriteHeader (if na then 405 else 404) w)"

definition route_thread ::
  "('k, 't, 'u, 'l, 'e) deps \<Rightarrow> Config \<Rightarrow> 'e moment \<Rightarrow> TwRedeemResult result option \<Rightarrow> route \<Rightarrow> ('k, 't, 'u, 'l) world t_handler" where
  "route_thread d cfg m joined rt =
     (let tw = guarded_thread d cfg m;
          keys = (\<lambda>h. guarded_thread d cfg m (RequireScope_thread ''admin'' h));
          stats = ip_limited_thread d cfg m
      in case rt of
           TwGet \<Rightarrow> tw (RedeemGet_thread (TwService_thread d cfg joined))
         | TwPost \<Rightarrow> tw (RedeemPost_thread (dep_decode_tw d) (TwService_thread d cfg joined))
         | KeysCreate \<Rightarrow> keys (keys_thread (KeyHandler_Create_thread (dep_decode_key d) (dep_keys d) (m_readings m)))
         | KeysList \<Rightarrow> keys (keys_thread (KeyHandler_List_thread (dep_keys d)))
         | KeysRevoke \<Rightarrow> keys (keys_thread (KeyHandler_Revoke_thread (dep_keys d) (revoked_at (m_readings m))))
         | KeysRotate \<Rightarrow> keys (keys_thread (KeyHandler_Rotate_thread (dep_keys d) (m_readings m)))
         | StatsGet \<Rightarrow> stats (stats_thread (StatsHandler_Stats_thread (dep_stats d)))
         | NoRoute (Some TwGroup) na \<Rightarrow> tw (no_route_thread na)
         | NoRoute (Some KeysGroup) na \<Rightarrow> keys (no_route_thread na)
         | NoRoute (Some StatsGroup) na \<Rightarrow> stats (no_route_thread na)
         | NoRoute None na \<Rightarrow> no_route_thread na)"

definition CORS_thread ::
  "('k, 't, 'u, 'l, 'e) deps \<Rightarrow> string list \<Rightarrow> ('k, 't, 'u, 'l) world t_handler \<Rightarrow> ('k, 't, 'u, 'l) world t_handler" where
  "CORS_thread d allowOrigins next r w =
     (case dep_cors d (CORS_options allowOrigins) r w of (go, w) \<Rightarrow> if go then next r w else Finished (Returned, w))"

definition Timeout_thread ::
  "('k, 't, 'u, 'l, 'e) deps \<Rightarrow> duration \<Rightarrow> ('k, 't, 'u, 'l) world t_handler \<Rightarrow> ('k, 't, 'u, 'l) world t_handler" where
  "Timeout_thread d timeout next r w = followed_by (next r w) (\<lambda>(f, w). Finished (f, dep_timeout d timeout w))"

definition serve_thread ::
  "('k, 't, 'u, 'l, 'e) deps \<Rightarrow> Config \<Rightarrow> 'e moment \<Rightarrow> TwRedeemResult result option \<Rightarrow> route \<Rightarrow> ('k, 't, 'u, 'l) world t_handler" where
  "serve_thread d cfg m joined rt =
     Logging_thread logger (Recover_thread logger (CORS_thread d (AllowOrigins cfg) (SecurityHeaders_thread
       (Timeout_thread d (WriteTimeout cfg) (route_thread d cfg m joined rt)))))"

section \<open>A thread alone is the handler\<close>

definition by_itself :: "'st t_handler \<Rightarrow> 'st handler" where
  "by_itself h r st w = (case run_alone (h r w) st of ((f, w), st) \<Rightarrow> (f, st, w))"

named_theorems alone_simps

lemma alone_eq: "(\<And>r st w. (case run_alone (h r w) st of ((f, w), st) \<Rightarrow> (f, st, w)) = g r st w) \<Longrightarrow> by_itself h = g"
  by (intro ext) (simp add: by_itself_def)

lemma alone_fail: "run_alone (fail_reply err w) st = (case fail_with err st w of (f, st, w) \<Rightarrow> ((f, w), st))"
  by (simp add: fail_reply_def fail_with_def)

lemma alone_limits [alone_simps]:
  "by_itself (RateLimitIP_thread allow tp next) = RateLimitIP allow tp (by_itself next)"
  "by_itself (RateLimit_thread member partner tp next) = RateLimit member partner tp (by_itself next)"
  by (intro alone_eq, simp add: RateLimitIP_thread_def RateLimitIP_def by_itself_def split: prod.splits)
    (intro alone_eq, simp add: RateLimit_thread_def RateLimit_def by_itself_def Let_def split: prod.splits option.splits)

lemma alone_auth [alone_simps]:
  "by_itself (Auth_thread lookup spawn now next) = Auth lookup spawn now (by_itself next)"
  "by_itself (RequireScope_thread sc next) = RequireScope sc (by_itself next)"
  by (intro alone_eq, simp add: Auth_thread_def Auth_def by_itself_def Let_def split: prod.splits sum.splits option.splits)
    (intro alone_eq, simp add: RequireScope_thread_def RequireScope_def by_itself_def split: prod.splits option.splits)

lemma alone_outer [alone_simps]:
  "by_itself (SecurityHeaders_thread next) = SecurityHeaders (by_itself next)"
  "by_itself (Recover_thread lg next) = Recover lg (by_itself next)"
  "by_itself (Logging_thread lg next) = Logging lg (by_itself next)"
  "by_itself (CORS_thread d os nxt) = CORS d os (by_itself nxt)"
  "by_itself (Timeout_thread d t nxt) = Timeout d t (by_itself nxt)"
  by (intro alone_eq; simp add: SecurityHeaders_thread_def SecurityHeaders_def Recover_thread_def Recover_def Logging_thread_def
      Logging_def CORS_thread_def CORS_def Timeout_thread_def Timeout_def by_itself_def Let_def split: prod.splits flow.splits)+

lemma alone_CreateKey: "run_alone (CreateKey_thread repo rd inp) s = CreateKey repo rd inp s"
  by (simp add: CreateKey_thread_def CreateKey_def split: prod.splits sum.splits)

lemma alone_RotateKey: "run_alone (RotateKey_thread repo rd i) s = RotateKey repo rd i s"
  by (simp add: RotateKey_thread_def RotateKey_def alone_CreateKey split: prod.splits sum.splits option.splits)

lemma alone_key_handlers [alone_simps]:
  "by_itself (KeyHandler_Create_thread dec repo rd) = KeyHandler_Create dec repo rd"
  "by_itself (KeyHandler_List_thread repo) = KeyHandler_List repo"
  "by_itself (KeyHandler_Revoke_thread repo now) = KeyHandler_Revoke repo now"
  "by_itself (KeyHandler_Rotate_thread repo rd) = KeyHandler_Rotate repo rd"
  "by_itself (StatsHandler_Stats_thread store) = StatsHandler_Stats store"
  by (intro alone_eq; simp add: KeyHandler_Create_thread_def KeyHandler_Create_def KeyHandler_List_thread_def KeyHandler_List_def
      KeyHandler_Revoke_thread_def KeyHandler_Revoke_def KeyHandler_Rotate_thread_def KeyHandler_Rotate_def
      StatsHandler_Stats_thread_def StatsHandler_Stats_def alone_CreateKey alone_RotateKey alone_fail
      split: prod.splits sum.splits option.splits)+

lemma alone_tw_service: "run_alone (TwService_thread d cfg None req) st = tw_service d cfg req st"
  by (simp add: TwService_thread_def Coalesced_thread_def tw_service_def TwService_Redeem_def Let_def
      split: prod.splits sum.splits option.splits)

lemma alone_tw_handlers [alone_simps]:
  "by_itself (RedeemGet_thread (TwService_thread d cfg None)) = RedeemGet (tw_service d cfg)"
  "by_itself (RedeemPost_thread dec (TwService_thread d cfg None)) = RedeemPost dec (tw_service d cfg)"
  by (intro alone_eq; simp add: RedeemGet_thread_def RedeemGet_def RedeemPost_thread_def RedeemPost_def alone_tw_service
      alone_fail split: prod.splits sum.splits option.splits)+

lemma alone_parts [alone_simps]:
  "by_itself (keys_thread h) = on_keys (by_itself h)" "by_itself (stats_thread g) = on_stats (by_itself g)"
  by (intro alone_eq; simp add: keys_thread_def stats_thread_def run_alone_on_part on_keys_def on_stats_def by_itself_def
      split: prod.splits)+

lemma alone_guards [alone_simps]:
  "by_itself (ip_limited_thread d cfg m next) = ip_limited d cfg m (by_itself next)"
  "by_itself (key_limited_thread d cfg m next) = key_limited d cfg m (by_itself next)"
  "by_itself (authenticated_thread d m next) = authenticated d m (by_itself next)"
  "by_itself (guarded_thread d cfg m next) = guarded d cfg m (by_itself next)"
  by (simp_all add: ip_limited_thread_def ip_limited_def key_limited_thread_def key_limited_def authenticated_thread_def
      authenticated_def guarded_thread_def guarded_def alone_simps)

lemma alone_no_route [alone_simps]: "by_itself (no_route_thread na) = no_route na"
  by (rule alone_eq) (simp add: no_route_thread_def no_route_def)

lemma alone_route [alone_simps]: "by_itself (route_thread d cfg m None rt) = route_handler d cfg m rt"
proof (cases rt)
  case (NoRoute g na)
  then show ?thesis
  proof (cases g)
    case (Some a)
    then show ?thesis using NoRoute by (cases a) (simp_all add: route_thread_def route_handler_def alone_simps)
  qed (simp add: route_thread_def route_handler_def alone_simps)
qed (simp_all add: route_thread_def route_handler_def alone_simps)

text \<open>
  Taking requests apart loses and adds nothing: the thread of a request, run without interference, returns the
  reply and leaves the state that serving the request as a whole gives.
\<close>

lemma serve_thread_alone:
  "run_alone (serve_thread d cfg m None rt r w) st =
     (case serve d cfg m rt r st w of (f, st', w') \<Rightarrow> ((f, w'), st'))"
proof -
  have "by_itself (serve_thread d cfg m None rt) = serve d cfg m rt"
    by (simp add: serve_thread_def serve_def alone_simps)
  then have "serve d cfg m rt r st w = by_itself (serve_thread d cfg m None rt) r st w" by simp
  then show ?thesis by (simp add: by_itself_def split: prod.splits)
qed

end
