(* ===== verification/Guarantees.thy ===== *)
theory Guarantees
  imports Threads
begin

text \<open>
  What the thread of one request guarantees, whatever the other requests do between its steps: it finishes,
  its reply is complete, it touches keys, upstream and recorders only after its own authentication, and each of
  its steps changes the key store in an orderly way.
\<close>

section \<open>Middleware\<close>

text \<open>The replies of a request that is turned away.\<close>

definition turned_away :: "ResponseWriter \<Rightarrow> ResponseWriter \<Rightarrow> bool" where
  "turned_away w w' \<longleftrightarrow>
     (\<exists>x. w' = writeRateLimitError x w) \<or> (\<exists>t. w' = response_Error 401 t w \<or> w' = response_Error 403 t w) \<or>
     (\<exists>t. w' = response_Error 401 t (Header_Set ''Www-Authenticate'' ''ApiKey'' w))"

lemma turned_away_reply:
  assumes "turned_away w w'"
  shows "\<not> P None \<Longrightarrow> discloses P w' = discloses P w" and "secure w \<Longrightarrow> answered w'"
  using assms by (auto simp: turned_away_def secure_ops secure_errors)

lemma turned_away_forms [simp]:
  "turned_away w (writeRateLimitError x w)" "turned_away w (response_Error 401 t w)" "turned_away w (response_Error 403 t w)"
  "turned_away w (response_Error 401 t (Header_Set ''Www-Authenticate'' ''ApiKey'' w))"
  by (auto simp: turned_away_def)

text \<open>A step that leaves keys, statistics, upstream and recorders alone.\<close>

definition quiet :: "('k, 't, 'u, 'l) world \<Rightarrow> ('k, 't, 'u, 'l) world \<Rightarrow> bool" where
  "quiet s s' \<longleftrightarrow> same_data s s' \<and> w_pending s' = w_pending s"

lemma quiet_steps [simp]:
  "quiet s s" "quiet s (snd (allow_ip d e b s))" "quiet s (snd (allow_member d e b s))" "quiet s (snd (allow_partner d e b s))"
  "quiet s (logger x s)"
  by (simp_all add: quiet_def logger_def)

lemma cleared_ip_limited:
  assumes q: "\<And>s s'. quiet s s' \<Longrightarrow> R s s'" and refused: "\<And>w'. turned_away w w' \<Longrightarrow> P (Returned, w')"
    and "next": "cleared A R P (next r w) False"
  shows "cleared A R P (ip_limited_thread d cfg m next r w) False"
proof -
  have "cleared A R P (if \<not> ok then Finished (Returned, writeRateLimitError x w) else next r w) b" for ok x b
    using refused cleared_any [OF "next"] by simp
  then show ?thesis using "next" q by (simp add: ip_limited_thread_def RateLimitIP_thread_def split_beta)
qed

lemma cleared_key_limited:
  assumes q: "\<And>s s'. quiet s s' \<Longrightarrow> R s s'" and refused: "\<And>w'. turned_away w w' \<Longrightarrow> P (Returned, w')"
    and "next": "cleared A R P (next r w) False"
  shows "cleared A R P (key_limited_thread d cfg m next r w) False"
proof -
  have "cleared A R P (if \<not> ok then Finished (Returned, writeRateLimitError x w) else next r w) b" for ok x b
    using refused cleared_any [OF "next"] by simp
  then show ?thesis using "next" q
    by (simp add: key_limited_thread_def RateLimit_thread_def split_beta Let_def split: option.splits)
qed

text \<open>Authentication: what comes after it is either the doing of an admitted key, or must keep to the rules itself.\<close>

lemma cleared_authenticated:
  assumes q: "\<And>s s'. quiet s s' \<Longrightarrow> R s s'" and refused: "\<And>w'. turned_away w w' \<Longrightarrow> P (Returned, w')"
    and admitted: "\<And>s k. admits d m s r k \<Longrightarrow> \<not> A s \<Longrightarrow>
      (\<forall>s'. R s' (s'\<lparr>w_pending := w_pending s' @ [ID k]\<rparr>)) \<and> cleared A R P (next (r\<lparr>ctx_api_key := Some k\<rparr>) w) False"
  shows "cleared A R P (authenticated_thread d m next r w) False"
proof (cases "Header_Get r ''X-Api-Key'' = []")
  case True
  then show ?thesis using refused by (simp add: authenticated_thread_def Auth_thread_def)
next
  case False
  let ?h = "Hash (Header_Get r ''X-Api-Key'')"
  let ?rest = "\<lambda>found. case found of
      Inl err \<Rightarrow> Finished (Returned, response_Error 401 ''invalid api key'' w)
    | Inr rec \<Rightarrow> if KeyHash rec \<noteq> ?h then Finished (Returned, response_Error 401 ''invalid api key'' w)
        else if RevokedAt rec \<noteq> None \<or> (case ExpiresAt rec of None \<Rightarrow> False | Some t \<Rightarrow> \<not> m_auth m < t)
        then Finished (Returned, response_Error 403 ''api key revoked or expired'' w)
        else followed_by (modify (\<lambda>st. st\<lparr>w_pending := w_pending st @ [ID rec]\<rparr>)) (\<lambda>_. next (r\<lparr>ctx_api_key := Some rec\<rparr>) w)"
  have "cleared A R P (?rest (repo_GetByHash (dep_keys d) ?h (w_keys s))) (A s)" for s
  proof (cases "\<exists>k. admits d m s r k")
    case True
    then obtain k where k: "admits d m s r k" by blast
    then have "?rest (repo_GetByHash (dep_keys d) ?h (w_keys s)) =
        Act (\<lambda>st. st\<lparr>w_pending := w_pending st @ [ID k]\<rparr>) (\<lambda>_. next (r\<lparr>ctx_api_key := Some k\<rparr>) w)"
      by (auto simp: admits_def split: option.splits)
    then show ?thesis using admitted [OF k] by (cases "A s") (simp_all add: cleared_any)
  next
    case no: False
    have "\<exists>w'. turned_away w w' \<and> ?rest (repo_GetByHash (dep_keys d) ?h (w_keys s)) = Finished (Returned, w')"
    proof (cases "repo_GetByHash (dep_keys d) ?h (w_keys s)")
      case (Inr k)
      then show ?thesis using no False by (auto simp: admits_def split: option.splits)
    qed auto
    then show ?thesis using refused by auto
  qed
  then show ?thesis using False q by (simp add: authenticated_thread_def Auth_thread_def Let_def)
qed

lemma cleared_guarded:
  assumes q: "\<And>s s'. quiet s s' \<Longrightarrow> R s s'" and refused: "\<And>w'. turned_away w w' \<Longrightarrow> P (Returned, w')"
    and admitted: "\<And>s k. admits d m s r k \<Longrightarrow> \<not> A s \<Longrightarrow>
      (\<forall>s'. R s' (s'\<lparr>w_pending := w_pending s' @ [ID k]\<rparr>)) \<and> cleared A R P (next (r\<lparr>ctx_api_key := Some k\<rparr>) w) False"
  shows "cleared A R P (guarded_thread d cfg m next r w) False"
  unfolding guarded_thread_def
  by (intro cleared_ip_limited cleared_authenticated) (use assms in \<open>auto intro!: cleared_key_limited\<close>)

lemma cleared_scope:
  assumes "\<And>w'. turned_away w w' \<Longrightarrow> P (Returned, w')"
    and "\<And>k. ctx_api_key r = Some k \<Longrightarrow> sc \<in> set (Scopes k) \<Longrightarrow> cleared A R P (next r w) False"
  shows "cleared A R P (RequireScope_thread sc next r w) False"
  using assms by (simp add: RequireScope_thread_def hasScope_iff split: option.splits)

text \<open>The outer middleware: log records, and what it does to the reply of the route.\<close>

definition security_writer :: "ResponseWriter \<Rightarrow> ResponseWriter" where
  "security_writer w = snd (snd (SecurityHeaders (\<lambda>r st w. (Returned, st, w)) undefined () w))"

definition final_writer :: "('k, 't, 'u, 'l, 'e) deps \<Rightarrow> Config \<Rightarrow> flow \<times> ResponseWriter \<Rightarrow> ResponseWriter" where
  "final_writer d cfg a = (case a of
     (Returned, w) \<Rightarrow> dep_timeout d (WriteTimeout cfg) w
   | (Panicked, w) \<Rightarrow> response_Error 500 ''internal server error'' (dep_timeout d (WriteTimeout cfg) w))"

lemma cleared_serve:
  assumes q: "\<And>s s'. quiet s s' \<Longrightarrow> R s s'"
    and preflight: "\<And>w1. cors d cfg r w = (False, w1) \<Longrightarrow> P (Returned, w1)"
    and routed: "\<And>w1. cors d cfg r w = (True, w1) \<Longrightarrow> cleared A R Q (route_thread d cfg m joined rt r (security_writer w1)) False"
    and reply: "\<And>a. Q a \<Longrightarrow> P (Returned, final_writer d cfg a)"
  shows "cleared A R P (serve_thread d cfg m joined rt r w) False"
proof (cases "cors d cfg r w")
  case (Pair go w1)
  show ?thesis
  proof (cases go)
    case False
    then show ?thesis using Pair preflight q
      by (simp add: serve_thread_def Logging_thread_def Recover_thread_def CORS_thread_def)
  next
    case True
    let ?t = "route_thread d cfg m joined rt r (security_writer w1)"
    have t: "SecurityHeaders_thread (Timeout_thread d (WriteTimeout cfg) (route_thread d cfg m joined rt)) r w1 =
        followed_by ?t (\<lambda>(f, w). Finished (f, dep_timeout d (WriteTimeout cfg) w))"
      by (simp add: SecurityHeaders_thread_def Timeout_thread_def security_writer_def SecurityHeaders_def Let_def)
    have final: "P (Returned, dep_timeout d (WriteTimeout cfg) w')" if "Q (Returned, w')" for w'
      using reply [OF that] by (simp add: final_writer_def)
    have panic: "P (Returned, response_Error 500 ''internal server error'' (dep_timeout d (WriteTimeout cfg) w'))" if "Q (Panicked, w')" for w'
      using reply [OF that] by (simp add: final_writer_def)
    let ?P = "\<lambda>a. fst a = Returned \<and> P a"
    let ?tail = "\<lambda>(f, w'). let w' = dep_timeout d (WriteTimeout cfg) w' in case f of
        Panicked \<Rightarrow> followed_by (modify (logger (LogPanic (URL_Path r))))
          (\<lambda>_. Finished (Returned, response_Error 500 ''internal server error'' w'))
      | Returned \<Rightarrow> Finished (Returned, w')"
    have "Recover_thread logger (CORS_thread d (AllowOrigins cfg) (SecurityHeaders_thread
        (Timeout_thread d (WriteTimeout cfg) (route_thread d cfg m joined rt)))) r w = followed_by ?t ?tail"
      unfolding Recover_thread_def CORS_thread_def Pair using True
      by (simp add: t followed_by_assoc case_prod_beta' Let_def cong: flow.case_cong)
    moreover have "cleared A R (\<lambda>a. fst a = Returned \<and> P a) (followed_by ?t ?tail) False"
    proof (rule cleared_followed_by)
      show "cleared A R Q ?t False" using routed [of w1] True Pair by simp
      show "cleared A R (\<lambda>a. fst a = Returned \<and> P a) (?tail a) False" if "Q a" for a
        using that final [of "snd a"] panic [of "snd a"] q by (cases a; cases "fst a") (simp_all add: Let_def)
    qed
    ultimately have "cleared A R (\<lambda>a. fst a = Returned \<and> P a) (Recover_thread logger (CORS_thread d (AllowOrigins cfg)
        (SecurityHeaders_thread (Timeout_thread d (WriteTimeout cfg) (route_thread d cfg m joined rt)))) r w) False" by simp
    then show ?thesis
      unfolding serve_thread_def Logging_thread_def
      by (rule cleared_followed_by) (use q in auto)
  qed
qed

section \<open>Handlers\<close>

text \<open>Within a handler there is no clearance to wait for: all its steps and all its replies are of one kind.\<close>

definition only_tw :: "('k, 't, 'u, 'l) world \<Rightarrow> ('k, 't, 'u, 'l) world \<Rightarrow> bool" where
  "only_tw s s' \<longleftrightarrow> w_keys s' = w_keys s \<and> w_pending s' = w_pending s"

definition only_keys :: "('k, 't, 'u, 'l) world \<Rightarrow> ('k, 't, 'u, 'l) world \<Rightarrow> bool" where
  "only_keys s s' \<longleftrightarrow> w_net s' = w_net s \<and> w_stats s' = w_stats s \<and> w_pending s' = w_pending s"

definition replies_without :: "(payload option \<Rightarrow> bool) \<Rightarrow> ResponseWriter \<Rightarrow> flow \<times> ResponseWriter \<Rightarrow> bool" where
  "replies_without D w a \<longleftrightarrow> discloses D (snd a) = discloses D w \<and> (secure w \<longrightarrow> good (fst a, (), snd a))"

lemma replies_without_simps [simp]:
  "\<not> D None \<Longrightarrow> replies_without D w (Returned, response_Error c t w)"
  "\<not> D (Some p) \<Longrightarrow> replies_without D w (Returned, response_JSON c p w)"
  "replies_without D w (Returned, WriteHeader c w)"
  "\<not> D None \<Longrightarrow> replies_without D w (Returned, writeServiceError err w)" "replies_without D w (Panicked, w)"
  by (auto simp: replies_without_def secure_ops secure_errors good_def)

lemma replies_without_trans:
  assumes "decodeJSON dec r w = ((e, v), w1)" and "replies_without D w1 a" and "\<not> D None"
  shows "replies_without D w a"
  using assms good_decodeJSON [OF _ assms(1)] discloses_decodeJSON [of D dec r w] by (auto simp: replies_without_def)

lemma decodeJSON_stops:
  assumes "decodeJSON dec r w = ((e, v), w1)" and "e \<noteq> None \<or> v = None" and "\<not> D None"
  shows "replies_without D w (Returned, w1)"
  using assms good_decodeJSON [OF _ assms(1)] discloses_decodeJSON [of D dec r w] by (auto simp: replies_without_def)

lemma always_fail: "\<not> D None \<Longrightarrow> always R (replies_without D w) (fail_reply err w)"
  by (simp add: fail_reply_def)

lemma always_tw_service: "always only_tw (\<lambda>_. True) (TwService_thread d cfg joined req)"
  by (simp add: TwService_thread_def Coalesced_thread_def only_tw_def Let_def split: option.splits sum.splits prod.splits)

lemma always_redeem:
  assumes "h \<in> {RedeemGet_thread (TwService_thread d cfg joined), RedeemPost_thread dec (TwService_thread d cfg joined)}"
  shows "always only_tw (replies_without key_data w) (h r w)"
proof -
  have answer: "always only_tw (replies_without key_data w1) (followed_by (TwService_thread d cfg joined req)
      (\<lambda>res. case res of Inl err \<Rightarrow> fail_reply err w1 | Inr res \<Rightarrow> Finished (Returned, response_JSON 200 (RawJSON (Data res)) w1)))"
    for req w1
    by (rule cleared_followed_by [OF always_tw_service]) (simp add: always_fail split: sum.splits)
  have "always only_tw (replies_without key_data w) (RedeemPost_thread dec (TwService_thread d cfg joined) r w)"
  proof -
    obtain e v w1 where dj: "decodeJSON dec r w = ((e, v), w1)" by (metis prod.exhaust)
    show ?thesis
    proof (cases "e = None \<and> v \<noteq> None")
      case True
      then obtain req where "v = Some req" by auto
      then show ?thesis using True dj always_weaken [OF answer [of w1 req], of only_tw "replies_without key_data w"]
        by (simp add: RedeemPost_thread_def replies_without_trans [OF dj])
    next
      case False
      then have "RedeemPost_thread dec (TwService_thread d cfg joined) r w = Finished (Returned, w1)"
        by (auto simp: RedeemPost_thread_def dj split: option.splits)
      then show ?thesis using decodeJSON_stops [OF dj, of key_data] False by auto
    qed
  qed
  moreover have "always only_tw (replies_without key_data w) (RedeemGet_thread (TwService_thread d cfg joined) r w)"
    using answer by (simp add: RedeemGet_thread_def split: sum.splits)
  ultimately show ?thesis using assms by blast
qed

definition key_threads :: "('k, 't, 'u, 'l, 'e) deps \<Rightarrow> 'e moment \<Rightarrow> (route \<times> 'k t_handler) list" where
  "key_threads d m =
     [(KeysCreate, KeyHandler_Create_thread (dep_decode_key d) (dep_keys d) (m_readings m)),
      (KeysList, KeyHandler_List_thread (dep_keys d)),
      (KeysRevoke, KeyHandler_Revoke_thread (dep_keys d) (revoked_at (m_readings m))),
      (KeysRotate, KeyHandler_Rotate_thread (dep_keys d) (m_readings m))]"

text \<open>The calls of the store that the key handlers make: lookups, creations of unused keys and revocations.\<close>

definition repo_step :: "'s key_repo \<Rightarrow> 's \<Rightarrow> 's \<Rightarrow> bool" where
  "repo_step repo s s' \<longleftrightarrow>
     s' = s \<or> (\<exists>now key. unstored key \<and> s' = snd (repo_Create repo now key s)) \<or> (\<exists>now i. s' = snd (repo_Revoke repo now i s))"

lemma repo_step_refl [simp]: "repo_step repo s s"
  by (simp add: repo_step_def)

lemma repo_step_calls [simp]:
  "unstored key \<Longrightarrow> repo_step repo s (snd (repo_Create repo now key s))" "repo_step repo s (snd (repo_Revoke repo now i s))"
  "repo_step repo s (snd (RevokeKey repo now i s))"
proof -
  have "snd (RevokeKey repo now i s) = snd (repo_Revoke repo now i s)"
    by (simp add: RevokeKey_def split: prod.splits sum.splits)
  then show "unstored key \<Longrightarrow> repo_step repo s (snd (repo_Create repo now key s))" "repo_step repo s (snd (repo_Revoke repo now i s))"
    "repo_step repo s (snd (RevokeKey repo now i s))"
    unfolding repo_step_def by auto
qed

lemma always_CreateKey: "always (repo_step repo) (\<lambda>_. True) (CreateKey_thread repo rd inp)"
  by (simp add: CreateKey_thread_def split: sum.splits)

lemma always_RotateKey: "always (repo_step repo) (\<lambda>_. True) (RotateKey_thread repo rd i)"
proof -
  have rest: "always (repo_step repo) (\<lambda>_. True) (followed_by (CreateKey_thread repo rd inp)
      (\<lambda>created. case created of
         Inl err \<Rightarrow> Finished (Inl (Errorf ''rotate api key'' err))
       | Inr view \<Rightarrow> Act (\<lambda>s. snd (repo_Revoke repo (revoked_at rd) i s)) (\<lambda>s. case fst (repo_Revoke repo (revoked_at rd) i s) of
           Inl err \<Rightarrow> Finished (Inl (Errorf ''rotate api key'' err)) | Inr u \<Rightarrow> Finished (Inr view))))"
    for inp
    by (rule cleared_followed_by [OF always_CreateKey]) (simp split: sum.splits)
  show ?thesis using rest by (simp add: RotateKey_thread_def split: sum.splits option.splits)
qed

lemma always_key_threads:
  assumes "(rt, h) \<in> set (key_threads d m)"
  shows "always (repo_step (dep_keys d)) (replies_without tw_data w) (h r w)"
proof -
  let ?R = "repo_step (dep_keys d)" and ?P = "replies_without tw_data w"
  have view: "always ?R (replies_without tw_data w1) (followed_by t (\<lambda>res. case res of
      Inl err \<Rightarrow> fail_reply err w1 | Inr view \<Rightarrow> Finished (Returned, response_JSON c (KeyView view) w1)))"
    if "always ?R (\<lambda>_. True) t" for t w1 c
    by (rule cleared_followed_by [OF that]) (simp add: always_fail split: sum.splits)
  have "always ?R ?P (KeyHandler_Create_thread (dep_decode_key d) (dep_keys d) (m_readings m) r w)"
  proof -
    obtain e v w1 where dj: "decodeJSON (dep_decode_key d) r w = ((e, v), w1)" by (metis prod.exhaust)
    show ?thesis
    proof (cases "e = None \<and> v \<noteq> None")
      case True
      then obtain inp where "v = Some inp" by auto
      then show ?thesis using True dj always_weaken [OF view [OF always_CreateKey, of w1 "m_readings m" inp 201], of ?R ?P]
        by (simp add: KeyHandler_Create_thread_def replies_without_trans [OF dj])
    next
      case False
      then have "KeyHandler_Create_thread (dep_decode_key d) (dep_keys d) (m_readings m) r w = Finished (Returned, w1)"
        by (auto simp: KeyHandler_Create_thread_def dj split: option.splits)
      then show ?thesis using decodeJSON_stops [OF dj, of tw_data] False by auto
    qed
  qed
  moreover have "always ?R ?P (KeyHandler_List_thread (dep_keys d) r w)"
    by (simp add: KeyHandler_List_thread_def always_fail split: sum.splits)
  moreover have "always ?R ?P (KeyHandler_Revoke_thread (dep_keys d) now r w)" for now
    by (simp add: KeyHandler_Revoke_thread_def always_fail split: sum.splits)
  moreover have "always ?R ?P (KeyHandler_Rotate_thread (dep_keys d) rd r w)" for rd
    using view [OF always_RotateKey] by (simp add: KeyHandler_Rotate_thread_def split: sum.splits)
  ultimately show ?thesis using assms by (auto simp: key_threads_def)
qed

lemma always_keys_thread:
  assumes "(rt, h) \<in> set (key_threads d m)"
  shows "always (\<lambda>s s'. only_keys s s' \<and> repo_step (dep_keys d) (w_keys s) (w_keys s')) (replies_without tw_data w) (keys_thread h r w)"
  unfolding keys_thread_def by (rule cleared_on_part [OF always_key_threads [OF assms]]) (simp add: only_keys_def)

lemma always_stats_thread:
  assumes "\<And>t. \<not> D (Some (StatsView t))" and "\<not> D None"
  shows "always quiet (replies_without D w) (stats_thread (StatsHandler_Stats_thread store) r w)"
  using assms
  by (simp add: stats_thread_def StatsHandler_Stats_thread_def quiet_def same_data_def fail_reply_def split: sum.splits)

lemma route_thread_cases:
  obtains (tw) h where "rt \<in> {TwGet, TwPost}" "route_thread d cfg m joined rt = guarded_thread d cfg m h"
      "h \<in> {RedeemGet_thread (TwService_thread d cfg joined), RedeemPost_thread (dep_decode_tw d) (TwService_thread d cfg joined)}"
  | (keys) h where "(rt, h) \<in> set (key_threads d m)" "rt \<in> {KeysCreate, KeysList, KeysRevoke, KeysRotate}"
      "route_thread d cfg m joined rt = guarded_thread d cfg m (RequireScope_thread ''admin'' (keys_thread h))"
  | (stats) "rt = StatsGet"
      "route_thread d cfg m joined rt = ip_limited_thread d cfg m (stats_thread (StatsHandler_Stats_thread (dep_stats d)))"
  | (lost) na h where "rt \<in> {NoRoute (Some TwGroup) na, NoRoute (Some KeysGroup) na}"
      "route_thread d cfg m joined rt = guarded_thread d cfg m h"
      "h \<in> {no_route_thread na, RequireScope_thread ''admin'' (no_route_thread na)}"
  | (lost_stats) na where "rt = NoRoute (Some StatsGroup) na"
      "route_thread d cfg m joined rt = ip_limited_thread d cfg m (no_route_thread na)"
  | (none) na where "rt = NoRoute None na" "route_thread d cfg m joined rt = no_route_thread na"
proof (cases rt)
  case (NoRoute g na)
  then show ?thesis
  proof (cases g)
    case (Some a)
    then show ?thesis
      using NoRoute lost [of na "no_route_thread na"] lost [of na "RequireScope_thread ''admin'' (no_route_thread na)"] lost_stats [of na]
      by (cases a) (simp_all add: route_thread_def)
  qed (simp add: none route_thread_def)
qed (use tw keys stats in \<open>auto simp: route_thread_def key_threads_def\<close>)

text \<open>The router's own answer.\<close>

lemma lost_thread:
  assumes "h \<in> {no_route_thread na, RequireScope_thread sc (no_route_thread na)}"
  obtains w' where "h r w = Finished (Returned, w')" "\<And>D. \<not> D None \<Longrightarrow> replies_without D w (Returned, w')"
proof -
  have "\<exists>w'. h r w = Finished (Returned, w') \<and> (\<forall>D. \<not> D None \<longrightarrow> replies_without D w (Returned, w'))"
    using assms by (auto simp: no_route_thread_def RequireScope_thread_def split: option.split)
  then show ?thesis using that by blast
qed

lemma always_lost:
  assumes "h \<in> {no_route_thread na, RequireScope_thread sc (no_route_thread na)}" and "\<not> D None"
  shows "always R (replies_without D w) (h r w)"
  using assms(2) by (cases rule: lost_thread [OF assms(1), of r w]) simp

lemmas always_no_route = always_lost [OF insertI1]

section \<open>What a request needs to be admitted for\<close>

lemma security_writer_props [simp]:
  "W_Body (security_writer w) = W_Body w" "W_Wrote (security_writer w) = W_Wrote w"
  by (simp_all add: security_writer_def SecurityHeaders_def Let_def)

lemma discloses_fresh:
  assumes "mw_law d" and "cors d cfg r new_writer = (go, w1)"
  shows "\<not> discloses D w1" "\<not> discloses D (security_writer w1)"
  using mw_law_body(2) [OF assms(1), of "CORS_options (AllowOrigins cfg)" r new_writer] assms(2)
  by (simp_all add: discloses_def new_writer_def)

lemma discloses_final:
  assumes "mw_law d" and "\<not> D None"
  shows "discloses D (final_writer d cfg a) = discloses D (snd a)"
proof -
  have "discloses D (dep_timeout d (WriteTimeout cfg) w) = discloses D w" for w
    using mw_law_body(1) [OF assms(1), of "WriteTimeout cfg" w] by (simp add: discloses_def)
  then show ?thesis using assms(2) by (auto simp: final_writer_def split: prod.splits flow.splits)
qed

text \<open>
  A route's part of the two mediation arguments: a frame \<open>F\<close> of the state that quiet steps and the start of a
  recorder keep, a kind \<open>D\<close> of data that refusals do not carry, and the routes \<open>rts\<close> that may do more.
\<close>

definition admin_admitted :: "('k, 't, 'u, 'l, 'e) deps \<Rightarrow> 'e moment \<Rightarrow> route \<Rightarrow> request \<Rightarrow> ('k, 't, 'u, 'l) world \<Rightarrow> bool" where
  "admin_admitted d m rt r s \<longleftrightarrow> rt \<in> {KeysCreate, KeysList, KeysRevoke, KeysRotate} \<and>
     (\<exists>k. admits d m s r k \<and> ''admin'' \<in> set (Scopes k))"

definition tw_admitted :: "('k, 't, 'u, 'l, 'e) deps \<Rightarrow> 'e moment \<Rightarrow> route \<Rightarrow> request \<Rightarrow> ('k, 't, 'u, 'l) world \<Rightarrow> bool" where
  "tw_admitted d m rt r s \<longleftrightarrow> rt \<in> {TwGet, TwPost} \<and> (\<exists>k. admits d m s r k)"

lemma route_keys_cleared:
  assumes "\<not> discloses key_data w"
  shows "cleared (admin_admitted d m rt r) (\<lambda>s s'. w_keys s' = w_keys s) (\<lambda>a. \<not> discloses key_data (snd a))
    (route_thread d cfg m joined rt r w) False"
proof -
  let ?R = "\<lambda>s s'. w_keys s' = w_keys s" and ?P = "\<lambda>a. \<not> discloses key_data (snd a)"
  have q: "?R s s'" if "quiet s s'" for s s' using that by (simp add: quiet_def same_data_def)
  have refused: "?P (Returned, w')" if "turned_away w w'" for w' using turned_away_reply(1) [OF that, of key_data] assms by simp
  show ?thesis
  proof (cases rule: route_thread_cases [of rt d cfg m joined])
    case (tw h)
    have a: "always ?R ?P (h r' w)" for r'
      by (rule always_weaken [OF always_redeem [OF tw(3)]]) (use assms in \<open>auto simp: only_tw_def replies_without_def\<close>)
    show ?thesis unfolding tw(2) by (rule cleared_guarded, erule q, erule refused, simp add: always_cleared [OF a])
  next
    case (keys h)
    have no: "''admin'' \<notin> set (Scopes k)" if "admits d m s r k" "\<not> admin_admitted d m rt r s" for s k
      using that keys(2) unfolding admin_admitted_def by blast
    have "cleared (admin_admitted d m rt r) ?R ?P (RequireScope_thread ''admin'' (keys_thread h) (r\<lparr>ctx_api_key := Some k\<rparr>) w) False"
      if "''admin'' \<notin> set (Scopes k)" for k
      by (rule cleared_scope, erule refused) (use that in simp)
    then show ?thesis unfolding keys(3) by (rule_tac cleared_guarded, erule_tac q, erule_tac refused) (use no in simp)
  next
    case stats
    have a: "always ?R ?P (stats_thread (StatsHandler_Stats_thread (dep_stats d)) r w)"
      by (rule always_weaken [OF always_stats_thread [of key_data]]) (use assms q in \<open>auto simp: replies_without_def\<close>)
    show ?thesis unfolding stats(2) by (rule cleared_ip_limited, erule q, erule refused, rule always_cleared [OF a])
  next
    case (lost na h)
    have a: "always ?R ?P (h r' w)" for r'
      by (rule always_weaken [OF always_lost [OF lost(3), of key_data]]) (use assms in \<open>auto simp: replies_without_def\<close>)
    show ?thesis unfolding lost(2) by (rule cleared_guarded, erule q, erule refused, simp add: always_cleared [OF a])
  next
    case (lost_stats na)
    have a: "always ?R ?P (no_route_thread na r w)"
      by (rule always_weaken [OF always_no_route [of key_data]]) (use assms in \<open>auto simp: replies_without_def\<close>)
    show ?thesis unfolding lost_stats(2) by (rule cleared_ip_limited, erule q, erule refused, rule always_cleared [OF a])
  qed (use assms in \<open>simp add: no_route_thread_def\<close>)
qed

lemma route_tw_cleared:
  assumes "\<not> discloses tw_data w"
  shows "cleared (tw_admitted d m rt r) (\<lambda>s s'. w_net s' = w_net s) (\<lambda>a. \<not> discloses tw_data (snd a))
    (route_thread d cfg m joined rt r w) False"
proof -
  let ?R = "\<lambda>s s'. w_net s' = w_net s" and ?P = "\<lambda>a. \<not> discloses tw_data (snd a)"
  have q: "?R s s'" if "quiet s s'" for s s' using that by (simp add: quiet_def same_data_def)
  have refused: "?P (Returned, w')" if "turned_away w w'" for w' using turned_away_reply(1) [OF that, of tw_data] assms by simp
  show ?thesis
  proof (cases rule: route_thread_cases [of rt d cfg m joined])
    case (tw h)
    then have yes: "tw_admitted d m rt r s" if "admits d m s r k" for s k using that unfolding tw_admitted_def by blast
    show ?thesis unfolding tw(2) by (rule cleared_guarded, erule q, erule refused) (use yes in blast)
  next
    case (keys h)
    have a: "always ?R ?P (keys_thread h r' w)" for r'
      by (rule always_weaken [OF always_keys_thread [OF keys(1)]]) (use assms in \<open>auto simp: only_keys_def replies_without_def\<close>)
    have sc: "cleared A ?R ?P (RequireScope_thread ''admin'' (keys_thread h) r' w) False" for r' A
      by (rule cleared_scope, erule refused, rule always_cleared [OF a])
    show ?thesis unfolding keys(3) by (rule cleared_guarded, erule q, erule refused, simp add: sc)
  next
    case stats
    have a: "always ?R ?P (stats_thread (StatsHandler_Stats_thread (dep_stats d)) r w)"
      by (rule always_weaken [OF always_stats_thread [of tw_data]]) (use assms q in \<open>auto simp: replies_without_def\<close>)
    show ?thesis unfolding stats(2) by (rule cleared_ip_limited, erule q, erule refused, rule always_cleared [OF a])
  next
    case (lost na h)
    have a: "always ?R ?P (h r' w)" for r'
      by (rule always_weaken [OF always_lost [OF lost(3), of tw_data]]) (use assms in \<open>auto simp: replies_without_def\<close>)
    show ?thesis unfolding lost(2) by (rule cleared_guarded, erule q, erule refused, simp add: always_cleared [OF a])
  next
    case (lost_stats na)
    have a: "always ?R ?P (no_route_thread na r w)"
      by (rule always_weaken [OF always_no_route [of tw_data]]) (use assms in \<open>auto simp: replies_without_def\<close>)
    show ?thesis unfolding lost_stats(2) by (rule cleared_ip_limited, erule q, erule refused, rule always_cleared [OF a])
  qed (use assms in \<open>simp add: no_route_thread_def\<close>)
qed

lemma serve_keys_cleared:
  assumes "mw_law d"
  shows "cleared (admin_admitted d m rt r) (\<lambda>s s'. w_keys s' = w_keys s) (\<lambda>a. \<not> discloses key_data (snd a))
    (serve_thread d cfg m joined rt r new_writer) False"
  by (rule cleared_serve [OF _ _ route_keys_cleared])
    (use discloses_fresh [OF assms] discloses_final [OF assms, of key_data] in \<open>auto simp: quiet_def same_data_def\<close>)

lemma serve_tw_cleared:
  assumes "mw_law d"
  shows "cleared (tw_admitted d m rt r) (\<lambda>s s'. w_net s' = w_net s) (\<lambda>a. \<not> discloses tw_data (snd a))
    (serve_thread d cfg m joined rt r new_writer) False"
  by (rule cleared_serve [OF _ _ route_tw_cleared])
    (use discloses_fresh [OF assms] discloses_final [OF assms, of tw_data] in \<open>auto simp: quiet_def same_data_def\<close>)

text \<open>A use of a key is counted only for a request that was admitted with that key.\<close>

definition admitted_as :: "int \<Rightarrow> ('k, 't, 'u, 'l, 'e) deps \<Rightarrow> 'e moment \<Rightarrow> request \<Rightarrow> ('k, 't, 'u, 'l) world \<Rightarrow> bool" where
  "admitted_as i d m r s \<longleftrightarrow> (\<exists>k. admits d m s r k \<and> ID k = i)"

text \<open>The recorders that a step starts.\<close>

definition new_uses :: "('k, 't, 'u, 'l) world \<Rightarrow> ('k, 't, 'u, 'l) world \<Rightarrow> int list" where
  "new_uses s s' = drop (length (w_pending s)) (w_pending s')"

lemma new_uses_quiet [simp]: "quiet s s' \<Longrightarrow> new_uses s s' = []"
  by (simp add: new_uses_def quiet_def)

lemma new_uses_spawn [simp]: "new_uses s (s\<lparr>w_pending := w_pending s @ [i]\<rparr>) = [i]"
  by (simp add: new_uses_def)

lemma route_uses_cleared:
  "cleared (admitted_as i d m r) (\<lambda>s s'. i \<notin> set (new_uses s s')) (\<lambda>_. True)
    (route_thread d cfg m joined rt r w) False"
proof -
  let ?R = "\<lambda>s s'. i \<notin> set (new_uses s s')" and ?P = "\<lambda>_. True"
  have q: "?R s s'" if "quiet s s'" for s s' using that by simp
  have spawn: "\<forall>s'. ?R s' (s'\<lparr>w_pending := w_pending s' @ [ID k]\<rparr>)" if "admits d m s r k" "\<not> admitted_as i d m r s" for s k
    using that by (auto simp: admitted_as_def)
  show ?thesis
  proof (cases rule: route_thread_cases [of rt d cfg m joined])
    case (tw h)
    have a: "always ?R ?P (h r' w)" for r'
      by (rule always_weaken [OF always_redeem [OF tw(3)]]) (auto simp: only_tw_def new_uses_def)
    show ?thesis unfolding tw(2) by (rule cleared_guarded, erule q, rule TrueI) (use spawn in \<open>simp add: always_cleared [OF a]\<close>)
  next
    case (keys h)
    have a: "always ?R ?P (keys_thread h r' w)" for r'
      by (rule always_weaken [OF always_keys_thread [OF keys(1)]]) (auto simp: only_keys_def new_uses_def)
    have sc: "cleared A ?R ?P (RequireScope_thread ''admin'' (keys_thread h) r' w) False" for r' A
      by (rule cleared_scope, rule TrueI, rule always_cleared [OF a])
    show ?thesis unfolding keys(3) by (rule cleared_guarded, erule q, rule TrueI) (use spawn in \<open>simp add: sc\<close>)
  next
    case stats
    have a: "always ?R ?P (stats_thread (StatsHandler_Stats_thread (dep_stats d)) r w)"
      by (rule always_weaken [OF always_stats_thread [of key_data]]) (use q in auto)
    show ?thesis unfolding stats(2) by (rule cleared_ip_limited, erule q, rule TrueI, rule always_cleared [OF a])
  next
    case (lost na h)
    have a: "always ?R ?P (h r' w)" for r'
      by (rule always_weaken [OF always_lost [OF lost(3), of key_data "\<lambda>_ _. False"]]) auto
    show ?thesis unfolding lost(2) by (rule cleared_guarded, erule q, rule TrueI) (use spawn in \<open>simp add: always_cleared [OF a]\<close>)
  next
    case (lost_stats na)
    have a: "always ?R ?P (no_route_thread na r w)"
      by (rule always_weaken [OF always_no_route [of key_data "\<lambda>_ _. False"]]) auto
    show ?thesis unfolding lost_stats(2) by (rule cleared_ip_limited, erule q, rule TrueI, rule always_cleared [OF a])
  qed (simp add: no_route_thread_def)
qed

lemma serve_uses_cleared:
  "cleared (admitted_as i d m r) (\<lambda>s s'. i \<notin> set (new_uses s s')) (\<lambda>_. True)
    (serve_thread d cfg m joined rt r w) False"
  by (rule cleared_serve [OF _ _ route_uses_cleared]) auto

section \<open>Every request is answered\<close>

lemma route_answers:
  assumes "secure w"
  shows "always (\<lambda>_ _. True) (\<lambda>a. good (fst a, (), snd a)) (route_thread d cfg m joined rt r w)"
proof -
  let ?R = "\<lambda>_ _. True" and ?P = "\<lambda>a. good (fst a, (), snd a)"
  have refused: "?P (Returned, w')" if "turned_away w w'" for w' using turned_away_reply(2) [OF that assms] by simp
  show ?thesis
  proof (cases rule: route_thread_cases [of rt d cfg m joined])
    case (tw h)
    have a: "always ?R ?P (h r' w)" for r'
      by (rule always_weaken [OF always_redeem [OF tw(3)]]) (use assms in \<open>auto simp: replies_without_def\<close>)
    show ?thesis unfolding tw(2) by (rule cleared_guarded, rule TrueI, erule refused, simp add: a)
  next
    case (keys h)
    have a: "always ?R ?P (keys_thread h r' w)" for r'
      by (rule always_weaken [OF always_keys_thread [OF keys(1)]]) (use assms in \<open>auto simp: replies_without_def\<close>)
    have sc: "always ?R ?P (RequireScope_thread ''admin'' (keys_thread h) r' w)" for r'
      by (rule cleared_scope, erule refused, rule a)
    show ?thesis unfolding keys(3) by (rule cleared_guarded, rule TrueI, erule refused, simp add: sc)
  next
    case stats
    have a: "always ?R ?P (stats_thread (StatsHandler_Stats_thread (dep_stats d)) r w)"
      by (rule always_weaken [OF always_stats_thread [of key_data]]) (use assms in \<open>auto simp: replies_without_def\<close>)
    show ?thesis unfolding stats(2) by (rule cleared_ip_limited, rule TrueI, erule refused, rule a)
  next
    case (lost na h)
    have a: "always ?R ?P (h r' w)" for r'
      by (rule always_weaken [OF always_lost [OF lost(3), of key_data]]) (use assms in \<open>auto simp: replies_without_def\<close>)
    show ?thesis unfolding lost(2) by (rule cleared_guarded, rule TrueI, erule refused, simp add: a)
  next
    case (lost_stats na)
    have a: "always ?R ?P (no_route_thread na r w)"
      by (rule always_weaken [OF always_no_route [of key_data]]) (use assms in \<open>auto simp: replies_without_def\<close>)
    show ?thesis unfolding lost_stats(2) by (rule cleared_ip_limited, rule TrueI, erule refused, rule a)
  qed (use assms in \<open>simp add: no_route_thread_def secure_ops\<close>)
qed

lemma answered_final:
  assumes "mw_law d" and "good (fst a, (), snd a)"
  shows "answered (final_writer d cfg a)"
proof -
  obtain f w where a: "a = (f, w)" by (cases a)
  note t = mw_law_timeout [OF assms(1), of "WriteTimeout cfg" w]
  have "secure w" using assms(2) a by (simp add: good_def)
  then have "secure (dep_timeout d (WriteTimeout cfg) w)" using t secure_ops(1) by auto
  moreover have "answered (dep_timeout d (WriteTimeout cfg) w)" if "f = Returned"
    using that assms(2) a t secure_ops(1) by auto
  ultimately show ?thesis by (cases f) (simp_all add: a final_writer_def secure_ops(3))
qed

definition full_reply :: "('k, 't, 'u, 'l, 'e) deps \<Rightarrow> Config \<Rightarrow> request \<Rightarrow> flow \<times> ResponseWriter \<Rightarrow> bool" where
  "full_reply d cfg r a \<longleftrightarrow> fst a = Returned \<and> (\<exists>c hs. W_Wrote (snd a) = Some (c, hs) \<and>
     map_of hs ''Access-Control-Allow-Credentials'' = None \<and> (fst (cors d cfg r new_writer) \<longrightarrow> has_security hs))"

lemma serve_answers:
  assumes "mw_law d"
  shows "always (\<lambda>_ _. True) (full_reply d cfg r) (serve_thread d cfg m joined rt r new_writer)"
proof (rule cleared_serve [where Q = "\<lambda>a. good (fst a, (), snd a)"], rule TrueI)
  fix w1
  assume c: "cors d cfg r new_writer = (False, w1)"
  obtain s hs where w: "W_Wrote w1 = Some (s, hs)" using mw_law_wrote(2) [OF assms c] by auto
  then have "map_of hs ''Access-Control-Allow-Credentials'' = None"
    using mw_law_credentials(2) [OF assms c] unfolding no_credentials_def by blast
  then show "full_reply d cfg r (Returned, w1)" using c w by (simp add: full_reply_def)
next
  fix w1
  assume c: "cors d cfg r new_writer = (True, w1)"
  have "W_Wrote w1 = None" using mw_law_wrote(1) [OF assms c] by simp
  moreover have "no_credentials (W_Header w1)" by (rule mw_law_credentials(1) [OF assms c])
  ultimately have "secure (security_writer w1)"
    by (simp add: secure_def safe_headers_def no_credentials_def security_writer_def SecurityHeaders_def Header_Set_def
        has_security_def Let_def)
  then show "always (\<lambda>_ _. True) (\<lambda>a. good (fst a, (), snd a)) (route_thread d cfg m joined rt r (security_writer w1))"
    by (rule route_answers)
next
  fix a :: "flow \<times> ResponseWriter"
  assume "good (fst a, (), snd a)"
  then have "answered (final_writer d cfg a)" by (rule answered_final [OF assms])
  then show "full_reply d cfg r (Returned, final_writer d cfg a)"
    by (auto simp: full_reply_def answered_def secure_def safe_headers_def no_credentials_def)
qed

section \<open>Every request finishes\<close>

lemma finishes_tw_service: "finishes_in (TwService_thread d cfg joined req) 2"
  by (simp add: TwService_thread_def Coalesced_thread_def Let_def split: option.splits sum.splits)

lemma finishes_fail [simp]: "finishes_in (fail_reply err w) n"
  by (simp add: fail_reply_def)

lemma finishes_redeem:
  assumes "h \<in> {RedeemGet_thread (TwService_thread d cfg joined), RedeemPost_thread dec (TwService_thread d cfg joined)}"
  shows "finishes_in (h r w) 2"
proof -
  have "finishes_in (followed_by (TwService_thread d cfg joined req)
      (\<lambda>res. case res of Inl err \<Rightarrow> fail_reply err w1 | Inr res \<Rightarrow> Finished (Returned, response_JSON 200 (RawJSON (Data res)) w1))) 2"
    for req w1
    by (rule finishes_in_then [OF finishes_tw_service]) (simp split: sum.splits)
  then show ?thesis using assms
    by (auto simp: RedeemGet_thread_def RedeemPost_thread_def split: sum.splits option.splits prod.splits)
qed

lemma finishes_CreateKey: "finishes_in (CreateKey_thread repo rd inp) 1"
  by (simp add: CreateKey_thread_def split: sum.splits)

lemma finishes_RotateKey: "finishes_in (RotateKey_thread repo rd i) 3"
proof -
  have rest: "finishes_in (followed_by (CreateKey_thread repo rd inp)
      (\<lambda>created. case created of
         Inl err \<Rightarrow> Finished (Inl (Errorf ''rotate api key'' err))
       | Inr view \<Rightarrow> Act (\<lambda>s. snd (repo_Revoke repo (revoked_at rd) i s)) (\<lambda>s. case fst (repo_Revoke repo (revoked_at rd) i s) of
           Inl err \<Rightarrow> Finished (Inl (Errorf ''rotate api key'' err)) | Inr u \<Rightarrow> Finished (Inr view)))) 2"
    for inp
    unfolding one_add_one [symmetric] by (rule finishes_in_followed_by [OF finishes_CreateKey]) (simp split: sum.splits)
  show ?thesis using rest by (simp add: RotateKey_thread_def split: sum.splits option.splits)
qed

lemma finishes_keys:
  assumes "(rt, h) \<in> set (key_threads d m)"
  shows "finishes_in (keys_thread h r w) 3"
proof -
  have view: "finishes_in (followed_by t (\<lambda>res. case res of
      Inl err \<Rightarrow> fail_reply err w1 | Inr view \<Rightarrow> Finished (Returned, response_JSON c (KeyView view) w1))) 3"
    if "finishes_in t 3" for t :: "('a, ApiKeyView result) thread" and w1 c
    by (rule finishes_in_then [OF that]) (simp split: sum.splits)
  have "finishes_in (KeyHandler_Create_thread dec repo rd r w) 3" for dec and repo :: "'a key_repo" and rd
    using view [OF finishes_in_mono [OF finishes_CreateKey]]
    by (auto simp: KeyHandler_Create_thread_def split: prod.splits option.splits)
  moreover have "finishes_in (KeyHandler_List_thread repo r w) 3" for repo :: "'a key_repo"
    by (simp add: KeyHandler_List_thread_def split: sum.splits)
  moreover have "finishes_in (KeyHandler_Revoke_thread repo now r w) 3" for repo :: "'a key_repo" and now
    by (simp add: KeyHandler_Revoke_thread_def split: sum.splits)
  moreover have "finishes_in (KeyHandler_Rotate_thread repo rd r w) 3" for repo :: "'a key_repo" and rd
    using view [OF finishes_RotateKey] by (simp add: KeyHandler_Rotate_thread_def split: sum.splits)
  ultimately have "finishes_in (h r w) 3" using assms by (auto simp: key_threads_def)
  then show ?thesis unfolding keys_thread_def by (rule finishes_in_on_part)
qed

lemma finishes_limited:
  assumes "finishes_in (next r w) n"
  shows "finishes_in (ip_limited_thread d cfg m next r w) (n + 1)" "finishes_in (key_limited_thread d cfg m next r w) (n + 1)"
  using assms finishes_in_mono [OF assms, of "n + 1"]
  by (auto simp: ip_limited_thread_def RateLimitIP_thread_def key_limited_thread_def RateLimit_thread_def Let_def
      split: prod.splits option.splits)

lemma finishes_authenticated:
  assumes "\<And>r. finishes_in (next r w) n"
  shows "finishes_in (authenticated_thread d m next r w) (n + 2)"
  using assms by (simp add: authenticated_thread_def Auth_thread_def Let_def split: sum.splits)

lemma finishes_guarded:
  assumes "\<And>r. finishes_in (next r w) n"
  shows "finishes_in (guarded_thread d cfg m next r w) (n + 4)"
proof -
  have "finishes_in (authenticated_thread d m (key_limited_thread d cfg m next) r w) (n + 1 + 2)"
    by (rule finishes_authenticated, rule finishes_limited(2), rule assms)
  from finishes_limited(1) [of "authenticated_thread d m (key_limited_thread d cfg m next)" r w, OF this]
  show ?thesis unfolding guarded_thread_def by (rule finishes_in_mono) simp
qed

lemma finishes_route: "finishes_in (route_thread d cfg m joined rt r w) 7"
proof (cases rule: route_thread_cases [of rt d cfg m joined])
  case (tw h)
  have "finishes_in (h r' w) 3" for r' using finishes_in_mono [OF finishes_redeem [OF tw(3)]] by simp
  from finishes_guarded [of h, OF this] show ?thesis unfolding tw(2) by simp
next
  case (keys h)
  have "finishes_in (RequireScope_thread ''admin'' (keys_thread h) r' w) 3" for r'
    by (simp add: RequireScope_thread_def finishes_keys [OF keys(1)] split: option.splits)
  from finishes_guarded [of "RequireScope_thread ''admin'' (keys_thread h)", OF this] show ?thesis unfolding keys(3) by simp
next
  case stats
  have "finishes_in (stats_thread (StatsHandler_Stats_thread (dep_stats d)) r w) 6"
    by (simp add: stats_thread_def StatsHandler_Stats_thread_def fail_reply_def split: sum.splits)
  from finishes_limited(1) [of "stats_thread (StatsHandler_Stats_thread (dep_stats d))" r w, OF this]
  show ?thesis unfolding stats(2) by simp
next
  case (lost na h)
  have "finishes_in (h r' w) 3" for r' by (cases rule: lost_thread [OF lost(3), of r' w]) simp
  from finishes_guarded [of h, OF this] show ?thesis unfolding lost(2) by simp
next
  case (lost_stats na)
  have "finishes_in (no_route_thread na r w) 6" by (simp add: no_route_thread_def)
  from finishes_limited(1) [of "no_route_thread na" r w, OF this] show ?thesis unfolding lost_stats(2) by simp
qed (simp add: no_route_thread_def)

lemma finishes_serve: "finishes_in (serve_thread d cfg m joined rt r w) 9"
proof -
  have "finishes_in (CORS_thread d os (SecurityHeaders_thread (Timeout_thread d t (route_thread d cfg m joined rt))) r w) 7" for os t
    by (simp add: CORS_thread_def SecurityHeaders_thread_def Timeout_thread_def Let_def split: prod.splits)
      (intro allI impI finishes_in_then finishes_route, simp split: prod.splits)
  then have "finishes_in (Recover_thread logger (CORS_thread d os (SecurityHeaders_thread (Timeout_thread d t
      (route_thread d cfg m joined rt)))) r w) (7 + 1)" for os t
    unfolding Recover_thread_def by (rule finishes_in_followed_by) (simp split: prod.splits flow.splits)
  then have "finishes_in (serve_thread d cfg m joined rt r w) (7 + 1 + 1)"
    unfolding serve_thread_def Logging_thread_def by (rule finishes_in_followed_by) (simp split: prod.splits flow.splits)
  then show ?thesis by simp
qed

section \<open>Orderly steps on the in-memory key store\<close>

text \<open>
  \<open>others\<close>: what a thread relies on between two of its steps: the store stays consistent and its identities grow.
  \<open>orderly\<close>: what each of its steps guarantees in return: a change of the kind that the runs of \<open>Server\<close> consist of.
\<close>

definition others :: "(KeyStore, 't, 'u, 'l) world \<Rightarrow> (KeyStore, 't, 'u, 'l) world \<Rightarrow> bool" where
  "others s s' \<longleftrightarrow> keystore_inv (w_keys s') \<and> nextID (w_keys s) \<le> nextID (w_keys s')"

definition orderly :: "(KeyStore, 't, 'u, 'l) world \<Rightarrow> (KeyStore, 't, 'u, 'l) world \<Rightarrow> bool" where
  "orderly s s' \<longleftrightarrow> (world_inv s \<and> nextID (w_keys s) + 2 \<le> MaxInt64 \<longrightarrow> change s (new_uses s s') s')"

lemma orderly_only_tw: "only_tw s s' \<Longrightarrow> orderly s s'"
  by (auto simp: orderly_def only_tw_def new_uses_def world_inv_def intro: change_request)

lemma orderly_quiet: "quiet s s' \<Longrightarrow> orderly s s'"
  by (rule orderly_only_tw) (simp add: quiet_def only_tw_def same_data_def)

lemma orderly_spawn: "i < nextID (w_keys s) \<Longrightarrow> orderly s (s\<lparr>w_pending := w_pending s @ [i]\<rparr>)"
  by (auto simp: orderly_def new_uses_def world_inv_def intro: change_request)

lemma orderly_keys:
  assumes "only_keys s s'" and "repo_step memory_repo (w_keys s) (w_keys s')"
  shows "orderly s s'"
  unfolding orderly_def
proof
  assume a: "world_inv s \<and> nextID (w_keys s) + 2 \<le> MaxInt64"
  have inv: "keystore_inv (w_keys s)" and room: "nextID (w_keys s) < MaxInt64" using a by (auto simp: world_inv_def)
  have "keystore_inv (w_keys s') \<and> evolves (w_keys s) (w_keys s') \<and> nextID (w_keys s') \<le> nextID (w_keys s) + 1"
  proof (cases "w_keys s' = w_keys s")
    case False
    then have "\<exists>op. fresh_op op \<and> w_keys s' = exec_op op (w_keys s)"
      using assms(2) by (auto simp: repo_step_def) (metis exec_op.simps(1) fresh_op_def store_op.simps(10), metis exec_op.simps(2) fresh_op_def store_op.simps(11))
    then obtain op where "fresh_op op" "w_keys s' = exec_op op (w_keys s)" by blast
    then show ?thesis using exec_op_inv [OF inv room] exec_op_evolves [OF inv room] exec_op_nextID [OF inv room] by simp
  qed (use inv in simp)
  then have k: "keystore_inv (w_keys s')" "evolves (w_keys s) (w_keys s')" "nextID (w_keys s') \<le> nextID (w_keys s) + 2" by auto
  then have "nextID (w_keys s) \<le> nextID (w_keys s')" by (simp add: evolves_def)
  moreover have p: "w_pending s' = w_pending s" using assms(1) by (simp add: only_keys_def)
  ultimately have "world_inv s'" using a k(1) by (fastforce simp: world_inv_def)
  with change_request [OF k(2), of "[]"] k(3) p show "change s (new_uses s s') s'" by (simp add: new_uses_def)
qed

lemma keeps_limited:
  assumes "\<And>s. keeps others orderly (next r w) s"
  shows "keeps others orderly (ip_limited_thread d cfg m next r w) s" "keeps others orderly (key_limited_thread d cfg m next r w) s"
  using assms
  by (simp_all add: ip_limited_thread_def RateLimitIP_thread_def key_limited_thread_def RateLimit_thread_def orderly_quiet
      Let_def split_beta split: option.splits)

text \<open>
  The one place where a thread relies on the others: the identity that authentication found in the store is still an
  assigned one when the recorder starts.
\<close>

lemma keeps_authenticated:
  assumes mem: "dep_keys d = memory_repo" and "next": "\<And>r s. keeps others orderly (next r w) s"
  shows "keeps others orderly (authenticated_thread d m next r w) s"
proof -
  have "keeps others orderly (followed_by (modify (\<lambda>st. st\<lparr>w_pending := w_pending st @ [ID k]\<rparr>)) (\<lambda>_. next r' w)) s"
    if "KeyStore_GetByHash h (w_keys s) = Inr k" "keystore_inv (w_keys s)" for k r' s h
  proof -
    have "ID k < nextID (w_keys s)"
      using that keystore_invD(4) by (auto simp: KeyStore_GetByHash_def split: option.splits)
    then show ?thesis using "next" by (auto simp: others_def intro!: orderly_spawn)
  qed
  moreover have "orderly s s" for s :: "(KeyStore, 'a, 'b, 'c) world" by (rule orderly_quiet) simp
  ultimately show ?thesis
    by (auto simp: authenticated_thread_def Auth_thread_def mem others_def Let_def split: sum.splits)
qed

lemma keeps_guarded:
  assumes "dep_keys d = memory_repo" and "\<And>r s. keeps others orderly (next r w) s"
  shows "keeps others orderly (guarded_thread d cfg m next r w) s"
  unfolding guarded_thread_def by (intro keeps_limited keeps_authenticated assms)

lemma keeps_route:
  assumes mem: "dep_keys d = memory_repo"
  shows "keeps others orderly (route_thread d cfg m joined rt r w) s"
proof (cases rule: route_thread_cases [of rt d cfg m joined])
  case (tw h)
  have "keeps others orderly (h r' w) s'" for r' s'
    by (rule keeps_always [OF always_weaken [OF always_redeem [OF tw(3)] orderly_only_tw TrueI]])
  then show ?thesis unfolding tw(2) by (rule keeps_guarded [OF mem])
next
  case (keys h)
  have k: "keeps others orderly (keys_thread h r' w) s'" for r' s'
    by (rule keeps_always [OF always_weaken [OF always_keys_thread [OF keys(1)] _ TrueI]])
      (use orderly_keys mem in auto)
  have "keeps others orderly (RequireScope_thread ''admin'' (keys_thread h) r' w) s'" for r' s'
    by (simp add: RequireScope_thread_def k split: option.splits)
  then show ?thesis unfolding keys(3) by (rule keeps_guarded [OF mem])
next
  case stats
  have "keeps others orderly (stats_thread (StatsHandler_Stats_thread (dep_stats d)) r w) s'" for s'
    by (rule keeps_always [OF always_weaken [OF always_stats_thread [of key_data] orderly_quiet TrueI]]) auto
  then show ?thesis unfolding stats(2) by (rule keeps_limited)
next
  case (lost na h)
  have "keeps others orderly (h r' w) s'" for r' s' by (cases rule: lost_thread [OF lost(3), of r' w]) simp
  then show ?thesis unfolding lost(2) by (rule keeps_guarded [OF mem])
next
  case (lost_stats na)
  have "keeps others orderly (no_route_thread na r w) s'" for s' by (simp add: no_route_thread_def)
  then show ?thesis unfolding lost_stats(2) by (rule keeps_limited)
qed (simp add: no_route_thread_def)

lemma serve_orderly:
  assumes "dep_keys d = memory_repo"
  shows "keeps others orderly (serve_thread d cfg m joined rt r w) s"
proof -
  have log: "orderly s (logger x s)" for s :: "(KeyStore, 'a, 'b, 'c) world" and x by (rule orderly_quiet) simp
  have "keeps others orderly (CORS_thread d os (SecurityHeaders_thread (Timeout_thread d t (route_thread d cfg m joined rt))) r w) s" for os t
    by (simp add: CORS_thread_def SecurityHeaders_thread_def Timeout_thread_def Let_def split: prod.splits)
      (intro allI impI keeps_followed_by keeps_route [OF assms], simp split: prod.splits)
  then have "keeps others orderly (Recover_thread logger (CORS_thread d os (SecurityHeaders_thread (Timeout_thread d t
      (route_thread d cfg m joined rt)))) r w) s" for os t
    unfolding Recover_thread_def by (rule keeps_followed_by) (simp add: log split: prod.splits flow.splits)
  then show ?thesis
    unfolding serve_thread_def Logging_thread_def by (rule keeps_followed_by) (simp add: log split: prod.splits flow.splits)
qed

section \<open>A request counts at most one use, and one if it gets anything\<close>

text \<open>The recorders a thread has started by the time it finishes, and what then holds of them and its reply.\<close>

primrec tallied ::
  "(int list \<Rightarrow> 'a \<Rightarrow> bool) \<Rightarrow> (('k, 't, 'u, 'l) world, 'a) thread \<Rightarrow> int list \<Rightarrow> bool" where
  "tallied P (Finished a) h = P h a"
| "tallied P (Act u k) h = (\<forall>s. tallied P (k s) (h @ new_uses s (u s)))"

lemma tallied_always:
  assumes "always (\<lambda>s s'. w_pending s' = w_pending s) Q t" and "\<And>a. Q a \<Longrightarrow> P h a"
  shows "tallied P t h"
  using assms by (induction t) (auto simp: new_uses_def)

lemma tallied_followed_by:
  assumes "tallied Q t h" and "\<And>h a. Q h a \<Longrightarrow> tallied P (g a) h"
  shows "tallied P (followed_by t g) h"
  using assms(1) by (induction t arbitrary: h) (auto intro: assms(2))

lemma tallied_limited:
  assumes "\<And>w'. turned_away w w' \<Longrightarrow> P h (Returned, w')" and "tallied P (next r w) h"
  shows "tallied P (ip_limited_thread d cfg m next r w) h" "tallied P (key_limited_thread d cfg m next r w) h"
  using assms by (simp_all add: ip_limited_thread_def RateLimitIP_thread_def key_limited_thread_def RateLimit_thread_def
      Let_def split_beta split: option.splits)

lemma tallied_authenticated:
  assumes "\<And>w'. turned_away w w' \<Longrightarrow> P [] (Returned, w')" and "\<And>r i. tallied P (next r w) [i]"
  shows "tallied P (authenticated_thread d m next r w) []"
  using assms by (simp add: authenticated_thread_def Auth_thread_def Let_def split: sum.splits)

text \<open>The account: at most one use, and no data without one.\<close>

definition account :: "int list \<Rightarrow> flow \<times> ResponseWriter \<Rightarrow> bool" where
  "account h a \<longleftrightarrow> length h \<le> 1 \<and> (h = [] \<longrightarrow> \<not> discloses key_data (snd a) \<and> \<not> discloses tw_data (snd a))"

lemma tallied_guarded:
  assumes "\<not> discloses key_data w" "\<not> discloses tw_data w"
    and "\<And>r. always (\<lambda>s s'. w_pending s' = w_pending s) (\<lambda>_. True) (next r w)"
  shows "tallied account (guarded_thread d cfg m next r w) []"
proof -
  have away: "account h (Returned, w')" if "turned_away w w'" "length h \<le> 1" for h w'
    using turned_away_reply(1) [OF that(1), of key_data] turned_away_reply(1) [OF that(1), of tw_data] assms(1,2) that(2)
    by (simp add: account_def)
  have "tallied account (next r' w) [i]" for r' i by (rule tallied_always [OF assms(3)]) (simp add: account_def)
  then have "tallied account (key_limited_thread d cfg m next r' w) [i]" for r' i
    by (rule tallied_limited(2) [rotated]) (simp add: away)
  then show ?thesis unfolding guarded_thread_def
    by (intro tallied_limited(1) tallied_authenticated away) auto
qed

lemma route_tallied:
  assumes w: "\<not> discloses key_data w" "\<not> discloses tw_data w"
  shows "tallied account (route_thread d cfg m joined rt r w) []"
proof -
  have away: "account [] (Returned, w')" if "turned_away w w'" for w'
    using turned_away_reply(1) [OF that, of key_data] turned_away_reply(1) [OF that, of tw_data] w by (simp add: account_def)
  show ?thesis
  proof (cases rule: route_thread_cases [of rt d cfg m joined])
    case (tw h)
    show ?thesis unfolding tw(2)
      by (intro tallied_guarded [OF w] always_weaken [OF always_redeem [OF tw(3)]]) (auto simp: only_tw_def)
  next
    case (keys h)
    have a: "always (\<lambda>s s'. w_pending s' = w_pending s) (\<lambda>_. True) (keys_thread h r w)" for r
      by (rule always_weaken [OF always_keys_thread [OF keys(1)]]) (auto simp: only_keys_def)
    show ?thesis unfolding keys(3) by (intro tallied_guarded [OF w] cleared_scope a) auto
  next
    case stats
    have "always quiet (\<lambda>a. replies_without key_data w a \<and> replies_without tw_data w a)
        (stats_thread (StatsHandler_Stats_thread (dep_stats d)) r w)"
      by (simp add: stats_thread_def StatsHandler_Stats_thread_def fail_reply_def quiet_def same_data_def split: sum.splits)
    then have "always (\<lambda>s s'. w_pending s' = w_pending s) (\<lambda>a. replies_without key_data w a \<and> replies_without tw_data w a)
        (stats_thread (StatsHandler_Stats_thread (dep_stats d)) r w)"
      by (rule always_weaken) (auto simp: quiet_def)
    then have "tallied account (stats_thread (StatsHandler_Stats_thread (dep_stats d)) r w) []"
      by (rule tallied_always) (use w in \<open>auto simp: account_def replies_without_def\<close>)
    with away show ?thesis unfolding stats(2) by (intro tallied_limited(1))
  next
    case (lost na h)
    show ?thesis unfolding lost(2)
      by (intro tallied_guarded [OF w] always_weaken [OF always_lost [OF lost(3), of key_data "\<lambda>_ _. False"]]) auto
  next
    case (lost_stats na)
    have "tallied account (no_route_thread na r w) []" using w by (simp add: no_route_thread_def account_def)
    with away show ?thesis unfolding lost_stats(2) by (intro tallied_limited(1))
  qed (use w in \<open>simp add: no_route_thread_def account_def\<close>)
qed

lemma serve_tallied:
  assumes "mw_law d"
  shows "tallied account (serve_thread d cfg m joined rt r new_writer) []"
proof -
  have fresh: "account [] (Returned, w1)" if "cors d cfg r new_writer = (go, w1)" for go w1
    using discloses_fresh [OF assms that] by (simp add: account_def)
  have time: "discloses D (dep_timeout d t w) = discloses D w" for D t w
    using mw_law_body(1) [OF assms, of t w] by (simp add: discloses_def)
  have "tallied account (CORS_thread d (AllowOrigins cfg) (SecurityHeaders_thread (Timeout_thread d (WriteTimeout cfg)
      (route_thread d cfg m joined rt))) r new_writer) []"
  proof (cases "cors d cfg r new_writer")
    case (Pair go w1)
    have "tallied account (route_thread d cfg m joined rt r (security_writer w1)) []"
      by (rule route_tallied; rule discloses_fresh [OF assms Pair])
    then have "tallied account (followed_by (route_thread d cfg m joined rt r (security_writer w1))
        (\<lambda>(f, w). Finished (f, dep_timeout d (WriteTimeout cfg) w))) []"
      by (rule tallied_followed_by) (auto simp: account_def time)
    then show ?thesis using Pair fresh
      by (simp add: CORS_thread_def SecurityHeaders_thread_def Timeout_thread_def security_writer_def SecurityHeaders_def Let_def)
  qed
  then have "tallied account (Recover_thread logger (CORS_thread d (AllowOrigins cfg) (SecurityHeaders_thread
      (Timeout_thread d (WriteTimeout cfg) (route_thread d cfg m joined rt)))) r new_writer) []"
    unfolding Recover_thread_def by (rule tallied_followed_by) (auto simp: account_def split: flow.splits)
  then show ?thesis
    unfolding serve_thread_def Logging_thread_def by (rule tallied_followed_by) (auto simp: account_def split: flow.splits)
qed

end
