(* ===== verification/Interleaving.thy ===== *)
theory Interleaving
  imports Guarantees
begin

text \<open>
  The server with any number of requests in progress: connections arrive, each is a thread, and the threads and
  the usage recorders move one step at a time in any order. The theorems are those of \<open>Server\<close> without its
  assumption that a request is served in one step.
\<close>

section \<open>The system\<close>

text \<open>
  A connection: the readings, route and request it came with, its thread, and for the statements below the states in
  which its thread has made its steps and the uses it has started to record.
\<close>

record ('k, 't, 'u, 'l, 'e) conn =
  c_moment :: "'e moment"
  c_route :: route
  c_request :: request
  c_thread :: "('k, 't, 'u, 'l) world replying"
  c_seen :: "('k, 't, 'u, 'l) world list"
  c_started :: "int list"

definition accept ::
  "('k, 't, 'u, 'l, 'e) deps \<Rightarrow> Config \<Rightarrow> 'e moment \<Rightarrow> TwRedeemResult result option \<Rightarrow> route \<Rightarrow> request \<Rightarrow>
     ('k, 't, 'u, 'l, 'e) conn" where
  "accept d cfg m joined rt r =
     \<lparr>c_moment = m, c_route = rt, c_request = r, c_thread = serve_thread d cfg m joined rt r new_writer,
      c_seen = [], c_started = []\<rparr>"

definition moved ::
  "('k, 't, 'u, 'l, 'e) conn \<Rightarrow> (('k, 't, 'u, 'l) world \<Rightarrow> ('k, 't, 'u, 'l) world) \<Rightarrow>
     (('k, 't, 'u, 'l) world \<Rightarrow> ('k, 't, 'u, 'l) world replying) \<Rightarrow> ('k, 't, 'u, 'l) world \<Rightarrow> ('k, 't, 'u, 'l, 'e) conn" where
  "moved c u k st = c\<lparr>c_thread := k st, c_seen := c_seen c @ [st], c_started := c_started c @ new_uses st (u st)\<rparr>"

inductive t_step ::
  "('k, 't, 'u, 'l, 'e) deps \<Rightarrow> Config \<Rightarrow> ('k, 't, 'u, 'l) world \<times> ('k, 't, 'u, 'l, 'e) conn list \<Rightarrow>
     ('k, 't, 'u, 'l) world \<times> ('k, 't, 'u, 'l, 'e) conn list \<Rightarrow> bool"
  for d :: "('k, 't, 'u, 'l, 'e) deps" and cfg :: Config where
  t_arrive: "ctx_api_key r = None \<Longrightarrow> t_step d cfg (st, cs) (st, cs @ [accept d cfg m joined rt r])"
| t_move: "i < length cs \<Longrightarrow> c_thread (cs ! i) = Act u k \<Longrightarrow>
     t_step d cfg (st, cs) (u st, cs[i := moved (cs ! i) u k st])"
| t_touch: "w_pending st = before @ i # after \<Longrightarrow>
     t_step d cfg (st, cs) (st\<lparr>w_keys := touchAsync (dep_keys d) now i (w_keys st), w_pending := before @ after\<rparr>, cs)"

inductive t_run ::
  "('k, 't, 'u, 'l, 'e) deps \<Rightarrow> Config \<Rightarrow> nat \<Rightarrow> ('k, 't, 'u, 'l) world \<times> ('k, 't, 'u, 'l, 'e) conn list \<Rightarrow>
     ('k, 't, 'u, 'l) world \<times> ('k, 't, 'u, 'l, 'e) conn list \<Rightarrow> bool"
  for d :: "('k, 't, 'u, 'l, 'e) deps" and cfg :: Config where
  t_refl: "t_run d cfg 0 x x"
| t_more: "t_run d cfg n x y \<Longrightarrow> t_step d cfg y z \<Longrightarrow> t_run d cfg (Suc n) x z"

inductive_cases t_step_elim: "t_step d cfg (st, cs) (st', cs')"

lemma t_step_cases:
  assumes "t_step d cfg (st, cs) (st', cs')"
  obtains (arrive) m joined rt r where "st' = st" "cs' = cs @ [accept d cfg m joined rt r]" "ctx_api_key r = None"
  | (move) i u k where "st' = u st" "cs' = cs[i := moved (cs ! i) u k st]" "i < length cs" "c_thread (cs ! i) = Act u k"
  | (touch) before i after now where
      "st' = st\<lparr>w_keys := touchAsync (dep_keys d) now i (w_keys st), w_pending := before @ after\<rparr>" "cs' = cs"
      "w_pending st = before @ i # after"
  using assms by (rule t_step_elim) (use that in blast)+

lemma accept_simps [simp]:
  "c_moment (accept d cfg m joined rt r) = m" "c_route (accept d cfg m joined rt r) = rt"
  "c_request (accept d cfg m joined rt r) = r" "c_seen (accept d cfg m joined rt r) = []"
  "c_started (accept d cfg m joined rt r) = []"
  "c_thread (accept d cfg m joined rt r) = serve_thread d cfg m joined rt r new_writer"
  by (simp_all add: accept_def)

lemma moved_simps [simp]:
  "c_moment (moved c u k st) = c_moment c" "c_route (moved c u k st) = c_route c"
  "c_request (moved c u k st) = c_request c" "c_seen (moved c u k st) = c_seen c @ [st]"
  "c_started (moved c u k st) = c_started c @ new_uses st (u st)" "c_thread (moved c u k st) = k st"
  by (simp_all add: moved_def)

text \<open>
  An invariant of connections: it holds on arrival and survives the steps of its own thread. The steps of the others do not
  matter to it. It is asked of the connections that arrived after the start of the run.
\<close>

lemma conn_invariant:
  assumes "t_run d cfg n (st, cs) (st', cs')"
    and arrive: "\<And>m joined rt r. ctx_api_key r = None \<Longrightarrow> J (accept d cfg m joined rt r)"
    and own: "\<And>c u k s. J c \<Longrightarrow> c_thread c = Act u k \<Longrightarrow> J (moved c u k s)"
  shows "length cs \<le> length cs' \<and> (\<forall>i < length cs'. length cs \<le> i \<longrightarrow> J (cs' ! i))"
  using assms(1)
proof (induction "(st, cs)" "(st', cs')" arbitrary: st' cs' rule: t_run.induct)
  case (t_more n y)
  obtain st1 cs1 where y: "y = (st1, cs1)" by (cases y)
  have IH: "length cs \<le> length cs1" "\<And>i. i < length cs1 \<Longrightarrow> length cs \<le> i \<Longrightarrow> J (cs1 ! i)" using t_more(2) [OF y] by auto
  from t_more(3) [unfolded y] show ?case
  proof (cases rule: t_step_cases)
    case (arrive m joined rt r)
    then show ?thesis using IH assms(2) by (auto simp: nth_append less_Suc_eq)
  next
    case (move i u k)
    then show ?thesis using IH own by (auto simp: nth_list_update)
  qed (use IH in auto)
qed simp

text \<open>The uses that the connections have started to record are the uses of the run.\<close>

definition all_started :: "('k, 't, 'u, 'l, 'e) conn list \<Rightarrow> int list" where
  "all_started cs = concat (map c_started cs)"

lemma count_all_started: "count_list (all_started cs) i = sum_list (map (\<lambda>c. count_list (c_started c) i) cs)"
  by (induction cs) (simp_all add: all_started_def)

lemma count_all_started_moved:
  assumes "i < length cs"
  shows "count_list (all_started (cs[i := moved (cs ! i) u k st])) j =
    count_list (all_started cs) j + count_list (new_uses st (u st)) j"
  using assms
proof (induction cs arbitrary: i)
  case (Cons c cs)
  then show ?case by (cases i) (simp_all add: all_started_def)
qed simp

text \<open>A run of threads changes keys and recorders the way a run of whole requests does.\<close>

lemma t_run_changes:
  assumes "t_run d cfg n (st, cs) (st', cs')" and mem: "dep_keys d = memory_repo" and inv: "world_inv st"
    and room: "nextID (w_keys st) + 2 * int n \<le> MaxInt64" and start: "\<forall>c \<in> set cs. keeps others orderly (c_thread c) st"
  shows "(\<exists>m is. m \<le> n \<and> changes m st is st' \<and> (\<forall>j. count_list (all_started cs') j = count_list (all_started cs) j + count_list is j)) \<and>
    (\<forall>c \<in> set cs'. keeps others orderly (c_thread c) st')"
  using assms(1) room
proof (induction "(st, cs)" "(st', cs')" arbitrary: st' cs' rule: t_run.induct)
  case t_refl
  show ?case using start by (intro conjI exI [of _ 0] exI [of _ "[]"]) (auto intro: changes_refl)
next
  case (t_more n y)
  obtain st1 cs1 where y: "y = (st1, cs1)" by (cases y)
  have "nextID (w_keys st) + 2 * int n \<le> MaxInt64" using t_more.prems by simp
  from t_more(2) [OF y this] obtain m "is" where m: "m \<le> n" "changes m st is st1"
    and c1: "\<And>j. count_list (all_started cs1) j = count_list (all_started cs) j + count_list is j"
    and k1: "\<And>c. c \<in> set cs1 \<Longrightarrow> keeps others orderly (c_thread c) st1" by blast
  have w1: "world_inv st1" "nextID (w_keys st1) \<le> nextID (w_keys st) + 2 * int m"
    using changes_world [OF m(2) inv] by auto
  have room1: "nextID (w_keys st1) + 2 \<le> MaxInt64" using w1(2) m(1) t_more.prems by simp
  have stable: "keeps others orderly t s'" if "keeps others orderly t st1" "change st1 js s'" for t js and s' :: "(KeyStore, _, _, _) world"
  proof (rule keeps_stable [OF that(1)])
    show "others st1 s'" using change_world [OF that(2) w1(1)] by (simp add: others_def world_inv_def)
    show "others a c" if "others a b" "others b c" for a b c :: "(KeyStore, _, _, _) world"
      using that by (simp add: others_def)
  qed
  have refl: "others st1 st1" using w1(1) by (simp add: others_def world_inv_def)
  from t_more(3) [unfolded y] show ?case
  proof (cases rule: t_step_cases)
    case (arrive m' joined rt r)
    have "count_list (all_started cs') j = count_list (all_started cs1) j" for j using arrive by (simp add: all_started_def)
    moreover have "\<forall>c \<in> set cs'. keeps others orderly (c_thread c) st'" using k1 arrive serve_orderly [OF mem] by auto
    ultimately show ?thesis using m c1 arrive(1) by (metis le_SucI)
  next
    case (move i u k)
    have own: "keeps others orderly (Act u k) st1" using k1 [of "cs1 ! i"] move(3,4) by simp
    then have "orderly st1 (u st1)" "keeps others orderly (k st1) (u st1)" using refl by auto
    then have ch: "change st1 (new_uses st1 (u st1)) (u st1)" using w1(1) room1 by (simp add: orderly_def)
    have "changes (Suc m) st (is @ new_uses st1 (u st1)) st'" using changes_step [OF m(2) ch] move(1) by simp
    moreover have "count_list (all_started cs') j = count_list (all_started cs) j + count_list (is @ new_uses st1 (u st1)) j" for j
      using c1 count_all_started_moved [OF move(3)] move(2) by simp
    moreover have "\<forall>c \<in> set cs'. keeps others orderly (c_thread c) st'"
    proof
      fix c
      assume "c \<in> set cs'"
      then consider "c = moved (cs1 ! i) u k st1" | "c \<in> set cs1" using move(2) set_update_subset_insert by fastforce
      then show "keeps others orderly (c_thread c) st'"
        using \<open>keeps others orderly (k st1) (u st1)\<close> stable [OF k1 ch] move(1) by cases auto
    qed
    ultimately show ?thesis using m(1) by blast
  next
    case (touch before i after now)
    have ch: "change st1 [] st'" using Touch_world [OF w1(1) touch(3), of st' now] touch(1) mem by (simp add: touchAsync_def)
    have "changes (Suc m) st is st'" using changes_step [OF m(2) ch] by simp
    then show ?thesis using m(1) c1 touch(2) stable [OF k1 ch] by blast
  qed
qed

lemma t_run_trans: "t_run d cfg n y z \<Longrightarrow> t_run d cfg m x y \<Longrightarrow> t_run d cfg (m + n) x z"
  by (induction rule: t_run.induct) (auto intro: t_more)

section \<open>Sequential service is one of the interleavings\<close>

lemma solo:
  assumes "c_thread c = t" and "finishes_in t b"
  shows "\<exists>n c'. n \<le> b \<and> t_run d cfg n (st, cs @ [c]) (snd (run_alone t st), cs @ [c']) \<and>
     c_thread c' = Finished (fst (run_alone t st)) \<and>
     c_moment c' = c_moment c \<and> c_route c' = c_route c \<and> c_request c' = c_request c"
  using assms
proof (induction t arbitrary: c st b)
  case (Finished a)
  then show ?case by (intro exI [of _ 0] exI [of _ c]) (auto intro: t_refl)
next
  case (Act u k)
  let ?c = "moved c u k st"
  have t: "c_thread c = Act u k" using Act.prems(1) .
  have "t_step d cfg (st, cs @ [c]) (u st, cs @ [?c])"
    using t_move [of "length cs" "cs @ [c]" u k d cfg st] t by simp
  from t_more [OF t_refl this] have one: "t_run d cfg 1 (st, cs @ [c]) (u st, cs @ [?c])" by simp
  have b: "0 < b" "finishes_in (k st) (b - 1)" using Act.prems(2) by simp_all
  obtain n c' where n: "t_run d cfg n (u st, cs @ [?c]) (snd (run_alone (k st) (u st)), cs @ [c'])"
    "c_thread c' = Finished (fst (run_alone (k st) (u st)))"
    "c_moment c' = c_moment c" "c_route c' = c_route c" "c_request c' = c_request c" "n \<le> b - 1"
    using Act.IH [of "k st" ?c "b - 1" "u st"] b(2) by auto
  show ?case using t_run_trans [OF n(1) one] n(2-6) t b(1) by (intro exI [of _ "1 + n"] exI [of _ c']) auto
qed

text \<open>A request served from its arrival to its reply with nothing in between.\<close>

lemma solo_serve:
  assumes "serve d cfg m rt r st new_writer = (f, st', w')" and "ctx_api_key r = None"
  shows "\<exists>n c. n \<le> 10 \<and> t_run d cfg n (st, cs) (st', cs @ [c]) \<and> c_thread c = Finished (f, w') \<and> c_moment c = m \<and>
    c_route c = rt \<and> c_request c = r"
proof -
  let ?c = "accept d cfg m None rt r"
  have "run_alone (c_thread ?c) st = ((f, w'), st')" using assms(1) by (simp add: serve_thread_alone)
  then obtain n c where n: "t_run d cfg n (st, cs @ [?c]) (st', cs @ [c])" "c_thread c = Finished (f, w')"
    "c_moment c = m" "c_route c = rt" "c_request c = r" "n \<le> 9"
    using solo [of ?c, OF refl, of 9 d cfg st cs] by (auto simp: finishes_serve)
  from t_more [OF t_refl t_arrive [OF assms(2), of d cfg st cs m None rt]]
  have "t_run d cfg 1 (st, cs) (st, cs @ [?c])" by simp
  from t_run_trans [OF n(1) this] n(2-6) show ?thesis by (intro exI [of _ "1 + n"] exI [of _ c]) auto
qed

lemma run_interleaved:
  assumes "run d cfg n st is st'"
  shows "\<exists>m cs. t_run d cfg m (st, []) (st', cs)"
  using assms
proof (induction rule: run.induct)
  case (run_refl st)
  then show ?case using t_refl by blast
next
  case (run_step n st "is" st' js st'')
  obtain m cs where m: "t_run d cfg m (st, []) (st', cs)" using run_step.IH by blast
  have "\<exists>m cs'. t_run d cfg m (st', cs) (st'', cs')"
    using run_step.hyps(2)
  proof cases
    case (step_serve mo rt r f w')
    then show ?thesis using solo_serve by blast
  next
    case (step_touch before i after now)
    then show ?thesis using t_more [OF t_refl t_touch [OF step_touch(3), of d cfg cs now]] by blast
  qed
  then show ?case using t_run_trans [OF _ m] by blast
qed

section \<open>Mediation\<close>

lemma conn_cleared:
  assumes "t_run d cfg n (st, cs) (st', cs')" and "i < length cs'" and "length cs \<le> i"
    and "\<And>m joined rt r. cleared (A m rt r) R P (serve_thread d cfg m joined rt r new_writer) False"
  shows "cleared (A (c_moment (cs' ! i)) (c_route (cs' ! i)) (c_request (cs' ! i))) R P (c_thread (cs' ! i))
    (\<exists>s \<in> set (c_seen (cs' ! i)). A (c_moment (cs' ! i)) (c_route (cs' ! i)) (c_request (cs' ! i)) s)"
  (is "?J (cs' ! i)")
proof -
  have "length cs \<le> length cs' \<and> (\<forall>i < length cs'. length cs \<le> i \<longrightarrow> ?J (cs' ! i))"
  proof (rule conn_invariant [OF assms(1)])
    show "?J (accept d cfg m joined rt r)" for m joined rt r using assms(4) by simp
    show "?J (moved c u k s)" if "?J c" "c_thread c = Act u k" for c u k s using that by (simp add: disj_commute)
  qed
  then show ?thesis using assms(2,3) by blast
qed

lemma conn_keys:
  assumes "mw_law d" and "t_run d cfg n (st, cs) (st', cs')" and "i < length cs'" and "length cs \<le> i"
    and "(\<exists>u k. c_thread (cs' ! i) = Act u k \<and> w_keys (u s) \<noteq> w_keys s) \<or>
      (\<exists>f w. c_thread (cs' ! i) = Finished (f, w) \<and> discloses key_data w)"
  shows "\<exists>s \<in> set (c_seen (cs' ! i)). admin_admitted d (c_moment (cs' ! i)) (c_route (cs' ! i)) (c_request (cs' ! i)) s"
  using conn_cleared [OF assms(2-4), of "admin_admitted d" _ _, OF serve_keys_cleared [OF assms(1)]] assms(5) by auto

lemma conn_tw:
  assumes "mw_law d" and "t_run d cfg n (st, cs) (st', cs')" and "i < length cs'" and "length cs \<le> i"
    and "(\<exists>u k. c_thread (cs' ! i) = Act u k \<and> w_net (u s) \<noteq> w_net s) \<or>
      (\<exists>f w. c_thread (cs' ! i) = Finished (f, w) \<and> discloses tw_data w)"
  shows "\<exists>s \<in> set (c_seen (cs' ! i)). tw_admitted d (c_moment (cs' ! i)) (c_route (cs' ! i)) (c_request (cs' ! i)) s"
  using conn_cleared [OF assms(2-4), of "tw_admitted d" _ _, OF serve_tw_cleared [OF assms(1)]] assms(5) by auto

text \<open>
  C1: Complete mediation of key management, for requests that are interleaved step by step: a step of a connection
  that would change the key store, or a finished reply that carries key data, belongs to a request on one of the
  four routes of \<^verbatim>\<open>/keys\<close> which, in one of the states its own thread has seen, presented a stored key that
  was neither revoked nor expired and holds the \<^verbatim>\<open>admin\<close> scope. No hypothesis on the backends or on the other
  connections is needed.
\<close>

theorem keys_mediated_interleaved:
  assumes "mw_law d" and "t_run d cfg n (st, []) (st', cs)" and "c \<in> set cs"
    and "(\<exists>u k. c_thread c = Act u k \<and> w_keys (u st') \<noteq> w_keys st') \<or>
      (\<exists>f w. c_thread c = Finished (f, w) \<and> discloses key_data w)"
  shows "c_route c \<in> {KeysCreate, KeysList, KeysRevoke, KeysRotate} \<and>
    (\<exists>s \<in> set (c_seen c). \<exists>k. admits d (c_moment c) s (c_request c) k \<and> ''admin'' \<in> set (Scopes k))"
proof -
  obtain i where i: "i < length cs" "c = cs ! i" using assms(3) by (auto simp: in_set_conv_nth)
  from conn_keys [OF assms(1,2) i(1), of st'] assms(4) i(2) show ?thesis by (auto simp: admin_admitted_def)
qed

text \<open>
  C2: Every redemption is authenticated, for requests that are interleaved step by step: a step that would reach
  the upstream, or a finished reply that carries upstream data (its own or that of a request it joined), belongs to a
  request on one of the two routes of \<^verbatim>\<open>/tw\<close> which, in a state its own thread has seen, presented a stored key that was
  neither revoked nor expired.
\<close>

theorem tw_mediated_interleaved:
  assumes "mw_law d" and "t_run d cfg n (st, []) (st', cs)" and "c \<in> set cs"
    and "(\<exists>u k. c_thread c = Act u k \<and> w_net (u st') \<noteq> w_net st') \<or>
      (\<exists>f w. c_thread c = Finished (f, w) \<and> discloses tw_data w)"
  shows "c_route c \<in> {TwGet, TwPost} \<and> (\<exists>s \<in> set (c_seen c). \<exists>k. admits d (c_moment c) s (c_request c) k)"
proof -
  obtain i where i: "i < length cs" "c = cs ! i" using assms(3) by (auto simp: in_set_conv_nth)
  from conn_tw [OF assms(1,2) i(1), of st'] assms(4) i(2) show ?thesis by (auto simp: tw_admitted_def)
qed

section \<open>Revocation\<close>

lemma seen_states:
  assumes "t_run d cfg n (st, cs) (st', cs')"
  shows "\<forall>i < length cs'. length cs \<le> i \<longrightarrow>
    (\<forall>s \<in> set (c_seen (cs' ! i)). \<exists>m cs''. m \<le> n \<and> t_run d cfg m (st, cs) (s, cs''))"
  using assms
proof (induction "(st, cs)" "(st', cs')" arbitrary: st' cs' rule: t_run.induct)
  case (t_more n y)
  obtain st1 cs1 where y: "y = (st1, cs1)" by (cases y)
  let ?G = "\<lambda>n s. \<exists>m cs''. m \<le> n \<and> t_run d cfg m (st, cs) (s, cs'')"
  have IH: "?G (Suc n) s" if "i < length cs1" "length cs \<le> i" "s \<in> set (c_seen (cs1 ! i))" for i s
    using t_more(2) [OF y] that le_SucI by blast
  have now: "?G (Suc n) st1" using t_more(1) y by (metis le_SucI order_refl)
  from t_more(3) [unfolded y] show ?case
  proof (cases rule: t_step_cases)
    case (arrive m joined rt r)
    then show ?thesis using IH by (auto simp: nth_append less_Suc_eq)
  next
    case (move i u k)
    then show ?thesis using IH now by (auto simp: nth_list_update)
  next
    case (touch before i after t)
    then show ?thesis using IH by blast
  qed
qed simp

text \<open>
  C3: A revoked key is locked out for good, for requests that are interleaved step by step. Whatever requests were in
  progress when the store came to hold a key as revoked, and whatever happens afterwards, a request that arrives from then
  on with that key never makes a step that changes the key store or reaches the upstream, and its reply carries neither
  key nor upstream data.
\<close>

theorem revoked_key_locked_out_interleaved:
  assumes "dep_keys d = memory_repo" and "mw_law d" and "world_inv st"
    and "t_run d cfg n (st, []) (st1, cs1)" and "t_run d cfg m (st1, cs1) (st2, cs2)"
    and "nextID (w_keys st) + 2 * int (n + m) \<le> MaxInt64"
    and "length cs1 \<le> i" and "i < length cs2"
    and "revoked (Hash (Header_Get (c_request (cs2 ! i)) ''X-Api-Key'')) (w_keys st1)"
  shows "case c_thread (cs2 ! i) of
      Act u k \<Rightarrow> w_keys (u st2) = w_keys st2 \<and> w_net (u st2) = w_net st2
    | Finished a \<Rightarrow> \<not> discloses key_data (snd a) \<and> \<not> discloses tw_data (snd a)"
proof -
  let ?c = "cs2 ! i" and ?h = "Hash (Header_Get (c_request (cs2 ! i)) ''X-Api-Key'')"
  have room: "nextID (w_keys st) + 2 * int n \<le> MaxInt64" using assms(6) by simp
  from t_run_changes [OF assms(4,1,3) room] obtain n' "is" where ch: "n' \<le> n" "changes n' st is st1"
    and keeps: "\<forall>c \<in> set cs1. keeps others orderly (c_thread c) st1" by auto
  have w1: "world_inv st1" "nextID (w_keys st1) \<le> nextID (w_keys st) + 2 * int n'"
    using changes_world [OF ch(2) assms(3)] by auto
  have none: "\<not> admits d (c_moment ?c) s (c_request ?c) k" if seen: "s \<in> set (c_seen ?c)" for s k
  proof
    assume k: "admits d (c_moment ?c) s (c_request ?c) k"
    obtain m' cs' where m': "m' \<le> m" "t_run d cfg m' (st1, cs1) (s, cs')"
      using seen_states [OF assms(5), rule_format, OF assms(8,7) seen] by blast
    have "nextID (w_keys st1) + 2 * int m' \<le> MaxInt64" using w1(2) ch(1) m'(1) assms(6) by simp
    from t_run_changes [OF m'(2) assms(1) w1(1) this keeps] obtain j js where "changes j st1 js s" by blast
    from changes_revoked [OF this w1(1) assms(9)] have "revoked ?h (w_keys s)" .
    moreover have "RevokedAt k = None" using k by (simp add: admits_def)
    ultimately show False using admits_stored [OF assms(1) k] by (simp add: revoked_def)
  qed
  have "\<not> admin_admitted d (c_moment ?c) (c_route ?c) (c_request ?c) s" "\<not> tw_admitted d (c_moment ?c) (c_route ?c) (c_request ?c) s"
    if "s \<in> set (c_seen ?c)" for s
    using none [OF that] by (simp_all add: admin_admitted_def tw_admitted_def)
  then have "\<not> ((\<exists>u k. c_thread ?c = Act u k \<and> w_keys (u st2) \<noteq> w_keys st2) \<or> (\<exists>f w. c_thread ?c = Finished (f, w) \<and> discloses key_data w))"
    "\<not> ((\<exists>u k. c_thread ?c = Act u k \<and> w_net (u st2) \<noteq> w_net st2) \<or> (\<exists>f w. c_thread ?c = Finished (f, w) \<and> discloses tw_data w))"
    using conn_keys [OF assms(2,5,8,7), of st2] conn_tw [OF assms(2,5,8,7), of st2] by blast+
  then show ?thesis by (cases "c_thread ?c") auto
qed

section \<open>Usage counts\<close>

lemma tallied_bound:
  assumes "tallied P t h" and "\<And>h a. P h a \<Longrightarrow> length h \<le> n"
  shows "length h \<le> n"
  using assms(1)
proof (induction t arbitrary: h)
  case (Act u k)
  have "length (h @ new_uses s (u s)) \<le> n" for s
    using Act.IH [of "k s" "h @ new_uses s (u s)"] Act.prems by (simp del: length_append)
  then show ?case using le_trans by fastforce
qed (rule assms(2), simp)

lemma conn_tallied:
  assumes "mw_law d" and "t_run d cfg n (st, []) (st', cs)" and "c \<in> set cs"
  shows "tallied account (c_thread c) (c_started c)" and "length (c_started c) \<le> 1"
proof -
  have "\<forall>i < length cs. tallied account (c_thread (cs ! i)) (c_started (cs ! i))"
    using conn_invariant [OF assms(2), of "\<lambda>c. tallied account (c_thread c) (c_started c)"] serve_tallied [OF assms(1)] by simp
  then show t: "tallied account (c_thread c) (c_started c)" using assms(3) by (auto simp: in_set_conv_nth)
  show "length (c_started c) \<le> 1" by (rule tallied_bound [OF t]) (simp add: account_def)
qed

lemma conn_uses:
  assumes "t_run d cfg n (st, []) (st', cs)" and "c \<in> set cs" and "i \<in> set (c_started c)"
  shows "\<exists>s \<in> set (c_seen c). admitted_as i d (c_moment c) (c_request c) s"
proof -
  let ?ok = "\<lambda>c. \<exists>s \<in> set (c_seen c). admitted_as i d (c_moment c) (c_request c) s"
  let ?J = "\<lambda>c. cleared (admitted_as i d (c_moment c) (c_request c)) (\<lambda>s s'. i \<notin> set (new_uses s s')) (\<lambda>_. True)
    (c_thread c) (?ok c) \<and> (i \<in> set (c_started c) \<longrightarrow> ?ok c)"
  have "\<forall>j < length cs. ?J (cs ! j)"
  proof (rule conn_invariant [OF assms(1), THEN conjunct2, simplified])
    show "?J (accept d cfg m joined rt r)" for m joined rt r using serve_uses_cleared by simp
    show "?J (moved c u k s)" if "?J c" "c_thread c = Act u k" for c u k s
      using that by (auto simp: disj_commute)
  qed
  then show ?thesis using assms(2,3) by (auto simp: in_set_conv_nth)
qed

lemma length_conns: "t_run d cfg n (st, cs) (st', cs') \<Longrightarrow> length cs' \<le> length cs + n"
proof (induction "(st, cs)" "(st', cs')" arbitrary: st' cs' rule: t_run.induct)
  case (t_more n y)
  obtain st1 cs1 where y: "y = (st1, cs1)" by (cases y)
  from t_more(3) [unfolded y] show ?case by (cases rule: t_step_cases) (use t_more(2) [OF y] in auto)
qed simp

lemma count_single: "length xs \<le> 1 \<Longrightarrow> count_list xs i = (if xs = [i] then 1 else 0)"
  by (cases xs) auto

lemma all_started_single:
  assumes "\<forall>c \<in> set cs. length (c_started c) \<le> 1"
  shows "count_list (all_started cs) i = length (filter (\<lambda>c. c_started c = [i]) cs)" and "length (all_started cs) \<le> length cs"
  using assms by (induction cs) (auto simp: all_started_def count_single)

text \<open>
  C4: Usage counts are exact, for requests that are interleaved step by step: at every moment, the use count of a
  stored key plus its recorders that have not run yet is what it was at the start plus the number of connections that
  have been counted for the key, in whatever order lookups, recorders and everything else took their turns.
\<close>

theorem usage_counts_interleaved:
  assumes "t_run d cfg n (st, []) (st', cs)" and "dep_keys d = memory_repo" and "mw_law d" and "world_inv st"
    and "nextID (w_keys st) + 2 * int n \<le> MaxInt64"
    and "\<forall>h. 0 \<le> uses_before st h \<and> uses_before st h + int n \<le> MaxInt64"
    and "\<forall>k \<in> ran (map_of (keys (w_keys st))). 0 \<le> RequestCount k"
    and "map_of (keys (w_keys st')) h = Some k'"
  shows "RequestCount k' + int (count_list (w_pending st') (ID k')) =
    uses_before st h + int (length (filter (\<lambda>c. c_started c = [ID k']) cs))"
proof -
  have one: "\<forall>c \<in> set cs. length (c_started c) \<le> 1" using conn_tallied(2) [OF assms(3,1)] by blast
  from t_run_changes [OF assms(1,2,4,5)] obtain m "is" where m: "changes m st is st'"
    and started: "\<And>j. count_list (all_started cs) j = count_list is j" by (auto simp: all_started_def)
  have "mset is = mset (all_started cs)" by (rule multiset_eqI) (simp add: count_mset started)
  then have "length is = length (all_started cs)" by (rule mset_eq_length)
  also have "\<dots> \<le> length cs" by (rule all_started_single(2) [OF one])
  also have "\<dots> \<le> n" using length_conns [OF assms(1)] by simp
  finally have len: "length is \<le> n" .
  have "\<forall>h. 0 \<le> uses_before st h \<and> uses_before st h + int (length is) \<le> MaxInt64"
  proof
    fix h
    show "0 \<le> uses_before st h \<and> uses_before st h + int (length is) \<le> MaxInt64"
      using assms(6) [rule_format, of h] len by simp
  qed
  from changes_uses [OF m assms(4) this assms(7,8)] show ?thesis
    by (simp add: uses_def started [symmetric] all_started_single(1) [OF one])
qed

text \<open>
  C5: Nobody is counted twice, for another's key, or for nothing: a connection starts at most one recorder, of a key that its
  own request was admitted with in a state it has seen; and a reply that carries key data or upstream data has been counted.
\<close>

theorem requests_counted_once:
  assumes "mw_law d" and "t_run d cfg n (st, []) (st', cs)" and "c \<in> set cs"
  shows "length (c_started c) \<le> 1 \<and>
    (\<forall>i \<in> set (c_started c). \<exists>s \<in> set (c_seen c). \<exists>k. admits d (c_moment c) s (c_request c) k \<and> ID k = i) \<and>
    (\<forall>f w. c_thread c = Finished (f, w) \<longrightarrow> discloses key_data w \<or> discloses tw_data w \<longrightarrow> c_started c \<noteq> [])"
  using conn_tallied [OF assms] conn_uses [OF assms(2,3)] by (auto simp: account_def admitted_as_def)

section \<open>Progress\<close>

text \<open>
  A preflight is an \<^verbatim>\<open>OPTIONS\<close> request that announces a method. The CORS library answers preflights itself, in front of
  \<^verbatim>\<open>SecurityHeaders\<close>, and documents that it passes every other request on.
\<close>

definition preflight :: "request \<Rightarrow> bool" where
  "preflight r \<longleftrightarrow> Method r = ''OPTIONS'' \<and> Header_Get r ''Access-Control-Request-Method'' \<noteq> []"

definition cors_passes :: "('k, 't, 'u, 'l, 'e) deps \<Rightarrow> bool" where
  "cors_passes d \<longleftrightarrow> (\<forall>opts r w. \<not> preflight r \<longrightarrow> fst (dep_cors d opts r w))"


section \<open>A small instance\<close>

text \<open>The sample server lists its keys, and redeems a voucher, for a request that runs as a thread.\<close>

lemma sample_no_ctx: "ctx_api_key sample_auth = None"
  by (simp add: sample_auth_def sample_get_def)

lemma sample_t_run:
  "\<exists>n c w x. n \<le> 10 \<and> t_run sample_deps sample_cfg n (sample_world, []) (sample_world\<lparr>w_pending := [1], w_log := x\<rparr>, [c]) \<and>
     c_thread c = Finished (Returned, w) \<and> discloses key_data w \<and> c_moment c = sample_moment \<and> c_request c = sample_auth"
proof -
  obtain x w where "serve sample_deps sample_cfg sample_moment KeysList sample_auth sample_world new_writer =
      (Returned, sample_world\<lparr>w_pending := [1], w_log := x\<rparr>, w)" "discloses key_data w"
    using sample_serve by blast
  with solo_serve [OF this(1) sample_no_ctx, of "[]"] show ?thesis by auto
qed

theorem keys_mediated_interleaved_witness:
  "\<exists>n st c. t_run sample_deps sample_cfg n (sample_world, []) (st, [c]) \<and>
     (\<exists>s \<in> set (c_seen c). \<exists>k. admits sample_deps sample_moment s sample_auth k \<and> ''admin'' \<in> set (Scopes k))"
proof -
  obtain n c w x where r: "t_run sample_deps sample_cfg n (sample_world, []) (sample_world\<lparr>w_pending := [1], w_log := x\<rparr>, [c])"
    "c_thread c = Finished (Returned, w)" "discloses key_data w" "c_moment c = sample_moment" "c_request c = sample_auth"
    using sample_t_run by blast
  from keys_mediated_interleaved [OF sample_law r(1), of c] r(2-5)
  have "\<exists>s \<in> set (c_seen c). \<exists>k. admits sample_deps sample_moment s sample_auth k \<and> ''admin'' \<in> set (Scopes k)" by auto
  then show ?thesis using r(1) by blast
qed

theorem tw_mediated_interleaved_witness:
  "\<exists>n st c. t_run sample_deps sample_cfg n (sample_world, []) (st, [c]) \<and>
     (\<exists>s \<in> set (c_seen c). \<exists>k. admits sample_deps sample_moment s sample_auth k)"
proof -
  obtain st w hr where sv: "serve sample_deps sample_cfg sample_moment TwGet sample_auth sample_world new_writer = (Returned, st, w)"
    "discloses tw_data w"
    using sample_redeems by blast
  obtain n c where r: "t_run sample_deps sample_cfg n (sample_world, []) (st, [c])" "c_thread c = Finished (Returned, w)"
    "c_moment c = sample_moment" "c_request c = sample_auth"
    using solo_serve [OF sv(1) sample_no_ctx, of "[]"] by auto
  from tw_mediated_interleaved [OF sample_law r(1), of c] r(2-4) sv(2)
  have "\<exists>s \<in> set (c_seen c). \<exists>k. admits sample_deps sample_moment s sample_auth k" by auto
  then show ?thesis using r(1) by blast
qed

lemma sample_hyps:
  "world_inv sample_world" "nextID (w_keys sample_world) = 2"
  "uses_before sample_world h = 0" "\<forall>k \<in> ran (map_of (keys (w_keys sample_world))). 0 \<le> RequestCount k"
  by (rule sample_inv)
    (auto simp: uses_before_def uses_def sample_world_def seed_key_def sample_key_def ran_def split: if_splits)

theorem usage_counts_interleaved_witness:
  "\<exists>n st c. t_run sample_deps sample_cfg n (sample_world, []) (st, [c]) \<and> c_started c = [1]"
proof -
  obtain n c w x where r: "n \<le> 10" "t_run sample_deps sample_cfg n (sample_world, []) (sample_world\<lparr>w_pending := [1], w_log := x\<rparr>, [c])"
    using sample_t_run by blast
  have k: "map_of (keys (w_keys (sample_world\<lparr>w_pending := [1], w_log := x\<rparr>))) (Hash ''seed'') = Some seed_key"
    by (simp add: sample_world_def)
  have room: "nextID (w_keys sample_world) + 2 * int n \<le> MaxInt64"
    "\<forall>h. 0 \<le> uses_before sample_world h \<and> uses_before sample_world h + int n \<le> MaxInt64"
    using r(1) by (simp_all add: sample_hyps)
  have "RequestCount seed_key = 0" "ID seed_key = 1" by (simp_all add: seed_key_def sample_key_def)
  with usage_counts_interleaved [OF r(2) _ sample_law sample_hyps(1) room sample_hyps(4) k]
  have "c_started c = [1]" by (simp add: sample_hyps(3) split: if_splits)
  then show ?thesis using r(2) by blast
qed

theorem requests_counted_once_witness:
  "\<exists>n st c. t_run sample_deps sample_cfg n (sample_world, []) (st, [c]) \<and> length (c_started c) = 1"
proof -
  obtain n c w x where r: "t_run sample_deps sample_cfg n (sample_world, []) (sample_world\<lparr>w_pending := [1], w_log := x\<rparr>, [c])"
    "c_thread c = Finished (Returned, w)" "discloses key_data w"
    using sample_t_run by blast
  from requests_counted_once [OF sample_law r(1), of c] r(2,3) have "length (c_started c) \<le> 1" "c_started c \<noteq> []" by auto
  then have "length (c_started c) = 1" by (cases "c_started c") auto
  then show ?thesis using r(1) by blast
qed


theorem revoked_key_locked_out_interleaved_witness:
  "let st = sample_world\<lparr>w_keys := \<lparr>keys = [(Hash ''seed'', seed_key\<lparr>RevokedAt := Some 3\<rparr>)], byID = [(1, Hash ''seed'')], nextID = 2\<rparr>\<rparr>
   in \<exists>n st' c f w. t_run sample_deps sample_cfg n (st, []) (st', [c]) \<and> c_request c = sample_auth \<and>
     c_thread c = Finished (f, w) \<and> \<not> discloses key_data w"
proof -
  let ?st = "sample_world\<lparr>w_keys := \<lparr>keys = [(Hash ''seed'', seed_key\<lparr>RevokedAt := Some 3\<rparr>)], byID = [(1, Hash ''seed'')], nextID = 2\<rparr>\<rparr>"
  have inv: "world_inv ?st" by (simp add: world_inv_def sample_world_def keystore_inv_def seed_key_def sample_key_def)
  have rv: "revoked (Hash (Header_Get sample_auth ''X-Api-Key'')) (w_keys ?st)"
    by (simp add: revoked_def sample_auth_def Header_Get_def)
  obtain f st' w where sv: "serve sample_deps sample_cfg sample_moment KeysList sample_auth ?st new_writer = (f, st', w)"
    by (metis prod.exhaust)
  obtain n c where r: "n \<le> 10" "t_run sample_deps sample_cfg n (?st, []) (st', [c])" "c_thread c = Finished (f, w)"
    "c_request c = sample_auth"
    using solo_serve [OF sv sample_no_ctx, of "[]"] by auto
  have room: "nextID (w_keys ?st) + 2 * int (0 + n) \<le> MaxInt64" using r(1) by simp
  from revoked_key_locked_out_interleaved [OF _ sample_law inv t_refl r(2) room, of 0] r(3,4) rv
  have "\<not> discloses key_data w" by simp
  then show ?thesis unfolding Let_def using r(2,3,4) by blast
qed

end
