(* ===== verification/Rfc3339.thy ===== *)
theory Rfc3339
  imports Json
begin

text \<open>
  Times as replies show them. A \<^verbatim>\<open>time.Time\<close> has an instant and a location; \<open>time\<close> is the instant, and
  what a text needs of the location is its offset in seconds, an argument here. \<open>MarshalTime\<close> is
  \<^verbatim>\<open>Time.MarshalJSON\<close>, proved to be read back by \<open>parseRFC3339\<close>.
\<close>

section \<open>The calendar\<close>

definition year_days :: "nat \<Rightarrow> nat" where
  "year_days y = (if leap y then 366 else 365)"

text \<open>The year, and the day in it, \<open>d\<close> days after the first of January of year \<open>y\<close>; the month and the day in it.\<close>

function year_of :: "nat \<Rightarrow> nat \<Rightarrow> nat \<times> nat" where
  "year_of y d = (if d < year_days y then (y, d) else year_of (y + 1) (d - year_days y))"
  by pat_completeness auto

termination
  by (relation "measure snd") (auto simp: year_days_def)

fun month_of :: "nat list \<Rightarrow> nat \<Rightarrow> nat \<Rightarrow> nat \<times> nat" where
  "month_of [] m d = (m, d)"
| "month_of (l # ls) m d = (if d < l then (m, d) else month_of ls (m + 1) (d - l))"

declare year_of.simps [simp del]

text \<open>A cycle of the calendar has 400 years and 146097 days.\<close>

definition civil :: "nat \<Rightarrow> nat \<times> nat \<times> nat" where
  "civil n =
     (case year_of (400 * (n div 146097)) (n mod 146097) of (y, d) \<Rightarrow>
        (case month_of (month_days y) 1 d of (m, d) \<Rightarrow> (y, m, d + 1)))"

text \<open>Which day a date is: the inverse, with the formula of the parser.\<close>

lemma div_step: "0 < k \<Longrightarrow> (y + k) div k = (y + (k - 1)) div k + (if y mod k = 0 then 1 else (0 :: nat))"
proof -
  assume k: "0 < k"
  have "(y + (k - 1)) div k = y div k + (y mod k + (k - 1)) div k"
    by (subst div_mult_mod_eq [symmetric, of y k]) (simp only: add.assoc div_mult_self3 [OF less_imp_neq [OF k, symmetric]])
  moreover have "(y mod k + (k - 1)) div k = (if y mod k = 0 then 0 else 1)"
  proof (cases "y mod k = 0")
    case False
    then have "k \<le> y mod k + (k - 1)" "y mod k + (k - 1) < 2 * k" using k mod_less_divisor [OF k, of y] by linarith+
    then show ?thesis using False k by (simp add: div_nat_eqI)
  qed (use k in simp)
  ultimately show ?thesis using k by simp
qed

lemma days_before_sum: "days_before y 1 + (y + 99) div 100 = 365 * y + (y + 3) div 4 + (y + 399) div 400"
proof -
  have "(y + 99) div 100 \<le> 365 * y + (y + 3) div 4" by linarith
  then show ?thesis by (simp add: days_before_def)
qed

lemma days_before_next: "days_before (y + 1) 1 = days_before y 1 + year_days y"
proof -
  have 4: "(y + 1 + 3) div 4 = (y + 3) div 4 + (if y mod 4 = 0 then 1 else 0)" using div_step [of 4 y] by simp
  have 100: "(y + 1 + 99) div 100 = (y + 99) div 100 + (if y mod 100 = 0 then 1 else 0)" using div_step [of 100 y] by simp
  have 400: "(y + 1 + 399) div 400 = (y + 399) div 400 + (if y mod 400 = 0 then 1 else 0)" using div_step [of 400 y] by simp
  have mods: "y mod 400 = 0 \<Longrightarrow> y mod 100 = 0" "y mod 100 = 0 \<Longrightarrow> y mod 4 = 0"
    using mod_mod_cancel [of 100 400 y] mod_mod_cancel [of 4 100 y] by simp_all
  have "year_days y + (if y mod 100 = 0 then 1 else 0) =
      365 + (if y mod 4 = 0 then 1 else 0) + (if y mod 400 = 0 then 1 else 0)"
    using mods by (auto simp: year_days_def leap_def)
  moreover have "D = E + Y" if "Y + b = 365 + a + c" "E + B = 365 * y + A + C" "D + (B + b) = 365 * (y + 1) + (A + a) + (C + c)"
    for D E Y A B C a b c :: nat
    using that by simp
  ultimately show ?thesis
    using days_before_sum [of y] days_before_sum [of "y + 1"] unfolding 4 100 400 by blast
qed

lemma days_before_cycle: "days_before (400 * k) 1 = 146097 * k"
proof -
  have "(400 * k + 3) div 4 = 100 * k" "(400 * k + 99) div 100 = 4 * k" "(400 * k + 399) div 400 = k" by simp_all
  then show ?thesis by (simp add: days_before_def)
qed

lemma year_of_days: "year_of y d = (y', d') \<Longrightarrow> days_before y 1 + d = days_before y' 1 + d' \<and> d' < year_days y'"
proof (induction y d rule: year_of.induct)
  case (1 y d)
  then show ?case
    using days_before_next [of y] by (auto simp: year_of.simps [of y d] split: if_splits)
qed

lemma month_days_sum: "sum_list (month_days y) = year_days y"
  by (simp add: month_days_def year_days_def)

lemma month_of_days:
  assumes "month_of ls m0 d = (m, d')" and "d < sum_list ls"
  shows "m0 \<le> m \<and> m < m0 + length ls \<and> d' < ls ! (m - m0) \<and> sum_list (take (m - m0) ls) + d' = d"
  using assms
proof (induction ls m0 d rule: month_of.induct)
  case (2 l ls m0 d)
  show ?case
  proof (cases "d < l")
    case False
    with 2 have "m0 + 1 \<le> m \<and> m < m0 + 1 + length ls \<and> d' < ls ! (m - (m0 + 1)) \<and> sum_list (take (m - (m0 + 1)) ls) + d' = d - l"
      by simp
    moreover from this have "m - m0 = Suc (m - (m0 + 1))" by linarith
    ultimately show ?thesis using False by auto
  qed (use 2 in simp)
qed simp

lemma days_before_month: "days_before y m = days_before y 1 + sum_list (take (m - 1) (month_days y))"
  by (simp add: days_before_def)

lemma civil_day:
  assumes "civil n = (y, m, d)"
  shows "1 \<le> m" "m \<le> 12" "1 \<le> d" "d \<le> month_days y ! (m - 1)" "days_before y m + d - 1 = n"
proof -
  obtain e where y: "year_of (400 * (n div 146097)) (n mod 146097) = (y, e)" and m: "month_of (month_days y) 1 e = (m, d - 1)" "1 \<le> d"
    using assms by (auto simp: civil_def split: prod.splits)
  have "146097 * (n div 146097) + n mod 146097 = n" by simp
  then have e: "n = days_before y 1 + e" "e < year_days y" using year_of_days [OF y] days_before_cycle by auto
  have l: "length (month_days y) = 12" by (simp add: month_days_def)
  have "e < sum_list (month_days y)" using e(2) by (simp only: month_days_sum)
  from month_of_days [OF m(1) this]
  have f: "1 \<le> m" "m < 1 + 12" "d - 1 < month_days y ! (m - 1)" "sum_list (take (m - 1) (month_days y)) + (d - 1) = e"
    unfolding l by blast+
  show "1 \<le> m" "m \<le> 12" "1 \<le> d" "d \<le> month_days y ! (m - 1)" using f(1-3) m(2) by linarith+
  show "days_before y m + d - 1 = n" using f(4) e(1) m(2) days_before_month [of y m] by linarith
qed

section \<open>The text\<close>

text \<open>\<^verbatim>\<open>appendInt\<close>: the last \<open>w\<close> digits, which are all for the numbers below.\<close>

fun digits :: "nat \<Rightarrow> nat \<Rightarrow> bytes" where
  "digits 0 n = []"
| "digits (Suc w) n = digits w (n div 10) @ [digit_char (n mod 10)]"

text \<open>\<^verbatim>\<open>appendNano\<close> for the layout \<^verbatim>\<open>.999999999\<close>: no trailing zeros, and nothing for a whole second.\<close>

definition trim_zeros :: "bytes \<Rightarrow> bytes" where
  "trim_zeros s = rev (dropWhile (\<lambda>c. c = CHR ''0'') (rev s))"

definition nano_text :: "nat \<Rightarrow> bytes" where
  "nano_text ns = (if ns = 0 then [] else CHR ''.'' # trim_zeros (digits 9 ns))"

text \<open>The zone has minutes; an offset is rounded towards zero.\<close>

definition zone_text :: "int \<Rightarrow> bytes" where
  "zone_text off =
     (if off = 0 then ''Z''
      else
        let m = nat \<bar>off\<bar> div 60
        in (if off < 0 \<and> m \<noteq> 0 then CHR ''-'' else CHR ''+'') # digits 2 (m div 60) @ CHR '':'' # digits 2 (m mod 60))"

text \<open>\<^verbatim>\<open>appendStrictRFC3339\<close>: the year must have four digits and the zone less than a day.\<close>

definition MarshalTime :: "int \<Rightarrow> time \<Rightarrow> bytes option" where
  "MarshalTime off t =
     (let secs = t div 1000000000 + off;
          day = secs div 86400 + 719528;
          s = nat (secs mod 86400)
      in if day < 0 \<or> 86400 \<le> \<bar>off\<bar> then None
         else
           (case civil (nat day) of (y, m, d) \<Rightarrow>
              if y > 9999 then None
              else Some (digits 4 y @ CHR ''-'' # digits 2 m @ CHR ''-'' # digits 2 d @ CHR ''T'' # digits 2 (s div 3600) @
                CHR '':'' # digits 2 (s div 60 mod 60) @ CHR '':'' # digits 2 (s mod 60) @
                nano_text (nat (t mod 1000000000)) @ zone_text off)))"

section \<open>The text is read back\<close>

lemma digits_length [simp]: "length (digits w n) = w"
  by (induction w arbitrary: n) simp_all

lemma digits_all [simp]: "list_all is_digit (digits w n)"
  by (induction w arbitrary: n) simp_all

lemma dec_value_digits [simp]: "dec_value (digits w n) = n mod 10 ^ w"
proof (induction w arbitrary: n)
  case (Suc w)
  have "n mod 10 ^ Suc w = n div 10 mod 10 ^ w * 10 + n mod 10" by (simp add: mod_mult2_eq mult.commute)
  then show ?case using Suc by simp
qed simp

lemma in_range_digits [simp]: "n < 10 ^ w \<Longrightarrow> in_range (digits w n) lo hi = (if lo \<le> n \<and> n \<le> hi then Some n else None)"
  by (simp add: in_range_def)

lemma trim_zeros_split: "s = trim_zeros s @ replicate (length s - length (trim_zeros s)) (CHR ''0'')"
proof -
  let ?P = "\<lambda>c. c = CHR ''0''"
  have "rev s = takeWhile ?P (rev s) @ dropWhile ?P (rev s)" by simp
  then have split: "s = trim_zeros s @ rev (takeWhile ?P (rev s))" unfolding trim_zeros_def by (metis rev_append rev_rev_ident)
  moreover have "takeWhile ?P (rev s) = replicate (length (takeWhile ?P (rev s))) (CHR ''0'')"
    by (rule replicate_eqI) (auto dest: set_takeWhileD)
  moreover have "length s - length (trim_zeros s) = length (takeWhile ?P (rev s))"
    using arg_cong [OF split, of length] by simp
  ultimately show ?thesis by (metis rev_replicate)
qed

lemma trim_zeros_digits:
  assumes "0 < ns" and "ns < 10 ^ w"
  obtains c r where "trim_zeros (digits w ns) = c # r" "is_digit c" "list_all is_digit r"
proof (cases "trim_zeros (digits w ns)")
  case Nil
  have "dec_value (replicate k (CHR ''0'')) = 0" for k
  proof (induction k)
    case (Suc k)
    then show ?case using dec_value_snoc [of "replicate k (CHR ''0'')" "CHR ''0''"]
      by (simp add: replicate_append_same digit_val_def)
  qed simp
  then have "ns mod 10 ^ w = 0" using trim_zeros_split [of "digits w ns"] dec_value_digits [of w ns] Nil by (metis append_Nil)
  then show thesis using assms by simp
next
  case (Cons c r)
  have "list_all is_digit (trim_zeros (digits w ns))"
    using digits_all [of w ns] by (auto simp: trim_zeros_def list_all_iff dest: set_dropWhileD)
  then show thesis using Cons that by simp
qed

lemma fraction_nano:
  assumes "ns < 1000000000" and "z = c # z'" and "c \<in> {CHR ''Z'', CHR ''+'', CHR ''-''}"
  shows "fraction (nano_text ns @ z) = (ns, z)"
proof -
  have c: "\<not> is_digit c" "c \<noteq> CHR ''.''" using assms(3) by (auto simp: is_digit_def)
  show ?thesis
  proof (cases "ns = 0")
    case True
    then show ?thesis using c assms(2) by (simp add: nano_text_def fraction_def split: list.split)
  next
    case False
    then obtain d r where t: "trim_zeros (digits 9 ns) = d # r" "is_digit d" "list_all is_digit r"
      using trim_zeros_digits [of ns 9] assms(1) by auto
    let ?k = "9 - length (d # r)"
    have split: "digits 9 ns = (d # r) @ replicate ?k (CHR ''0'')" using trim_zeros_split [of "digits 9 ns"] t(1) by simp
    then have len: "length (d # r) \<le> 9" by (metis digits_length length_append le_add1)
    have "replicate 9 (CHR ''0'') = replicate ?k (CHR ''0'') @ replicate (length (d # r)) (CHR ''0'')"
      using len by (simp only: replicate_add [symmetric]) simp
    then have "take 9 ((d # r) @ replicate 9 (CHR ''0'')) = digits 9 ns"
      using split len by (simp only: append_assoc [symmetric] split [symmetric]) (simp add: take_append)
    moreover have "takeWhile is_digit (d # r @ z) = d # r" "dropWhile is_digit (d # r @ z) = z"
      using t(2,3) c(1) assms(2) by (simp_all add: takeWhile_append dropWhile_append list_all_iff)
    ultimately show ?thesis using t False assms(1) by (simp add: nano_text_def fraction_def del: digits.simps)
  qed
qed

lemma two_digits: "(\<And>a b. digits 2 n = [a, b] \<Longrightarrow> P) \<Longrightarrow> P"
  by (simp add: numeral_2_eq_2)

lemma zone_start: "\<exists>c z. zone_text off = c # z \<and> c \<in> {CHR ''Z'', CHR ''+'', CHR ''-''}"
  by (simp add: zone_text_def Let_def)

lemma zone_offset_text:
  assumes "60 dvd off" and "\<bar>off\<bar> < 86400"
  shows "zone_offset (zone_text off) = Some off"
proof (cases "off = 0")
  case False
  obtain k where k: "off = 60 * k" using assms(1) by (auto simp: dvd_def)
  let ?m = "nat \<bar>off\<bar> div 60"
  have m: "?m = nat \<bar>k\<bar>" using k by (simp add: abs_mult nat_mult_distrib)
  then have range: "?m \<noteq> 0" "?m div 60 < 24" "?m mod 60 < 60" using k assms(2) False by (auto simp: abs_mult)
  obtain a b where h: "digits 2 (?m div 60) = [a, b]" by (rule two_digits)
  obtain c e where mi: "digits 2 (?m mod 60) = [c, e]" by (rule two_digits)
  have z: "zone_text off = [if off < 0 then CHR ''-'' else CHR ''+'', a, b, CHR '':'', c, e]"
    unfolding zone_text_def Let_def h mi using False range(1) by simp
  have "in_range [a, b] 0 23 = Some (?m div 60)" "in_range [c, e] 0 59 = Some (?m mod 60)"
    unfolding h [symmetric] mi [symmetric] using range(2,3) by simp_all
  moreover have "3600 * (n div 60) + 60 * (n mod 60) = 60 * n" for n :: nat
    using div_mult_mod_eq [of n 60] by linarith
  ultimately have "zone_offset [g, a, b, CHR '':'', c, e] = Some ((if g = CHR ''-'' then - 1 else 1) * int (60 * ?m))"
    if "g = CHR ''-'' \<or> g = CHR ''+''" for g
    using that by (simp add: zone_offset_def)
  then show ?thesis unfolding z using m k False by simp
qed (simp add: zone_text_def zone_offset_def)

lemma four_digits: "(\<And>a b c d. digits 4 n = [a, b, c, d] \<Longrightarrow> P) \<Longrightarrow> P"
proof -
  assume P: "\<And>a b c d. digits 4 n = [a, b, c, d] \<Longrightarrow> P"
  have "length (digits 4 n) = Suc (Suc (Suc (Suc 0)))" by (simp only: digits_length)
  then obtain a b c d where "digits 4 n = [a, b, c, d]" unfolding length_Suc_conv length_0_conv by blast
  then show P by (rule P)
qed

text \<open>The parser on the fields of a time.\<close>

lemma parse_fields:
  assumes "in_range (digits 4 a) 0 9999 = Some y" and "in_range (digits 2 b) 1 12 = Some m"
    and "in_range (digits 2 c) 1 (month_days y ! (m - 1)) = Some d" and "in_range (digits 2 e) 0 23 = Some h"
    and "in_range (digits 2 f) 0 59 = Some mi" and "in_range (digits 2 g) 0 59 = Some s"
    and "fraction r = (ns, z)" and "zone_offset z = Some off"
  shows "parseRFC3339 (digits 4 a @ CHR ''-'' # digits 2 b @ CHR ''-'' # digits 2 c @ CHR ''T'' # digits 2 e @
      CHR '':'' # digits 2 f @ CHR '':'' # digits 2 g @ r) =
    Some (((int (days_before y m + d - 1) - 719528) * 86400 + int (3600 * h + 60 * mi + s) - off) * 1000000000 + int ns)"
proof -
  obtain a1 a2 a3 a4 where a: "digits 4 a = [a1, a2, a3, a4]" by (rule four_digits)
  obtain b1 b2 where b: "digits 2 b = [b1, b2]" by (rule two_digits)
  obtain c1 c2 where c: "digits 2 c = [c1, c2]" by (rule two_digits)
  obtain e1 e2 where e: "digits 2 e = [e1, e2]" by (rule two_digits)
  obtain f1 f2 where f: "digits 2 f = [f1, f2]" by (rule two_digits)
  obtain g1 g2 where g: "digits 2 g = [g1, g2]" by (rule two_digits)
  show ?thesis unfolding a b c e f g parseRFC3339_def
    using assms [unfolded a b c e f g] by simp
qed

lemma time_of_day:
  fixes n :: nat
  assumes "n < 86400"
  shows "n div 3600 \<le> 23" "n div 60 mod 60 \<le> 59" "n mod 60 \<le> 59"
    "3600 * (n div 3600) + 60 * (n div 60 mod 60) + n mod 60 = n"
proof -
  have hours: "n div 3600 = n div 60 div 60" by (simp add: div_mult2_eq [symmetric])
  show "n div 3600 \<le> 23" using assms less_mult_imp_div_less [of n 24 3600] by simp
  show "n div 60 mod 60 \<le> 59" "n mod 60 \<le> 59"
    using mod_less_divisor [of 60 "n div 60"] mod_less_divisor [of 60 n] by linarith+
  show "3600 * (n div 3600) + 60 * (n div 60 mod 60) + n mod 60 = n"
    using div_mult_mod_eq [of "n div 60" 60] div_mult_mod_eq [of n 60] unfolding hours by linarith
qed

theorem parse_MarshalTime:
  assumes "MarshalTime off t = Some s" and "60 dvd off"
  shows "parseRFC3339 s = Some t"
proof -
  let ?secs = "t div 1000000000 + off" and ?ns = "nat (t mod 1000000000)"
  let ?day = "?secs div 86400 + 719528" and ?sod = "nat (?secs mod 86400)"
  obtain y m d where civ: "civil (nat ?day) = (y, m, d)" by (metis prod.exhaust)
  have ok: "0 \<le> ?day" "\<bar>off\<bar> < 86400" "y \<le> 9999"
    and s: "s = digits 4 y @ CHR ''-'' # digits 2 m @ CHR ''-'' # digits 2 d @ CHR ''T'' # digits 2 (?sod div 3600) @
      CHR '':'' # digits 2 (?sod div 60 mod 60) @ CHR '':'' # digits 2 (?sod mod 60) @ nano_text ?ns @ zone_text off"
    using assms(1) civ by (auto simp: MarshalTime_def Let_def not_le not_less simp del: digits.simps split: if_splits)
  note date = civil_day [OF civ]
  have "month_days y ! (m - 1) \<le> 31"
    using date(2) by (simp add: month_days_def nth_Cons' split: if_split)
  then have range: "y < 10 ^ 4" "m < 10 ^ 2" "d < 10 ^ 2" using ok(3) date(2,4) by simp_all
  have "?sod < 86400" by simp
  note time = time_of_day [OF this]
  have ns: "?ns < 1000000000" by simp
  obtain c z where z: "zone_text off = c # z" "c \<in> {CHR ''Z'', CHR ''+'', CHR ''-''}" using zone_start by blast
  have minute: "k < 10 ^ 2" if "k \<le> 59" for k :: nat using that by simp
  have "in_range (digits 4 y) 0 9999 = Some y" "in_range (digits 2 m) 1 12 = Some m"
    "in_range (digits 2 d) 1 (month_days y ! (m - 1)) = Some d"
    using range ok(3) date(1-4) by (simp_all only: in_range_digits le0 simp_thms if_True)
  moreover have "in_range (digits 2 (?sod div 3600)) 0 23 = Some (?sod div 3600)"
    "in_range (digits 2 (?sod div 60 mod 60)) 0 59 = Some (?sod div 60 mod 60)"
    "in_range (digits 2 (?sod mod 60)) 0 59 = Some (?sod mod 60)"
    using minute [OF order_trans [OF time(1)]] minute [OF time(2)] minute [OF time(3)] time(1-3)
    by (simp_all only: in_range_digits le0 simp_thms if_True)
  ultimately have "parseRFC3339 s = Some (((int (days_before y m + d - 1) - 719528) * 86400 +
      int (3600 * (?sod div 3600) + 60 * (?sod div 60 mod 60) + ?sod mod 60) - off) * 1000000000 + int ?ns)"
    unfolding s by (rule parse_fields [OF _ _ _ _ _ _ fraction_nano [OF ns z] zone_offset_text [OF assms(2) ok(2)]])
  also note time(4)
  also have "(int (days_before y m + d - 1) - 719528) * 86400 + int ?sod - off = t div 1000000000"
    using date(5) ok(1) div_mult_mod_eq [of ?secs 86400] by simp
  also have "t div 1000000000 * 1000000000 + int ?ns = t" by simp
  finally show ?thesis .
qed

text \<open>Which times can be written: those whose year has four digits where they are, in a zone of less than a day.\<close>

lemma days_before_mono: "y \<le> y' \<Longrightarrow> days_before y 1 \<le> days_before y' 1"
  using lift_Suc_mono_le [of "\<lambda>y. days_before y 1" y y'] days_before_next by (simp only: Suc_eq_plus1 le_add1)

lemma civil_year_bound: "civil n = (y, m, d) \<Longrightarrow> y \<le> 9999 \<longleftrightarrow> n < 3652425"
proof -
  assume c: "civil n = (y, m, d)"
  obtain e where y: "year_of (400 * (n div 146097)) (n mod 146097) = (y, e)"
    using c by (auto simp: civil_def split: prod.splits)
  have "146097 * (n div 146097) + n mod 146097 = n" by simp
  then have n: "n = days_before y 1 + e" "e < year_days y" using year_of_days [OF y] days_before_cycle by auto
  have last: "days_before 10000 1 = 3652425" by (simp add: days_before_def)
  show ?thesis
  proof
    assume "y \<le> 9999"
    then have "days_before (y + 1) 1 \<le> 3652425" using days_before_mono [of "y + 1" 10000] last by simp
    then show "n < 3652425" using n days_before_next [of y] by linarith
  next
    assume "n < 3652425"
    moreover have "3652425 \<le> days_before y 1" if "\<not> y \<le> 9999" using days_before_mono [of 10000 y] last that by simp
    ultimately show "y \<le> 9999" using n(1) by linarith
  qed
qed

lemma MarshalTime_writes:
  "MarshalTime off t \<noteq> None \<longleftrightarrow> \<bar>off\<bar> < 86400 \<and>
     0 \<le> (t div 1000000000 + off) div 86400 + 719528 \<and> (t div 1000000000 + off) div 86400 + 719528 < 3652425"
proof -
  let ?day = "(t div 1000000000 + off) div 86400 + 719528"
  obtain y m d where c: "civil (nat ?day) = (y, m, d)" by (metis prod.exhaust)
  then show ?thesis
    using civil_year_bound [OF c]
    by (simp add: MarshalTime_def Let_def not_le del: digits.simps) linarith
qed

text \<open>A time needs no escapes.\<close>

definition plain :: "bytes \<Rightarrow> bool" where
  "plain s \<longleftrightarrow> list_all (\<lambda>c. html_safe c \<and> byte c < 128) s"

lemma plain_quote: "plain s \<Longrightarrow> quote s = s"
  unfolding plain_def by (rule quote_alnum)

lemma plain_simps:
  "plain []" "plain (s @ t) \<longleftrightarrow> plain s \<and> plain t" "plain (c # s) \<longleftrightarrow> html_safe c \<and> byte c < 128 \<and> plain s"
  by (auto simp: plain_def)

lemma plain_digits: "list_all is_digit s \<Longrightarrow> plain s"
proof -
  have "html_safe c \<and> byte c < 128" if "is_digit c" for c
  proof -
    have "c \<notin> set [CHR 0x22, CHR 0x5C, CHR ''<'', CHR ''>'', CHR ''&'']" using that by (auto simp: is_digit_def)
    then show ?thesis using that by (simp add: html_safe_def is_digit_def)
  qed
  then show "list_all is_digit s \<Longrightarrow> ?thesis" by (simp add: plain_def list_all_iff)
qed

lemma plain_nano: "plain (nano_text ns)"
proof -
  have "list_all is_digit (trim_zeros (digits 9 ns))"
    using digits_all [of 9 ns] by (auto simp only: trim_zeros_def list_all_iff set_rev dest!: set_dropWhileD)
  from plain_digits [OF this] show ?thesis by (simp add: nano_text_def plain_simps html_safe_def)
qed

lemma plain_zone: "plain (zone_text off)"
  using plain_digits [OF digits_all] by (simp add: zone_text_def Let_def plain_simps html_safe_def del: digits.simps)

lemma MarshalTime_plain: "MarshalTime off t = Some s \<Longrightarrow> plain s"
  using plain_digits [OF digits_all] plain_nano plain_zone
  by (auto simp: MarshalTime_def Let_def plain_simps html_safe_def simp del: digits.simps split: prod.splits if_splits)

end
