(* ===== verification/Json_Escape.thy ===== *)
theory Json_Escape
  imports Json_Text
begin

text \<open>
  JSON inside JSON. What the scanner accepts can be rendered, so a document that was parsed can be put into
  another one; its literals are escaped for HTML on the way (\<open>escape_html\<close>), which keeps what they stand for and leaves
  no character in them that HTML gives a meaning.
\<close>

section \<open>Numbers and depth\<close>

lemma FormatUint_start: "FormatUint n = ''0'' \<or> (\<exists>c r. FormatUint n = c # r \<and> c \<noteq> CHR ''0'')"
proof (induction n rule: FormatUint.induct)
  case (1 n)
  show ?case
  proof (cases "n < 10")
    case True
    then have "n \<in> set [0, 1, 2, 3, 4, 5, 6, 7, 8, 9]" by auto
    then show ?thesis using True by (auto simp: FormatUint.simps [of n] digit_char_def)
  next
    case False
    then have "FormatUint (n div 10) \<noteq> ''0''"
      using dec_value_FormatUint [of "n div 10"] by (auto simp: dec_value_def digit_val_def)
    then show ?thesis using 1 False by (auto simp: FormatUint.simps [of n])
  qed
qed

lemma scan_FormatUint: "scan_int (FormatUint n) = Parsed (FormatUint n) []"
proof (cases "FormatUint n = ''0''")
  case False
  then obtain c r where f: "FormatUint n = c # r" "c \<noteq> CHR ''0''" using FormatUint_start [of n] by blast
  moreover have "list_all is_digit (FormatUint n)" using FormatUint_digits by blast
  ultimately show ?thesis by (auto simp: scan_int_def scan_digits_def list_all_iff)
qed (simp add: scan_int_def)

lemma number_FormatInt [simp]: "number_ok (FormatInt i)"
proof -
  have sign: "scan_sign {CHR ''-''} (FormatUint n) = ([], FormatUint n)" for n
    using FormatUint_digits [of n] digit_not_sign by (cases "FormatUint n") (auto simp: scan_sign_def)
  have "scan_number (FormatUint n) = Parsed (FormatUint n) []" "scan_number (CHR ''-'' # FormatUint n) = Parsed (CHR ''-'' # FormatUint n) []" for n
    using sign [of n] by (simp_all add: scan_number_def scan_FormatUint scan_frac_def scan_exp_def scan_sign_def)
  then show ?thesis by (simp add: number_ok_def FormatInt_def)
qed

lemma fits_mono: "fits n j \<Longrightarrow> n \<le> m \<Longrightarrow> fits m j"
proof (induction n j arbitrary: m rule: fits.induct)
  case (3 n vs)
  then show ?case by (auto simp: list_all_iff)
next
  case (4 n ms)
  have "fits (m - 1) v" if "(k, v) \<in> set ms" for k v
    using 4(1) [OF that, of k v "m - 1"] 4(2,3) that by (auto simp: list_all_iff)
  then show ?case using 4(2,3) by (auto simp: list_all_iff)
qed simp_all

section \<open>What the scanner accepts can be rendered\<close>

lemma map_parsed_id [simp]: "map_parsed (\<lambda>t. t) p = p"
  by (cases p) simp_all

lemma scan_string_literal: "scan_string s = Parsed t r \<Longrightarrow> literal_ok t"
proof (induction s arbitrary: t r rule: scan_string.induct)
  case (2 c cs)
  consider (quote) "c = CHR 0x22" | (esc) "c = CHR 0x5C" | (plain) "c \<noteq> CHR 0x22" "c \<noteq> CHR 0x5C" by blast
  then show ?case
  proof cases
    case quote
    then show ?thesis using 2(4) by (simp add: literal_ok_def)
  next
    case esc
    then obtain e q where q: "cs = e # q" using 2(4) by (cases cs) auto
    show ?thesis
    proof (cases "e = CHR ''u''")
      case True
      then have h: "list_all (\<lambda>d. unhex d \<noteq> None) (take 4 q)" "\<not> length q < 4"
        and m: "map_parsed (\<lambda>t. c # e # take 4 q @ t) (scan_string (drop 4 q)) = Parsed t r"
        using 2(4) esc q by (auto split: if_splits)
      from m obtain u where u: "scan_string (drop 4 q) = Parsed u r" "t = c # e # take 4 q @ u"
        by (auto simp: map_parsed_eq_Parsed)
      have "literal_ok u" using 2(1) [of e q u r] esc q True h u(1) by simp
      then show ?thesis using h esc True u(2) by (simp add: literal_ok_def)
    next
      case False
      then obtain u where u: "map_of short_escapes e \<noteq> None" "scan_string q = Parsed u r" "t = c # e # u"
        using 2(4) esc q by (auto simp: map_parsed_eq_Parsed split: if_splits)
      have "literal_ok u" using 2(2) [of e q u r] esc q False u(1,2) by simp
      then show ?thesis using esc False u(1,3) by (auto simp: literal_ok_def)
    qed
  next
    case plain
    then show ?thesis using 2 by (auto simp: literal_ok_def map_parsed_eq_Parsed split: if_splits)
  qed
qed simp

lemma digits_prefix: "list_all is_digit t \<Longrightarrow> t \<noteq> [] \<Longrightarrow> (\<And>c q. x = c # q \<Longrightarrow> \<not> is_digit c) \<Longrightarrow> scan_digits (t @ x) = Parsed t x"
  by (cases t; cases x) (auto simp: scan_digits_def takeWhile_append dropWhile_append list_all_iff)

lemma scan_digits_all: "scan_digits s = Parsed t r \<Longrightarrow> list_all is_digit t \<and> t \<noteq> []"
  by (auto simp: scan_digits_def list_all_iff dest: set_takeWhileD split: list.splits if_splits)

lemma scan_number_ok:
  assumes "scan_number s = Parsed t r"
  shows "number_ok t"
proof -
  obtain sg s1 i s2 f s3 e where p: "scan_sign {CHR ''-''} s = (sg, s1)" "scan_int s1 = Parsed i s2" "scan_frac s2 = Parsed f s3"
    "scan_exp s3 = Parsed e r" "t = sg @ i @ f @ e"
    using assms by (auto simp: scan_number_def map_parsed_eq_Parsed split: prod.splits parsed.splits)
  have e: "e = [] \<or> (\<exists>c g d. e = c # g @ d \<and> (c = CHR ''e'' \<or> c = CHR ''E'') \<and> (g = [] \<or> g = ''+'' \<or> g = ''-'') \<and>
      list_all is_digit d \<and> d \<noteq> [])"
  proof (cases "e = []")
    case False
    then obtain c q g q' d where "c = CHR ''e'' \<or> c = CHR ''E''" and g: "scan_sign {CHR ''+'', CHR ''-''} q = (g, q')"
      and d: "scan_digits q' = Parsed d r" "e = c # g @ d"
      using p(4) by (auto simp: scan_exp_def map_parsed_eq_Parsed split: list.splits if_splits prod.splits)
    moreover have "g = [] \<or> g = ''+'' \<or> g = ''-''" using g by (auto simp: scan_sign_def split: list.splits if_splits)
    ultimately show ?thesis using scan_digits_all [OF d(1)] by blast
  qed simp
  have f: "f = [] \<or> (\<exists>d. f = CHR ''.'' # d \<and> list_all is_digit d \<and> d \<noteq> [])"
    using p(3) by (auto simp: scan_frac_def map_parsed_eq_Parsed dest!: scan_digits_all split: list.splits if_splits)
  have marks: "\<not> is_digit (CHR ''.'')" "\<not> is_digit (CHR ''e'')" "\<not> is_digit (CHR ''E'')" by (simp_all add: is_digit_def)
  have not_digit: "\<not> is_digit c" if "e = c # q" for c q using e that marks by auto
  have "scan_exp e = Parsed e []"
  proof (cases "e = []")
    case False
    then obtain c g d where c: "e = c # g @ d" "c = CHR ''e'' \<or> c = CHR ''E''" "g = [] \<or> g = ''+'' \<or> g = ''-''"
      and d: "list_all is_digit d" "d \<noteq> []" using e by blast
    have "hd d \<notin> {CHR ''+'', CHR ''-''}" using d digit_not_sign by (cases d) auto
    then have "scan_sign {CHR ''+'', CHR ''-''} (g @ d) = (g, d)"
      using c(3) d(2) by (cases d) (auto simp: scan_sign_def)
    then show ?thesis using c digits_prefix [OF d, of "[]"] by (simp add: scan_exp_def)
  qed (simp add: scan_exp_def)
  moreover have "scan_frac (f @ e) = Parsed f e"
  proof (cases "f = []")
    case True
    then show ?thesis using e by (auto simp: scan_frac_def)
  next
    case False
    then obtain d where d: "f = CHR ''.'' # d" "list_all is_digit d" "d \<noteq> []" using f by blast
    then show ?thesis using digits_prefix [OF d(2,3), of e] not_digit by (simp add: scan_frac_def)
  qed
  moreover have "scan_int (i @ f @ e) = Parsed i (f @ e)"
  proof (cases "i = ''0''")
    case False
    then have i: "scan_digits s1 = Parsed i s2" "hd i \<noteq> CHR ''0''"
      using p(2) by (auto simp: scan_int_def scan_digits_def split: list.splits if_splits)
    have "\<not> is_digit c" if "f @ e = c # q" for c q using that f not_digit marks by (cases "f = []") auto
    then show ?thesis
      using digits_prefix [of i "f @ e"] scan_digits_all [OF i(1)] i(2) by (cases i) (auto simp: scan_int_def)
  qed (simp add: scan_int_def)
  moreover have "scan_sign {CHR ''-''} (sg @ i @ f @ e) = (sg, i @ f @ e)"
  proof -
    have "i = ''0'' \<or> list_all is_digit i \<and> i \<noteq> []"
      using p(2) scan_digits_all by (fastforce simp: scan_int_def split: list.splits if_splits)
    then obtain c q where "i = c # q" "c \<noteq> CHR ''-''" using digit_not_sign by (cases i) auto
    then show ?thesis using p(1) by (auto simp: scan_sign_def split: list.splits if_splits)
  qed
  ultimately show ?thesis by (simp add: number_ok_def scan_number_def p(5))
qed

lemma parsed_fits:
  "parse_value n s = Parsed v r \<Longrightarrow> fits n v"
  "parse_elems n s = Parsed vs r \<Longrightarrow> list_all (fits n) vs"
  "parse_members n s = Parsed ms r \<Longrightarrow> list_all (\<lambda>(k, v). literal_ok k \<and> fits n v) ms"
proof (induction n s and n s and n s arbitrary: v r and vs r and ms r
    rule: parse_value_parse_elems_parse_members.induct)
  case (1 n s)
  obtain c t where c: "skip_space s = c # t" using 1(3) by (auto simp: parse_value.simps split: list.splits)
  note p = 1(3) [unfolded parse_value.simps [of n s] c list.case]
  consider "c = CHR ''{''" | "c = CHR ''[''" "c \<noteq> CHR ''{''" | "c \<noteq> CHR ''{''" "c \<noteq> CHR ''[''" by blast
  then show ?case
  proof cases
    case 1
    with p obtain d t' where d: "n \<noteq> 0" "skip_space t = d # t'" by (auto split: if_splits list.splits)
    show ?thesis
    proof (cases "d = CHR ''}''")
      case False
      then obtain ms where "parse_members (n - 1) t = Parsed ms r" "v = JObj ms" using p 1 d by (auto simp: map_parsed_eq_Parsed)
      then show ?thesis using "1.IH"(1) [OF c 1 d False] d(1) by simp
    qed (use p 1 d in auto)
  next
    case 2
    with p obtain d t' where d: "n \<noteq> 0" "skip_space t = d # t'" by (auto split: if_splits list.splits)
    show ?thesis
    proof (cases "d = CHR '']''")
      case False
      then obtain vs where "parse_elems (n - 1) t = Parsed vs r" "v = JArr vs" using p 2 d by (auto simp: map_parsed_eq_Parsed)
      then show ?thesis using "1.IH"(2) [OF c 2(2,1) d False] d(1) by simp
    qed (use p 2 d in auto)
  next
    case 3
    then show ?thesis using p by (auto simp: map_parsed_eq_Parsed scan_string_literal scan_number_ok split: if_splits)
  qed
next
  case (2 n s)
  from 2(3) obtain v q where v: "parse_value n s = Parsed v q" "length q < length s"
    by (auto simp: parse_elems.simps [of n s] split: parsed.splits if_splits)
  with 2(3) obtain c t where c: "skip_space q = c # t"
    by (auto simp: parse_elems.simps [of n s] split: list.splits)
  note p = 2(3) [unfolded parse_elems.simps [of n s] v(1) parsed.case if_P [OF v(2)] c list.case]
  show ?case using p "2.IH"(1) [OF v(1)] "2.IH"(2) [OF v c] by (auto simp: map_parsed_eq_Parsed split: if_splits)
next
  case (3 n s)
  from 3(3) obtain q s1 where s1: "skip_space s = q # s1" "\<not> q \<noteq> CHR 0x22"
    by (auto simp: parse_members.simps [of n s] split: list.splits if_splits)
  note p1 = 3(3) [unfolded parse_members.simps [of n s] s1(1) list.case if_not_P [OF s1(2)]]
  from p1 obtain k s2 where s2: "scan_string s1 = Parsed k s2" by (auto split: parsed.splits)
  note p2 = p1 [unfolded s2 parsed.case]
  from p2 obtain c s3 where s3: "skip_space s2 = c # s3" "\<not> c \<noteq> CHR '':''" "\<not> \<not> length s3 < length s"
    by (auto split: list.splits if_splits)
  note p3 = p2 [unfolded s3(1) list.case if_not_P [OF s3(2)] if_not_P [OF s3(3)]]
  from p3 obtain v s4 where s4: "parse_value n s3 = Parsed v s4" "length s4 < length s" by (auto split: parsed.splits if_splits)
  note p4 = p3 [unfolded s4(1) parsed.case if_P [OF s4(2)]]
  from p4 obtain d t where d: "skip_space s4 = d # t" by (auto split: list.splits)
  note p5 = p4 [unfolded d list.case]
  show ?case
    using p5 "3.IH"(1) [OF s1 s2 s3 s4(1)] "3.IH"(2) [OF s1 s2 s3 s4 d] scan_string_literal [OF s2]
    by (auto simp: map_parsed_eq_Parsed split: if_splits)
qed

lemma document_fits: "parse_document s = Some j \<Longrightarrow> fits maxNestingDepth j"
  by (auto simp: parse_document_def parsed_fits split: parsed.splits if_splits)

section \<open>Escaping for HTML\<close>

text \<open>
  A \<^verbatim>\<open>json.RawMessage\<close> must be valid; it is compacted, and inside its literals the characters that HTML gives a
  meaning, and two line separators, are escaped (\<^verbatim>\<open>appendCompact\<close>).
\<close>

fun escape_html :: "bytes \<Rightarrow> bytes" where
  "escape_html [] = []"
| "escape_html (c # cs) =
     (if c = CHR ''<'' \<or> c = CHR ''>'' \<or> c = CHR ''&''
      then [CHR 0x5C, CHR ''u'', CHR ''0'', CHR ''0'', hex_lower (byte c div 16), hex_lower (byte c mod 16)] @ escape_html cs
      else if take 3 (c # cs) = [CHR 0xE2, CHR 0x80, CHR 0xA8] then CHR 0x5C # ''u2028'' @ escape_html (drop 2 cs)
      else if take 3 (c # cs) = [CHR 0xE2, CHR 0x80, CHR 0xA9] then CHR 0x5C # ''u2029'' @ escape_html (drop 2 cs)
      else c # escape_html cs)"

fun on_literals :: "(bytes \<Rightarrow> bytes) \<Rightarrow> json \<Rightarrow> json" where
  "on_literals f (JStr t) = JStr (f t)"
| "on_literals f (JArr vs) = JArr (map (on_literals f) vs)"
| "on_literals f (JObj ms) = JObj (map (\<lambda>(k, v). (f k, on_literals f v)) ms)"
| "on_literals f j = j"

lemma literal_Cons:
  assumes "literal_ok (c # cs)"
  obtains (plain) "c \<noteq> CHR 0x5C" "c \<noteq> CHR 0x22" "0x20 \<le> byte c" "literal_ok cs"
  | (short) e d q where "c = CHR 0x5C" "cs = e # q" "e \<noteq> CHR ''u''" "map_of short_escapes e = Some d" "literal_ok q"
  | (unicode) h q where "c = CHR 0x5C" "cs = CHR ''u'' # h @ q" "length h = 4" "list_all (\<lambda>d. unhex d \<noteq> None) h" "literal_ok q"
proof (cases "c = CHR 0x5C")
  case False
  then show thesis using assms plain
    by (auto simp: literal_ok_def map_parsed_eq_Parsed split: if_splits)
next
  case True
  then obtain e r where e: "cs @ [CHR 0x22] = e # r"
    and s: "scan_string (c # e # r) = Parsed (c # cs) []" using assms by (cases cs) (auto simp: literal_ok_def)
  show thesis
  proof (cases "e = CHR ''u''")
    case u: True
    then obtain t where t: "scan_string (drop 4 r) = Parsed t []" "cs = e # take 4 r @ t" "\<not> length r < 4"
      "list_all (\<lambda>d. unhex d \<noteq> None) (take 4 r)"
      using s True by (auto simp: map_parsed_eq_Parsed split: if_splits)
    then show thesis using unicode [of "take 4 r" t] True u scan_string_literal [OF t(1)] by simp
  next
    case False
    then obtain t d where t: "map_of short_escapes e = Some d" "scan_string r = Parsed t []" "cs = e # t"
      using s True by (auto simp: map_parsed_eq_Parsed split: if_splits)
    then show thesis using short [of e t d] True False scan_string_literal [OF t(2)] by simp
  qed
qed

lemma literal_intros:
  "c \<noteq> CHR 0x5C \<Longrightarrow> c \<noteq> CHR 0x22 \<Longrightarrow> 0x20 \<le> byte c \<Longrightarrow> literal_ok cs \<Longrightarrow> literal_ok (c # cs)"
  "map_of short_escapes e = Some d \<Longrightarrow> e \<noteq> CHR ''u'' \<Longrightarrow> literal_ok q \<Longrightarrow> literal_ok (CHR 0x5C # e # q)"
  "length h = 4 \<Longrightarrow> list_all (\<lambda>d. unhex d \<noteq> None) h \<Longrightarrow> literal_ok q \<Longrightarrow> literal_ok (CHR 0x5C # CHR ''u'' # h @ q)"
  by (auto simp: literal_ok_def)

lemma literal_high: "list_all is_cont k \<Longrightarrow> literal_ok (k @ x) \<longleftrightarrow> literal_ok x"
proof (induction k)
  case (Cons c k)
  then have "c \<noteq> CHR 0x22" "c \<noteq> CHR 0x5C" "\<not> byte c < 0x20" by (auto simp: is_cont_def)
  then show ?case using Cons by (auto elim: literal_Cons intro: literal_intros(1))
qed simp

lemma literal_ascii: "byte c < 128 \<Longrightarrow> literal_ok (quote_ascii c @ x) \<longleftrightarrow> literal_ok x"
  using scan_ascii [of c "x @ [CHR 0x22]"] by (auto simp: literal_ok_def map_parsed_eq_Parsed)

text \<open>A rune ends where the escapes leave the bytes alone.\<close>

lemma rune_size_cont: "rune_size (c # takeWhile is_cont r) = rune_size (c # r)"
proof -
  have cont: "is_cont x" if "second_ok a x" for a x
    using that by (auto simp: second_ok_def is_cont_def split: if_splits)
  show ?thesis by (auto simp: rune_size_def Let_def dest: cont split: list.splits if_splits)
qed

lemma special_bytes [simp]:
  "\<not> is_cont (CHR ''<'')" "\<not> is_cont (CHR ''>'')" "\<not> is_cont (CHR ''&'')" "\<not> is_cont (CHR 0xE2)" "\<not> is_cont (CHR 0x5C)"
  by (simp_all add: is_cont_def)

lemma escape_conts: "takeWhile is_cont (escape_html s) = takeWhile is_cont s"
  by (induction s rule: escape_html.induct) auto

lemma escape_rune: "rune_size (c # escape_html cs) = rune_size (c # cs)"
  by (metis rune_size_cont escape_conts)

lemma escape_cont: "list_all is_cont k \<Longrightarrow> escape_html (k @ x) = k @ escape_html x"
  by (induction k) auto

lemma escape_hex: "list_all (\<lambda>d. unhex d \<noteq> None) h \<Longrightarrow> escape_html (h @ x) = h @ escape_html x"
proof (induction h)
  case (Cons d h)
  have "unhex (CHR ''<'') = None" "unhex (CHR ''>'') = None" "unhex (CHR ''&'') = None" "unhex (CHR 0xE2) = None"
    by (simp_all add: unhex_def)
  then have "d \<noteq> CHR ''<''" "d \<noteq> CHR ''>''" "d \<noteq> CHR ''&''" "d \<noteq> CHR 0xE2" using Cons.prems by auto
  then show ?case using Cons by simp
qed simp

lemma rune_conts: "rune_size (c # cs) = Some n \<Longrightarrow> list_all is_cont (take (n - 1) cs)"
proof -
  have "is_cont x" if "second_ok a x" for a x
    using that by (auto simp: second_ok_def is_cont_def split: if_splits)
  then show "rune_size (c # cs) = Some n \<Longrightarrow> ?thesis"
    by (auto simp: rune_size_def Let_def numeral_eq_Suc [symmetric] split: list.splits if_splits)
qed

lemma hex4_known:
  assumes "length h = 4" and "list_all (\<lambda>d. unhex d \<noteq> None) h"
  obtains r where "\<And>x. hex4 (h @ x) = Some r"
proof -
  obtain a b c d where h: "h = [a, b, c, d]" using assms(1) by (auto simp: length_Suc_conv numeral_eq_Suc)
  then obtain i j k l where "unhex a = Some i" "unhex b = Some j" "unhex c = Some k" "unhex d = Some l" using assms(2) by auto
  then show thesis using that h by (simp add: hex4_def)
qed

text \<open>A surrogate is paired with the same escape, if any, after the characters around it are escaped.\<close>

lemma u_escape_html:
  assumes "length h = 4" and "list_all (\<lambda>d. unhex d \<noteq> None) h" and "literal_ok q"
  obtains (single) r where "u_escape (h @ q) = Some (r, 4)" "u_escape (h @ escape_html q) = Some (r, 4)"
  | (pair) r h' q' where "u_escape (h @ q) = Some (r, 10)" "u_escape (h @ escape_html q) = Some (r, 10)"
      "q = CHR 0x5C # CHR ''u'' # h' @ q'" "escape_html q = CHR 0x5C # CHR ''u'' # h' @ escape_html q'" "length h' = 4" "literal_ok q'"
proof -
  obtain r where r: "hex4 (h @ x) = Some r" for x using hex4_known [OF assms(1,2)] by metis
  show thesis
  proof (cases "r < 0xD800 \<or> 0xE000 \<le> r")
    case True
    then show thesis using single by (simp add: u_escape_def r)
  next
    case False
    have alone: "u_escape (h @ x) = Some (0xFFFD, 4)" if "\<And>y. x = CHR 0x5C # CHR ''u'' # y \<Longrightarrow> \<exists>i. hex4 y = Some i \<and> i < 0xDC00" for x
      using False that assms(1) by (auto simp: u_escape_def r split: list.splits option.splits)
    have low: "\<exists>i. hex4 y = Some i \<and> i < 0xDC00"
      if "escape_html (c # cs) = CHR 0x5C # CHR ''u'' # y" "c \<noteq> CHR 0x5C" for c cs y
    proof -
      have "hex4 (CHR ''2'' # CHR ''0'' # CHR ''2'' # CHR ''8'' # x) = Some 0x2028"
        "hex4 (CHR ''2'' # CHR ''0'' # CHR ''2'' # CHR ''9'' # x) = Some 0x2029" for x
        by (simp_all add: hex4_def unhex_def)
      moreover have "c = CHR ''<'' \<or> c = CHR ''>'' \<or> c = CHR ''&'' \<Longrightarrow> byte c div 16 < 16 \<and> byte c mod 16 < 16" by auto
      ultimately show ?thesis using that by (auto simp del: take_Suc_Cons split: if_splits)
    qed
    show thesis
    proof (cases q)
      case Nil
      then show thesis using single alone [of "[]"] by simp
    next
      case (Cons c cs)
      from assms(3) [unfolded Cons] show thesis
      proof (cases rule: literal_Cons)
        case plain
        then have "u_escape (h @ q) = Some (0xFFFD, 4)" using alone [of q] Cons by simp
        moreover have "u_escape (h @ escape_html q) = Some (0xFFFD, 4)" using alone [of "escape_html q"] low [of c cs] plain(1) Cons by blast
        ultimately show thesis by (rule single)
      next
        case (short e d q')
        then have "e \<noteq> CHR ''<''" "e \<noteq> CHR ''>''" "e \<noteq> CHR ''&''" "e \<noteq> CHR 0xE2" by (auto simp: short_escapes_def)
        then have "escape_html q = c # e # escape_html q'" using short Cons by simp
        then show thesis using single alone [of q] alone [of "escape_html q"] short Cons by simp
      next
        case (unicode h' q')
        obtain r' where r': "hex4 (h' @ x) = Some r'" for x using hex4_known [OF unicode(3,4)] by metis
        have e: "escape_html q = CHR 0x5C # CHR ''u'' # h' @ escape_html q'"
          using escape_hex [OF unicode(4)] unicode(1,2) Cons by simp
        show thesis
        proof (cases "r < 0xDC00 \<and> 0xDC00 \<le> r' \<and> r' < 0xE000")
          case True
          show thesis by (rule pair [OF _ _ _ e unicode(3,5)]) (use True False unicode Cons e r' assms(1) in \<open>simp_all add: u_escape_def r\<close>)
        next
          case no: False
          show thesis by (rule single) (use no False unicode Cons e r' assms(1) in \<open>auto simp: u_escape_def r\<close>)
        qed
      qed
    qed
  qed
qed

text \<open>Escaping keeps what a literal stands for, and takes every character with a meaning in HTML out of it.\<close>

lemma escape_html_literal: "literal_ok t \<Longrightarrow> unquote (escape_html t) = unquote t \<and> literal_ok (escape_html t)"
proof (induction t rule: measure_induct_rule [of length])
  case (less t)
  show ?case
  proof (cases t)
    case t: (Cons c cs)
    from less.prems [unfolded t] show ?thesis
    proof (cases rule: literal_Cons)
      case plain
      have IH: "unquote (escape_html x) = unquote x \<and> literal_ok (escape_html x)" if "literal_ok x" "length x \<le> length cs" for x
        using less.IH [of x] that t by simp
      have "escape_html t = c # escape_html cs" if "c \<notin> {CHR ''<'', CHR ''>'', CHR ''&''}"
        "take 3 (c # cs) \<noteq> [CHR 0xE2, CHR 0x80, CHR 0xA8]" "take 3 (c # cs) \<noteq> [CHR 0xE2, CHR 0x80, CHR 0xA9]"
        unfolding t escape_html.simps using that by (simp only: insert_iff empty_iff if_False simp_thms)
      then consider (special) "c \<in> {CHR ''<'', CHR ''>'', CHR ''&''}"
        | (line) k where "take 3 (c # cs) = [CHR 0xE2, CHR 0x80, k]" "k = CHR 0xA8 \<or> k = CHR 0xA9"
        | (same) "escape_html t = c # escape_html cs" "c \<notin> {CHR ''<'', CHR ''>'', CHR ''&''}"
        by blast
      then show ?thesis
      proof cases
        case special
        then have c: "byte c < 128" by auto
        have e: "escape_html t = quote_ascii c @ escape_html cs"
          using special t by (auto simp: quote_ascii_def html_safe_def)
        have "unquote t = c # unquote cs" using t c plain(1) by simp
        then show ?thesis
          using IH [OF plain(4)] unfolding e by (simp only: unquote_ascii [OF c] literal_ascii [OF c] order_refl simp_thms)
      next
        case line
        then obtain q where q: "c = CHR 0xE2" "cs = CHR 0x80 # k # q" by (cases cs; cases "tl cs") (auto simp: numeral_3_eq_3)
        have "literal_ok q" using plain(4) literal_high [of "[CHR 0x80, k]" q] line(2) by (auto simp: q is_cont_def)
        then have "unquote (escape_html q) = unquote q" "literal_ok (escape_html q)" using IH [of q] q by simp_all
        moreover have "rune_size (c # cs) = Some 3" using line(2) by (auto simp: q rune_size_def second_ok_def is_cont_def)
        moreover have "escape_html t = quote_wide (c # take 2 cs) @ escape_html q" using line(2) q t by (auto simp: quote_wide_def)
        moreover have "literal_ok (CHR 0x5C # CHR ''u'' # [CHR ''2'', CHR ''0'', CHR ''2'', CHR ''8''] @ x)"
          "literal_ok (CHR 0x5C # CHR ''u'' # [CHR ''2'', CHR ''0'', CHR ''2'', CHR ''9''] @ x)" if "literal_ok x" for x
          using that by (intro literal_intros(3); simp add: unhex_def)+
        ultimately show ?thesis
          using unquote_wide [of c cs 3 "escape_html q"] line(2) q t plain(1) by (auto simp: quote_wide_def)
      next
        case same
        have "literal_ok (escape_html t)" using IH [OF plain(4)] literal_intros(1) [OF plain(1-3)] same(1) by simp
        moreover have "unquote (escape_html t) = unquote t"
        proof (cases "rune_size (c # cs)")
          case None
          then show ?thesis using IH [OF plain(4)] same(1) plain(1) escape_rune [of c cs] t by simp
        next
          case (Some n)
          note k = rune_conts [OF Some] and short = rune_size_chunk(2) [OF Some]
          have "literal_ok (drop (n - 1) cs)" using plain(4) literal_high [OF k, of "drop (n - 1) cs"] by simp
          then have "unquote (escape_html (drop (n - 1) cs)) = unquote (drop (n - 1) cs)" using IH by simp
          moreover have "escape_html cs = take (n - 1) cs @ escape_html (drop (n - 1) cs)"
            using escape_cont [OF k, of "drop (n - 1) cs"] by simp
          ultimately show ?thesis using same(1) plain(1) escape_rune [of c cs] t Some short by simp
        qed
        ultimately show ?thesis by blast
      qed
    next
      case (short e d q)
      then have "e \<noteq> CHR ''<''" "e \<noteq> CHR ''>''" "e \<noteq> CHR ''&''" "e \<noteq> CHR 0xE2" by (auto simp: short_escapes_def)
      then have "escape_html t = c # e # escape_html q" using short t by simp
      then show ?thesis using less.IH [of q] short t literal_intros(2) by simp
    next
      case (unicode h q)
      have e: "escape_html t = c # CHR ''u'' # h @ escape_html q" using escape_hex [OF unicode(4)] unicode(1,2) t by simp
      have IH: "unquote (escape_html q) = unquote q" "literal_ok (escape_html q)" using less.IH [of q] unicode t by simp_all
      have "literal_ok (escape_html t)" using e literal_intros(3) [OF unicode(3,4) IH(2)] unicode(1) by simp
      moreover have "unquote (escape_html t) = unquote t"
        using unicode(3,4,5)
      proof (cases rule: u_escape_html)
        case (single r)
        then show ?thesis using e unicode(1-3) t IH(1) by simp
      next
        case (pair r h' q')
        then have "unquote (escape_html q') = unquote q'" using less.IH [of q'] unicode t by simp
        then show ?thesis using e unicode(1-3) t pair by simp
      qed
      ultimately show ?thesis by blast
    qed
  qed (simp add: literal_ok_def)
qed

lemma escaped_document:
  "fits n j \<Longrightarrow> fits n (on_literals escape_html j)"
  "fits n j \<Longrightarrow> on_literals unquote (on_literals escape_html j) = on_literals unquote j"
proof (induction n j rule: fits.induct)
  case (4 n ms)
  { case 1 with 4 show ?case by (fastforce simp: list_all_iff escape_html_literal) }
  { case 2 with 4 show ?case by (fastforce simp: list_all_iff escape_html_literal) }
qed (auto simp: list_all_iff escape_html_literal)

definition markup :: "char \<Rightarrow> bool" where
  "markup c \<longleftrightarrow> c = CHR ''<'' \<or> c = CHR ''>'' \<or> c = CHR ''&''"

abbreviation markup_free :: "bytes \<Rightarrow> bool" where
  "markup_free \<equiv> list_all (\<lambda>c. \<not> markup c)"

lemma no_markup: "is_digit c \<Longrightarrow> \<not> markup c" "128 \<le> byte c \<Longrightarrow> \<not> markup c" "html_safe c \<Longrightarrow> \<not> markup c"
  by (auto simp: markup_def html_safe_def is_digit_def)

lemma no_markup_hex: "n < 16 \<Longrightarrow> \<not> markup (hex_lower n)"
proof -
  have "take_bit 8 (87 + n) = 87 + n" if "n < 16"
    using that by (intro take_bit_nat_eq_self) simp
  then show "n < 16 \<Longrightarrow> ?thesis"
    using no_markup(1) [of "hex_lower n"] by (auto simp: hex_lower_def is_digit_def markup_def char_of_eq_iff)
qed

lemma no_markup_nibbles: "\<not> markup (hex_lower (byte c div 16))" "\<not> markup (hex_lower (byte c mod 16))"
proof -
  have "byte c div 16 < 16" "byte c mod 16 < 16" using nat_of_char_less_256 [of c] by linarith+
  then show "\<not> markup (hex_lower (byte c div 16))" "\<not> markup (hex_lower (byte c mod 16))" by (simp_all only: no_markup_hex not_False_eq_True)
qed

lemma no_markup_chars [simp]:
  "\<not> markup (CHR 0x5C)" "\<not> markup (CHR 0x22)" "\<not> markup (CHR 0x0A)" "\<not> markup (CHR ''a'')" "\<not> markup (CHR ''b'')" "\<not> markup (CHR ''c'')"
  "\<not> markup (CHR ''d'')" "\<not> markup (CHR ''e'')" "\<not> markup (CHR ''f'')" "\<not> markup (CHR ''g'')" "\<not> markup (CHR ''i'')" "\<not> markup (CHR ''k'')"
  "\<not> markup (CHR ''l'')" "\<not> markup (CHR ''m'')" "\<not> markup (CHR ''n'')" "\<not> markup (CHR ''o'')" "\<not> markup (CHR ''p'')" "\<not> markup (CHR ''r'')"
  "\<not> markup (CHR ''s'')" "\<not> markup (CHR ''t'')" "\<not> markup (CHR ''u'')" "\<not> markup (CHR ''v'')" "\<not> markup (CHR ''x'')" "\<not> markup (CHR ''q'')"
  "\<not> markup (CHR ''y'')" "\<not> markup (CHR ''E'')" "\<not> markup (CHR ''j'')" "\<not> markup (CHR ''_'')" "\<not> markup (CHR ''0'')" "\<not> markup (CHR ''2'')"
  "\<not> markup (CHR ''3'')" "\<not> markup (CHR ''8'')" "\<not> markup (CHR ''9'')" "\<not> markup (CHR ''{'')" "\<not> markup (CHR ''}'')" "\<not> markup (CHR ''['')"
  "\<not> markup (CHR '']'')" "\<not> markup (CHR '','')" "\<not> markup (CHR '':'')" "\<not> markup (CHR ''.'')" "\<not> markup (CHR ''-'')" "\<not> markup (CHR ''+'')"
  by (simp_all add: markup_def)

lemma free_escape_html: "markup_free (escape_html t)"
proof (induction t rule: escape_html.induct)
  case (2 c cs)
  then show ?case
    using no_markup_nibbles [of c] by (simp only: escape_html.simps) (simp, simp add: markup_def)
qed simp

lemma free_quote_ascii: "markup_free (quote_ascii c)"
  using no_markup_nibbles [of c] no_markup(3) [of c] by (auto simp: quote_ascii_def)

lemma free_high: "list_all (\<lambda>c. 128 \<le> byte c) s \<Longrightarrow> markup_free s"
  using no_markup(2) by (auto simp: list_all_iff)

lemma free_quote: "markup_free (quote s)"
proof (induction s rule: quote.induct)
  case (2 c cs)
  show ?case
  proof (cases "byte c < 128")
    case True
    then show ?thesis using free_quote_ascii 2(1) by simp
  next
    case False
    show ?thesis
    proof (cases "rune_size (c # cs)")
      case None
      then show ?thesis using 2(2) [OF False] False by simp
    next
      case (Some n)
      have "markup_free (quote_wide (c # take (n - 1) cs))"
        using free_high [OF rune_size_chunk(4) [OF Some False]] by (simp add: quote_wide_def)
      then show ?thesis using 2(3) [OF False Some] False Some by simp
    qed
  qed
qed simp

lemma free_number:
  assumes "number_ok t"
  shows "markup_free t"
proof -
  obtain sg s1 i s2 f s3 e where p: "scan_sign {CHR ''-''} t = (sg, s1)" "scan_int s1 = Parsed i s2" "scan_frac s2 = Parsed f s3"
    "scan_exp s3 = Parsed e []" "t = sg @ i @ f @ e"
    using assms by (auto simp: number_ok_def scan_number_def map_parsed_eq_Parsed split: prod.splits parsed.splits)
  have digits: "markup_free d" if "scan_digits x = Parsed d y" for x d y
    using scan_digits_all [OF that] no_markup(1) by (auto simp: list_all_iff)
  have sign: "markup_free d" if "scan_sign g x = (d, y)" "g \<subseteq> {CHR ''+'', CHR ''-''}" for g x d y
    using that by (auto simp: scan_sign_def split: list.splits if_splits)
  have "markup_free sg" by (rule sign [OF p(1)]) simp
  moreover have "markup_free i"
    using p(2) digits by (auto simp: scan_int_def split: list.splits if_splits)
  moreover have "markup_free f"
    using p(3) by (auto simp: scan_frac_def map_parsed_eq_Parsed dest: digits split: list.splits if_splits)
  moreover have "markup_free e"
    using p(4) sign [of "{CHR ''+'', CHR ''-''}"]
    by (auto simp: scan_exp_def map_parsed_eq_Parsed dest: digits split: list.splits if_splits prod.splits)
  ultimately show ?thesis using p(5) by simp
qed

text \<open>Values without markup in their literals and numbers.\<close>

fun calm :: "json \<Rightarrow> bool" where
  "calm (JNum t) = markup_free t"
| "calm (JStr t) = markup_free t"
| "calm (JArr vs) = list_all calm vs"
| "calm (JObj ms) = list_all (\<lambda>(k, v). markup_free k \<and> calm v) ms"
| "calm j = True"

lemma free_commas: "list_all markup_free xs \<Longrightarrow> markup_free (commas xs)"
  by (induction xs rule: commas.induct) simp_all

lemma render_calm: "calm j \<Longrightarrow> markup_free (render j)"
proof (induction j rule: calm.induct)
  case (3 vs)
  then have "markup_free (commas (map render vs))" by (intro free_commas) (auto simp: list_all_iff)
  then show ?case by simp
next
  case (4 ms)
  have "markup_free (commas (map (\<lambda>(k, v). CHR 0x22 # k @ CHR 0x22 # CHR '':'' # render v) ms))"
  proof (rule free_commas)
    have "markup_free k \<and> markup_free (render v)" if "(k, v) \<in> set ms" for k v
      using 4(1) [OF that, of k v] 4(2) that by (auto simp: list_all_iff)
    then have "markup_free (CHR 0x22 # k @ CHR 0x22 # CHR '':'' # render v)" if "(k, v) \<in> set ms" for k v
      using that by simp
    then show "list_all markup_free (map (\<lambda>(k, v). CHR 0x22 # k @ CHR 0x22 # CHR '':'' # render v) ms)"
      unfolding list_all_iff [of markup_free] by auto
  qed
  then show ?case by simp
qed simp_all

lemma escaped_calm: "fits n j \<Longrightarrow> calm (on_literals escape_html j)"
proof (induction n j rule: fits.induct)
  case (3 n vs)
  then show ?case by (simp add: list_all_iff)
next
  case (4 n ms)
  have "calm (on_literals escape_html v)" if "(k, v) \<in> set ms" for k v
    using 4(1) [OF that, of k v] 4(2) that by (auto simp: list_all_iff)
  then show ?case using free_escape_html by (fastforce simp: list_all_iff [of "\<lambda>(k, v). markup_free k \<and> calm v"])
qed (simp_all add: free_number free_escape_html)

end
