(* ===== verification/Replies.thy ===== *)
theory Replies
  imports Rfc3339 Json_Escape Server Pgstore
begin

text \<open>
  The bytes of replies: what \<^verbatim>\<open>json.NewEncoder(w).Encode\<close> makes of the envelopes of \<^verbatim>\<open>pkg/response/response.go\<close> and of
  the structs of \<^verbatim>\<open>internal/model\<close> in them. Three things are arguments (\<open>texts\<close>): the offsets of the locations of
  the times, the text of a double, and the quoting of \<^verbatim>\<open>%q\<close>.
\<close>

section \<open>Values\<close>

record texts =
  tx_zone :: "int \<Rightarrow> string \<Rightarrow> int" \<comment> \<open>the offset of a time, by the key and the field it is in\<close>
  tx_float :: "rat \<Rightarrow> bytes"
  tx_quote :: "string \<Rightarrow> bytes"

fun join_lines :: "bytes list \<Rightarrow> bytes" where
  "join_lines [] = []"
| "join_lines [s] = s"
| "join_lines (s # ss) = s @ CHR 0x0A # join_lines ss"

text \<open>\<^verbatim>\<open>err.Error()\<close>.\<close>

fun message_text :: "(string \<Rightarrow> bytes) \<Rightarrow> message \<Rightarrow> bytes" where
  "message_text q (Msg s) = s"
| "message_text q (MsgQ a s b) = a @ q s @ b"
| "message_text q (MsgWrap m e) = message_text q m @ '': '' @ message_text q e"
| "message_text q (MsgJoin ms) = join_lines (map (message_text q) ms)"

abbreviation JText :: "bytes \<Rightarrow> json" where
  "JText s \<equiv> JStr (quote s)"

abbreviation JInt :: "int \<Rightarrow> json" where
  "JInt i \<equiv> JNum (FormatInt i)"

definition time_member :: "string \<Rightarrow> (string \<Rightarrow> int) \<Rightarrow> time \<Rightarrow> (bytes \<times> json) list option" where
  "time_member name z t = map_option (\<lambda>s. [(name, JStr s)]) (MarshalTime (z name) t)"

text \<open>A pointer with \<^verbatim>\<open>omitempty\<close>.\<close>

definition optional_time :: "string \<Rightarrow> (string \<Rightarrow> int) \<Rightarrow> time option \<Rightarrow> (bytes \<times> json) list option" where
  "optional_time name z t = (case t of None \<Rightarrow> Some [] | Some t \<Rightarrow> time_member name z t)"

text \<open>Every key has a scope (\<^verbatim>\<open>CreateKey\<close> and \<^verbatim>\<open>Bootstrap\<close> see to it), so a nil slice, written as \<^verbatim>\<open>null\<close>, does not arise.\<close>

definition view_json :: "(string \<Rightarrow> int) \<Rightarrow> ApiKeyView \<Rightarrow> json option" where
  "view_json z v = map_option (\<lambda>mss. JObj (concat mss)) (those
     [Some [(''id'', JInt (View_ID v)), (''name'', JText (View_Name v)), (''rank'', JText (View_Rank v))],
      Some (if View_Key v = [] then [] else [(''key'', JText (View_Key v))]),
      Some [(''scopes'', JArr (map JText (View_Scopes v)))],
      optional_time ''expires_at'' z (View_ExpiresAt v),
      optional_time ''revoked_at'' z (View_RevokedAt v),
      optional_time ''last_used_at'' z (View_LastUsedAt v),
      Some [(''request_count'', JInt (View_RequestCount v))],
      time_member ''created_at'' z (View_CreatedAt v)])"

definition part_json :: "texts \<Rightarrow> StatsPart \<Rightarrow> json" where
  "part_json T p = JObj [(''amount'', JNum (tx_float T (Part_Amount p))), (''count'', JInt (Part_Count p)),
     (''errors'', JInt (Part_Errors p))]"

definition stats_json :: "texts \<Rightarrow> Stats \<Rightarrow> json" where
  "stats_json T s = JObj [(''amount'', JNum (tx_float T (Stats_Amount s))), (''count'', JInt (Stats_Count s)),
     (''errors'', JInt (Stats_Errors s)), (''truemoney'', part_json T (TrueMoney s))]"

definition field_error_json :: "texts \<Rightarrow> FieldError \<Rightarrow> json" where
  "field_error_json T d = JObj [(''field'', JText (Field d)), (''message'', JText (message_text (tx_quote T) (Message d)))]"

definition payload_json :: "texts \<Rightarrow> payload \<Rightarrow> json option" where
  "payload_json T p =
     (case p of
        RawJSON bs \<Rightarrow> map_option (on_literals escape_html) (parse_document bs)
      | KeyView v \<Rightarrow> view_json (tx_zone T (View_ID v)) v
      | KeyViews vs \<Rightarrow> map_option JArr (those (map (\<lambda>v. view_json (tx_zone T (View_ID v)) v) vs))
      | StatsView s \<Rightarrow> Some (stats_json T s))"

section \<open>Envelopes\<close>

text \<open>
  \<open>None\<close> is an error of the encoder. It is dropped by the program, and nothing is written then. The details of a validation
  error are never a nil slice, which would be written as \<^verbatim>\<open>null\<close>: the program makes such an error of at least one field.
\<close>

definition envelope_json :: "texts \<Rightarrow> Envelope \<Rightarrow> json option" where
  "envelope_json T env = map_option (\<lambda>mss. JObj (concat mss)) (those
     [case Env_Data env of None \<Rightarrow> Some [] | Some p \<Rightarrow> map_option (\<lambda>j. [(''data'', j)]) (payload_json T p),
      Some (if Env_Error env = [] then [] else [(''error'', JText (Env_Error env))]),
      Some (case Env_Details env of None \<Rightarrow> [] | Some ds \<Rightarrow> [(''details'', JArr (map (field_error_json T) ds))])])"

definition Encode_bytes :: "texts \<Rightarrow> Envelope \<Rightarrow> bytes" where
  "Encode_bytes T env = (case envelope_json T env of None \<Rightarrow> [] | Some j \<Rightarrow> render j @ [CHR 0x0A])"

definition reply_bytes :: "texts \<Rightarrow> ResponseWriter \<Rightarrow> bytes" where
  "reply_bytes T w = concat (map (Encode_bytes T) (W_Body w))"

lemma reply_one: "W_Body w = [env] \<Longrightarrow> reply_bytes T w = Encode_bytes T env"
  by (simp add: reply_bytes_def)

section \<open>Members\<close>

lemma literal_time: "MarshalTime off t = Some s \<Longrightarrow> literal_ok s"
  using plain_quote [OF MarshalTime_plain, of off t s] literal_quote [of s] by simp

lemma names_of_replies [simp]:
  "literal_ok ''id''" "literal_ok ''key''" "literal_ok ''revoked_at''" "literal_ok ''last_used_at''" "literal_ok ''request_count''"
  "literal_ok ''created_at''" "literal_ok ''amount''" "literal_ok ''count''" "literal_ok ''errors''" "literal_ok ''truemoney''"
  "literal_ok ''error''" "literal_ok ''details''" "literal_ok ''field''" "literal_ok ''message''"
  by (simp_all add: literal_ok_def)

lemma optional_time_literals:
  "time_member name z t = Some ms \<Longrightarrow> literal_ok name \<Longrightarrow> list_all (\<lambda>(k, v). literal_ok k \<and> fits n v) ms"
  "optional_time name z t' = Some ms \<Longrightarrow> literal_ok name \<Longrightarrow> list_all (\<lambda>(k, v). literal_ok k \<and> fits n v) ms"
  by (auto simp: time_member_def optional_time_def literal_time split: option.splits)

lemma texts_fit [simp]: "list_all (fits n) (map JText ss)"
  by (simp add: list_all_iff)

lemma view_json_members:
  assumes "view_json z v = Some j"
  obtains e r l c where "optional_time ''expires_at'' z (View_ExpiresAt v) = Some e"
    "optional_time ''revoked_at'' z (View_RevokedAt v) = Some r" "optional_time ''last_used_at'' z (View_LastUsedAt v) = Some l"
    "time_member ''created_at'' z (View_CreatedAt v) = Some c"
    "j = JObj ([(''id'', JInt (View_ID v)), (''name'', JText (View_Name v)), (''rank'', JText (View_Rank v))] @
      (if View_Key v = [] then [] else [(''key'', JText (View_Key v))]) @ [(''scopes'', JArr (map JText (View_Scopes v)))] @
      e @ r @ l @ [(''request_count'', JInt (View_RequestCount v))] @ c)"
  using assms by (auto simp: view_json_def split: option.splits)

text \<open>
  The times of a view that JSON can hold: in the zone they are written in, the year has four digits and the
  offset less than a day (\<open>MarshalTime_writes\<close>).
\<close>

definition times_writable :: "(string \<Rightarrow> int) \<Rightarrow> ApiKeyView \<Rightarrow> bool" where
  "times_writable z v \<longleftrightarrow>
     (\<forall>t. View_ExpiresAt v = Some t \<longrightarrow> MarshalTime (z ''expires_at'') t \<noteq> None) \<and>
     (\<forall>t. View_RevokedAt v = Some t \<longrightarrow> MarshalTime (z ''revoked_at'') t \<noteq> None) \<and>
     (\<forall>t. View_LastUsedAt v = Some t \<longrightarrow> MarshalTime (z ''last_used_at'') t \<noteq> None) \<and>
     MarshalTime (z ''created_at'') (View_CreatedAt v) \<noteq> None"

lemma view_written: "view_json z v \<noteq> None \<longleftrightarrow> times_writable z v"
  by (auto simp: times_writable_def view_json_def optional_time_def time_member_def split: option.splits)

lemma view_fits:
  assumes "view_json z v = Some j"
  shows "fits 2 j"
  by (rule view_json_members [OF assms])
    (auto dest!: optional_time_literals [where n = 1])

section \<open>Replies are JSON\<close>

text \<open>The law for the text of a double: it is a JSON number.\<close>

definition texts_law :: "texts \<Rightarrow> bool" where
  "texts_law T \<longleftrightarrow> (\<forall>x. number_ok (tx_float T x))"

lemma calm_members:
  "time_member name z t = Some ms \<Longrightarrow> markup_free name \<Longrightarrow> calm (JObj ms)"
  "optional_time name z t' = Some ms \<Longrightarrow> markup_free name \<Longrightarrow> calm (JObj ms)"
proof -
  have time: "markup_free s" if "MarshalTime off t = Some s" for off t s
    using MarshalTime_plain [OF that] no_markup(3) by (auto simp: plain_def list_all_iff)
  then show "time_member name z t = Some ms \<Longrightarrow> markup_free name \<Longrightarrow> calm (JObj ms)"
    "optional_time name z t' = Some ms \<Longrightarrow> markup_free name \<Longrightarrow> calm (JObj ms)"
    by (auto simp: time_member_def optional_time_def split: option.splits)
qed

lemma calm_texts [simp]: "list_all calm (map JText ss)" "markup_free (quote s)" "markup_free (FormatInt i)"
  by (simp_all add: list_all_iff [of calm] free_quote free_number)

lemma view_calm:
  assumes "view_json z v = Some j"
  shows "calm j"
  by (rule view_json_members [OF assms]) (auto dest!: calm_members)

lemma views_listed:
  assumes "those (map f vs) = Some js" and "\<And>v j. f v = Some j \<Longrightarrow> P j"
  shows "list_all P js"
  using those_map_all [OF assms(1)] assms(2) by (induction rule: list_all2_induct) auto

lemma payload_fits:
  assumes "payload_json T p = Some j" and "texts_law T"
  shows "fits maxNestingDepth j" "calm j" "(\<nexists>bs. p = RawJSON bs) \<Longrightarrow> fits 3 j"
proof -
  have "fits maxNestingDepth j \<and> calm j \<and> ((\<nexists>bs. p = RawJSON bs) \<longrightarrow> fits 3 j)"
  proof (cases p)
    case (RawJSON bs)
    then obtain d where "parse_document bs = Some d" "j = on_literals escape_html d" using assms(1) by (auto simp: payload_json_def)
    then show ?thesis using document_fits escaped_document(1) escaped_calm RawJSON by blast
  next
    case (KeyView v)
    then have "view_json (tx_zone T (View_ID v)) v = Some j" using assms(1) by (simp add: payload_json_def)
    then show ?thesis using view_fits view_calm fits_mono [of 2 j] by auto
  next
    case (KeyViews vs)
    then obtain js where js: "those (map (\<lambda>v. view_json (tx_zone T (View_ID v)) v) vs) = Some js" "j = JArr js"
      using assms(1) by (auto simp: payload_json_def)
    then have "list_all (fits 2) js" "list_all calm js" using view_fits view_calm by (auto intro: views_listed)
    moreover from this have "fits 3 j" using js(2) by simp
    ultimately show ?thesis using js(2) fits_mono [of 3 j maxNestingDepth] by simp
  next
    case (StatsView s)
    then have j: "j = stats_json T s" using assms(1) by (simp add: payload_json_def)
    have num: "number_ok (tx_float T x)" "markup_free (tx_float T x)" for x
      using assms(2) free_number by (simp_all add: texts_law_def)
    have "fits 3 j" "calm j" unfolding j by (simp_all add: stats_json_def part_json_def num)
    then show ?thesis using fits_mono [of 3 j] by auto
  qed
  then show "fits maxNestingDepth j" "calm j" "(\<nexists>bs. p = RawJSON bs) \<Longrightarrow> fits 3 j" by blast+
qed

lemma details_fit: "fits (Suc (Suc n)) (JArr (map (field_error_json T) ds))" "calm (JArr (map (field_error_json T) ds))"
  by (simp_all add: list_all_iff [of "fits _"] list_all_iff [of calm] field_error_json_def)

lemma envelope_fits:
  assumes "envelope_json T env = Some j" and "texts_law T"
  shows "fits (Suc maxNestingDepth) j" "calm j" "(\<nexists>bs. Env_Data env = Some (RawJSON bs)) \<Longrightarrow> fits maxNestingDepth j"
proof -
  obtain ds where d: "(case Env_Data env of None \<Rightarrow> Some [] | Some p \<Rightarrow> map_option (\<lambda>j. [(''data'', j)]) (payload_json T p)) = Some ds"
    and j: "j = JObj (ds @ (if Env_Error env = [] then [] else [(''error'', JText (Env_Error env))]) @
      (case Env_Details env of None \<Rightarrow> [] | Some ds \<Rightarrow> [(''details'', JArr (map (field_error_json T) ds))]))"
    using assms(1) by (auto simp: envelope_json_def split: option.splits)
  have data: "list_all (\<lambda>(k, v). literal_ok k \<and> fits maxNestingDepth v \<and> markup_free k \<and> calm v \<and>
      ((\<nexists>bs. Env_Data env = Some (RawJSON bs)) \<longrightarrow> fits 3 v)) ds"
    using d payload_fits [OF _ assms(2)] by (auto split: option.splits)
  define rest where "rest = (if Env_Error env = [] then [] else [(''error'', JText (Env_Error env))]) @
      (case Env_Details env of None \<Rightarrow> [] | Some ds \<Rightarrow> [(''details'', JArr (map (field_error_json T) ds))])"
  have errs: "fits (Suc (Suc n)) (JArr (map (field_error_json T) es))" "calm (JArr (map (field_error_json T) es))" for n es
    by (rule details_fit)+
  have rest: "list_all (\<lambda>(k, v). literal_ok k \<and> fits (Suc (Suc n)) v \<and> markup_free k \<and> calm v) rest" for n
    using errs by (simp add: rest_def del: fits.simps(3) calm.simps(3) split: option.split)
  have j: "j = JObj (ds @ rest)" by (simp only: j rest_def)
  have n: "maxNestingDepth = Suc (Suc 9998)" "maxNestingDepth - 1 = Suc (Suc 9997)" by simp_all
  show "fits (Suc maxNestingDepth) j" "calm j"
    using data rest [of 9998] unfolding j n(1) [symmetric] by (auto simp: list_all_iff)
  show "fits maxNestingDepth j" if "\<nexists>bs. Env_Data env = Some (RawJSON bs)"
    using data rest [of 9997] that fits_mono [of 3 _ "maxNestingDepth - 1"] unfolding j n(2) [symmetric] by (auto simp: list_all_iff)
qed

lemma parse_reply:
  assumes "envelope_json T env = Some j" and "fits n j"
  shows "parse_value n (Encode_bytes T env) = Parsed j [CHR 0x0A]"
  using assms parse_render [of n j "[CHR 0x0A]"] by (simp add: Encode_bytes_def number_end_def is_digit_def)

lemma parse_reply_document:
  assumes "envelope_json T env = Some j" and "fits maxNestingDepth j"
  shows "parse_document (Encode_bytes T env) = Some j"
  using parse_reply [OF assms] by (simp add: parse_document_def is_space_def)

text \<open>
  No reply holds markup. Whatever the program writes into a response, and however much of it comes from clients or
  from the upstream, no byte of a reply is one of the characters that HTML gives a meaning.
\<close>

theorem replies_markup_free:
  assumes "texts_law T"
  shows "\<forall>c \<in> set (reply_bytes T w). c \<noteq> CHR ''<'' \<and> c \<noteq> CHR ''>'' \<and> c \<noteq> CHR ''&''"
proof -
  have "markup_free (Encode_bytes T env)" for env
    using render_calm envelope_fits(2) [OF _ assms] by (auto simp: Encode_bytes_def split: option.split)
  then show ?thesis by (auto simp: reply_bytes_def list_all_iff markup_def)
qed

section \<open>Reading a key back\<close>

text \<open>How \<^verbatim>\<open>json.Unmarshal\<close> stores a view: the struct tags of \<^verbatim>\<open>model.ApiKeyView\<close>, from the reader's side.\<close>

definition decode_int :: "json \<Rightarrow> int \<Rightarrow> int option" where
  "decode_int j old =
     (case j of
        JNull \<Rightarrow> Some old
      | JNum t \<Rightarrow> (case ParseInt t of (i, None) \<Rightarrow> Some i | (i, Some err) \<Rightarrow> None)
      | _ \<Rightarrow> None)"

definition decode_time :: "json \<Rightarrow> time \<Rightarrow> time option" where
  "decode_time j old = (case j of JNull \<Rightarrow> Some old | JStr raw \<Rightarrow> parseRFC3339 raw | _ \<Rightarrow> None)"

definition decode_time_pointer :: "json \<Rightarrow> time option option" where
  "decode_time_pointer j = (case j of JNull \<Rightarrow> Some None | _ \<Rightarrow> map_option Some (decode_time j 0))"

definition decode_strings :: "json \<Rightarrow> string list \<Rightarrow> string list option" where
  "decode_strings j old = (case j of JNull \<Rightarrow> Some [] | JArr js \<Rightarrow> fill old js | _ \<Rightarrow> None)"

definition view_fields :: "ApiKeyView fields" where
  "view_fields =
     [(''ID'', \<lambda>j a. map_option (\<lambda>x. a\<lparr>View_ID := x\<rparr>) (decode_int j (View_ID a))),
      (''NAME'', \<lambda>j a. map_option (\<lambda>x. a\<lparr>View_Name := x\<rparr>) (decode_string j (View_Name a))),
      (''RANK'', \<lambda>j a. map_option (\<lambda>x. a\<lparr>View_Rank := x\<rparr>) (decode_string j (View_Rank a))),
      (''KEY'', \<lambda>j a. map_option (\<lambda>x. a\<lparr>View_Key := x\<rparr>) (decode_string j (View_Key a))),
      (''SCOPES'', \<lambda>j a. map_option (\<lambda>x. a\<lparr>View_Scopes := x\<rparr>) (decode_strings j (View_Scopes a))),
      (''EXPIRES_AT'', \<lambda>j a. map_option (\<lambda>x. a\<lparr>View_ExpiresAt := x\<rparr>) (decode_time_pointer j)),
      (''REVOKED_AT'', \<lambda>j a. map_option (\<lambda>x. a\<lparr>View_RevokedAt := x\<rparr>) (decode_time_pointer j)),
      (''LAST_USED_AT'', \<lambda>j a. map_option (\<lambda>x. a\<lparr>View_LastUsedAt := x\<rparr>) (decode_time_pointer j)),
      (''REQUEST_COUNT'', \<lambda>j a. map_option (\<lambda>x. a\<lparr>View_RequestCount := x\<rparr>) (decode_int j (View_RequestCount a))),
      (''CREATED_AT'', \<lambda>j a. map_option (\<lambda>x. a\<lparr>View_CreatedAt := x\<rparr>) (decode_time j (View_CreatedAt a)))]"

definition zero_view :: ApiKeyView where
  "zero_view = \<lparr>View_ID = 0, View_Name = [], View_Rank = [], View_Key = [], View_Scopes = [], View_ExpiresAt = None,
     View_RevokedAt = None, View_LastUsedAt = None, View_RequestCount = 0, View_CreatedAt = 0\<rparr>"

definition read_view :: "json \<Rightarrow> ApiKeyView option" where
  "read_view j = decode_struct True view_fields j zero_view"

text \<open>What the types of the code and the tables give of a view, and zones of whole minutes.\<close>

definition view_typed :: "(string \<Rightarrow> int) \<Rightarrow> ApiKeyView \<Rightarrow> bool" where
  "view_typed z v \<longleftrightarrow> is_int64 (View_ID v) \<and> is_int64 (View_RequestCount v) \<and> valid_utf8 (View_Name v) \<and> valid_utf8 (View_Rank v) \<and>
     valid_utf8 (View_Key v) \<and> list_all valid_utf8 (View_Scopes v) \<and>
     list_all (\<lambda>f. 60 dvd z f) [''expires_at'', ''revoked_at'', ''last_used_at'', ''created_at'']"

lemma upper_more [simp]:
  "upper (CHR ''q'') = CHR ''Q''" "upper (CHR ''y'') = CHR ''Y''"
  by (simp_all add: upper_def char_of_def bit_iff_odd)

lemma decode_append:
  "decode_members strict fs (ms @ ms') a = Option.bind (decode_members strict fs ms a) (decode_members strict fs ms')"
  by (induction strict fs ms a rule: decode_members.induct) (auto split: option.split)

lemma decode_int_format: "is_int64 i \<Longrightarrow> decode_int (JInt i) old = Some i"
  by (simp add: decode_int_def ParseInt_FormatInt)

lemma decode_time_members:
  assumes "60 dvd z name"
  shows "time_member name z t = Some ms \<Longrightarrow> \<exists>s. ms = [(name, JStr s)] \<and> (\<forall>old. decode_time (JStr s) old = Some t)"
    "optional_time name z t' = Some ms \<Longrightarrow> t' = None \<and> ms = [] \<or>
      (\<exists>s. ms = [(name, JStr s)] \<and> decode_time_pointer (JStr s) = Some t')"
  using assms parse_MarshalTime
  by (auto simp: time_member_def optional_time_def decode_time_def decode_time_pointer_def split: option.splits)

lemma view_names [simp]:
  "unquote ''id'' = ''id''" "unquote ''name'' = ''name''" "unquote ''rank'' = ''rank''" "unquote ''key'' = ''key''"
  "unquote ''scopes'' = ''scopes''" "unquote ''expires_at'' = ''expires_at''" "unquote ''revoked_at'' = ''revoked_at''"
  "unquote ''last_used_at'' = ''last_used_at''" "unquote ''request_count'' = ''request_count''" "unquote ''created_at'' = ''created_at''"
  by simp_all

lemma read_view_json:
  assumes "view_json z v = Some j" and "view_typed z v"
  shows "read_view j = Some v"
proof (rule view_json_members [OF assms(1)])
  fix e r l c
  assume t: "optional_time ''expires_at'' z (View_ExpiresAt v) = Some e"
    "optional_time ''revoked_at'' z (View_RevokedAt v) = Some r" "optional_time ''last_used_at'' z (View_LastUsedAt v) = Some l"
    "time_member ''created_at'' z (View_CreatedAt v) = Some c"
    and j: "j = JObj ([(''id'', JInt (View_ID v)), (''name'', JText (View_Name v)), (''rank'', JText (View_Rank v))] @
      (if View_Key v = [] then [] else [(''key'', JText (View_Key v))]) @ [(''scopes'', JArr (map JText (View_Scopes v)))] @
      e @ r @ l @ [(''request_count'', JInt (View_RequestCount v))] @ c)"
  have z: "60 dvd z ''expires_at''" "60 dvd z ''revoked_at''" "60 dvd z ''last_used_at''" "60 dvd z ''created_at''"
    using assms(2) by (simp_all add: view_typed_def)
  have typed: "is_int64 (View_ID v)" "is_int64 (View_RequestCount v)" "valid_utf8 (View_Name v)" "valid_utf8 (View_Rank v)"
    "valid_utf8 (View_Key v)" "list_all valid_utf8 (View_Scopes v)"
    using assms(2) by (simp_all add: view_typed_def)
  let ?d = "decode_members True view_fields"
  have e: "?d e a = Some (a\<lparr>View_ExpiresAt := View_ExpiresAt v\<rparr>)" if "View_ExpiresAt a = None" for a
    using decode_time_members(2) [OF z(1) t(1)] that by (auto simp: view_fields_def)
  have r: "?d r a = Some (a\<lparr>View_RevokedAt := View_RevokedAt v\<rparr>)" if "View_RevokedAt a = None" for a
    using decode_time_members(2) [OF z(2) t(2)] that by (auto simp: view_fields_def)
  have l: "?d l a = Some (a\<lparr>View_LastUsedAt := View_LastUsedAt v\<rparr>)" if "View_LastUsedAt a = None" for a
    using decode_time_members(2) [OF z(3) t(3)] that by (auto simp: view_fields_def)
  have c: "?d c a = Some (a\<lparr>View_CreatedAt := View_CreatedAt v\<rparr>)" for a
    using decode_time_members(1) [OF z(4) t(4)] by (auto simp: view_fields_def)
  have start: "?d [(''id'', JInt (View_ID v)), (''name'', JText (View_Name v)), (''rank'', JText (View_Rank v))] zero_view =
      Some (zero_view\<lparr>View_ID := View_ID v, View_Name := View_Name v, View_Rank := View_Rank v\<rparr>)"
    using typed by (simp add: view_fields_def decode_int_format decode_string_quote)
  have key: "?d (if View_Key v = [] then [] else [(''key'', JText (View_Key v))]) a = Some (a\<lparr>View_Key := View_Key v\<rparr>)"
    if "View_Key a = []" for a
    using typed that by (simp add: view_fields_def decode_string_quote)
  have scopes: "?d [(''scopes'', JArr (map JText (View_Scopes v)))] a = Some (a\<lparr>View_Scopes := View_Scopes v\<rparr>)" for a
    using fill_quoted [OF typed(6)] by (simp add: view_fields_def decode_strings_def)
  have count: "?d [(''request_count'', JInt (View_RequestCount v))] a = Some (a\<lparr>View_RequestCount := View_RequestCount v\<rparr>)" for a
    using typed by (simp add: view_fields_def decode_int_format)
  show "read_view j = Some v"
    unfolding read_view_def j decode_object decode_append start
    by (simp add: key scopes e r l count c zero_view_def del: decode_members.simps)
qed

section \<open>The replies of the routes\<close>

lemma reply_data: "W_Body w = [] \<Longrightarrow> reply_bytes T (response_JSON st p w) = Encode_bytes T \<lparr>Env_Data = Some p, Env_Error = [], Env_Details = None\<rparr>"
  by (simp add: reply_one)

lemma envelope_data:
  "envelope_json T \<lparr>Env_Data = Some p, Env_Error = [], Env_Details = None\<rparr> = map_option (\<lambda>j. JObj [(''data'', j)]) (payload_json T p)"
  by (simp add: envelope_json_def map_option.compositionality comp_def split: option.split)

lemma new_writer_body [simp]: "W_Body new_writer = []"
  by (simp add: new_writer_def)

lemma decodeJSON_outcome:
  assumes "decodeJSON dec r new_writer = ((err, v), w)"
  shows "err = None \<and> v \<noteq> None \<and> w = new_writer \<or> (\<exists>h. W_Wrote w = Some (400, h))"
  using assms by (auto simp: decodeJSON_def split: sum.splits if_splits)

lemma fail_with_status:
  assumes "fail_with e s x = (f, s', w)"
  shows "W_Wrote x = Some y \<Longrightarrow> W_Wrote w = Some y" "W_Wrote x = None \<Longrightarrow> status_of w \<noteq> Some 200 \<and> status_of w \<noteq> Some 201"
proof -
  have w: "w = x \<or> w = writeServiceError e x" using assms by (auto simp: fail_with_def split: if_splits)
  then show "W_Wrote x = Some y \<Longrightarrow> W_Wrote w = Some y" by auto
  assume x: "W_Wrote x = None"
  then have "status_of x = None" by (simp add: status_of_def)
  moreover have "status_of (writeServiceError e x) = Some (error_status e)" using x by simp
  moreover have "error_status e \<noteq> 200" "error_status e \<noteq> 201" by (simp_all add: error_status_def)
  ultimately show "status_of w \<noteq> Some 200 \<and> status_of w \<noteq> Some 201" using w by auto
qed

lemma view_json_keyless: "view_json z v = Some (JObj ms) \<Longrightarrow> View_Key v = [] \<Longrightarrow> ''key'' \<notin> fst ` set ms"
  by (erule view_json_members)
    (auto simp: time_member_def optional_time_def image_Un split: option.splits)

lemma listing_read_back:
  assumes "ListKeys repo s = Inr vs" and "texts_law T"
    and "\<forall>v \<in> set vs. view_json (tx_zone T (View_ID v)) v \<noteq> None \<and> view_typed (tx_zone T (View_ID v)) v"
  shows "\<exists>js. parse_document (reply_bytes T (snd (snd (KeyHandler_List repo r s new_writer)))) = Some (JObj [(''data'', JArr js)]) \<and>
    map read_view js = map Some vs \<and> (\<forall>ms. JObj ms \<in> set js \<longrightarrow> ''key'' \<notin> fst ` set ms)"
proof -
  let ?f = "\<lambda>v. view_json (tx_zone T (View_ID v)) v"
  have "those (map ?f vs) \<noteq> None" using assms(3) by (auto simp: those_None)
  then obtain js where js: "those (map ?f vs) = Some js" by blast
  note all = those_map_all [OF js]
  have "payload_json T (KeyViews vs) = Some (JArr js)" using js by (simp add: payload_json_def)
  then have env: "envelope_json T \<lparr>Env_Data = Some (KeyViews vs), Env_Error = [], Env_Details = None\<rparr> = Some (JObj [(''data'', JArr js)])"
    by (simp add: envelope_data)
  have "snd (snd (KeyHandler_List repo r s new_writer)) = response_JSON 200 (KeyViews vs) new_writer"
    using assms(1) by (simp add: KeyHandler_List_def)
  then have "parse_document (reply_bytes T (snd (snd (KeyHandler_List repo r s new_writer)))) = Some (JObj [(''data'', JArr js)])"
    using parse_reply_document [OF env envelope_fits(3) [OF env assms(2)]] by (simp add: reply_data)
  moreover have "map read_view js = map Some vs"
  proof (rule nth_equalityI)
    show "length (map read_view js) = length (map Some vs)" using all by (simp add: list_all2_lengthD)
    fix i
    assume "i < length (map read_view js)"
    then have i: "i < length vs" "i < length js" using all by (simp_all add: list_all2_lengthD)
    then have "read_view (js ! i) = Some (vs ! i)"
      using assms(3) list_all2_nthD [OF all i(1)] read_view_json nth_mem [OF i(1)] by blast
    then show "map read_view js ! i = map Some vs ! i" using i by simp
  qed
  moreover have "''key'' \<notin> fst ` set ms" if member: "JObj ms \<in> set js" for ms
  proof -
    obtain v where "v \<in> set vs" "?f v = Some (JObj ms)" using those_all [OF js member] by (auto dest: sym)
    moreover from this have "View_Key v = []" using assms(1) by (auto simp: ListKeys_def viewFrom_def split: sum.splits)
    ultimately show ?thesis using view_json_keyless by blast
  qed
  ultimately show ?thesis by blast
qed

lemma unwritable_list:
  assumes "ListKeys repo s = Inr vs" and "v \<in> set vs" and "view_json (tx_zone T (View_ID v)) v = None"
  shows "\<exists>w. KeyHandler_List repo r s new_writer = (Returned, s, w) \<and> status_of w = Some 200 \<and> reply_bytes T w = []"
proof -
  have "those (map (\<lambda>v. view_json (tx_zone T (View_ID v)) v) vs) = None" using assms(2,3) by (force simp: those_None)
  then have "payload_json T (KeyViews vs) = None" by (simp add: payload_json_def)
  then have "reply_bytes T (response_JSON 200 (KeyViews vs) new_writer) = []"
    by (simp add: reply_data Encode_bytes_def envelope_data)
  then show ?thesis using assms(1) by (simp add: KeyHandler_List_def status_of_def)
qed

text \<open>
  C30: The reply of the listing is the listing. Let the keys of the store be of their Go types, their texts in UTF-8 and the
  zones of whole minutes. If the times of all keys can be written, the reply is 200 and its bytes, read back with the struct
  tags of a view, are exactly the keys the store has, in order, instants and counts included, and no object in it has a
  member for the plaintext. If the times of one key cannot be written, the reply is 200 all the same, with an empty body:
  the encoder's error is dropped.
\<close>

theorem KeyHandler_List_reply:
  assumes "ListKeys repo s = Inr vs" and "texts_law T" and "\<forall>v \<in> set vs. view_typed (tx_zone T (View_ID v)) v"
    and "KeyHandler_List repo r s new_writer = (f, s', w)"
  shows "f = Returned \<and> s' = s \<and> status_of w = Some 200 \<and>
    (if \<forall>v \<in> set vs. times_writable (tx_zone T (View_ID v)) v
     then \<exists>js. parse_document (reply_bytes T w) = Some (JObj [(''data'', JArr js)]) \<and>
       map read_view js = map Some vs \<and> (\<forall>ms. JObj ms \<in> set js \<longrightarrow> ''key'' \<notin> fst ` set ms)
     else reply_bytes T w = [])"
proof (cases "\<forall>v \<in> set vs. times_writable (tx_zone T (View_ID v)) v")
  case True
  then have "\<forall>v \<in> set vs. view_json (tx_zone T (View_ID v)) v \<noteq> None \<and> view_typed (tx_zone T (View_ID v)) v"
    using assms(3) view_written by blast
  from listing_read_back [OF assms(1,2) this, of r] show ?thesis
    using True assms(1,4) by (auto simp: KeyHandler_List_def status_of_def)
next
  case False
  then obtain v where "v \<in> set vs" "view_json (tx_zone T (View_ID v)) v = None" using view_written by blast
  from unwritable_list [OF assms(1) this, of r] show ?thesis using False assms(4) by auto
qed

lemma RawURLEncoding_ascii: "list_all (\<lambda>c. byte c < 128) (RawURLEncoding bs)"
proof -
  have "list_all (\<lambda>n. n < 256) (map of_char bs :: nat list)" by (simp add: list_all_iff)
  then have "set (RawURLEncoding bs) \<subseteq> set b64_alphabet"
    unfolding RawURLEncoding_def set_map by (intro image_subsetI b64_char_in b64_groups_small)
  moreover have "list_all (\<lambda>c. byte c < 128) b64_alphabet" by (simp add: b64_alphabet_def)
  ultimately show ?thesis by (auto simp: list_all_iff)
qed

text \<open>What a creation answered with 201 has stored, and the plaintext it shows.\<close>

lemma created_key:
  assumes "keystore_inv s" and "nextID s < MaxInt64" and "CreateKey memory_repo rd i s = (Inr v, s')"
    and "\<And>bs. entropy rd = Inr bs \<Longrightarrow> length bs = 32"
  obtains k where "KeyStore_GetByHash (Hash (View_Key v)) s' = Inr k" "v = viewFrom k (View_Key v)" "RevokedAt k = None"
    "LastUsedAt k = None" "View_Key v \<noteq> []" "unquote (quote (View_Key v)) = View_Key v"
proof -
  obtain k where k: "KeyStore_GetByHash (Hash (View_Key v)) s' = Inr k" "v = viewFrom k (View_Key v)" "RevokedAt k = None"
    using mks.CreateKey_then_get [OF assms(1,2,3)] by auto
  have "View_LastUsedAt v = None"
    by (rule mks.CreateKey_success [OF assms(1,2,3)]) (simp add: viewFrom_def new_key_def)
  then have "LastUsedAt k = None" using k(2) by (metis ApiKeyView.select_convs(8) viewFrom_def)
  moreover have "\<exists>bs. View_Key v = RawURLEncoding bs \<and> length bs = 32"
    using assms(3,4) by (auto simp: CreateKey_def Generate_def viewFrom_def split: sum.splits prod.splits)
  then obtain bs where bs: "View_Key v = RawURLEncoding bs" "length bs = 32" by blast
  have "View_Key v \<noteq> []" "unquote (quote (View_Key v)) = View_Key v"
    using bs(2) RawURLEncoding_ascii [of bs] unfolding bs(1)
    by (auto simp: unquote_quote to_valid_id valid_utf8_ascii RawURLEncoding_def length_b64_groups simp flip: length_0_conv)
  ultimately show thesis using that k by blast
qed

lemma created_reply:
  assumes "KeyHandler_Create dec repo rd r s new_writer = (f, s', w)" and "status_of w = Some 201"
  obtains i v where "CreateKey repo rd i s = (Inr v, s')" "w = response_JSON 201 (KeyView v) new_writer"
proof -
  obtain err inp w1 where d: "decodeJSON dec r new_writer = ((err, inp), w1)" by (metis prod.exhaust)
  have "W_Wrote w1 \<noteq> Some (400, h)" for h
  proof
    assume h: "W_Wrote w1 = Some (400, h)"
    have "W_Wrote w = Some (400, h)"
      using assms(1) d h fail_with_status(1) [OF _ h] by (auto simp: KeyHandler_Create_def split: option.splits prod.splits sum.splits)
    then show False using assms(2) by (simp add: status_of_def)
  qed
  then obtain i where "decodeJSON dec r new_writer = ((None, Some i), new_writer)" using d decodeJSON_outcome [OF d] by auto
  then show thesis
    using that assms fail_with_status(2) [where x = new_writer]
    by (fastforce simp: KeyHandler_Create_def split: prod.splits sum.splits)
qed

text \<open>
  C29: The key in the reply of a creation works. For every request answered with 201, a key is in the store that is not
  revoked. If the times of its view can be written, the bytes of the reply are an object with that view, and what a client
  reads from its member \<^verbatim>\<open>key\<close> is the plaintext whose hash finds the key. If they cannot (an expiry whose year in its zone
  has five digits), the body of the reply is empty: the key is stored and its plaintext is lost.
\<close>

theorem KeyHandler_Create_reply:
  assumes "keystore_inv s" and "nextID s < MaxInt64" and "KeyHandler_Create dec memory_repo rd r s new_writer = (f, s', w)"
    and "status_of w = Some 201" and "texts_law T" and "\<And>bs. entropy rd = Inr bs \<Longrightarrow> length bs = 32"
  shows "\<exists>k plain. KeyStore_GetByHash (Hash plain) s' = Inr k \<and> RevokedAt k = None \<and>
    (if times_writable (tx_zone T (ID k)) (viewFrom k plain)
     then \<exists>ms raw. parse_document (reply_bytes T w) = Some (JObj [(''data'', JObj ms)]) \<and> map_of ms ''key'' = Some (JStr raw) \<and>
       unquote raw = plain \<and> view_json (tx_zone T (ID k)) (viewFrom k plain) = Some (JObj ms)
     else reply_bytes T w = [])"
proof -
  obtain i v where cr: "CreateKey memory_repo rd i s = (Inr v, s')" and w: "w = response_JSON 201 (KeyView v) new_writer"
    by (rule created_reply [OF assms(3,4)])
  obtain k where k: "KeyStore_GetByHash (Hash (View_Key v)) s' = Inr k" "v = viewFrom k (View_Key v)" "RevokedAt k = None"
    "View_Key v \<noteq> []" "unquote (quote (View_Key v)) = View_Key v"
    by (rule created_key [OF assms(1,2) cr assms(6)])
  have id: "View_ID v = ID k" using k(2) by (metis ApiKeyView.select_convs(1) viewFrom_def)
  let ?env = "\<lparr>Env_Data = Some (KeyView v), Env_Error = [], Env_Details = None\<rparr>"
  have bytes: "reply_bytes T w = Encode_bytes T ?env" unfolding w by (simp add: reply_data)
  have env: "envelope_json T ?env = map_option (\<lambda>j. JObj [(''data'', j)]) (view_json (tx_zone T (ID k)) v)"
    by (simp add: envelope_data payload_json_def id)
  show ?thesis
  proof (cases "view_json (tx_zone T (ID k)) v")
    case None
    then have "\<not> times_writable (tx_zone T (ID k)) (viewFrom k (View_Key v))" using view_written k(2) by metis
    moreover have "reply_bytes T w = []" using bytes env None by (simp add: Encode_bytes_def)
    ultimately show ?thesis using k(1,3) by (intro exI [of _ k] exI [of _ "View_Key v"]) simp
  next
    case (Some j)
    obtain ms where ms: "j = JObj ms" "map_of ms ''key'' = Some (JText (View_Key v))"
      by (rule view_json_members [OF Some]) (use k(4) in simp)
    have e: "envelope_json T ?env = Some (JObj [(''data'', JObj ms)])" using env Some ms(1) by simp
    have "parse_document (reply_bytes T w) = Some (JObj [(''data'', JObj ms)])"
      using parse_reply_document [OF e envelope_fits(3) [OF e assms(5)]] bytes by simp
    moreover have "times_writable (tx_zone T (ID k)) (viewFrom k (View_Key v))" using view_written Some k(2) by (metis option.distinct(1))
    moreover have "view_json (tx_zone T (ID k)) (viewFrom k (View_Key v)) = Some (JObj ms)" using Some ms(1) k(2) by simp
    ultimately show ?thesis using k(1,3,5) ms(2)
      by (intro exI [of _ k] exI [of _ "View_Key v"]) auto
  qed
qed

lemma tw_service_answer:
  assumes "tw_service d cfg req st = (Inr res, st')"
  shows "\<exists>hr. redeem_request (NewClient (TrueMoneyBaseURL cfg) (TrueMoneyTimeout cfg)) (dep_net d) req = Inr hr \<and>
    redeem_response (dep_net d) (fst (http_Do (dep_net d) (httpc_Timeout (NewClient (TrueMoneyBaseURL cfg) (TrueMoneyTimeout cfg))) hr (w_net st))) = Inr res"
  using assms
  by (auto simp: tw_service_def TwService_Redeem_def Coalesced_Redeem_eq callers_def Client_Redeem_def Let_def
      split: option.splits prod.splits sum.splits)

lemma redeem_response_document:
  assumes "redeem_response (go_upstream check is_ipv6 net) answer = Inr res"
  shows "\<exists>resp j. answer = Inr resp \<and> ReadAll_Limit (2 ^ 20) (resp_body resp) = Inr (Data res) \<and> parse_document (Data res) = Some j"
  using assms
  by (auto simp: redeem_response_def go_upstream_def tm_Unmarshal_def split: sum.splits if_splits option.splits)

lemma redeem_answered:
  assumes "h r st new_writer = (f, st', w)" and "status_of w = Some 200" and "h = RedeemGet svc \<or> h = RedeemPost dec svc"
  shows "\<exists>req res s1. svc req st = (Inr res, s1) \<and> w = response_JSON 200 (RawJSON (Data res)) new_writer"
  using assms(3)
proof
  assume "h = RedeemGet svc"
  then show ?thesis using assms(1,2) fail_with_status(2) [where x = new_writer]
    by (fastforce simp: RedeemGet_def status_of_def [of "response_Error _ _ _"] split: sum.splits prod.splits)
next
  assume h: "h = RedeemPost dec svc"
  obtain err v w1 where d: "decodeJSON dec r new_writer = ((err, v), w1)" by (metis prod.exhaust)
  have "W_Wrote w1 \<noteq> Some (400, y)" for y
  proof
    assume y: "W_Wrote w1 = Some (400, y)"
    have "W_Wrote w = Some (400, y)"
      using assms(1) d h y fail_with_status(1) [OF _ y] by (auto simp: RedeemPost_def split: option.splits prod.splits sum.splits)
    then show False using assms(2) by (simp add: status_of_def)
  qed
  then obtain i where i: "decodeJSON dec r new_writer = ((None, Some i), new_writer)" using d decodeJSON_outcome [OF d] by auto
  then show ?thesis using assms(1,2) h fail_with_status(2) [where x = new_writer]
    by (fastforce simp: RedeemPost_def split: sum.splits prod.splits)
qed

text \<open>
  C31: A redemption hands the upstream's answer through. For every redemption answered with 200, the upstream was asked and its answer is a JSON
  document; the reply's bytes are one JSON object with that document as its only member: the same members in the same order,
  the same numbers, and every string reads as the same text, while no byte of the reply is one of the characters that HTML
  gives a meaning, even where the upstream's answer has them.
\<close>

theorem Redeem_reply:
  assumes "h = RedeemGet (tw_service d cfg) \<or> h = RedeemPost dec (tw_service d cfg)" and "dep_net d = go_upstream check is_ipv6 net"
    and "h r st new_writer = (f, st', w)" and "status_of w = Some 200" and "texts_law T"
  shows "\<exists>timeout hr resp bs j j'. fst (net timeout hr (w_net st)) = Inr resp \<and> ReadAll_Limit (2 ^ 20) (resp_body resp) = Inr bs \<and>
    parse_document bs = Some j \<and> parse_value (Suc maxNestingDepth) (reply_bytes T w) = Parsed (JObj [(''data'', j')]) [CHR 0x0A] \<and>
    on_literals unquote j' = on_literals unquote j \<and>
    (\<forall>c \<in> set (reply_bytes T w). c \<noteq> CHR ''<'' \<and> c \<noteq> CHR ''>'' \<and> c \<noteq> CHR ''&'')"
proof -
  obtain req s1 res where call: "tw_service d cfg req st = (Inr res, s1)" and w: "w = response_JSON 200 (RawJSON (Data res)) new_writer"
    using redeem_answered [OF assms(3,4,1)] by blast
  obtain hr where ans: "redeem_response (dep_net d) (fst (http_Do (dep_net d)
      (httpc_Timeout (NewClient (TrueMoneyBaseURL cfg) (TrueMoneyTimeout cfg))) hr (w_net st))) = Inr res"
    using tw_service_answer [OF call] by blast
  obtain resp j where r: "fst (net (httpc_Timeout (NewClient (TrueMoneyBaseURL cfg) (TrueMoneyTimeout cfg))) hr (w_net st)) = Inr resp"
    "ReadAll_Limit (2 ^ 20) (resp_body resp) = Inr (Data res)" "parse_document (Data res) = Some j"
    using redeem_response_document [OF ans [unfolded assms(2)]] by (auto simp: go_upstream_def)
  let ?j = "on_literals escape_html j"
  have env: "envelope_json T \<lparr>Env_Data = Some (RawJSON (Data res)), Env_Error = [], Env_Details = None\<rparr> = Some (JObj [(''data'', ?j)])"
    using r(3) by (simp add: envelope_data payload_json_def)
  have "parse_value (Suc maxNestingDepth) (reply_bytes T w) = Parsed (JObj [(''data'', ?j)]) [CHR 0x0A]"
    unfolding w using parse_reply [OF env envelope_fits(1) [OF env assms(5)]] by (simp add: reply_data)
  then show ?thesis using r escaped_document(2) [OF document_fits [OF r(3)]] replies_markup_free [OF assms(5), of w] by blast
qed

text \<open>
  C32: Error replies to the byte. Whatever the error of a service, the reply is one line with one JSON object: the fixed text of its status, and for a
  validation error the list of its fields; it parses back to that object.
\<close>

theorem writeServiceError_bytes:
  "let j = JObj ((''error'', JStr (public_message (error_status e))) #
        (case errors_As e of None \<Rightarrow> [] | Some ds \<Rightarrow> [(''details'', JArr (map (field_error_json T) ds))]))
   in reply_bytes T (writeServiceError e new_writer) = render j @ [CHR 0x0A] \<and>
     parse_document (reply_bytes T (writeServiceError e new_writer)) = Some j"
proof -
  have texts: "public_message (error_status e) \<noteq> []" "quote (public_message (error_status e)) = public_message (error_status e)"
    "literal_ok (public_message (error_status e))"
    using literal_quote [of "public_message (error_status e)"]
    by (auto simp: error_status_def quote_ascii_def html_safe_def)
  let ?ds = "case errors_As e of None \<Rightarrow> [] | Some ds \<Rightarrow> [(''details'', JArr (map (field_error_json T) ds))]"
  let ?j = "JObj ((''error'', JStr (public_message (error_status e))) # ?ds)"
  let ?env = "\<lparr>Env_Data = None, Env_Error = public_message (error_status e), Env_Details = errors_As e\<rparr>"
  have env: "envelope_json T ?env = Some ?j" using texts by (simp add: envelope_json_def)
  have "W_Body (writeServiceError e new_writer) = [?env]"
    by (cases "errors_As e") (simp_all add: writeServiceError_eq error_status_def)
  then have bytes: "reply_bytes T (writeServiceError e new_writer) = Encode_bytes T ?env" by (rule reply_one)
  have "fits (Suc (Suc 9997)) (JArr (map (field_error_json T) ds))" for ds by (rule details_fit)
  then have "fits maxNestingDepth ?j" using texts(3) by (cases "errors_As e") (simp_all del: fits.simps(3) add: fits.simps(4))
  then show ?thesis using parse_reply_document [OF env] bytes env by (simp add: Encode_bytes_def Let_def)
qed

text \<open>
  A defect: an expiry can be accepted that the listing cannot write. The creation takes any year up to 9999 in the client's zone, the database
  hands the instant back in the server's zone, and if that is a year later there, the encoder fails and its error is dropped: from then on
  the listing answers 200 without a body, whatever other keys there are.
\<close>

theorem unwritable_expiry_hides_keys:
  assumes "pg_key_inv eng d" and "\<And>p. pg_takes eng (input_key inp (Hash p)) d" and "CreateKey (pg_repo eng) rd inp d = (Inr v, d')"
    and "ready eng d'" and "In_ExpiresAt inp = Some t" and "\<And>i. MarshalTime (tx_zone T i ''expires_at'') t = None"
  shows "\<exists>w. KeyHandler_List (pg_repo eng) r d' new_writer = (Returned, d', w) \<and> status_of w = Some 200 \<and> reply_bytes T w = []"
proof -
  obtain k where k: "PgKeyStore_GetByHash eng (Hash (View_Key v)) d' = Inr k" "ExpiresAt k = Some t"
    using pks.CreateKey_then_get [OF assms(1-4)] assms(5) by auto
  have inv: "pg_key_inv eng d'" using pks.CreateKey_frame [OF assms(1,2), of rd] assms(3) by simp
  then have "row_map (tables_of eng d') (Hash (View_Key v)) = Some k" using pks.get_sound k(1) by simp
  moreover obtain vs where vs: "ListKeys (pg_repo eng) d' = Inr vs" using pks.list_up [OF inv assms(4)] by (auto simp: ListKeys_def)
  ultimately have "viewFrom k [] \<in> set vs" using pks.ListKeys_views [OF inv vs] by blast
  moreover have "view_json (tx_zone T (View_ID (viewFrom k []))) (viewFrom k []) = None"
    using k(2) assms(6) by (simp add: view_json_def viewFrom_def optional_time_def time_member_def)
  ultimately show ?thesis using unwritable_list [OF vs] by blast
qed

section \<open>Concrete replies\<close>

text \<open>A server in the zone of Bangkok.\<close>

definition sample_texts :: texts where
  "sample_texts = \<lparr>tx_zone = \<lambda>_ _. 25200, tx_float = \<lambda>_. ''0'', tx_quote = \<lambda>s. s\<rparr>"

lemma sample_texts_law: "texts_law sample_texts"
  by (simp add: texts_law_def sample_texts_def number_ok_def scan_number_def scan_sign_def scan_int_def scan_frac_def scan_exp_def)

theorem replies_markup_free_witness:
  "reply_bytes sample_texts (response_JSON 200 (RawJSON (render (JStr ''<script>''))) new_writer) \<noteq> [] \<and>
   CHR ''<'' \<notin> set (reply_bytes sample_texts (response_JSON 200 (RawJSON (render (JStr ''<script>''))) new_writer))"
proof -
  have "literal_ok ''<script>''" by (simp add: literal_ok_def)
  then have "parse_document (render (JStr ''<script>'')) = Some (JStr ''<script>'')" by (intro parse_document_render) simp
  then have "reply_bytes sample_texts (response_JSON 200 (RawJSON (render (JStr ''<script>''))) new_writer) \<noteq> []"
    by (simp add: reply_data Encode_bytes_def envelope_data payload_json_def del: render.simps escape_html.simps)
  then show ?thesis using replies_markup_free [OF sample_texts_law] by blast
qed

lemma sample_time: "0 \<le> t \<Longrightarrow> t < 1000000000 \<Longrightarrow> MarshalTime 25200 t \<noteq> None"
  unfolding MarshalTime_writes by simp

lemma sample_view:
  assumes "\<And>t. View_ExpiresAt v = Some t \<or> View_RevokedAt v = Some t \<or> View_LastUsedAt v = Some t \<or> View_CreatedAt v = t \<Longrightarrow>
    0 \<le> t \<and> t < 1000000000"
  shows "view_json (tx_zone sample_texts i) v \<noteq> None"
  unfolding view_written times_writable_def using assms sample_time by (simp add: sample_texts_def)

theorem KeyHandler_List_reply_witness:
  "\<exists>vs js. ListKeys memory_repo sample_store = Inr vs \<and> vs \<noteq> [] \<and>
     parse_document (reply_bytes sample_texts (snd (snd (KeyHandler_List memory_repo sample_get sample_store new_writer)))) =
       Some (JObj [(''data'', JArr js)]) \<and> map read_view js = map Some vs"
proof -
  obtain vs where vs: "ListKeys memory_repo sample_store = Inr vs"
    "set vs = (\<lambda>k. viewFrom k []) ` ran (map_of (keys sample_store))"
    using ListKeys_hides_keys [OF sample_store_inv] by blast
  then have set: "set vs = {viewFrom ((sample_key ''a'')\<lparr>ID := 1\<rparr>) []}" by (simp add: sample_store_def)
  let ?v = "viewFrom ((sample_key ''a'')\<lparr>ID := 1\<rparr>) []"
  have "times_writable (tx_zone sample_texts i) ?v" for i
    by (rule view_written [THEN iffD1], rule sample_view) (auto simp: viewFrom_def sample_key_def)
  moreover have "view_typed (tx_zone sample_texts i) ?v" for i
    by (simp add: view_typed_def viewFrom_def sample_key_def sample_texts_def is_int64_def valid_utf8_ascii)
  moreover obtain f s' w where h: "KeyHandler_List memory_repo sample_get sample_store new_writer = (f, s', w)" by (metis prod.exhaust)
  ultimately show ?thesis
    using KeyHandler_List_reply [OF vs(1) sample_texts_law _ h] set vs(1) by auto
qed

theorem KeyHandler_Create_reply_witness:
  "\<exists>w s' ms raw k. KeyHandler_Create \<lparr>Decode = \<lambda>b. Inr (sample_input, b), Decode_empty = \<lambda>b. Inl (Sentinel EOF)\<rparr> memory_repo
       sample_readings sample_get NewKeyStore new_writer = (Returned, s', w) \<and>
     parse_document (reply_bytes sample_texts w) = Some (JObj [(''data'', JObj ms)]) \<and> map_of ms ''key'' = Some (JStr raw) \<and>
     KeyStore_GetByHash (Hash (unquote raw)) s' = Inr k"
proof -
  let ?p = "RawURLEncoding (replicate 32 (CHR ''r''))"
  let ?k = "\<lparr>ID = 1, Name = ''shop'', Rank = ''member'', KeyHash = Hash ?p, Scopes = [''tw''], ExpiresAt = Some 99,
    RevokedAt = None, LastUsedAt = None, RequestCount = 0, CreatedAt = 11\<rparr>"
  let ?dec = "\<lparr>Decode = \<lambda>b. Inr (sample_input, b), Decode_empty = \<lambda>b. Inl (Sentinel EOF)\<rparr>"
  have "\<exists>s'. CreateKey memory_repo sample_readings sample_input NewKeyStore = (Inr (viewFrom ?k ?p), s')"
    unfolding mks.CreateKey_valid [OF sample_input_valid]
    by (simp add: sample_readings_def sample_input_def memory_repo_def KeyStore_Create_def NewKeyStore_def new_key_def input_rank_def Let_def)
  then obtain s' where "CreateKey memory_repo sample_readings sample_input NewKeyStore = (Inr (viewFrom ?k ?p), s')" by blast
  then have h: "KeyHandler_Create ?dec memory_repo sample_readings sample_get NewKeyStore new_writer =
      (Returned, s', response_JSON 201 (KeyView (viewFrom ?k ?p)) new_writer)"
    by (simp add: KeyHandler_Create_def decodeJSON_def)
  let ?w = "response_JSON 201 (KeyView (viewFrom ?k ?p)) new_writer"
  have "view_json (tx_zone sample_texts 1) (viewFrom ?k ?p) \<noteq> None"
    by (rule sample_view) (auto simp: viewFrom_def)
  moreover have "View_ID (viewFrom ?k ?p) = 1" by (simp add: viewFrom_def)
  ultimately have "reply_bytes sample_texts ?w \<noteq> []"
    by (auto simp: reply_data Encode_bytes_def envelope_data payload_json_def split: option.split)
  moreover have "nextID NewKeyStore < MaxInt64" "status_of ?w = Some 201" "\<And>bs. entropy sample_readings = Inr bs \<Longrightarrow> length bs = 32"
    by (auto simp: NewKeyStore_def status_of_def sample_readings_def)
  ultimately show ?thesis
    using KeyHandler_Create_reply [OF keystore_inv_New _ h _ sample_texts_law] h by (metis (no_types, lifting))
qed

text \<open>An upstream that answers every call with a success.\<close>

definition giving_net :: "http_request list upstream" where
  "giving_net = go_upstream (\<lambda>_. None) (\<lambda>_. False)
     (\<lambda>_ hr w. (Inr \<lparr>resp_status = 200, resp_body = (render sample_success, None)\<rparr>, w @ [hr]))"

theorem Redeem_reply_witness:
  "\<exists>st' w j'. RedeemGet (tw_service (sample_deps\<lparr>dep_net := giving_net\<rparr>) sample_cfg) sample_get sample_world new_writer = (Returned, st', w) \<and>
     parse_value (Suc maxNestingDepth) (reply_bytes sample_texts w) = Parsed (JObj [(''data'', j')]) [CHR 0x0A]"
proof -
  let ?d = "sample_deps\<lparr>dep_net := giving_net\<rparr>" and ?doc = "render sample_success"
  let ?c = "NewClient (TrueMoneyBaseURL sample_cfg) (TrueMoneyTimeout sample_cfg)"
  have "list_all is_alnum (Gift sample_redeem)" by code_simp
  from extract_code [OF this]
  obtain hr where hr: "redeem_request ?c giving_net sample_redeem = Inr hr"
    by (simp add: redeem_request_def giving_net_def go_upstream_def Let_def)
  have "redeem_response giving_net (Inr \<lparr>resp_status = 200, resp_body = (?doc, None)\<rparr>) = Inr \<lparr>Data = ?doc, Amount = ''100.00'', Ref = ''V123''\<rparr>"
    unfolding giving_net_def by (rule sample_success_understood)
  then have call: "Client_Redeem ?c giving_net sample_redeem w = (Inr \<lparr>Data = ?doc, Amount = ''100.00'', Ref = ''V123''\<rparr>, w @ [hr])" for w
    using hr by (simp add: Client_Redeem_def) (simp add: giving_net_def go_upstream_def)
  have "ipv6_literal giving_net = (\<lambda>_. False)" by (simp add: giving_net_def go_upstream_def)
  then obtain st' where "tw_service ?d sample_cfg sample_redeem sample_world = (Inr \<lparr>Data = ?doc, Amount = ''100.00'', Ref = ''V123''\<rparr>, st')"
    using call sample_redeem_valid by (simp add: tw_service_def TwService_Redeem_def Coalesced_Redeem_eq callers_def Let_def)
  moreover have "pathParam sample_get ''phone'' = Inr (Phone sample_redeem)" "pathParam sample_get ''gift'' = Inr (Gift sample_redeem)"
    by code_simp+
  moreover have "\<lparr>Phone = Phone sample_redeem, Gift = Gift sample_redeem\<rparr> = sample_redeem" by simp
  ultimately have h: "RedeemGet (tw_service ?d sample_cfg) sample_get sample_world new_writer =
      (Returned, st', response_JSON 200 (RawJSON ?doc) new_writer)"
    by (simp only: RedeemGet_def sum.case prod.case) simp
  have net: "dep_net ?d = go_upstream (\<lambda>_. None) (\<lambda>_. False)
     (\<lambda>_ hr w. (Inr \<lparr>resp_status = 200, resp_body = (?doc, None)\<rparr>, w @ [hr]))"
    by (simp add: giving_net_def)
  have "status_of (response_JSON 200 (RawJSON ?doc) new_writer) = Some 200" by (simp add: status_of_def)
  from Redeem_reply [OF disjI1 [OF refl] net h this sample_texts_law]
  obtain j' where "parse_value (Suc maxNestingDepth) (reply_bytes sample_texts (response_JSON 200 (RawJSON ?doc) new_writer)) =
      Parsed (JObj [(''data'', j')]) [CHR 0x0A]"
    by (elim exE conjE)
  with h show ?thesis by (intro exI conjI)
qed

text \<open>The last second of year 9999 in UTC, the usual way to write "never": accepted, and in Bangkok the year after.\<close>

definition never :: time where
  "never = 253402300799000000000"

lemma never_text: "parseRFC3339 ''9999-12-31T23:59:59Z'' = Some never"
  by (simp add: parseRFC3339_def in_range_def is_digit_def dec_value_def digit_val_def month_days_def days_before_def leap_def
      fraction_def zone_offset_def never_def)

theorem unwritable_expiry_hides_keys_witness:
  "\<exists>v d w. CreateKey (pg_repo sample_engine) sample_readings (sample_input\<lparr>In_ExpiresAt := Some never\<rparr>) (sample_db []) = (Inr v, d) \<and>
     KeyHandler_List (pg_repo sample_engine) sample_get d new_writer = (Returned, d, w) \<and> status_of w = Some 200 \<and>
     reply_bytes sample_texts w = []"
proof -
  let ?i = "sample_input\<lparr>In_ExpiresAt := Some never\<rparr>" and ?p = "RawURLEncoding (replicate 32 (CHR ''r''))"
  have "nul_free (Hash p)" for p using law_hex [OF sample_engine_law set_hex] by (simp add: Hash_def)
  moreover have "nul_free ''shop'' \<and> nul_free ''member'' \<and> nul_free ''tw''" by (simp add: nul_free_def)
  ultimately have takes: "pg_takes sample_engine (input_key ?i (Hash p)) (sample_db [])" for p
    by (simp add: pg_takes_def new_key_def sample_input_def input_rank_def sample_db_def never_def microseconds_def
        sample_engine_def)
  have valid: "valid_input (checked_at sample_readings) ?i"
    by (simp add: valid_input_def sample_input_def sample_readings_def never_def)
  have "length ''a'' \<noteq> length (Hash ?p)" by simp
  then have "''a'' \<noteq> Hash ?p" by metis
  then have "row_map (tables_of sample_engine (sample_db [])) (Hash ?p) = None" by (simp add: sample_db_def sample_row_def row_map_def)
  moreover have "ready sample_engine (sample_db [])" by (simp add: sample_db_def)
  moreover have "entropy sample_readings = Inr (replicate 32 (CHR ''r''))" by (simp add: sample_readings_def)
  ultimately obtain v d where cr: "CreateKey (pg_repo sample_engine) sample_readings ?i (sample_db []) = (Inr v, d)" "ready sample_engine d"
    using pks.CreateKey_succeeds [OF sample_db_inv(1) takes _ valid] by blast
  have "MarshalTime (tx_zone sample_texts i ''expires_at'') never = None" for i
    using MarshalTime_writes [of 25200 never] by (simp add: sample_texts_def never_def)
  then show ?thesis
    using unwritable_expiry_hides_keys [OF sample_db_inv(1) takes cr, of never sample_texts sample_get] cr by auto
qed

end
