(* ===== verification/Spec2Isabelle.thy ===== *)
theory Spec2Isabelle
  imports Startup Flights Quota Json Rollout Interleaving Replies
begin

text \<open>
  A verification of \<^verbatim>\<open>tyrako\<close>, a Go service that redeems TrueMoney gift vouchers. A client sends a phone number and a
  voucher link or hash to \<^verbatim>\<open>/tw\<close> with an API key; the service validates the request, calls the upstream
  once for all identical concurrent requests, and keeps statistics. Keys are managed under \<^verbatim>\<open>/keys\<close> with
  an admin key, totals are read under \<^verbatim>\<open>/stats\<close>, and requests are limited per key and per client address, in
  memory or through a Redis server shared by several instances. Keys and statistics live in memory or in
  PostgreSQL, whose schema the process migrates before it listens.

  \<^bold>\<open>Theories and the code they model\<close> (paths under \<^verbatim>\<open>src/\<close>, \<^verbatim>\<open>internal/\<close> left out):

  \<^item> \<open>Prelude\<close>, \<open>Go_Strings\<close>, \<open>Regexp\<close>, \<open>Float64\<close>, \<open>Net_Url\<close>: what the program uses of Go: 64-bit wrap-around,
    maps as association lists, string functions, regular expressions by derivatives, IEEE doubles rounded
    to nearest even, \<^verbatim>\<open>net/url\<close> parsing and escaping, and what parsing a request makes of its path. \<open>Json_Text\<close>: \<^verbatim>\<open>encoding/json\<close> on bytes, from UTF-8 and
    escapes to a parser with the library's nesting limit, proved to read back what is written. \<open>Json_Escape\<close>: documents inside
    documents, and the escapes for HTML. \<open>Json\<close>: what that
    codec makes of the structs of \<^verbatim>\<open>model/*.go\<close> and \<^verbatim>\<open>provider/truemoney/truemoney.go\<close>. \<open>Rfc3339\<close>: times as text, with the
    calendar, proved to read back. \<open>Replies\<close>: the bytes of replies, from the envelopes of \<^verbatim>\<open>pkg/response/response.go\<close> and the
    structs in them.
  \<^item> \<open>Model\<close>: \<^verbatim>\<open>model/*.go\<close>, the domain records and error values with \<^verbatim>\<open>errors.Is\<close> and \<^verbatim>\<open>errors.As\<close>.
  \<^item> \<open>Money\<close>: \<^verbatim>\<open>money/money.go\<close>. \<open>Validator\<close>: \<^verbatim>\<open>validator/validator.go\<close>. \<open>Apikey\<close>: \<^verbatim>\<open>apikey/apikey.go\<close>, SHA-256
    and base64 included. \<open>Config\<close>: \<^verbatim>\<open>config/config.go\<close>.
  \<^item> \<open>Ratelimit\<close>: \<^verbatim>\<open>ratelimit/limiter.go\<close>; \<open>Redislimit\<close>: \<^verbatim>\<open>ratelimit/redislimit/limiter.go\<close>.
  \<^item> \<open>Keystore\<close>, \<open>Statstore\<close>: \<^verbatim>\<open>repository/memory/*.go\<close>, with the contracts of the repository interfaces as the
    locales \<open>key_store\<close> and \<open>stats_store\<close>; \<open>Pgstore\<close>: \<^verbatim>\<open>repository/postgres/keystore.go\<close> and \<^verbatim>\<open>stats.go\<close>, which
    interpret the same locales; \<open>Migrate\<close>: \<^verbatim>\<open>repository/postgres/migrate.go\<close> and its scripts, one run after the other;
    \<open>Rollout\<close>: the same code taken apart into its database calls, for any number of instances at once.
  \<^item> \<open>Keyservice\<close>: \<^verbatim>\<open>service/key_service.go\<close>, proved over \<open>key_store\<close>; \<open>Twservice\<close>: \<^verbatim>\<open>service/tw_service.go\<close> and
    \<^verbatim>\<open>coalesced_tw.go\<close> with one flight of callers after the other; \<open>Flights\<close>: the same code as a step relation
    in which any number of callers arrive, call, wait and resume in any order; \<open>Truemoney\<close>:
    \<^verbatim>\<open>provider/truemoney/truemoney.go\<close>.
  \<^item> \<open>Http\<close>: \<^verbatim>\<open>handler/*.go\<close> and \<^verbatim>\<open>pkg/response/response.go\<close>; \<open>Middleware\<close>: \<^verbatim>\<open>middleware/*.go\<close>; \<open>Server\<close>: the chains
    and routes of \<^verbatim>\<open>server/router.go\<close>, with the middleware a request passes that no route of its group takes (404 or 405); \<open>Startup\<close>:
    \<^verbatim>\<open>cmd/api/main.go\<close>, \<^verbatim>\<open>server/server.go\<close>, \<^verbatim>\<open>repository/postgres/db.go\<close>, and the choice of limiters and stores and the bootstrap
    in \<^verbatim>\<open>server/router.go\<close>.
  \<^item> \<open>Resumption\<close>, \<open>Threads\<close>, \<open>Guarantees\<close>, \<open>Interleaving\<close>: the request path once more, as it runs: the code of \<^verbatim>\<open>middleware/*.go\<close>,
    \<^verbatim>\<open>handler/*.go\<close>, \<^verbatim>\<open>service/*.go\<close> and the routes of \<^verbatim>\<open>server/router.go\<close> as threads that other requests can interrupt at
    every call of a limiter, a store, the upstream or the log. \<open>Resumption\<close> has threads and the rules for what they
    guarantee, \<open>Threads\<close> the code, \<open>Guarantees\<close> what a request does of each kind, \<open>Interleaving\<close> the system of any
    number of connections and recorders, moving one step at a time.
  \<^item> \<open>Quota\<close> defines no code: it proves of the runs of \<open>Server\<close> what the rate limits give end to end.

  \<^bold>\<open>State and effects.\<close> A struct with a mutex is a record and each method a function that returns its result
  and the new record; the lock makes one call one step. Handlers are functions from a request, the state
  and a response writer to a flow (\<open>Returned\<close> or \<open>Panicked\<close>), state and writer, and a middleware maps handlers to
  handlers. Errors are values of \<open>go_error\<close>, results of fallible code \<open>go_error + 'a\<close>. Clock readings, random
  bytes and the order of a map iteration are arguments, so that the theorems hold for all of them. The whole
  server is the record \<open>world\<close>; its runs (\<open>step\<close>, \<open>run\<close>) interleave requests, each served in one step, with the usage recorders
  that authentication starts. In the runs of \<open>Interleaving\<close> (\<open>t_step\<close>, \<open>t_run\<close>) a step is one call of one thread: a connection
  arrives, moves, or a recorder runs. The two models of the request path agree: a thread run alone is the handler (\<open>serve_thread_alone\<close>), so the runs of whole requests
  are among those of threads (\<open>run_interleaved\<close>), and both change keys and recorders in the same orderly way (\<open>change\<close>).

  \<^bold>\<open>Interfaces.\<close> \<open>window_limiter\<close> (interpreted by the in-memory limiter and by a cluster of Redis limiters)
  gives the exact and sliding window bounds once; \<open>key_store\<close> and \<open>stats_store\<close> give what the services need of
  a repository, and admit stores that fail (\<open>up\<close> tells when they answer), so that the key service and the
  recording are proved for both backends.

  \<^bold>\<open>Code that is not in the repository\<close> is an argument with a named law: the PostgreSQL database
  (\<open>engine_law\<close>: a statement that is answered has the effect of its SQL text, one that fails on the way has
  that effect or none, a commit installs the tables of its transaction), the same for migrations
  (\<open>migrator_law\<close>), Redis (\<open>redis_law\<close>: \<^verbatim>\<open>INCR\<close>, \<^verbatim>\<open>EXPIRE\<close>, \<^verbatim>\<open>TTL\<close>), the CORS and timeout middleware
  (\<open>mw_law\<close>, whose arguments are the options of \<^verbatim>\<open>middleware/cors.go\<close> and the configured timeout; \<open>cors_passes\<close>: only
  preflights are answered by the library), the group of
  \<^verbatim>\<open>singleflight\<close> (\<open>singleflight_law\<close>: one call per key at a time, whose results all its callers get; in the
  whole-server model every request is a flight of its own, and a thread may instead join another's with any result), the HTTP transport, the router's matching of paths
  (\<open>matched_segments\<close>: the path as sent if the standard library kept it, else the decoded one) and the parsing of IPv6 literals. Each law has an instance, used by the witnesses. The handlers and the client take their JSON codec as an argument, without a law, because most theorems
  hold for any; \<open>Json\<close> gives the codec the program uses, and proves what needs it.

  \<^bold>\<open>What the theorems show.\<close>

  \<^item> Whole server, over every interleaving of its threads: keys change and key data leaves only through an admitted admin key
    (\<open>keys_mediated_interleaved\<close>), the upstream is reached only through an admitted key
    (\<open>tw_mediated_interleaved\<close>), a request that arrives with a revoked key stays locked out, usage counts are exact, a request
    is counted once and the recorders drain, every request finishes within nine steps of its own and is answered with
    security headers (preflights without them), without credentials for other origins, and no panic escapes. The same for whole requests is in
    \<open>Server\<close>.
  \<^item> Abuse: in any window a client address and a key cause at most twice their configured number of requests
    with an effect (\<open>client_effects_bounded\<close>, \<open>key_effects_bounded\<close>), over all routes, for requests served one after the other and
    as long as the buckets in use fit the limiter's map.
  \<^item> Concurrent redemptions: callers share a call exactly when they ask for the same voucher and phone at a time, calls for one never
    overlap, no caller is answered from the past, for another request or never, and the effects of a run are exactly those of its
    calls and answers.
  \<^item> Process: it serves only a migrated database that nothing but the bootstrap of the configured key has changed since; migrations run once each, in order, over any failures and
    any interleaving of instances (even without the advisory lock, which only keeps one instance from failing
    because of another, and which can be left behind on another connection), and lose and grant nothing; a new
    deployment admits its operator.
  \<^item> Stores and services: creation, rotation, bootstrap and listing of keys, the history of a key, exactly-once
    statistics in memory and in PostgreSQL, independence of the order of recordings, rotation
    under failures of the database.
  \<^item> Limiters: both refine one fixed-window counter; exact grants in a window, at most twice the limit in any
    interval of its length, bounded memory, honest waiting times, a shared budget across instances and a
    bound when Redis fails.
  \<^item> Requests: gift links are confined to trusted hosts and to one path segment of the endpoint, answers
    and errors are classified as documented and disclose nothing internal, amounts are exact in cents.
  \<^item> Bytes: both redemption routes do the same on every gift the router's path rule lets through intact (and
    where not, \<open>gift_unescaped_twice\<close>), bodies are decoded strictly (with one defect, which is shown on
    concrete bytes), the creation route creates what its body says, and the upstream is sent exactly
    the requested phone number and voucher (bytes that are not UTF-8 replaced, \<open>replaced_hash\<close>) and understood whatever it adds to its answer. What a client reads from a
    reply is what the service returned, where the times in it can be written: the listed keys, a created key that works, the upstream's document, the fixed
    text of an error; no reply holds markup (\<open>replies_markup_free\<close>), and one expiry can empty the listing
    (\<open>unwritable_expiry_hides_keys\<close>).

  \<^bold>\<open>Bounds.\<close> No definition uses fuel: loops are structural recursion or have a termination proof. Hypotheses
  such as \<open>nextID s < MaxInt64\<close> exclude the wrap-around of 64-bit identities and counters, which the model has;
  the Redis theorems assume windows below \<open>2 ^ 22\<close> seconds, where the conversion through a double is exact, and
  counters below \<open>2 ^ 53\<close>. The JSON parser has the nesting limit of the library, 10000.

  \<^bold>\<open>Not modelled.\<close> The matching of paths to routes and the CORS library are third-party; of the router's own 404 and 405 replies
  only the status is kept. The request identities of the router's library are left out. In the server a reply is the sequence of envelopes encoded into it; \<open>Replies\<close> gives their bytes, with
  the shortest decimal form of a double, the location of a time and the quoting of \<^verbatim>\<open>%q\<close> as arguments (\<open>texts\<close>, of which \<open>texts_law\<close> asks
  that a double is written as a JSON number). The rate limits of \<open>Quota\<close> are proved for runs of whole requests on in-memory backends. A request that was
  authenticated before its key was revoked is served to its end; only later arrivals are locked out. The whole-server model
  runs on limiters in memory; the Redis limiter is proved on its own and behind
  the choice of \<^verbatim>\<open>NewRouter\<close>. Cancellation of a request's context shows only as an error of the call it interrupts. The text of log records is modelled where a theorem needs it.
\<close>

text \<open>
  C7: A new deployment is usable. After the migrations of an empty database, the start of the router registers the
  configured bootstrap key in it, and a request that carries this key is admitted, with the scope the key
  routes require, at any time.
\<close>

theorem fresh_deployment_admits_operator:
  assumes "migrator_law m" and "schema_of m d0 = empty_schema" and "Migrate m migrationsFS d0 = (Inr (), d1)"
    and "engine_law eng" and "store_tables (schema_of m d1) = Some (tables_of eng (w_keys st))" and "ready eng (w_keys st)"
    and "dep_keys dp = pg_repo eng" and "BootstrapAPIKey cfg \<noteq> []" and "Header_Get r ''X-Api-Key'' = BootstrapAPIKey cfg"
  shows "\<exists>k. admits dp mo (boot dp cfg rd st) r k \<and> hasScope (Scopes k) ''admin''"
proof -
  let ?d = "w_keys st" and ?p = "BootstrapAPIKey cfg"
  have todo: "pending (sort migration_names) (schema_of m d0) = migration_names"
    unfolding migrationsFS_dir(3) assms(2) by (simp add: pending_def empty_schema_def)
  have "installs migrationsFS migration_names (ensure_versions empty_schema) = Inr (schema_of m d1)"
    using Migrate_completes(1) [OF assms(1) migrationsFS_dir(1,2) _ todo, of 0 d0 d1] assms(2,3) by simp
  then have T: "tables_of eng ?d = \<lparr>t_keys = [], t_seq = 1, t_totals = Some (0, 0, 0), t_refs = []\<rparr>"
    using installs_empty assms(5) by auto
  have inv: "pg_key_inv eng ?d" using assms(4) T by (simp add: pg_key_inv_def key_table_inv_def)
  have none: "row_map (tables_of eng ?d) (Hash ?p) = None" by (simp add: T row_map_def)
  have hex: "set (Hash ?p) \<subseteq> set ''0123456789abcdef''" unfolding Hash_def by (rule set_hex)
  have "text_ok eng (Hash ?p)" by (rule law_hex [OF assms(4) hex])
  moreover have "text_ok eng ''bootstrap''" "text_ok eng ''admin''" "text_ok eng ''tw''" by (simp_all add: law_text [OF assms(4)])
  ultimately have takes: "pg_takes eng (seed_key_for ?p) ?d" by (simp add: pg_takes_def T)
  obtain d' k where reg: "register_seed (pg_repo eng) (stored_at rd) ?p ?d = (Inr (), d')" "pg_key_inv eng d'" "ready eng d'"
    and k: "row_map (tables_of eng d') (Hash ?p) = Some k" "Scopes k = [''tw'', ''admin'']" "ExpiresAt k = None" "RevokedAt k = None"
    using pks.register_seed_up [OF inv takes assms(6), of "stored_at rd"] none by blast
  have "PgKeyStore_GetByHash eng (Hash ?p) ?d = Inl (Sentinel ErrNotFound)"
    using pks.get_missing [OF inv assms(6) hex none] by simp
  then have "Bootstrap (pg_repo eng) rd ?p ?d = (Inr (), d')"
    using assms(8) reg(1) by (simp add: Bootstrap_def)
  moreover have "PgKeyStore_GetByHash eng (Hash ?p) d' = Inr k" using pks.get_found [OF reg(2,3) k(1)] by simp
  moreover have "KeyHash k = Hash ?p" using pks.stored_hash [OF reg(2) k(1)] .
  ultimately show ?thesis
    using k assms(7-9) by (intro exI [of _ k]) (auto simp: admits_def boot_def hasScope_def)
qed

text \<open>A server on a database with the migrated tables, without keys.\<close>

definition pg_deps :: "(tables database, StatsStore, http_request list, MemoryLimiter, range_order \<times> time \<times> time) deps" where
  "pg_deps = \<lparr>dep_keys = pg_repo sample_engine, dep_stats = memory_stats, dep_allow = allow_at, dep_net = go_upstream (\<lambda>_. None) (\<lambda>_. False) (http_Do sample_net),
     dep_decode_key = key_decoder, dep_decode_tw = tw_decoder, dep_cors = \<lambda>_ r w. (True, w), dep_timeout = \<lambda>_ w. w\<rparr>"

definition pg_world :: "(tables database, StatsStore, http_request list, MemoryLimiter) world" where
  "pg_world = \<lparr>w_keys = \<lparr>db_tables = \<lparr>t_keys = [], t_seq = 1, t_totals = Some (0, 0, 0), t_refs = []\<rparr>, db_faults = []\<rparr>,
     w_stats = NewStatsStore, w_net = [], w_member = NewMemory 60 60, w_partner = NewMemory 60 60, w_ip = NewMemory 60 60,
     w_pending = [], w_log = []\<rparr>"

theorem fresh_deployment_admits_operator_witness:
  "\<exists>k. admits pg_deps sample_moment (boot pg_deps (sample_cfg\<lparr>BootstrapAPIKey := ''seed''\<rparr>) sample_readings pg_world) sample_auth k"
proof -
  obtain d1 where mig: "Migrate sample_migrator migrationsFS fresh_db = (Inr (), d1)"
    using Migrate_up [OF sample_migrator_law migrationsFS_dir(1,2), of fresh_db] installs_empty
    by (auto simp: fresh_db_def pending_def empty_schema_def migrationsFS_dir(3))
  have e: "schema_of sample_migrator fresh_db = empty_schema" by (simp add: fresh_db_def)
  have todo: "pending (sort migration_names) (schema_of sample_migrator fresh_db) = migration_names"
    unfolding e migrationsFS_dir(3) by (simp add: pending_def empty_schema_def)
  have "store_tables (schema_of sample_migrator d1) = Some (tables_of sample_engine (w_keys pg_world))"
    using Migrate_completes(1) [OF sample_migrator_law migrationsFS_dir(1,2) _ todo, of 0 fresh_db d1] mig e installs_empty
    by (auto simp: pg_world_def)
  moreover have "ready sample_engine (w_keys pg_world)" by (simp add: pg_world_def)
  moreover have "dep_keys pg_deps = pg_repo sample_engine" by (simp add: pg_deps_def)
  moreover have "Header_Get sample_auth ''X-Api-Key'' = ''seed''" by (simp add: sample_auth_def Header_Get_def)
  ultimately show ?thesis
    using fresh_deployment_admits_operator [OF sample_migrator_law e mig sample_engine_law,
        of pg_world pg_deps "sample_cfg\<lparr>BootstrapAPIKey := ''seed''\<rparr>" sample_auth sample_moment sample_readings]
    by auto
qed

end
